(* ===== verification/Prelude.thy ===== *)
theory Prelude
  imports Main "HOL-Library.Word"
begin

text \<open>
  Shared vocabulary of the development: the C integer types as words, power-of-two
  alignment, bytes and little-endian reads, and the \<open>next\<close>-linked lists that the kernel
  builds out of heap-allocated structs (address 0 is the null pointer).
\<close>

unbundle bit_operations_syntax

type_synonym u8 = "8 word"
type_synonym u16 = "16 word"
type_synonym u32 = "32 word"
type_synonym u64 = "64 word"

named_theorems word_nat \<open>facts that move word terms to nat\<close>
named_theorems chain_simps \<open>facts about pointer chains\<close>

subsection \<open>Words and natural numbers\<close>

lemma unat_plus_exact [word_nat]:
  "unat (a :: 'a::len word) + unat b < 2 ^ LENGTH('a) \<Longrightarrow> unat (a + b) = unat a + unat b"
  by (simp add: unat_word_ariths)

lemma unat_mult_exact [word_nat]:
  "unat (a :: 'a::len word) * unat b < 2 ^ LENGTH('a) \<Longrightarrow> unat (a * b) = unat a * unat b"
  by (simp add: unat_word_ariths)

lemma unat_minus_exact [word_nat]:
  "b \<le> (a :: 'a::len word) \<Longrightarrow> unat (a - b) = unat a - unat b"
  by (rule unat_sub)

lemma unat_of_nat_small [word_nat]:
  "n < 2 ^ LENGTH('a) \<Longrightarrow> unat (of_nat n :: 'a::len word) = n"
  by (simp add: unsigned_of_nat take_bit_nat_eq_self)

lemma unat_neg [word_nat]:
  assumes "x \<noteq> (0 :: 'a::len word)"
  shows "unat (- x) = 2 ^ LENGTH('a) - unat x"
proof -
  have "(unat (- x) + unat x) mod 2 ^ LENGTH('a) = unat (- x + x)" by (simp only: unat_word_ariths)
  then have "(unat (- x) + unat x) mod 2 ^ LENGTH('a) = 0" by simp
  then obtain k where k: "unat (- x) + unat x = 2 ^ LENGTH('a) * k" by (auto elim: dvdE)
  have "unat (- x) + unat x < 2 ^ LENGTH('a) * 2"
    using unsigned_less [where 'a = nat, of x] unsigned_less [where 'a = nat, of "- x"] by linarith
  with k have "k < 2" by simp
  moreover have "0 < unat x" using assms by (simp add: unat_gt_0)
  ultimately have "k = 1" using k by (cases k) auto
  with k show ?thesis by simp
qed

lemma unat_lt_64 [simp]: "unat (x :: u64) < 18446744073709551616"
  using unsigned_less [where 'a = nat, of x] by simp

lemma unat_lt_32 [simp]: "unat (x :: u32) < 4294967296"
  using unsigned_less [where 'a = nat, of x] by simp

lemma unat_lt_16 [simp]: "unat (x :: u16) < 65536"
  using unsigned_less [where 'a = nat, of x] by simp

lemma unat_lt_8 [simp]: "unat (x :: u8) < 256"
  using unsigned_less [where 'a = nat, of x] by simp

subsection \<open>Alignment to a power of two\<close>

lemma word_and_not_mask:
  "(x :: 'a::len word) AND NOT (mask n) = push_bit n (drop_bit n x)"
  by (rule bit_word_eqI) (auto simp: bit_simps)

lemma unat_and_not_mask:
  assumes "n < LENGTH('a)"
  shows "unat ((x :: 'a::len word) AND NOT (mask n)) = unat x div 2 ^ n * 2 ^ n"
proof -
  have "unat x div 2 ^ n * 2 ^ n \<le> unat x" by simp
  then have lt: "unat x div 2 ^ n * 2 ^ n < 2 ^ LENGTH('a)"
    using unsigned_less [where 'a = nat, of x] by linarith
  have "unat (push_bit n (drop_bit n x)) = take_bit LENGTH('a) (push_bit n (drop_bit n (unat x)))"
    by (simp add: unsigned_push_bit_eq unsigned_drop_bit_eq take_bit_nat_eq_self)
  also have "\<dots> = unat x div 2 ^ n * 2 ^ n"
    using lt by (simp add: push_bit_eq_mult drop_bit_eq_div take_bit_eq_mod)
  finally show ?thesis by (simp add: word_and_not_mask)
qed

lemma not_mask_u64_12: "NOT (4096 - 1 :: u64) = NOT (mask 12)"
  by (simp add: mask_eq_exp_minus_1)

lemma not_mask_u64_3: "NOT (8 - 1 :: u64) = NOT (mask 3)"
  by (simp add: mask_eq_exp_minus_1)

definition aligned :: "nat \<Rightarrow> u64 \<Rightarrow> bool" where
  "aligned k a \<longleftrightarrow> unat a mod k = 0"

lemma unat_align_down_4096:
  "unat ((x :: u64) AND NOT (4096 - 1)) = unat x div 4096 * 4096"
  unfolding not_mask_u64_12 by (subst unat_and_not_mask) simp_all

lemma unat_align_down_8:
  "unat ((x :: u64) AND NOT (8 - 1)) = unat x div 8 * 8"
  unfolding not_mask_u64_3 by (subst unat_and_not_mask) simp_all

subsection \<open>Little-endian reads\<close>

definition le16_of :: "u8 \<Rightarrow> u8 \<Rightarrow> u16" where
  "le16_of b0 b1 = ucast b0 OR push_bit 8 (ucast b1)"

definition le32_of :: "u8 \<Rightarrow> u8 \<Rightarrow> u8 \<Rightarrow> u8 \<Rightarrow> u32" where
  "le32_of b0 b1 b2 b3 =
     ucast b0 OR push_bit 8 (ucast b1) OR push_bit 16 (ucast b2) OR push_bit 24 (ucast b3)"

definition le64_of :: "u8 \<Rightarrow> u8 \<Rightarrow> u8 \<Rightarrow> u8 \<Rightarrow> u8 \<Rightarrow> u8 \<Rightarrow> u8 \<Rightarrow> u8 \<Rightarrow> u64" where
  "le64_of b0 b1 b2 b3 b4 b5 b6 b7 =
     ucast (le32_of b0 b1 b2 b3) OR push_bit 32 (ucast (le32_of b4 b5 b6 b7))"

definition u32_bytes :: "u32 \<Rightarrow> u8 list" where
  "u32_bytes w = [ucast w, ucast (drop_bit 8 w), ucast (drop_bit 16 w), ucast (drop_bit 24 w)]"

definition u64_bytes :: "u64 \<Rightarrow> u8 list" where
  "u64_bytes w = u32_bytes (ucast w) @ u32_bytes (ucast (drop_bit 32 w))"

lemma length_u32_bytes [simp]: "length (u32_bytes w) = 4"
  by (simp add: u32_bytes_def)

lemma length_u64_bytes [simp]: "length (u64_bytes w) = 8"
  by (simp add: u64_bytes_def)

lemma le32_of_u32_bytes:
  "le32_of (ucast w) (ucast (drop_bit 8 w)) (ucast (drop_bit 16 w)) (ucast (drop_bit 24 w)) = w"
proof (rule bit_word_eqI)
  fix n assume n: "n < LENGTH(32)"
  consider "n < 8" | "8 \<le> n" "n < 16" | "16 \<le> n" "n < 24" | "24 \<le> n" by linarith
  then show "bit (le32_of (ucast w) (ucast (drop_bit 8 w)) (ucast (drop_bit 16 w))
      (ucast (drop_bit 24 w))) n = bit w n"
    using n by cases (auto simp: le32_of_def bit_simps)
qed

lemma le64_of_halves:
  "ucast (ucast w :: u32) OR push_bit 32 (ucast (ucast (drop_bit 32 w) :: u32)) = (w :: u64)"
proof (rule bit_word_eqI)
  fix n assume n: "n < LENGTH(64)"
  show "bit (ucast (ucast w :: u32) OR push_bit 32 (ucast (ucast (drop_bit 32 w) :: u32)) :: u64) n
      = bit w n"
    using n by (cases "n < 32") (auto simp: bit_simps)
qed

subsection \<open>Linked lists through a \<open>next\<close> field\<close>

text \<open>
  \<open>chain nxt p xs\<close>: following \<open>nxt\<close> from pointer \<open>p\<close> visits exactly the nodes \<open>xs\<close>, all of
  them allocated, and ends at the null pointer.
\<close>

primrec chain :: "(u64 \<Rightarrow> u64 option) \<Rightarrow> u64 \<Rightarrow> u64 list \<Rightarrow> bool" where
  "chain nxt p [] \<longleftrightarrow> p = 0"
| "chain nxt p (x # xs) \<longleftrightarrow> p = x \<and> x \<noteq> 0 \<and> (\<exists>q. nxt x = Some q \<and> chain nxt q xs)"

lemma chain_null [simp, chain_simps]: "chain nxt 0 xs \<longleftrightarrow> xs = []"
  by (cases xs) auto

lemma chain_nonnull:
  "p \<noteq> 0 \<Longrightarrow> chain nxt p xs \<longleftrightarrow> (\<exists>q ys. xs = p # ys \<and> nxt p = Some q \<and> chain nxt q ys)"
  by (cases xs) auto

lemma chain_unique: "chain nxt p xs \<Longrightarrow> chain nxt p ys \<Longrightarrow> xs = ys"
proof (induction xs arbitrary: p ys)
  case Nil
  then show ?case by simp
next
  case (Cons x xs)
  then show ?case by (cases ys) auto
qed

lemma chain_nonzero: "chain nxt p xs \<Longrightarrow> 0 \<notin> set xs"
  by (induction xs arbitrary: p) auto

lemma chain_dom: "chain nxt p xs \<Longrightarrow> x \<in> set xs \<Longrightarrow> \<exists>q. nxt x = Some q"
  by (induction xs arbitrary: p) auto

lemma chain_suffix:
  "chain nxt p (xs @ y # ys) \<Longrightarrow> chain nxt y (y # ys)"
  by (induction xs arbitrary: p) auto

lemma chain_distinct: "chain nxt p xs \<Longrightarrow> distinct xs"
proof (induction xs arbitrary: p)
  case Nil
  then show ?case by simp
next
  case (Cons x xs)
  then obtain q where q: "nxt x = Some q" "chain nxt q xs" by auto
  have "x \<notin> set xs"
  proof
    assume "x \<in> set xs"
    then obtain as bs where xs: "xs = as @ x # bs" by (auto dest: split_list)
    from q(2) have "chain nxt x (x # bs)" unfolding xs by (rule chain_suffix)
    moreover from Cons.prems have "chain nxt x (x # xs)" by auto
    ultimately have "x # bs = x # xs" by (rule chain_unique)
    with xs show False by simp
  qed
  with q Cons.IH show ?case by simp
qed

lemma chain_cong:
  "(\<And>x. x \<in> set xs \<Longrightarrow> nxt x = nxt' x) \<Longrightarrow> chain nxt p xs = chain nxt' p xs"
  by (induction xs arbitrary: p) auto

lemma chain_upd_notin [simp, chain_simps]:
  "a \<notin> set xs \<Longrightarrow> chain (nxt(a := v)) p xs = chain nxt p xs"
  by (rule chain_cong) auto

lemma chain_append:
  "chain nxt p (xs @ [x]) \<Longrightarrow> a \<noteq> 0 \<Longrightarrow> a \<notin> set (xs @ [x]) \<Longrightarrow>
   chain (nxt(x \<mapsto> a, a \<mapsto> 0)) p (xs @ [x, a])"
proof (induction xs arbitrary: p)
  case Nil
  then show ?case by auto
next
  case (Cons y ys)
  from Cons.prems(1) have "distinct ((y # ys) @ [x])" by (rule chain_distinct)
  moreover from Cons.prems obtain q where "p = y" "y \<noteq> 0" "nxt y = Some q" "chain nxt q (ys @ [x])"
    by auto
  moreover have "chain (nxt(x \<mapsto> a, a \<mapsto> 0)) q (ys @ [x, a])"
    using Cons.prems calculation by (intro Cons.IH) auto
  moreover from calculation Cons.prems have "(nxt(x \<mapsto> a, a \<mapsto> 0)) y = Some q" by auto
  ultimately show ?case by (simp del: fun_upd_apply)
qed

lemma chain_remove:
  assumes "chain nxt p (xs @ [u, x] @ ys)" and "nxt x = Some q"
  shows "chain (nxt(u \<mapsto> q)) p (xs @ [u] @ ys)"
  using assms
proof (induction xs arbitrary: p)
  case Nil
  then have "chain nxt p ([u, x] @ ys)" by simp
  then have "distinct ([u, x] @ ys)" by (rule chain_distinct)
  then have "u \<notin> set ys" by simp
  with Nil show ?case by (auto simp del: fun_upd_apply simp: fun_upd_same)
next
  case (Cons y xs)
  from Cons.prems(1) have "distinct ((y # xs) @ [u, x] @ ys)" by (rule chain_distinct)
  with Cons show ?case by auto
qed

end
