(* ===== verification/CString.thy ===== *)
theory CString
  imports Prelude
begin

text \<open>
  The string routines of \<open>kernel/lib/string.c\<close>. A C string is the list of its characters;
  reading at or past the end of the list yields the terminating NUL, which is where every loop
  of the file stops. \<open>itoa\<close> and \<open>atoi\<close> are fallible in C (a fixed digit table and scratch
  array, signed overflow), so they return an option: \<open>None\<close> is undefined behaviour.
\<close>

abbreviation NUL :: char where "NUL \<equiv> CHR 0x00"
abbreviation newline :: char where "newline \<equiv> CHR 0x0A"
abbreviation backspace :: char where "backspace \<equiv> CHR 0x08"

definition cs_at :: "string \<Rightarrow> nat \<Rightarrow> char" where
  "cs_at s i = (if i < length s then s ! i else NUL)"

definition uchar :: "char \<Rightarrow> int" where
  "uchar c = of_char c"

text \<open>A list that is the value of a C string: no NUL inside.\<close>

definition is_cstr :: "string \<Rightarrow> bool" where
  "is_cstr s \<longleftrightarrow> NUL \<notin> set s"

subsection \<open>Length and comparison\<close>

function strlen_from :: "string \<Rightarrow> nat \<Rightarrow> nat" where
  "strlen_from str len = (if cs_at str len \<noteq> NUL then strlen_from str (len + 1) else len)"
  by pat_completeness auto
termination
  by (relation "measure (\<lambda>(str, len). length str - len)") (auto simp: cs_at_def split: if_splits)

declare strlen_from.simps [simp del]

definition strlen :: "string \<Rightarrow> nat" where
  "strlen str = strlen_from str 0"

function strcmp :: "string \<Rightarrow> string \<Rightarrow> int" where
  "strcmp a b =
     (if cs_at a 0 \<noteq> NUL \<and> cs_at a 0 = cs_at b 0 then strcmp (tl a) (tl b)
      else uchar (cs_at a 0) - uchar (cs_at b 0))"
  by pat_completeness auto
termination
  by (relation "measure (\<lambda>(a, b). length a)") (auto simp: cs_at_def split: if_splits)

declare strcmp.simps [simp del]

function strncmp_from :: "string \<Rightarrow> string \<Rightarrow> nat \<Rightarrow> nat \<Rightarrow> int" where
  "strncmp_from a b n i =
     (if i < n then
        if cs_at a i \<noteq> cs_at b i \<or> cs_at a i = NUL \<or> cs_at b i = NUL
        then uchar (cs_at a i) - uchar (cs_at b i)
        else strncmp_from a b n (i + 1)
      else 0)"
  by pat_completeness auto
termination
  by (relation "measure (\<lambda>(a, b, n, i). n - i)") auto

declare strncmp_from.simps [simp del]

definition strncmp :: "string \<Rightarrow> string \<Rightarrow> nat \<Rightarrow> int" where
  "strncmp a b n = strncmp_from a b n 0"

lemma cs_at_Cons [simp]: "cs_at (c # s) 0 = c" "cs_at (c # s) (Suc i) = cs_at s i"
  by (simp_all add: cs_at_def)

lemma cs_at_Nil [simp]: "cs_at [] i = NUL"
  by (simp add: cs_at_def)

lemma is_cstr_Nil [simp]: "is_cstr []"
  by (simp add: is_cstr_def)

lemma is_cstr_Cons [simp]: "is_cstr (c # s) \<longleftrightarrow> c \<noteq> NUL \<and> is_cstr s"
  by (auto simp: is_cstr_def)

lemma uchar_inject [simp]: "uchar a = uchar b \<longleftrightarrow> a = b"
  by (simp add: uchar_def)

lemma cs_at_nonzero: "is_cstr s \<Longrightarrow> cs_at s i \<noteq> NUL \<longleftrightarrow> i < length s"
  by (auto simp: cs_at_def is_cstr_def in_set_conv_nth)

lemma strlen_from_eq: "is_cstr s \<Longrightarrow> n \<le> length s \<Longrightarrow> strlen_from s n = length s"
proof (induction s n rule: strlen_from.induct)
  case (1 s n)
  show ?case
  proof (cases "n < length s")
    case True
    with 1 have "strlen_from s (n + 1) = length s" by (simp add: cs_at_nonzero)
    with 1 True show ?thesis by (subst strlen_from.simps) (simp add: cs_at_nonzero)
  next
    case False
    with 1 show ?thesis by (subst strlen_from.simps) (auto simp: cs_at_def)
  qed
qed

lemma strlen_eq [simp]: "is_cstr s \<Longrightarrow> strlen s = length s"
  by (simp add: strlen_def strlen_from_eq)

lemma strcmp_zero: "is_cstr a \<Longrightarrow> is_cstr b \<Longrightarrow> strcmp a b = 0 \<longleftrightarrow> a = b"
proof (induction a b rule: strcmp.induct)
  case (1 a b)
  then show ?case
    unfolding strcmp.simps [of a b] by (cases a; cases b) auto
qed

lemma strncmp_from_zero:
  assumes "is_cstr a" "is_cstr b" "i \<le> n" "take i a = take i b" "i \<le> length a" "i \<le> length b"
  shows "strncmp_from a b n i = 0 \<longleftrightarrow> take n a = take n b"
  using assms
proof (induction a b n i rule: strncmp_from.induct)
  case (1 a b n i)
  note unfold = strncmp_from.simps [of a b n i]
  consider (fin) "i = n" | (stop) "i < n" "\<not> (i < length a \<and> i < length b \<and> a ! i = b ! i)"
    | (go) "i < n" "i < length a" "i < length b" "a ! i = b ! i" using "1.prems" by linarith
  then show ?case
  proof cases
    case fin
    with "1.prems" show ?thesis by (subst unfold) simp
  next
    case go
    then have "take (i + 1) a = take (i + 1) b" using "1.prems" by (simp add: take_Suc_conv_app_nth)
    moreover have "cs_at a i = cs_at b i" "cs_at a i \<noteq> NUL"
      using go "1.prems" by (simp_all add: cs_at_nonzero) (simp add: cs_at_def)
    ultimately show ?thesis using 1 go by (subst unfold) simp
  next
    case stop
    show ?thesis
    proof (cases "i < length a \<or> i < length b")
      case False
      with "1.prems" stop show ?thesis by (subst unfold) (simp add: cs_at_def)
    next
      case True
      have ne: "cs_at a i \<noteq> cs_at b i"
      proof
        assume eq: "cs_at a i = cs_at b i"
        with True have "i < length a" "i < length b"
          using cs_at_nonzero [OF "1.prems"(1), of i] cs_at_nonzero [OF "1.prems"(2), of i] by auto
        with eq stop show False by (simp add: cs_at_def)
      qed
      have "take n a \<noteq> take n b"
      proof
        assume eq: "take n a = take n b"
        then have "min (length a) n = min (length b) n" by (metis length_take)
        with eq stop True have "i < length a" "i < length b" by auto
        with eq stop show False by (metis nth_take)
      qed
      with ne stop show ?thesis by (simp add: unfold)
    qed
  qed
qed

lemma strncmp_zero:
  "is_cstr a \<Longrightarrow> is_cstr b \<Longrightarrow> strncmp a b n = 0 \<longleftrightarrow> take n a = take n b"
  by (simp add: strncmp_def strncmp_from_zero)

subsection \<open>Decimal conversion\<close>

text \<open>
  \<open>temp\<close> is the 32-byte scratch array of \<open>itoa\<close>, filled from the least significant digit.
  The literal \<open>digits\<close> holds ten characters and its NUL; an index past that, a 33rd digit or a
  base of 0 is undefined behaviour.
\<close>

definition digit_at :: "nat \<Rightarrow> char option" where
  "digit_at k = (if k < 10 then Some (''0123456789'' ! k) else if k = 10 then Some NUL else None)"

function itoa_loop :: "nat \<Rightarrow> nat \<Rightarrow> string \<Rightarrow> string option" where
  "itoa_loop value base temp =
     (if value = 0 then Some temp
      else if base = 0 \<or> 32 \<le> length temp then None
      else case digit_at (value mod base) of
             None \<Rightarrow> None
           | Some d \<Rightarrow> itoa_loop (value div base) base (temp @ [d]))"
  by pat_completeness auto
termination
  by (relation "measure (\<lambda>(value, base, temp). 32 - length temp)") auto

declare itoa_loop.simps [simp del]

definition itoa :: "u64 \<Rightarrow> nat \<Rightarrow> string option" where
  "itoa value base = (if value = 0 then Some ''0'' else map_option rev (itoa_loop (unat value) base []))"

text \<open>\<open>num\<close> is a C \<open>int\<close>: leaving its range is undefined, so \<open>None\<close>.\<close>

definition INT_MAX :: int where "INT_MAX = 2147483647"

fun atoi_skip :: "string \<Rightarrow> string" where
  "atoi_skip [] = []"
| "atoi_skip (c # s) =
     (if c = CHR '' '' \<or> c = CHR 0x09 \<or> c = newline \<or> c = CHR 0x0D then atoi_skip s else c # s)"

fun atoi_digits :: "string \<Rightarrow> int \<Rightarrow> int option" where
  "atoi_digits [] num = Some num"
| "atoi_digits (c # s) num =
     (if uchar CHR ''0'' \<le> uchar c \<and> uchar c \<le> uchar CHR ''9'' then
        (let num' = num * 10 + (uchar c - uchar CHR ''0'')
         in if num' > INT_MAX then None else atoi_digits s num')
      else Some num)"

definition atoi :: "string \<Rightarrow> int option" where
  "atoi str =
     (let s = atoi_skip str;
          (sign, s') = (if cs_at s 0 = CHR ''-'' then (- 1, tl s)
                        else if cs_at s 0 = CHR ''+'' then (1, tl s) else (1, s))
      in map_option (\<lambda>num. num * sign) (atoi_digits s' 0))"

definition is_digit :: "char \<Rightarrow> bool" where
  "is_digit c \<longleftrightarrow> uchar CHR ''0'' \<le> uchar c \<and> uchar c \<le> uchar CHR ''9''"

definition digit_val :: "char \<Rightarrow> nat" where
  "digit_val c = nat (uchar c - uchar CHR ''0'')"

text \<open>The number a digit string denotes, most significant digit first.\<close>

definition dec_val :: "string \<Rightarrow> nat" where
  "dec_val s = foldl (\<lambda>n c. n * 10 + digit_val c) 0 s"

lemma digit_at_lt10:
  assumes "k < 10"
  obtains d where "digit_at k = Some d" "is_digit d" "digit_val d = k"
proof -
  have "k \<in> {0, 1, 2, 3, 4, 5, 6, 7, 8, 9}" using assms by auto
  then have "\<exists>d. digit_at k = Some d \<and> is_digit d \<and> digit_val d = k"
    by (auto simp: digit_at_def is_digit_def digit_val_def uchar_def nth_Cons')
  then show ?thesis using that by blast
qed

lemma dec_val_rev_snoc: "dec_val (rev (t @ [d])) = digit_val d * 10 ^ length t + dec_val (rev t)"
proof -
  have "foldl (\<lambda>n c. n * 10 + digit_val c) a s = a * 10 ^ length s + dec_val s" for a s
  proof (induction s rule: rev_induct)
    case Nil
    then show ?case by (simp add: dec_val_def)
  next
    case (snoc x xs)
    then show ?case by (simp add: dec_val_def algebra_simps)
  qed
  from this [of "digit_val d" "rev t"] show ?thesis by (simp add: dec_val_def)
qed

lemma itoa_loop_decimal:
  assumes "v < 10 ^ k" "length t + k \<le> 32" "\<forall>c \<in> set t. is_digit c"
  shows "\<exists>t'. itoa_loop v 10 t = Some t' \<and> length t' \<le> length t + k \<and> (\<forall>c \<in> set t'. is_digit c)
           \<and> dec_val (rev t') = v * 10 ^ length t + dec_val (rev t)
           \<and> (0 < v \<longrightarrow> t' \<noteq> [] \<and> digit_val (last t') \<noteq> 0)"
  using assms
proof (induction k arbitrary: v t)
  case 0
  then show ?case by (simp add: itoa_loop.simps)
next
  case (Suc k)
  show ?case
  proof (cases "v = 0")
    case True
    with Suc.prems show ?thesis by (simp add: itoa_loop.simps [of 0])
  next
    case False
    obtain d where d: "digit_at (v mod 10) = Some d" "is_digit d" "digit_val d = v mod 10"
      by (rule digit_at_lt10 [of "v mod 10"]) auto
    have step: "itoa_loop v 10 t = itoa_loop (v div 10) 10 (t @ [d])"
      using False Suc.prems d by (simp add: itoa_loop.simps [of v])
    have "v div 10 < 10 ^ k" using Suc.prems(1) by (simp add: less_mult_imp_div_less mult.commute)
    then obtain t' where t': "itoa_loop (v div 10) 10 (t @ [d]) = Some t'"
      "length t' \<le> length (t @ [d]) + k" "\<forall>c \<in> set t'. is_digit c"
      "dec_val (rev t') = v div 10 * 10 ^ length (t @ [d]) + dec_val (rev (t @ [d]))"
      "0 < v div 10 \<longrightarrow> t' \<noteq> [] \<and> digit_val (last t') \<noteq> 0"
      using Suc.IH [of "v div 10" "t @ [d]"] Suc.prems d by auto
    have "dec_val (rev t') = (v div 10 * 10 + v mod 10) * 10 ^ length t + dec_val (rev t)"
      unfolding t'(4) dec_val_rev_snoc d(3)
      by (simp only: add_mult_distrib length_append_singleton power_Suc mult.assoc add.assoc)
    then have val: "dec_val (rev t') = v * 10 ^ length t + dec_val (rev t)"
      unfolding div_mult_mod_eq .
    have "t' \<noteq> [] \<and> digit_val (last t') \<noteq> 0"
    proof (cases "v div 10 = 0")
      case True
      then have "t' = t @ [d]" using t'(1) by (simp add: itoa_loop.simps)
      moreover have "v mod 10 \<noteq> 0" using False True by presburger
      ultimately show ?thesis using d by simp
    next
      case False
      with t'(5) show ?thesis by simp
    qed
    with val t' step show ?thesis by auto
  qed
qed

lemma itoa_decimal:
  "\<exists>s. itoa v 10 = Some s \<and> s \<noteq> [] \<and> length s \<le> 20 \<and> (\<forall>c \<in> set s. is_digit c)
     \<and> dec_val s = unat v \<and> (v \<noteq> 0 \<longrightarrow> digit_val (hd s) \<noteq> 0)"
proof (cases "v = 0")
  case True
  then show ?thesis by (simp add: itoa_def dec_val_def digit_val_def is_digit_def uchar_def)
next
  case False
  have "unat v < 10 ^ 20" by (rule less_trans [OF unat_lt_64]) simp
  from itoa_loop_decimal [OF this, of "[]"] obtain t where
    t: "itoa_loop (unat v) 10 [] = Some t" "length t \<le> 20" "\<forall>c \<in> set t. is_digit c"
       "dec_val (rev t) = unat v" "0 < unat v \<longrightarrow> t \<noteq> [] \<and> digit_val (last t) \<noteq> 0"
    by (auto simp: dec_val_def)
  have "0 < unat v" using False by (simp add: unat_gt_0)
  with t(5) have "t \<noteq> []" "digit_val (last t) \<noteq> 0" by auto
  with t show ?thesis using False by (auto simp: itoa_def hd_rev intro!: exI [of _ "rev t"])
qed

lemma atoi_digits_dec:
  assumes "\<forall>c \<in> set s. is_digit c" "0 \<le> n"
    and "int (foldl (\<lambda>n c. n * 10 + digit_val c) (nat n) s) \<le> INT_MAX"
  shows "atoi_digits s n = Some (int (foldl (\<lambda>n c. n * 10 + digit_val c) (nat n) s))"
  using assms
proof (induction s arbitrary: n)
  case Nil
  then show ?case by simp
next
  case (Cons c s)
  let ?n = "n * 10 + (uchar c - uchar CHR ''0'')"
  have c: "uchar CHR ''0'' \<le> uchar c" "uchar c \<le> uchar CHR ''9''"
    using Cons.prems(1) by (auto simp: is_digit_def)
  have n: "nat ?n = nat n * 10 + digit_val c" "0 \<le> ?n"
    using Cons.prems(2) c by (auto simp: digit_val_def nat_add_distrib nat_mult_distrib)
  have mono: "a \<le> foldl (\<lambda>n c. n * 10 + digit_val c) a s" for a
  proof (induction s arbitrary: a)
    case (Cons x xs)
    have "a \<le> a * 10 + digit_val x" by simp
    also have "\<dots> \<le> foldl (\<lambda>n c. n * 10 + digit_val c) (a * 10 + digit_val x) xs" by (rule Cons.IH)
    finally show ?case by simp
  qed simp
  have "?n \<le> INT_MAX" using Cons.prems(3) mono [of "nat ?n"] n by simp
  moreover have "atoi_digits s ?n = Some (int (foldl (\<lambda>n c. n * 10 + digit_val c) (nat ?n) s))"
    using Cons.prems n by (intro Cons.IH) auto
  ultimately show ?case using c n by (simp add: Let_def)
qed

lemma atoi_skip_digit: "s \<noteq> [] \<Longrightarrow> is_digit (hd s) \<Longrightarrow> atoi_skip s = s"
  by (cases s) (auto simp: is_digit_def uchar_def)

lemma atoi_of_digits:
  assumes "\<forall>c \<in> set s. is_digit c" "s \<noteq> []" "int (dec_val s) \<le> INT_MAX"
  shows "atoi s = Some (int (dec_val s))"
proof -
  have hd: "is_digit (hd s)" using assms by simp
  then have "cs_at s 0 \<noteq> CHR ''-''" "cs_at s 0 \<noteq> CHR ''+''"
    using assms(2) by (cases s; auto simp: is_digit_def uchar_def)+
  moreover have "atoi_digits s 0 = Some (int (dec_val s))"
    using atoi_digits_dec [of s 0] assms by (simp add: dec_val_def)
  ultimately show ?thesis using assms hd by (simp add: atoi_def atoi_skip_digit)
qed

subsection \<open>Properties\<close>

text \<open>
  Decimal conversion round trips. For every unsigned value that a C \<open>int\<close> can hold,
  \<open>itoa\<close> with base 10 stays inside its 32-byte scratch array, returns a non-empty string of at
  most 20 digits without a leading zero, and \<open>atoi\<close> reads that string back as the same number.
\<close>

theorem itoa_atoi_roundtrip:
  assumes "int (unat v) \<le> INT_MAX"
  shows "\<exists>s. itoa v 10 = Some s \<and> atoi s = Some (int (unat v)) \<and> length s \<le> 20
           \<and> (v \<noteq> 0 \<longrightarrow> digit_val (hd s) \<noteq> 0)"
proof -
  obtain s where s: "itoa v 10 = Some s" "s \<noteq> []" "length s \<le> 20" "\<forall>c \<in> set s. is_digit c"
    "dec_val s = unat v" "v \<noteq> 0 \<longrightarrow> digit_val (hd s) \<noteq> 0"
    using itoa_decimal [of v] by auto
  with assms have "atoi s = Some (int (unat v))" by (simp add: atoi_of_digits)
  with s show ?thesis by blast
qed

theorem itoa_atoi_roundtrip_witness:
  "itoa 1042 10 = Some ''1042'' \<and> (\<exists>s. itoa 1042 10 = Some s \<and> atoi s = Some 1042)"
proof -
  have "int (unat (1042 :: u64)) \<le> INT_MAX" by (simp add: INT_MAX_def)
  from itoa_atoi_roundtrip [OF this] have "\<exists>s. itoa 1042 10 = Some s \<and> atoi s = Some 1042" by auto
  moreover have "itoa 1042 10 = Some ''1042''" by code_simp
  ultimately show ?thesis by simp
qed

end
