(* ===== verification/Terminal.thy ===== *)
theory Terminal
  imports CString
begin

text \<open>
  The VGA text terminal of \<open>kernel/terminal/vga.c\<close>: an 80 by 25 grid of 16-bit cells (the
  memory at 0xB8000), a cursor and a current colour. Output at the bottom of the screen
  scrolls it by one row. \<open>screen\<close> is the abstract view of the grid as a list of rows.
\<close>

subsection \<open>State and operations\<close>

record terminal =
  VGA_BUFFER :: "u16 list"
  terminal_row :: nat
  terminal_column :: nat
  terminal_color :: u8

text \<open>\<open>(uint16_t)c\<close> sign-extends: \<open>char\<close> is signed on this target.\<close>

definition terminal_entry :: "char \<Rightarrow> u8 \<Rightarrow> u16" where
  "terminal_entry c color = scast (of_char c :: u8) OR push_bit 8 (ucast color)"

definition scroll_copy :: "u16 list \<Rightarrow> u16 list" where
  "scroll_copy b = foldl (\<lambda>b (y, x). b[(y - 1) * 80 + x := b ! (y * 80 + x)]) b
     (List.product [1..<25] [0..<80])"

definition fill_row :: "nat \<Rightarrow> u16 \<Rightarrow> u16 list \<Rightarrow> u16 list" where
  "fill_row y e b = foldl (\<lambda>b x. b[y * 80 + x := e]) b [0..<80]"

definition terminal_newline :: "terminal \<Rightarrow> terminal" where
  "terminal_newline t =
     (let t1 = t\<lparr>terminal_column := 0, terminal_row := terminal_row t + 1\<rparr>
      in if terminal_row t1 = 25 then
           t1\<lparr>VGA_BUFFER := fill_row (25 - 1) (terminal_entry CHR '' '' (terminal_color t1))
                             (scroll_copy (VGA_BUFFER t1)),
              terminal_row := 25 - 1\<rparr>
         else t1)"

definition terminal_initialize :: "terminal \<Rightarrow> terminal" where
  "terminal_initialize t =
     \<lparr>VGA_BUFFER = foldl (\<lambda>b y. fill_row y (terminal_entry CHR '' '' 0x0F) b) (VGA_BUFFER t) [0..<25],
      terminal_row = 0, terminal_column = 0, terminal_color = 0x0F\<rparr>"

definition terminal_clear :: "terminal \<Rightarrow> terminal" where
  "terminal_clear t = terminal_initialize t"

definition terminal_putchar :: "char \<Rightarrow> terminal \<Rightarrow> terminal" where
  "terminal_putchar c t =
     (if c = newline then terminal_newline t
      else if c = backspace then
        (if 0 < terminal_column t then
           (let col = terminal_column t - 1
            in t\<lparr>terminal_column := col,
                 VGA_BUFFER := (VGA_BUFFER t)[terminal_row t * 80 + col :=
                   terminal_entry CHR '' '' (terminal_color t)]\<rparr>)
         else t)
      else
        (let t1 = t\<lparr>VGA_BUFFER := (VGA_BUFFER t)[terminal_row t * 80 + terminal_column t :=
                     terminal_entry c (terminal_color t)],
                   terminal_column := terminal_column t + 1\<rparr>
         in if terminal_column t1 = 80 then terminal_newline t1 else t1))"

fun terminal_write_string :: "string \<Rightarrow> terminal \<Rightarrow> terminal" where
  "terminal_write_string [] t = t"
| "terminal_write_string (c # s) t = terminal_write_string s (terminal_putchar c t)"

definition terminal_write :: "string \<Rightarrow> terminal \<Rightarrow> terminal" where
  "terminal_write data t = terminal_write_string data t"

definition terminal_writeln :: "string \<Rightarrow> terminal \<Rightarrow> terminal" where
  "terminal_writeln data t = terminal_putchar newline (terminal_write_string data t)"

definition terminal_set_color :: "u8 \<Rightarrow> u8 \<Rightarrow> terminal \<Rightarrow> terminal" where
  "terminal_set_color fg bg t = t\<lparr>terminal_color := push_bit 4 bg OR (fg AND 0x0F)\<rparr>"

subsection \<open>The scroll loop\<close>

lemma product_flat: "map (\<lambda>(y, x). y * 80 + x) (List.product [a..<b] [0..<80]) = [a * 80..<b * 80]"
  if "a \<le> b" for a b :: nat
  using that
proof (induction b)
  case 0
  then show ?case by simp
next
  case (Suc b)
  show ?case
  proof (cases "a = Suc b")
    case True
    then show ?thesis by simp
  next
    case False
    then have ab: "a \<le> b" using Suc.prems by simp
    have "[a * 80..<Suc b * 80] = [a * 80..<b * 80] @ [b * 80..<b * 80 + 80]"
      using ab by (subst upt_add_eq_append [symmetric]) (simp_all add: add.commute)
    also have "[b * 80..<b * 80 + 80] = map (\<lambda>x. b * 80 + x) [0..<80]"
      using map_add_upt [of "b * 80" 80] by (simp add: add.commute)
    finally show ?thesis
      using Suc.IH [OF ab] ab by (simp add: product_concat_map comp_def)
  qed
qed

lemma shift_loop:
  "80 + n \<le> length b \<Longrightarrow>
   foldl (\<lambda>b k. b[k - 80 := b ! k]) b [80..<80 + n] = take n (drop 80 b) @ drop n b"
proof (induction n)
  case 0
  then show ?case by simp
next
  case (Suc n)
  then have d: "drop n b = b ! n # drop (Suc n) b" by (simp add: Cons_nth_drop_Suc)
  have "[80..<80 + Suc n] = [80..<80 + n] @ [80 + n]"
    by (subst add_Suc_right, subst upt_Suc) simp
  then have "foldl (\<lambda>b k. b[k - 80 := b ! k]) b [80..<80 + Suc n] =
      (take n (drop 80 b) @ drop n b)[n := (take n (drop 80 b) @ drop n b) ! (80 + n)]"
    using Suc by (simp del: upt.simps)
  also have "(take n (drop 80 b) @ drop n b) ! (80 + n) = b ! (80 + n)"
    using Suc.prems by (simp add: nth_append add.commute)
  also have "(take n (drop 80 b) @ drop n b)[n := b ! (80 + n)] =
      take (Suc n) (drop 80 b) @ drop (Suc n) b"
    using Suc.prems by (simp add: d list_update_append take_Suc_conv_app_nth)
  finally show ?case .
qed

lemma scroll_flat:
  assumes "1 \<le> r"
  shows "foldl (\<lambda>b (y, x). b[(y - 1) * 80 + x := b ! (y * 80 + x)]) b (List.product [1..<r] [0..<80])
    = foldl (\<lambda>b k. b[k - 80 := b ! k]) b [80..<r * 80]"
proof -
  have "foldl (\<lambda>b (y, x). b[(y - 1) * 80 + x := b ! (y * 80 + x)]) b ps =
        foldl (\<lambda>b k. b[k - 80 := b ! k]) b (map (\<lambda>(y, x). y * 80 + x) ps)"
    if "\<forall>p \<in> set ps. 1 \<le> fst p" for ps :: "(nat \<times> nat) list"
    using that
  proof (induction ps arbitrary: b)
    case (Cons p ps)
    obtain y x where p: "p = (y, x)" by (cases p)
    with Cons.prems have "1 \<le> y" by simp
    then have "(y - 1) * 80 + x = y * 80 + x - 80" by (cases y) auto
    with Cons p show ?case by simp
  qed simp
  from this [of "List.product [1..<r] [0..<80]"] product_flat [OF assms] show ?thesis by simp
qed

lemma scroll_rows:
  assumes "1 \<le> r" "r * 80 = length b"
  shows "foldl (\<lambda>b (y, x). b[(y - 1) * 80 + x := b ! (y * 80 + x)]) b (List.product [1..<r] [0..<80])
    = drop 80 b @ drop ((r - 1) * 80) b"
proof -
  from assms have "r * 80 = 80 + (r - 1) * 80" by (cases r) auto
  then have "[80..<r * 80] = [80..<80 + (r - 1) * 80]" by simp
  with shift_loop [of "(r - 1) * 80" b] assms \<open>r * 80 = 80 + (r - 1) * 80\<close>
  show ?thesis unfolding scroll_flat [OF assms(1)] by (simp del: upt.simps)
qed

lemma scroll_copy_eq:
  assumes "length b = 2000"
  shows "scroll_copy b = drop 80 b @ drop 1920 b"
  unfolding scroll_copy_def by (rule trans [OF scroll_rows]) (simp_all add: assms)

lemma fill_row_aux:
  "y * 80 + n \<le> length b \<Longrightarrow>
   foldl (\<lambda>b x. b[y * 80 + x := e]) b [0..<n] = take (y * 80) b @ replicate n e @ drop (y * 80 + n) b"
proof (induction n)
  case 0
  then show ?case by simp
next
  case (Suc n)
  then have "drop (y * 80 + n) b = b ! (y * 80 + n) # drop (y * 80 + Suc n) b"
    by (simp add: Cons_nth_drop_Suc)
  with Suc show ?case
    by (simp add: list_update_append min_def replicate_append_same [symmetric])
qed

lemma fill_row_eq:
  "y * 80 + 80 \<le> length b \<Longrightarrow>
   fill_row y e b = take (y * 80) b @ replicate 80 e @ drop (y * 80 + 80) b"
  unfolding fill_row_def by (rule fill_row_aux)

lemma length_fill_row [simp]: "length (fill_row y e b) = length b"
proof -
  have "length (foldl (\<lambda>b x. b[y * 80 + x := e]) b xs) = length b" for xs
    by (induction xs arbitrary: b) auto
  then show ?thesis by (simp add: fill_row_def)
qed

lemma length_scroll_copy [simp]: "length b = 2000 \<Longrightarrow> length (scroll_copy b) = 2000"
  by (simp add: scroll_copy_eq)

subsection \<open>The cursor and the grid stay in range\<close>

definition terminal_inv :: "terminal \<Rightarrow> bool" where
  "terminal_inv t \<longleftrightarrow> length (VGA_BUFFER t) = 2000 \<and> terminal_row t < 25 \<and> terminal_column t < 80"

lemma newline_inv:
  "length (VGA_BUFFER t) = 2000 \<Longrightarrow> terminal_row t < 25 \<Longrightarrow> terminal_inv (terminal_newline t)"
  by (simp add: terminal_inv_def terminal_newline_def Let_def)

lemma initialize_inv: "length (VGA_BUFFER t) = 2000 \<Longrightarrow> terminal_inv (terminal_initialize t)"
proof -
  have "length (foldl (\<lambda>b y. fill_row y e b) b ys) = length b" for e b ys
    by (induction ys arbitrary: b) auto
  then show "length (VGA_BUFFER t) = 2000 \<Longrightarrow> terminal_inv (terminal_initialize t)"
    by (simp add: terminal_inv_def terminal_initialize_def)
qed

lemma putchar_inv: "terminal_inv t \<Longrightarrow> terminal_inv (terminal_putchar c t)"
  by (auto simp: terminal_putchar_def Let_def intro!: newline_inv) (auto simp: terminal_inv_def)

lemma write_string_inv: "terminal_inv t \<Longrightarrow> terminal_inv (terminal_write_string s t)"
  by (induction s arbitrary: t) (auto simp: putchar_inv)

lemma set_color_inv: "terminal_inv t \<Longrightarrow> terminal_inv (terminal_set_color fg bg t)"
  by (simp add: terminal_inv_def terminal_set_color_def)

subsection \<open>The screen as rows\<close>

definition screen :: "terminal \<Rightarrow> u16 list list" where
  "screen t = map (\<lambda>y. take 80 (drop (y * 80) (VGA_BUFFER t))) [0..<25]"

definition blank_row :: "terminal \<Rightarrow> u16 list" where
  "blank_row t = replicate 80 (terminal_entry CHR '' '' (terminal_color t))"

lemma map_shift_upt:
  "map (\<lambda>y. if y < n then f (Suc y) else z) [0..<Suc n] = tl (map f [0..<Suc n]) @ [z]"
proof -
  have "tl (map f [0..<Suc n]) = map f (map Suc [0..<n])"
    unfolding map_Suc_upt by (simp add: upt_conv_Cons del: upt_Suc)
  then show ?thesis by (simp add: comp_def)
qed

lemma newline_bottom:
  assumes "terminal_inv t" "terminal_row t = 24"
  shows "screen (terminal_newline t) = tl (screen t) @ [blank_row t]"
proof -
  let ?b = "VGA_BUFFER t"
  have s25: "(25::nat) = Suc 24" by simp
  have len: "length ?b = 2000" using assms by (simp add: terminal_inv_def)
  have buf: "VGA_BUFFER (terminal_newline t) = drop 80 ?b @ blank_row t"
    using assms len by (simp add: terminal_newline_def Let_def scroll_copy_eq fill_row_eq blank_row_def)
  have rows: "take 80 (drop (y * 80) (drop 80 ?b @ blank_row t)) =
      (if y < 24 then take 80 (drop (Suc y * 80) ?b) else blank_row t)" if "y < 25" for y
    using that len by (auto simp: blank_row_def drop_append take_append algebra_simps)
  have "screen (terminal_newline t) =
      map (\<lambda>y. if y < 24 then take 80 (drop (Suc y * 80) ?b) else blank_row t) [0..<25]"
    unfolding screen_def buf
    by (rule map_cong [OF refl], rule rows) (simp only: set_upt atLeastLessThan_iff)
  also have "\<dots> = tl (screen t) @ [blank_row t]"
    unfolding screen_def s25 by (rule map_shift_upt)
  finally show ?thesis .
qed

lemma newline_inside:
  "terminal_row t < 24 \<Longrightarrow> terminal_newline t = t\<lparr>terminal_column := 0, terminal_row := terminal_row t + 1\<rparr>"
  by (simp add: terminal_newline_def Let_def)

text \<open>Printable text: no newline and no backspace.\<close>

definition plain :: "string \<Rightarrow> bool" where
  "plain s \<longleftrightarrow> newline \<notin> set s \<and> backspace \<notin> set s"

lemma write_plain:
  assumes "terminal_inv t" "plain s" "terminal_column t + length s < 80"
  shows "terminal_write_string s t = t\<lparr>terminal_column := terminal_column t + length s,
    VGA_BUFFER := take (terminal_row t * 80 + terminal_column t) (VGA_BUFFER t) @
      map (\<lambda>c. terminal_entry c (terminal_color t)) s @
      drop (terminal_row t * 80 + terminal_column t + length s) (VGA_BUFFER t)\<rparr>"
  using assms
proof (induction s arbitrary: t)
  case Nil
  then show ?case by simp
next
  case (Cons c s)
  let ?k = "terminal_row t * 80 + terminal_column t"
  have k: "?k < length (VGA_BUFFER t)" using Cons.prems by (auto simp: terminal_inv_def)
  have put: "terminal_putchar c t = t\<lparr>VGA_BUFFER := (VGA_BUFFER t)[?k := terminal_entry c (terminal_color t)],
      terminal_column := terminal_column t + 1\<rparr>"
    using Cons.prems by (auto simp: terminal_putchar_def plain_def Let_def)
  have "terminal_inv (terminal_putchar c t)" using Cons.prems(1) by (rule putchar_inv)
  moreover have "plain s" using Cons.prems by (simp add: plain_def)
  ultimately have "terminal_write_string s (terminal_putchar c t) = (terminal_putchar c t)
    \<lparr>terminal_column := terminal_column t + 1 + length s,
     VGA_BUFFER := take (?k + 1) ((VGA_BUFFER t)[?k := terminal_entry c (terminal_color t)]) @
      map (\<lambda>c. terminal_entry c (terminal_color t)) s @
      drop (?k + 1 + length s) ((VGA_BUFFER t)[?k := terminal_entry c (terminal_color t)])\<rparr>"
    using Cons.IH [of "terminal_putchar c t"] Cons.prems put by simp
  then show ?case
    using k put by (simp add: take_Suc_conv_app_nth take_update_swap drop_update_cancel add.assoc
        list_update_append)
qed

subsection \<open>Properties\<close>

text \<open>
  Whatever is printed, in whatever colour, the cursor stays on the 80 by 25 grid and the
  grid keeps its 2000 cells, so no write of \<open>vga.c\<close> leaves the VGA memory.
\<close>

theorem terminal_stays_on_screen:
  assumes "terminal_inv t"
  shows "terminal_inv (terminal_writeln s (terminal_set_color fg bg t)) \<and>
         terminal_inv (terminal_write_string s t) \<and> terminal_inv (terminal_clear t)"
  using assms
  by (simp add: terminal_writeln_def terminal_clear_def putchar_inv write_string_inv set_color_inv
      initialize_inv terminal_inv_def [of t])

theorem terminal_stays_on_screen_witness:
  "terminal_inv (terminal_write_string ''boot'' \<lparr>VGA_BUFFER = replicate 2000 0, terminal_row = 24,
     terminal_column = 79, terminal_color = 7\<rparr>)"
  using terminal_stays_on_screen [of "\<lparr>VGA_BUFFER = replicate 2000 0, terminal_row = 24,
     terminal_column = 79, terminal_color = 7\<rparr>" "''boot''"]
  by (simp add: terminal_inv_def)

text \<open>
  A newline on the last row scrolls. The abstract screen loses its first row, every other
  row moves up unchanged, and the new last row is blank in the current colour.
\<close>

theorem terminal_scrolls:
  assumes "terminal_inv t" "terminal_row t = 24"
  shows "screen (terminal_putchar newline t) = tl (screen t) @ [blank_row t] \<and>
         terminal_row (terminal_putchar newline t) = 24 \<and>
         terminal_column (terminal_putchar newline t) = 0"
  using newline_bottom [OF assms] assms
  by (simp add: terminal_putchar_def terminal_newline_def Let_def)

theorem terminal_scrolls_witness:
  "\<exists>t. terminal_inv t \<and> terminal_row t = 24 \<and>
     screen (terminal_putchar newline t) = tl (screen t) @ [blank_row t]"
  using terminal_scrolls [of "\<lparr>VGA_BUFFER = replicate 2000 0, terminal_row = 24,
     terminal_column = 79, terminal_color = 7\<rparr>"]
  by (auto simp: terminal_inv_def intro!: exI [of _ "\<lparr>VGA_BUFFER = replicate 2000 0,
     terminal_row = 24, terminal_column = 79, terminal_color = 7\<rparr>"])

text \<open>
  A character outside ASCII loses its colour. \<open>char\<close> is signed, so the widening in
  \<open>terminal_entry\<close> fills the attribute byte of the cell with ones, whatever colour is set.
\<close>

theorem terminal_entry_sign_extends:
  "drop_bit 8 (terminal_entry c color) =
     (if uchar c < 128 then ucast color else 0xFF)"
proof -
  have mask8: "(0xFF :: u16) = mask 8" by (simp add: mask_eq_exp_minus_1)
  have b: "bit (of_char c :: u8) 7 \<longleftrightarrow> 128 \<le> uchar c"
    by (cases c) (auto simp: uchar_def bit_simps of_char_def)
  show ?thesis
    unfolding mask8
    by (rule bit_word_eqI) (auto simp: b terminal_entry_def bit_simps dest: bit_imp_le_length)
qed

end
