(* ===== verification/Port.thy ===== *)
theory Port
  imports Prelude
begin

text \<open>
  Port input and output (\<open>kernel/arch/x86_64/port/port.h\<close>, and the 16-bit reads of
  \<open>kernel/drivers/ata/ata.c\<close>). The machine is the trace of all port accesses made so far,
  newest first; the hardware is a parameter \<open>dev\<close> that answers each read from that trace and
  the port number. Nothing is assumed of \<open>dev\<close> here: a theorem that needs a device to answer
  in some way says so in its statement.
\<close>

datatype io_event = OutB u16 u8 | InB u16 u8 | InW u16 u16 | OutW u16 u16

type_synonym io = "io_event list"
type_synonym device = "io \<Rightarrow> u16 \<Rightarrow> u16"

definition outb :: "u16 \<Rightarrow> u8 \<Rightarrow> io \<Rightarrow> io" where
  "outb port val io = OutB port val # io"

definition inb :: "device \<Rightarrow> u16 \<Rightarrow> io \<Rightarrow> u8 \<times> io" where
  "inb dev port io = (let ret = ucast (dev io port) in (ret, InB port ret # io))"

definition inw_port :: "device \<Rightarrow> u16 \<Rightarrow> io \<Rightarrow> u16 \<times> io" where
  "inw_port dev port io = (let ret = dev io port in (ret, InW port ret # io))"

definition outw_port :: "u16 \<Rightarrow> u16 \<Rightarrow> io \<Rightarrow> io" where
  "outw_port port val io = OutW port val # io"

definition io_wait :: "io \<Rightarrow> io" where
  "io_wait io = outb 0x80 0 io"

text \<open>The bytes written to one port, oldest first.\<close>

fun written :: "u16 \<Rightarrow> io \<Rightarrow> u8 list" where
  "written p [] = []"
| "written p (e # io) =
     written p io @ (case e of OutB q v \<Rightarrow> if q = p then [v] else [] | _ \<Rightarrow> [])"

lemma written_outb [simp]: "written p (outb q v io) = written p io @ (if q = p then [v] else [])"
  by (simp add: outb_def)

lemma written_inb [simp]: "written p (snd (inb dev q io)) = written p io"
  by (simp add: inb_def Let_def)

end
