(* ===== verification/Console.thy ===== *)
theory Console
  imports Terminal Port
begin

text \<open>
  Everything the kernel prints goes to the VGA terminal or the first serial port: the serial
  driver (\<open>kernel/drivers/serial/com1.c\<close>), the logger (\<open>kernel/log/logger.c\<close>) and the panic
  banner (\<open>kernel/panic/panic.c\<close>). The serial driver busy-waits for the transmitter, so its
  operations return an option: \<open>None\<close> is a wait that never ends.

  No other component reads the console back, so the other theories record what they print as a
  list of \<open>console_op\<close>, in program order; \<open>console_run\<close> gives such a list its meaning.
\<close>

subsection \<open>The serial driver\<close>

definition SERIAL_PORT_COM1 :: u16 where "SERIAL_PORT_COM1 = 0x3F8"

definition is_transmit_empty :: "device \<Rightarrow> io \<Rightarrow> u8 \<times> io" where
  "is_transmit_empty dev io =
     (let (s, io1) = inb dev (SERIAL_PORT_COM1 + 5) io in (s AND 0x20, io1))"

definition serial_init :: "io \<Rightarrow> io" where
  "serial_init io =
     outb (SERIAL_PORT_COM1 + 4) 0x0B
     (outb (SERIAL_PORT_COM1 + 2) 0xC7
     (outb (SERIAL_PORT_COM1 + 3) 0x03
     (outb (SERIAL_PORT_COM1 + 1) 0x00
     (outb (SERIAL_PORT_COM1 + 0) 0x03
     (outb (SERIAL_PORT_COM1 + 3) 0x80
     (outb (SERIAL_PORT_COM1 + 1) 0x00 io))))))"

partial_function (option) serial_wait :: "device \<Rightarrow> io \<Rightarrow> io option" where
  "serial_wait dev io =
     (let (s, io1) = is_transmit_empty dev io
      in if s \<noteq> 0 then Some io1 else serial_wait dev io1)"

definition serial_write_char :: "device \<Rightarrow> char \<Rightarrow> io \<Rightarrow> io option" where
  "serial_write_char dev c io = map_option (outb SERIAL_PORT_COM1 (of_char c)) (serial_wait dev io)"

fun serial_write_string :: "device \<Rightarrow> string \<Rightarrow> io \<Rightarrow> io option" where
  "serial_write_string dev [] io = Some io"
| "serial_write_string dev (c # s) io =
     Option.bind (if c = newline then serial_write_char dev CHR 0x0D io else Some io)
       (\<lambda>io1. Option.bind (serial_write_char dev c io1) (serial_write_string dev s))"

definition serial_write :: "device \<Rightarrow> string \<Rightarrow> io \<Rightarrow> io option" where
  "serial_write dev str io = serial_write_string dev str io"

text \<open>What a terminal on the line should see: every newline preceded by a carriage return.\<close>

fun crlf :: "string \<Rightarrow> string" where
  "crlf [] = []"
| "crlf (c # s) = (if c = newline then [CHR 0x0D, c] else [c]) @ crlf s"

text \<open>
  The transmitter becomes ready: from any trace, polling the line status a finite number of
  times sees the ready bit.
\<close>

fun polls :: "device \<Rightarrow> nat \<Rightarrow> io \<Rightarrow> io" where
  "polls dev 0 io = io"
| "polls dev (Suc n) io = polls dev n (snd (is_transmit_empty dev io))"

definition uart_live :: "device \<Rightarrow> bool" where
  "uart_live dev \<longleftrightarrow> (\<forall>io. \<exists>n. fst (is_transmit_empty dev (polls dev n io)) \<noteq> 0)"

lemma written_transmit_empty [simp]: "written p (snd (is_transmit_empty dev io)) = written p io"
  by (simp add: is_transmit_empty_def inb_def Let_def)

lemma written_polls [simp]: "written p (polls dev n io) = written p io"
  by (induction n arbitrary: io) auto

lemma serial_wait_polls:
  "fst (is_transmit_empty dev (polls dev n io)) \<noteq> 0 \<Longrightarrow>
   \<exists>io1. serial_wait dev io = Some io1 \<and> written p io1 = written p io"
proof (induction n arbitrary: io)
  case 0
  then show ?case by (subst serial_wait.simps) (simp add: case_prod_beta Let_def)
next
  case (Suc n)
  let ?io1 = "snd (is_transmit_empty dev io)"
  have w: "written p ?io1 = written p io"
    by (auto simp: is_transmit_empty_def inb_def Let_def)
  show ?case
  proof (cases "fst (is_transmit_empty dev io) = 0")
    case True
    from Suc.IH [of ?io1] Suc.prems have "\<exists>io1. serial_wait dev ?io1 = Some io1 \<and> written p io1 = written p io"
      by (simp add: w)
    with True show ?thesis by (subst serial_wait.simps) (simp add: case_prod_beta Let_def)
  next
    case False
    with w show ?thesis by (subst serial_wait.simps) (simp add: case_prod_beta Let_def)
  qed
qed

lemma serial_char_live:
  assumes "uart_live dev"
  shows "\<exists>io1. serial_write_char dev c io = Some io1 \<and>
    written SERIAL_PORT_COM1 io1 = written SERIAL_PORT_COM1 io @ [of_char c]"
proof -
  from assms obtain n where "fst (is_transmit_empty dev (polls dev n io)) \<noteq> 0"
    unfolding uart_live_def by blast
  from serial_wait_polls [OF this, of SERIAL_PORT_COM1] show ?thesis
    by (auto simp: serial_write_char_def)
qed

lemma serial_string_live:
  assumes "uart_live dev"
  shows "\<exists>io1. serial_write_string dev s io = Some io1 \<and>
    written SERIAL_PORT_COM1 io1 = written SERIAL_PORT_COM1 io @ map of_char (crlf s)"
proof (induction s arbitrary: io)
  case Nil
  then show ?case by simp
next
  case (Cons c s)
  obtain io1 where io1: "(if c = newline then serial_write_char dev CHR 0x0D io else Some io) = Some io1"
    "written SERIAL_PORT_COM1 io1 =
       written SERIAL_PORT_COM1 io @ (if c = newline then [of_char (CHR 0x0D)] else [])"
    using serial_char_live [OF assms, of "CHR 0x0D" io] by (cases "c = newline") auto
  obtain io2 where io2: "serial_write_char dev c io1 = Some io2"
    "written SERIAL_PORT_COM1 io2 = written SERIAL_PORT_COM1 io1 @ [of_char c]"
    using serial_char_live [OF assms] by blast
  from Cons.IH [of io2] io1 io2 show ?case by auto
qed

lemma serial_wait_stuck:
  assumes dead: "\<And>io. fst (is_transmit_empty dev io) = 0"
  shows "serial_wait dev io = None"
proof (rule ccontr)
  assume "serial_wait dev io \<noteq> None"
  then obtain r where r: "serial_wait dev io = Some r" by auto
  have "dev \<noteq> dev"
  proof (rule serial_wait.raw_induct [where P = "\<lambda>d io r. d \<noteq> dev", OF _ r])
    fix f d io r
    assume IH: "\<And>d io r. f d io = Some r \<Longrightarrow> d \<noteq> dev"
      and eq: "(let (s, io1) = is_transmit_empty d io in if s \<noteq> 0 then Some io1 else f d io1) = Some r"
    show "d \<noteq> dev"
      using eq IH dead [of io] by (auto split: prod.splits if_splits)
  qed
  then show False by simp
qed

subsection \<open>Console operations\<close>

datatype console_op =
    TermChar char
  | TermString string
  | TermColor u8 u8
  | TermClear
  | SerialChar char
  | SerialString string

record console =
  con_term :: terminal
  con_io :: io

definition log_with :: "string \<Rightarrow> string \<Rightarrow> console_op list" where
  "log_with prefix message =
     [SerialString prefix, SerialString message, SerialString [newline],
      TermString message, TermChar newline]"

definition log_info :: "string \<Rightarrow> console_op list" where
  "log_info message = log_with ''[INFO] '' message"

definition log_error :: "string \<Rightarrow> console_op list" where
  "log_error message = log_with ''[ERROR] '' message"

definition log_warn :: "string \<Rightarrow> console_op list" where
  "log_warn message = log_with ''[WARN] '' message"

text \<open>\<open>panic\<close> prints this banner, disables interrupts and halts for good.\<close>

definition panic :: "string \<Rightarrow> console_op list" where
  "panic message =
     [TermClear, TermString ''PANIC: '', TermString message, TermString [newline],
      SerialString ''PANIC: '', SerialString message, SerialString [newline]]"

definition console_exec :: "device \<Rightarrow> console_op \<Rightarrow> console \<Rightarrow> console option" where
  "console_exec dev cop c =
     (case cop of
        TermChar ch \<Rightarrow> Some (c\<lparr>con_term := terminal_putchar ch (con_term c)\<rparr>)
      | TermString s \<Rightarrow> Some (c\<lparr>con_term := terminal_write_string s (con_term c)\<rparr>)
      | TermColor fg bg \<Rightarrow> Some (c\<lparr>con_term := terminal_set_color fg bg (con_term c)\<rparr>)
      | TermClear \<Rightarrow> Some (c\<lparr>con_term := terminal_clear (con_term c)\<rparr>)
      | SerialChar ch \<Rightarrow> map_option (\<lambda>io. c\<lparr>con_io := io\<rparr>) (serial_write_char dev ch (con_io c))
      | SerialString s \<Rightarrow> map_option (\<lambda>io. c\<lparr>con_io := io\<rparr>) (serial_write_string dev s (con_io c)))"

fun console_run :: "device \<Rightarrow> console_op list \<Rightarrow> console \<Rightarrow> console option" where
  "console_run dev [] c = Some c"
| "console_run dev (cop # ops) c = Option.bind (console_exec dev cop c) (console_run dev ops)"

text \<open>The serial output of a list of operations.\<close>

fun serial_text :: "console_op list \<Rightarrow> string" where
  "serial_text [] = []"
| "serial_text (cop # ops) =
     (case cop of SerialChar ch \<Rightarrow> [ch] | SerialString s \<Rightarrow> crlf s | _ \<Rightarrow> []) @ serial_text ops"

lemma console_exec_live:
  assumes "uart_live dev" "terminal_inv (con_term c)"
  shows "\<exists>c1. console_exec dev cop c = Some c1 \<and> terminal_inv (con_term c1) \<and>
    written SERIAL_PORT_COM1 (con_io c1) =
      written SERIAL_PORT_COM1 (con_io c) @ map of_char (serial_text [cop])"
proof (cases cop)
  case (SerialChar ch)
  with serial_char_live [OF assms(1), of ch "con_io c"] assms(2) show ?thesis
    by (auto simp: console_exec_def)
next
  case (SerialString s)
  with serial_string_live [OF assms(1), of s "con_io c"] assms(2) show ?thesis
    by (auto simp: console_exec_def)
qed (use assms in \<open>auto simp: console_exec_def terminal_clear_def putchar_inv write_string_inv
      set_color_inv initialize_inv terminal_inv_def [of "con_term c"]\<close>)

lemma serial_text_Cons: "serial_text (cop # ops) = serial_text [cop] @ serial_text ops"
  by simp

lemma console_run_live:
  assumes "uart_live dev" "terminal_inv (con_term c)"
  shows "\<exists>c1. console_run dev ops c = Some c1 \<and> terminal_inv (con_term c1) \<and>
    written SERIAL_PORT_COM1 (con_io c1) =
      written SERIAL_PORT_COM1 (con_io c) @ map of_char (serial_text ops)"
  using assms(2)
proof (induction ops arbitrary: c)
  case Nil
  then show ?case by simp
next
  case (Cons cop ops)
  obtain c1 where c1: "console_exec dev cop c = Some c1" "terminal_inv (con_term c1)"
    "written SERIAL_PORT_COM1 (con_io c1) =
      written SERIAL_PORT_COM1 (con_io c) @ map of_char (serial_text [cop])"
    using console_exec_live [OF assms(1) Cons.prems, of cop] by blast
  from Cons.IH [OF c1(2)] c1 show ?case by (auto simp: serial_text_Cons [of cop ops] simp del: serial_text.simps)
qed

subsection \<open>Properties\<close>

text \<open>
  When the serial transmitter always becomes ready again, printing never hangs: any list of
  console operations runs to completion, the bytes sent on the line are exactly the serial text
  in order, with a carriage return before every newline, and the terminal stays well formed.
\<close>

theorem console_output_complete:
  assumes "uart_live dev" and "terminal_inv (con_term c)"
  shows "\<exists>c1. console_run dev ops c = Some c1 \<and> terminal_inv (con_term c1) \<and>
    written SERIAL_PORT_COM1 (con_io c1) =
      written SERIAL_PORT_COM1 (con_io c) @ map of_char (serial_text ops)"
  using assms by (rule console_run_live)

definition idle_uart :: device where
  "idle_uart io port = 0x60"

theorem console_output_complete_witness:
  "\<exists>c1. console_run idle_uart (log_info ''hi'')
     \<lparr>con_term = \<lparr>VGA_BUFFER = replicate 2000 0, terminal_row = 0, terminal_column = 0,
        terminal_color = 15\<rparr>, con_io = []\<rparr> = Some c1 \<and>
     written SERIAL_PORT_COM1 (con_io c1) = map of_char ''[INFO] hi'' @ [13, 10]"
proof -
  have live: "uart_live idle_uart"
    unfolding uart_live_def
    by (intro allI exI [of _ 0]) (simp add: is_transmit_empty_def inb_def idle_uart_def)
  have inv: "terminal_inv (con_term \<lparr>con_term = \<lparr>VGA_BUFFER = replicate 2000 0, terminal_row = 0,
      terminal_column = 0, terminal_color = 15\<rparr>, con_io = []\<rparr>)"
    by (simp add: terminal_inv_def)
  from console_output_complete [OF live inv, of "log_info ''hi''"] obtain c1 where
    "console_run idle_uart (log_info ''hi'')
     \<lparr>con_term = \<lparr>VGA_BUFFER = replicate 2000 0, terminal_row = 0, terminal_column = 0,
        terminal_color = 15\<rparr>, con_io = []\<rparr> = Some c1"
    "written SERIAL_PORT_COM1 (con_io c1) = map of_char (serial_text (log_info ''hi''))"
    by auto
  then show ?thesis by (intro exI [of _ c1]) (simp add: log_info_def log_with_def)
qed

end
