(* ===== verification/Events.thy ===== *)
theory Events
  imports Prelude
begin

text \<open>
  The kernel's event queue (\<open>kernel/core/events.c\<close>, \<open>kernel/core/events.h\<close>): a ring buffer of
  128 slots between the interrupt handlers (timer, keyboard, mouse) and the user-interface
  loop. The contract of such a queue is the locale \<open>bounded_queue\<close>; the ring buffer is an
  instance with capacity 127, so a run of operations behaves like a bounded first-in
  first-out list.
\<close>

subsection \<open>The ring buffer\<close>

datatype event_type = EVENT_NONE | EVENT_KEYBOARD | EVENT_MOUSE | EVENT_TIMER

record event =
  ev_type :: event_type
  ev_a :: int
  ev_b :: int
  ev_c :: int

definition EVENT_QUEUE_CAP :: u32 where "EVENT_QUEUE_CAP = 128"

record event_queue =
  q :: "event list"
  head :: u32
  tail :: u32

definition event_zero :: event where
  "event_zero = \<lparr>ev_type = EVENT_NONE, ev_a = 0, ev_b = 0, ev_c = 0\<rparr>"

text \<open>The static initial value of the queue's variables.\<close>

definition events_static :: event_queue where
  "events_static = \<lparr>q = replicate 128 event_zero, head = 0, tail = 0\<rparr>"

definition events_init :: "event_queue \<Rightarrow> event_queue" where
  "events_init s = s\<lparr>head := 0, tail := 0\<rparr>"

definition events_enqueue :: "event \<Rightarrow> event_queue \<Rightarrow> int \<times> event_queue" where
  "events_enqueue ev s =
     (let next = (tail s + 1) mod EVENT_QUEUE_CAP
      in if next = head s then (- 1, s)
         else (0, s\<lparr>q := (q s)[unat (tail s) := ev], tail := next\<rparr>))"

text \<open>
  \<open>out\<close> is the caller's pointer: \<open>None\<close> is NULL, \<open>Some e\<close> a cell that holds \<open>e\<close>.
\<close>

definition events_dequeue ::
  "event option \<Rightarrow> event_queue \<Rightarrow> int \<times> event option \<times> event_queue" where
  "events_dequeue out s =
     (if out = None then (- 1, out, s)
      else if head s = tail s then (- 1, out, s)
      else (0, Some (q s ! unat (head s)), s\<lparr>head := (head s + 1) mod EVENT_QUEUE_CAP\<rparr>))"

subsection \<open>The contract of a bounded queue\<close>

datatype 'a qop = Enq 'a | Deq

text \<open>What each operation of a run reports: an enqueue its return code, a dequeue its element.\<close>

datatype 'a qres = EnqRes int | DeqRes "'a option"

text \<open>The specification: a list of at most \<open>cap\<close> elements.\<close>

fun fifo_step :: "nat \<Rightarrow> 'a qop \<Rightarrow> 'a list \<Rightarrow> 'a qres \<times> 'a list" where
  "fifo_step cap (Enq x) xs = (if length xs < cap then (EnqRes 0, xs @ [x]) else (EnqRes (- 1), xs))"
| "fifo_step cap Deq xs = (case xs of [] \<Rightarrow> (DeqRes None, []) | x # ys \<Rightarrow> (DeqRes (Some x), ys))"

fun fifo_run :: "nat \<Rightarrow> 'a qop list \<Rightarrow> 'a list \<Rightarrow> 'a qres list \<times> 'a list" where
  "fifo_run cap [] xs = ([], xs)"
| "fifo_run cap (op # ops) xs =
     (let (r, ys) = fifo_step cap op xs; (rs, zs) = fifo_run cap ops ys in (r # rs, zs))"

text \<open>The same run on an implementation given by its two operations.\<close>

fun impl_step ::
  "('a \<Rightarrow> 'q \<Rightarrow> int \<times> 'q) \<Rightarrow> ('q \<Rightarrow> 'a option \<times> 'q) \<Rightarrow> 'a qop \<Rightarrow> 'q \<Rightarrow> 'a qres \<times> 'q" where
  "impl_step enq deq (Enq x) s = (let (r, t) = enq x s in (EnqRes r, t))"
| "impl_step enq deq Deq s = (let (r, t) = deq s in (DeqRes r, t))"

fun impl_run ::
  "('a \<Rightarrow> 'q \<Rightarrow> int \<times> 'q) \<Rightarrow> ('q \<Rightarrow> 'a option \<times> 'q) \<Rightarrow> 'a qop list \<Rightarrow> 'q \<Rightarrow> 'a qres list \<times> 'q" where
  "impl_run enq deq [] s = ([], s)"
| "impl_run enq deq (op # ops) s =
     (let (r, t) = impl_step enq deq op s; (rs, u) = impl_run enq deq ops t in (r # rs, u))"

lemma fifo_step_bound: "fifo_step cap op xs = (r, ys) \<Longrightarrow> length xs \<le> cap \<Longrightarrow> length ys \<le> cap"
  by (cases op) (auto split: if_splits list.splits)

lemma fifo_run_bound: "fifo_run cap ops xs = (rs, ys) \<Longrightarrow> length xs \<le> cap \<Longrightarrow> length ys \<le> cap"
proof (induction ops arbitrary: xs rs)
  case Nil
  then show ?case by simp
next
  case (Cons op ops)
  obtain r zs where zs: "fifo_step cap op xs = (r, zs)" by (cases "fifo_step cap op xs")
  then obtain rs' where "fifo_run cap ops zs = (rs', ys)"
    using Cons.prems(1) by (auto split: prod.splits)
  with Cons.IH fifo_step_bound [OF zs Cons.prems(2)] show ?case by blast
qed

locale bounded_queue =
  fixes enq :: "'a \<Rightarrow> 'q \<Rightarrow> int \<times> 'q"
    and deq :: "'q \<Rightarrow> 'a option \<times> 'q"
    and abs :: "'q \<Rightarrow> 'a list"
    and inv :: "'q \<Rightarrow> bool"
    and cap :: nat
  assumes enq_room: "inv s \<Longrightarrow> length (abs s) < cap \<Longrightarrow> enq x s = (r, t) \<Longrightarrow>
            r = 0 \<and> inv t \<and> abs t = abs s @ [x]"
    and enq_full: "inv s \<Longrightarrow> \<not> length (abs s) < cap \<Longrightarrow> enq x s = (- 1, s)"
    and deq_empty: "inv s \<Longrightarrow> abs s = [] \<Longrightarrow> deq s = (None, s)"
    and deq_some: "inv s \<Longrightarrow> abs s = x # xs \<Longrightarrow> deq s = (y, t) \<Longrightarrow> y = Some x \<and> inv t \<and> abs t = xs"
begin

lemma step_refines:
  assumes "inv s" and "impl_step enq deq op s = (r, t)"
  shows "inv t \<and> fifo_step cap op (abs s) = (r, abs t)"
proof (cases op)
  case (Enq x)
  then obtain r' where r': "enq x s = (r', t)" "r = EnqRes r'"
    using assms(2) by (auto split: prod.splits)
  show ?thesis
  proof (cases "length (abs s) < cap")
    case True
    from enq_room [OF assms(1) True r'(1)] True Enq r' show ?thesis by simp
  next
    case False
    from enq_full [OF assms(1) False] False Enq r' assms(1) show ?thesis by simp
  qed
next
  case Deq
  then obtain r' where r': "deq s = (r', t)" "r = DeqRes r'"
    using assms(2) by (auto split: prod.splits)
  show ?thesis
  proof (cases "abs s")
    case Nil
    from deq_empty [OF assms(1) Nil] Nil Deq r' assms(1) show ?thesis by simp
  next
    case (Cons x xs)
    from deq_some [OF assms(1) Cons r'(1)] Cons Deq r' show ?thesis by simp
  qed
qed

lemma run_refines:
  assumes "inv s" and "impl_run enq deq ops s = (rs, t)"
  shows "inv t \<and> fifo_run cap ops (abs s) = (rs, abs t)"
  using assms
proof (induction ops arbitrary: s rs)
  case Nil
  then show ?case by simp
next
  case (Cons op ops)
  obtain r u where u: "impl_step enq deq op s = (r, u)" by (cases "impl_step enq deq op s")
  obtain rs' where rs': "impl_run enq deq ops u = (rs', t)" "rs = r # rs'"
    using Cons.prems(2) u by (auto split: prod.splits)
  from step_refines [OF Cons.prems(1) u] Cons.IH [OF _ rs'(1)] rs'(2) show ?case by auto
qed

lemma length_bound:
  assumes "inv s" "length (abs s) \<le> cap" "impl_run enq deq ops s = (rs, t)"
  shows "length (abs t) \<le> cap"
  using run_refines [OF assms(1,3)] assms(2) by (blast intro: fifo_run_bound)

end

subsection \<open>The ring buffer is a bounded queue\<close>

definition events_inv :: "event_queue \<Rightarrow> bool" where
  "events_inv s \<longleftrightarrow> length (q s) = 128 \<and> unat (head s) < 128 \<and> unat (tail s) < 128"

definition events_count :: "event_queue \<Rightarrow> nat" where
  "events_count s = (unat (tail s) + 128 - unat (head s)) mod 128"

text \<open>The queued events, oldest first.\<close>

definition events_list :: "event_queue \<Rightarrow> event list" where
  "events_list s = map (\<lambda>i. q s ! ((unat (head s) + i) mod 128)) [0..<events_count s]"

text \<open>A dequeue into a caller's cell, as the event loop performs it.\<close>

definition events_pop :: "event_queue \<Rightarrow> event option \<times> event_queue" where
  "events_pop s =
     (let (rc, out, t) = events_dequeue (Some event_zero) s
      in (if rc = 0 then out else None, t))"

lemma unat_next [word_nat]: "unat x < 128 \<Longrightarrow> unat ((x + 1) mod (128 :: u32)) = (unat x + 1) mod 128"
  by (simp add: unat_mod unat_word_ariths)

lemma length_events_list [simp]: "length (events_list s) = events_count s"
  by (simp add: events_list_def)

lemma events_count_lt: "events_count s < 128"
  by (simp add: events_count_def)

lemma wrap: "(a::nat) < 128 \<Longrightarrow> b \<le> 128 \<Longrightarrow> (a + b) mod 128 = (if a + b < 128 then a + b else a + b - 128)"
  by (simp add: mod_if)

lemma events_count_cases:
  "events_inv s \<Longrightarrow> events_count s =
     (if unat (head s) \<le> unat (tail s) then unat (tail s) - unat (head s)
      else unat (tail s) + 128 - unat (head s))"
  by (auto simp: events_count_def events_inv_def mod_if)

lemma events_invD: "events_inv s \<Longrightarrow> length (q s) = 128 \<and> unat (head s) < 128 \<and> unat (tail s) < 128"
  by (simp add: events_inv_def)

lemma full_iff:
  assumes "events_inv s"
  shows "(tail s + 1) mod 128 = head s \<longleftrightarrow> events_count s = 127"
proof -
  note b = events_invD [OF assms]
  have "(tail s + 1) mod 128 = head s \<longleftrightarrow> (unat (tail s) + 1) mod 128 = unat (head s)"
    using b by (metis unat_next word_unat_eq_iff)
  also have "\<dots> \<longleftrightarrow> events_count s = 127"
    using b wrap [of "unat (tail s)" 1] by (auto simp: events_count_cases [OF assms] split: if_splits)
  finally show ?thesis .
qed

lemma enqueue_room:
  assumes inv: "events_inv s" and room: "events_count s < 127" and e: "events_enqueue x s = (r, t)"
  shows "r = 0 \<and> events_inv t \<and> events_list t = events_list s @ [x]"
proof -
  note b = events_invD [OF inv]
  have nf: "(tail s + 1) mod 128 \<noteq> head s" using full_iff [OF inv] room by simp
  have t: "r = 0" "t = s\<lparr>q := (q s)[unat (tail s) := x], tail := (tail s + 1) mod 128\<rparr>"
    using e nf by (auto simp: events_enqueue_def EVENT_QUEUE_CAP_def Let_def)
  have ut: "unat (tail t) = (unat (tail s) + 1) mod 128" using b t by (simp add: unat_next)
  have inv': "events_inv t" using b t ut by (simp add: events_inv_def)
  have ht: "head t = head s" and qt: "q t = (q s)[unat (tail s) := x]" using t by simp_all
  have cnt: "events_count t = Suc (events_count s)"
    using b room ut wrap [of "unat (tail s)" 1]
    by (auto simp: events_count_cases [OF inv] events_count_cases [OF inv'] ht split: if_splits)
  have last: "(unat (head s) + events_count s) mod 128 = unat (tail s)"
    using b by (auto simp: events_count_cases [OF inv] mod_if)
  have other: "(unat (head s) + i) mod 128 \<noteq> unat (tail s)" if "i < events_count s" for i
    using b that room wrap [of "unat (head s)" i]
    by (auto simp: events_count_cases [OF inv] split: if_splits)
  have "events_list t = events_list s @ [x]"
    using b last by (auto simp: events_list_def cnt ht qt nth_list_update_neq [OF other [symmetric]])
  with inv' t show ?thesis by simp
qed

lemma enqueue_full:
  "events_inv s \<Longrightarrow> \<not> events_count s < 127 \<Longrightarrow> events_enqueue x s = (- 1, s)"
  using full_iff [of s] events_count_lt [of s]
  by (auto simp: events_enqueue_def EVENT_QUEUE_CAP_def Let_def)

lemma empty_iff:
  assumes "events_inv s"
  shows "events_list s = [] \<longleftrightarrow> head s = tail s"
proof -
  have "events_list s = [] \<longleftrightarrow> events_count s = 0" by (simp add: events_list_def)
  also have "\<dots> \<longleftrightarrow> unat (head s) = unat (tail s)"
    using events_invD [OF assms] by (auto simp: events_count_cases [OF assms])
  finally show ?thesis by (simp add: word_unat_eq_iff)
qed

lemma pop_empty: "events_inv s \<Longrightarrow> events_list s = [] \<Longrightarrow> events_pop s = (None, s)"
  by (simp add: empty_iff events_pop_def events_dequeue_def)

lemma pop_some:
  assumes inv: "events_inv s" and ne: "events_list s = x # xs" and p: "events_pop s = (r, t)"
  shows "r = Some x \<and> events_inv t \<and> events_list t = xs"
proof -
  note b = events_invD [OF inv]
  have ht: "head s \<noteq> tail s" using empty_iff [OF inv] ne by simp
  then have r: "r = Some (q s ! unat (head s))" and t: "t = s\<lparr>head := (head s + 1) mod 128\<rparr>"
    using p by (auto simp: events_pop_def events_dequeue_def EVENT_QUEUE_CAP_def)
  have uh: "unat (head t) = (unat (head s) + 1) mod 128" using b t by (simp add: unat_next)
  have inv': "events_inv t" using b t uh by (simp add: events_inv_def)
  have tl: "tail t = tail s" "q t = q s" using t by simp_all
  have "unat (head s) \<noteq> unat (tail s)" using ht by (simp add: word_unat_eq_iff)
  then have cnt: "events_count s = Suc (events_count t)"
    using b uh wrap [of "unat (head s)" 1]
    by (auto simp: events_count_cases [OF inv] events_count_cases [OF inv'] tl split: if_splits)
  have "events_list s = q s ! unat (head s) # events_list t"
    using b unfolding events_list_def cnt uh tl
    by (simp add: upt_conv_Cons map_Suc_upt [symmetric] mod_simps del: upt_Suc)
  then show ?thesis using ne r inv' by simp
qed

interpretation evq: bounded_queue events_enqueue events_pop events_list events_inv 127
proof (unfold_locales, goal_cases)
  case (1 s x r t)
  then show ?case by (intro enqueue_room) auto
next
  case (2 s x)
  then show ?case by (intro enqueue_full) auto
next
  case (3 s)
  then show ?case by (intro pop_empty)
next
  case (4 s x xs y t)
  then show ?case by (intro pop_some)
qed

lemma events_inv_static: "events_inv events_static"
  by (simp add: events_inv_def events_static_def)

lemma events_inv_init: "events_inv s \<Longrightarrow> events_inv (events_init s) \<and> events_list (events_init s) = []"
  by (simp add: events_inv_def events_init_def events_list_def events_count_def)

text \<open>
  C36: the event queue is a bounded first-in first-out queue. From initialisation, any sequence of
  enqueues and dequeues gives exactly the results of a list of capacity 127: an enqueue is refused
  only when 127 events are waiting, and events come out in the order they went in.
\<close>

theorem events_fifo:
  "\<exists>t. impl_run events_enqueue events_pop ops (events_init events_static)
        = (fst (fifo_run 127 ops []), t) \<and>
      events_list t = snd (fifo_run 127 ops []) \<and> length (events_list t) \<le> 127"
proof -
  obtain rs t where run: "impl_run events_enqueue events_pop ops (events_init events_static) = (rs, t)"
    by (cases "impl_run events_enqueue events_pop ops (events_init events_static)")
  have i: "events_inv (events_init events_static)" "events_list (events_init events_static) = []"
    using events_inv_init [OF events_inv_static] by auto
  from evq.run_refines [OF i(1) run] i(2) evq.length_bound [OF i(1) _ run] run show ?thesis by auto
qed

end
