(* ===== verification/Heap.thy ===== *)
theory Heap
  imports Prelude
begin

text \<open>
  The kernel heap (\<open>kernel/memory/heap.c\<close>): a bump allocator over the 8 MiB that follow the
  kernel image. \<open>kend\<close> is the address of the linker symbol \<open>__kernel_end\<close>. The locale
  \<open>allocator\<close> is what the rest of the kernel may rely on: blocks that do not overlap, lie
  inside the heap and stay allocated. \<open>kmalloc\<close> provides it for requests of at most \<open>2 ^ 63\<close>
  bytes; the last theorem shows that a larger request wraps around and breaks it.
\<close>

subsection \<open>The bump allocator\<close>

definition KERNEL_HEAP_SIZE :: u64 where "KERNEL_HEAP_SIZE = 8 * 1024 * 1024"

record heap =
  heap_base :: u64
  heap_ptr :: u64
  heap_limit :: u64

definition heap_static :: heap where
  "heap_static = \<lparr>heap_base = 0, heap_ptr = 0, heap_limit = 0\<rparr>"

definition heap_ensure_init :: "u64 \<Rightarrow> heap \<Rightarrow> heap" where
  "heap_ensure_init kend h =
     (if heap_ptr h \<noteq> 0 then h
      else \<lparr>heap_base = kend, heap_ptr = kend, heap_limit = kend + KERNEL_HEAP_SIZE\<rparr>)"

definition align_up_size :: "u64 \<Rightarrow> u64 \<Rightarrow> u64" where
  "align_up_size v a = (v + (a - 1)) AND NOT (a - 1)"

definition kmalloc :: "u64 \<Rightarrow> u64 \<Rightarrow> heap \<Rightarrow> u64 \<times> heap" where
  "kmalloc kend n h =
     (if n = 0 then (0, h)
      else let h1 = heap_ensure_init kend h; sz = align_up_size n 8
           in if heap_limit h1 < heap_ptr h1 + sz then (0, h1)
              else (heap_ptr h1, h1\<lparr>heap_ptr := heap_ptr h1 + sz\<rparr>))"

definition kfree :: "u64 \<Rightarrow> heap \<Rightarrow> heap" where
  "kfree ptr h = h"

subsection \<open>What a client may rely on\<close>

text \<open>A run of requests: the blocks handed out, as pairs of base and size.\<close>

fun alloc_run :: "(u64 \<Rightarrow> 'h \<Rightarrow> u64 \<times> 'h) \<Rightarrow> u64 list \<Rightarrow> 'h \<Rightarrow> (u64 \<times> u64) list \<times> 'h" where
  "alloc_run alloc [] h = ([], h)"
| "alloc_run alloc (n # ns) h =
     (let (p, h1) = alloc n h; (bs, h2) = alloc_run alloc ns h1
      in (if p = 0 then bs else (p, n) # bs, h2))"

definition block :: "u64 \<times> u64 \<Rightarrow> nat set" where
  "block b = {unat (fst b) ..< unat (fst b) + unat (snd b)}"

definition blocks_disjoint :: "(u64 \<times> u64) list \<Rightarrow> bool" where
  "blocks_disjoint bs \<longleftrightarrow>
     (\<forall>i < length bs. \<forall>j < length bs. i \<noteq> j \<longrightarrow> block (bs ! i) \<inter> block (bs ! j) = {})"

locale allocator =
  fixes alloc :: "u64 \<Rightarrow> 'h \<Rightarrow> u64 \<times> 'h"
    and brk :: "'h \<Rightarrow> nat"
    and ok :: "'h \<Rightarrow> bool"
    and lo :: nat
    and lim :: nat
  assumes ok_brk: "ok h \<Longrightarrow> lo \<le> brk h \<and> brk h \<le> lim"
    and alloc_zero: "alloc 0 h = (0, h)"
    and alloc_ok: "ok h \<Longrightarrow> unat n \<le> 2 ^ 63 \<Longrightarrow> alloc n h = (p, h') \<Longrightarrow> ok h'"
    and alloc_some: "ok h \<Longrightarrow> unat n \<le> 2 ^ 63 \<Longrightarrow> alloc n h = (p, h') \<Longrightarrow> p \<noteq> 0 \<Longrightarrow>
          unat p = brk h \<and> brk h' = brk h + (unat n + 7) div 8 * 8"
    and alloc_none: "ok h \<Longrightarrow> unat n \<le> 2 ^ 63 \<Longrightarrow> alloc n h = (0, h') \<Longrightarrow> brk h' = brk h"
    and alloc_room: "ok h \<Longrightarrow> 0 < n \<Longrightarrow> brk h + (unat n + 7) div 8 * 8 \<le> lim \<Longrightarrow> unat n \<le> 2 ^ 63 \<Longrightarrow>
          fst (alloc n h) \<noteq> 0"
begin

lemma alloc_block:
  assumes "ok h" "unat n \<le> 2 ^ 63" "alloc n h = (p, h')" "p \<noteq> 0"
  shows "block (p, n) \<subseteq> {brk h ..< brk h'}"
  using alloc_some [OF assms] by (auto simp: block_def)

lemma alloc_mono:
  assumes "ok h" "unat n \<le> 2 ^ 63" "alloc n h = (p, h')"
  shows "brk h \<le> brk h'"
  using alloc_some [OF assms] alloc_none [OF assms(1,2)] assms(3) by (cases "p = 0") auto

lemma alloc_fresh:
  assumes "ok h" "unat n \<le> 2 ^ 63" "alloc n h = (p, h')" "p \<noteq> 0" "\<And>a. a \<in> A \<Longrightarrow> unat a < brk h"
  shows "p \<notin> A"
  using alloc_some [OF assms(1-4)] assms(5) [of p] by auto

lemma run_blocks:
  assumes "ok h" "\<forall>n \<in> set ns. unat n \<le> 2 ^ 63" "alloc_run alloc ns h = (bs, h')"
  shows "ok h' \<and> brk h \<le> brk h' \<and> (\<forall>b \<in> set bs. block b \<subseteq> {brk h ..< brk h'}) \<and> blocks_disjoint bs"
  using assms
proof (induction ns arbitrary: h bs)
  case Nil
  then show ?case by (simp add: blocks_disjoint_def)
next
  case (Cons n ns)
  obtain p h1 where p: "alloc n h = (p, h1)" by (cases "alloc n h")
  obtain bs1 where bs1: "alloc_run alloc ns h1 = (bs1, h')" and bs: "bs = (if p = 0 then bs1 else (p, n) # bs1)"
    using Cons.prems(3) p by (auto split: prod.splits)
  have n: "unat n \<le> 2 ^ 63" using Cons.prems(2) by simp
  have ok1: "ok h1" and m: "brk h \<le> brk h1"
    using alloc_ok [OF Cons.prems(1) n p] alloc_mono [OF Cons.prems(1) n p] by auto
  have IH: "ok h'" "brk h1 \<le> brk h'" "\<forall>b \<in> set bs1. block b \<subseteq> {brk h1 ..< brk h'}" "blocks_disjoint bs1"
    using Cons.IH [OF ok1 _ bs1] Cons.prems(2) by auto
  show ?case
  proof (cases "p = 0")
    case True
    with IH m bs show ?thesis by fastforce
  next
    case False
    have hd: "block (p, n) \<subseteq> {brk h ..< brk h1}" by (rule alloc_block [OF Cons.prems(1) n p False])
    have sep: "block (p, n) \<inter> block b = {}" if "b \<in> set bs1" for b
      using hd IH(3) that by fastforce
    have "blocks_disjoint ((p, n) # bs1)"
      using IH(4) sep unfolding blocks_disjoint_def
      by (auto simp: nth_Cons less_Suc_eq_0_disj Int_commute dest: nth_mem split: nat.splits)
    moreover have "\<forall>b \<in> set ((p, n) # bs1). block b \<subseteq> {brk h ..< brk h'}"
      using hd IH(2,3) m by fastforce
    ultimately show ?thesis using IH m bs False by simp
  qed
qed

end

subsection \<open>\<open>kmalloc\<close> provides it\<close>

definition heap_brk :: "u64 \<Rightarrow> heap \<Rightarrow> nat" where
  "heap_brk kend h = (if heap_ptr h = 0 then unat kend else unat (heap_ptr h))"

definition kend_ok :: "u64 \<Rightarrow> bool" where
  "kend_ok kend \<longleftrightarrow> kend \<noteq> 0 \<and> unat kend + 8388608 < 2 ^ 63"

definition heap_inv :: "u64 \<Rightarrow> heap \<Rightarrow> bool" where
  "heap_inv kend h \<longleftrightarrow> kend_ok kend \<and>
     (heap_ptr h = 0 \<or>
      heap_base h = kend \<and> heap_limit h = kend + KERNEL_HEAP_SIZE \<and>
      kend \<le> heap_ptr h \<and> heap_ptr h \<le> heap_limit h)"

lemma unat_kend_limit:
  "kend_ok kend \<Longrightarrow> unat (kend + KERNEL_HEAP_SIZE) = unat kend + 8388608"
  by (subst unat_plus_exact) (simp_all add: kend_ok_def KERNEL_HEAP_SIZE_def)

lemma unat_align_up_size_8:
  assumes "unat n \<le> 2 ^ 63"
  shows "unat (align_up_size n 8) = (unat n + 7) div 8 * 8"
proof -
  have "unat (n + (8 - 1)) = unat n + 7"
    using assms by (subst unat_plus_exact) simp_all
  then show ?thesis unfolding align_up_size_def unat_align_down_8 by simp
qed

lemma ensure_init_inv:
  assumes "heap_inv kend h"
  shows "heap_base (heap_ensure_init kend h) = kend \<and>
    heap_limit (heap_ensure_init kend h) = kend + KERNEL_HEAP_SIZE \<and>
    kend \<le> heap_ptr (heap_ensure_init kend h) \<and>
    heap_ptr (heap_ensure_init kend h) \<le> heap_limit (heap_ensure_init kend h) \<and>
    heap_ptr (heap_ensure_init kend h) \<noteq> 0 \<and>
    unat (heap_ptr (heap_ensure_init kend h)) = heap_brk kend h"
proof -
  have k: "kend_ok kend" using assms by (simp add: heap_inv_def)
  then have "kend \<le> kend + KERNEL_HEAP_SIZE"
    by (simp add: word_le_nat_alt unat_kend_limit)
  with assms k show ?thesis by (auto simp: heap_inv_def heap_ensure_init_def heap_brk_def kend_ok_def)
qed

lemma kmalloc_cases:
  assumes inv: "heap_inv kend h" and n: "unat n \<le> 2 ^ 63" and m: "kmalloc kend n h = (p, h')"
  shows "(n = 0 \<and> p = 0 \<and> h' = h) \<or>
    (0 < n \<and> unat kend + 8388608 < heap_brk kend h + (unat n + 7) div 8 * 8 \<and> p = 0 \<and> h' = heap_ensure_init kend h) \<or>
    (0 < n \<and> heap_brk kend h + (unat n + 7) div 8 * 8 \<le> unat kend + 8388608 \<and> p \<noteq> 0 \<and>
     unat p = heap_brk kend h \<and> heap_brk kend h' = heap_brk kend h + (unat n + 7) div 8 * 8 \<and> heap_inv kend h')"
proof (cases "n = 0")
  case True
  with m show ?thesis by (simp add: kmalloc_def)
next
  case False
  let ?h = "heap_ensure_init kend h" and ?s = "align_up_size n 8"
  note e = ensure_init_inv [OF inv]
  have k: "kend_ok kend" using inv by (simp add: heap_inv_def)
  have lim: "unat (heap_limit ?h) = unat kend + 8388608" using e k by (simp add: unat_kend_limit)
  have "unat (heap_ptr ?h) \<le> unat (heap_limit ?h)" using e unfolding word_le_nat_alt by blast
  moreover have "(unat n + 7) div 8 * 8 \<le> 2 ^ 63" using div_le_mono [OF n [THEN add_le_mono1], of 7 8] by simp
  ultimately have "unat (heap_ptr ?h) + unat ?s < 2 ^ LENGTH(64)"
    using lim k n by (simp add: unat_align_up_size_8 kend_ok_def)
  then have sum: "unat (heap_ptr ?h + ?s) = heap_brk kend h + (unat n + 7) div 8 * 8"
    using e n by (simp add: unat_plus_exact unat_align_up_size_8)
  have pos: "0 < n" using False by (simp add: word_neq_0_conv)
  show ?thesis
  proof (cases "heap_limit ?h < heap_ptr ?h + ?s")
    case True
    with m False pos sum lim show ?thesis
      by (auto simp: kmalloc_def Let_def word_less_nat_alt)
  next
    case f: False
    then have le: "heap_brk kend h + (unat n + 7) div 8 * 8 \<le> unat kend + 8388608"
      using sum lim by (simp add: word_less_nat_alt)
    have h': "p = heap_ptr ?h" "h' = ?h\<lparr>heap_ptr := heap_ptr ?h + ?s\<rparr>"
      using m False f by (auto simp: kmalloc_def Let_def)
    have "heap_ptr ?h \<le> heap_ptr ?h + ?s" using sum e by (simp add: word_le_nat_alt)
    with e have "kend \<le> heap_ptr ?h + ?s" "heap_ptr ?h + ?s \<noteq> 0" "heap_ptr ?h + ?s \<le> heap_limit ?h"
      using f by (auto simp: word_le_nat_alt word_less_nat_alt unat_eq_0 [symmetric] simp del: unat_eq_0)
    with e h' k have "heap_inv kend h'" "heap_brk kend h' = unat (heap_ptr ?h + ?s)"
      by (auto simp: heap_inv_def heap_brk_def)
    with h' e sum le pos show ?thesis by auto
  qed
qed

lemma ensure_init_heap_inv: "heap_inv kend h \<Longrightarrow> heap_inv kend (heap_ensure_init kend h)"
  using ensure_init_inv [of kend h] by (auto simp: heap_inv_def)

lemma heap_brk_ensure: "heap_inv kend h \<Longrightarrow> heap_brk kend (heap_ensure_init kend h) = heap_brk kend h"
  using ensure_init_inv [of kend h] by (simp add: heap_brk_def)

interpretation kheap: allocator "kmalloc kend" "heap_brk kend" "heap_inv kend" "unat kend" "unat kend + 8388608"
  for kend
proof (unfold_locales, goal_cases)
  case (1 h)
  have "unat (heap_limit (heap_ensure_init kend h)) = unat kend + 8388608"
    using ensure_init_inv [OF 1] 1 by (simp add: unat_kend_limit heap_inv_def)
  with ensure_init_inv [OF 1] show ?case by (simp add: word_le_nat_alt)
next
  case (2 h)
  then show ?case by (simp add: kmalloc_def)
next
  case (3 h n p h')
  from kmalloc_cases [OF 3] 3(1) show ?case by (auto simp: ensure_init_heap_inv)
next
  case (4 h n p h')
  from kmalloc_cases [OF 4(1-3)] 4(4) show ?case by auto
next
  case (5 h n h')
  from kmalloc_cases [OF 5] 5(1) show ?case by (auto simp: heap_brk_ensure)
next
  case (6 h n)
  obtain p h' where "kmalloc kend n h = (p, h')" by (cases "kmalloc kend n h")
  with kmalloc_cases [OF 6(1) 6(4) this] 6 show ?case by auto
qed

lemma heap_inv_static: "kend_ok kend \<Longrightarrow> heap_inv kend heap_static"
  by (simp add: heap_inv_def heap_static_def)

subsection \<open>Properties\<close>



text \<open>
  \<open>kmalloc\<close> succeeds exactly when the request, rounded up to a multiple of 8, fits below the
  heap limit, and then returns the old break and advances it by that rounded size; a request
  that does not fit or is 0 returns NULL and leaves the break where it was.
\<close>

lemma kmalloc_exact:
  assumes "heap_inv kend h" and "unat n \<le> 2 ^ 63" and "kmalloc kend n h = (p, h')"
  shows "if 0 < n \<and> heap_brk kend h + (unat n + 7) div 8 * 8 \<le> unat kend + 8388608
    then unat p = heap_brk kend h \<and> p \<noteq> 0 \<and>
         heap_brk kend h' = heap_brk kend h + (unat n + 7) div 8 * 8
    else p = 0 \<and> heap_brk kend h' = heap_brk kend h"
  using kmalloc_cases [OF assms] assms(1) by (auto simp: heap_brk_ensure)

text \<open>
  A request close to \<open>2 ^ 64\<close> wraps around instead of failing. Once the heap is in use,
  \<open>kmalloc (2 ^ 64 - 8 * k)\<close> returns a non-null pointer and moves the break backwards by
  \<open>8 * k\<close> bytes, so the next request is given memory that is already allocated.
\<close>

theorem kmalloc_wraps:
  assumes "heap_inv kend h" and "heap_ptr h \<noteq> 0" and "0 < k" and "unat k < 2 ^ 60"
    and "8 * k \<le> heap_ptr h"
  shows "kmalloc kend (- (8 * k)) h = (heap_ptr h, h\<lparr>heap_ptr := heap_ptr h - 8 * k\<rparr>)"
proof -
  have u8k: "unat (8 * k) = 8 * unat k" using assms(4) by (subst unat_mult_exact) simp_all
  have k0: "0 < unat k" using assms(3) by (simp add: unat_gt_0)
  have neg: "unat (- (8 * k)) = 2 ^ 64 - 8 * unat k"
    using u8k k0 by (subst unat_neg) (auto simp: unat_eq_0 [symmetric] simp del: unat_eq_0)
  have "unat (- (8 * k) + (8 - 1)) = 2 ^ 64 - 8 * unat k + 7"
    using k0 assms(4) neg by (subst unat_plus_exact) auto
  then have "unat (align_up_size (- (8 * k)) 8) = (2 ^ 64 - 8 * unat k + 7) div 8 * 8"
    unfolding align_up_size_def unat_align_down_8 by simp
  also have eq: "(2 ^ 64 :: nat) - 8 * unat k = 8 * (2 ^ 61 - unat k)" by (simp add: diff_mult_distrib2)
  also have "(8 * (2 ^ 61 - unat k) + 7) div 8 * 8 = unat (- (8 * k))"
  proof -
    have "(8 * j + 7) div 8 * 8 = 8 * j" for j :: nat by simp
    then show ?thesis unfolding neg eq .
  qed
  finally have al: "align_up_size (- (8 * k)) 8 = - (8 * k)" by (simp add: word_unat_eq_iff)
  have "heap_ptr h - 8 * k \<le> heap_ptr h"
    using assms(5) by (simp add: word_le_nat_alt unat_minus_exact)
  moreover have "heap_ptr h \<le> heap_limit h" using assms(1,2) by (auto simp: heap_inv_def)
  ultimately have "\<not> heap_limit h < heap_ptr h - 8 * k" by (simp add: word_le_nat_alt word_less_nat_alt)
  moreover have "- (8 * k) \<noteq> 0" using neg assms(4) by (auto simp: unat_eq_0 [symmetric] simp del: unat_eq_0)
  ultimately show ?thesis using assms(2) al by (simp add: kmalloc_def heap_ensure_init_def Let_def)
qed

theorem kmalloc_wraps_witness:
  "kmalloc 0x200000 (- 64) \<lparr>heap_base = 0x200000, heap_ptr = 0x201000, heap_limit = 0xA00000\<rparr> =
     (0x201000, \<lparr>heap_base = 0x200000, heap_ptr = 0x200FC0, heap_limit = 0xA00000\<rparr>)"
proof -
  have inv: "heap_inv 0x200000 \<lparr>heap_base = 0x200000, heap_ptr = 0x201000, heap_limit = 0xA00000\<rparr>"
    by (simp add: heap_inv_def kend_ok_def KERNEL_HEAP_SIZE_def)
  from kmalloc_wraps [OF inv, of 8] show ?thesis by simp
qed

end
