(* ===== verification/MemoryMap.thy ===== *)
theory MemoryMap
  imports Console
begin

text \<open>
  The parser of the boot loader's information block (\<open>kernel/memory/memory_map.c\<close>). Memory is a
  function from addresses to bytes. The parser calls its callback once for every entry of every
  memory-map tag; the model returns those calls' arguments, in order. Both loops advance by a
  size read from the block, so they return an option: \<open>None\<close> is a loop that never ends.

  \<open>encode_info\<close> lays a block out as the Multiboot2 header the parser reads describes it, and the
  round trip says that the parser recovers exactly the entries that were laid out.
\<close>

type_synonym memory = "u64 \<Rightarrow> u8"
type_synonym mmap_entry = "u64 \<times> u64 \<times> u32"

definition load32 :: "memory \<Rightarrow> u64 \<Rightarrow> u32" where
  "load32 mem p = le32_of (mem p) (mem (p + 1)) (mem (p + 2)) (mem (p + 3))"

definition load64 :: "memory \<Rightarrow> u64 \<Rightarrow> u64" where
  "load64 mem p = le64_of (mem p) (mem (p + 1)) (mem (p + 2)) (mem (p + 3))
                          (mem (p + 4)) (mem (p + 5)) (mem (p + 6)) (mem (p + 7))"

subsection \<open>The parser\<close>

definition MB2_TAG_TYPE_MMAP :: u32 where "MB2_TAG_TYPE_MMAP = 6"

text \<open>The fields of \<open>struct mb2_tag\<close>, \<open>mb2_tag_mmap\<close> and \<open>mb2_mmap_entry\<close> at their offsets.\<close>

definition tag_type :: "memory \<Rightarrow> u64 \<Rightarrow> u32" where "tag_type mem p = load32 mem p"
definition tag_size :: "memory \<Rightarrow> u64 \<Rightarrow> u32" where "tag_size mem p = load32 mem (p + 4)"
definition mmap_entry_size :: "memory \<Rightarrow> u64 \<Rightarrow> u32" where "mmap_entry_size mem p = load32 mem (p + 8)"

definition mmap_entry_at :: "memory \<Rightarrow> u64 \<Rightarrow> mmap_entry" where
  "mmap_entry_at mem e = (load64 mem e, load64 mem (e + 8), load32 mem (e + 16))"

partial_function (option) parse_entries ::
  "memory \<Rightarrow> u64 \<Rightarrow> u64 \<Rightarrow> u64 \<Rightarrow> mmap_entry list option" where
  "parse_entries mem entry_size ent ent_end =
     (if ent + entry_size \<le> ent_end then
        Option.bind (parse_entries mem entry_size (ent + entry_size) ent_end)
          (\<lambda>rest. Some (mmap_entry_at mem ent # rest))
      else Some [])"

partial_function (option) parse_tags :: "memory \<Rightarrow> u64 \<Rightarrow> u64 \<Rightarrow> mmap_entry list option" where
  "parse_tags mem ptr end =
     (if ptr < end then
        if tag_type mem ptr = 0 \<and> tag_size mem ptr = 8 then Some []
        else Option.bind
          (if tag_type mem ptr = MB2_TAG_TYPE_MMAP
           then parse_entries mem (ucast (mmap_entry_size mem ptr)) (ptr + 16) (ptr + ucast (tag_size mem ptr))
           else Some [])
          (\<lambda>es. Option.bind (parse_tags mem (ptr + ucast ((tag_size mem ptr + 7) AND NOT 7)) end)
             (\<lambda>rest. Some (es @ rest)))
      else Some [])"

definition memory_parse_mmap :: "memory \<Rightarrow> u64 \<Rightarrow> mmap_entry list option" where
  "memory_parse_mmap mem info =
     (if info = 0 then Some [] else parse_tags mem (info + 8) (info + ucast (load32 mem info)))"

subsection \<open>Printing the map\<close>

definition hex_nibble :: "u64 \<Rightarrow> char" where
  "hex_nibble nib = (if nib < 10 then char_of (of_char CHR ''0'' + unat nib)
                     else char_of (of_char CHR ''a'' + unat nib - 10))"

fun hex_loop :: "nat \<Rightarrow> u64 \<Rightarrow> string \<Rightarrow> string" where
  "hex_loop 0 val buf = buf"
| "hex_loop (Suc i) val buf = hex_loop i (drop_bit 4 val) (hex_nibble (val AND 0xF) # buf)"

definition print_hex64 :: "u64 \<Rightarrow> console_op list" where
  "print_hex64 val = [TermString (''0x'' @ hex_loop 16 val [])]"

definition print_cb :: "mmap_entry \<Rightarrow> console_op list" where
  "print_cb e = (case e of (a, len, type) \<Rightarrow>
     [TermString ''  base=''] @ print_hex64 a @ [TermString '' len=''] @ print_hex64 len @
     [TermString '' type='',
      TermString (if type = 1 then ''usable'' @ [newline] else ''reserved'' @ [newline])])"

definition memory_print_mmap :: "memory \<Rightarrow> u64 \<Rightarrow> console_op list option" where
  "memory_print_mmap mem info =
     (if info = 0 then Some []
      else map_option (\<lambda>es. [TermString (''Detected memory map:'' @ [newline])] @
             log_info ''[INFO] memory map:'' @ concat (map print_cb es)) (memory_parse_mmap mem info))"

subsection \<open>Layout of an information block\<close>

fun mem_has :: "memory \<Rightarrow> u64 \<Rightarrow> u8 list \<Rightarrow> bool" where
  "mem_has mem a [] = True"
| "mem_has mem a (b # bs) \<longleftrightarrow> mem a = b \<and> mem_has mem (a + 1) bs"

lemma all_less_Suc_split: "(\<forall>i < Suc n. P i) \<longleftrightarrow> P 0 \<and> (\<forall>i < n. P (Suc i))"
  by (auto simp: less_Suc_eq_0_disj)

lemma mem_has_append [simp]:
  "mem_has mem a (xs @ ys) \<longleftrightarrow> mem_has mem a xs \<and> mem_has mem (a + of_nat (length xs)) ys"
  by (induction xs arbitrary: a) (auto simp: add.assoc)

lemma mem_has_nth: "mem_has mem a bs \<longleftrightarrow> (\<forall>i < length bs. mem (a + of_nat i) = bs ! i)"
proof (induction bs arbitrary: a)
  case (Cons b bs)
  have "(\<forall>i < Suc (length bs). mem (a + of_nat i) = (b # bs) ! i) \<longleftrightarrow>
        mem a = b \<and> (\<forall>i < length bs. mem (a + of_nat (Suc i)) = bs ! i)"
    by (subst all_less_Suc_split) simp
  with Cons.IH [of "a + 1"] show ?case by (simp add: add.assoc)
qed simp

text \<open>A memory that holds the bytes \<open>bs\<close> from address \<open>a\<close> on and is zero elsewhere.\<close>

definition mem_of :: "u64 \<Rightarrow> u8 list \<Rightarrow> memory" where
  "mem_of a bs p = (if a \<le> p \<and> unat p - unat a < length bs then bs ! (unat p - unat a) else 0)"

lemma mem_has_mem_of: "unat a + length bs < 2 ^ 64 \<Longrightarrow> mem_has (mem_of a bs) a bs"
  unfolding mem_has_nth
proof (intro allI impI)
  fix i assume r: "unat a + length bs < 2 ^ 64" and i: "i < length bs"
  then have "unat (a + of_nat i) = unat a + i"
    by (subst unat_plus_exact) (simp_all add: unat_of_nat_small)
  with i show "mem_of a bs (a + of_nat i) = bs ! i" by (simp add: mem_of_def word_le_nat_alt)
qed

lemma load32_has [simp]: "mem_has mem a (u32_bytes w) \<Longrightarrow> load32 mem a = w"
  by (auto simp: u32_bytes_def load32_def le32_of_u32_bytes add.assoc)

lemma load64_has [simp]: "mem_has mem a (u64_bytes w) \<Longrightarrow> load64 mem a = w"
proof -
  assume "mem_has mem a (u64_bytes w)"
  then have h: "load32 mem a = ucast w" "load32 mem (a + 4) = ucast (drop_bit 32 w)"
    by (simp_all add: u64_bytes_def)
  have "load64 mem a = ucast (load32 mem a) OR push_bit 32 (ucast (load32 mem (a + 4)))"
    by (simp add: load64_def le64_of_def load32_def add.assoc)
  then show ?thesis unfolding h by (simp only: le64_of_halves)
qed

datatype mb2_tag = MmapTag "mmap_entry list" | OtherTag u32 "u8 list"

definition entry_bytes :: "mmap_entry \<Rightarrow> u8 list" where
  "entry_bytes e = (case e of (a, len, type) \<Rightarrow>
     u64_bytes a @ u64_bytes len @ u32_bytes type @ u32_bytes 0)"

definition pad8 :: "nat \<Rightarrow> nat" where
  "pad8 n = (n + 7) div 8 * 8"

fun tag_bytes :: "mb2_tag \<Rightarrow> u8 list" where
  "tag_bytes (MmapTag es) =
     u32_bytes 6 @ u32_bytes (of_nat (16 + 24 * length es)) @ u32_bytes 24 @ u32_bytes 0 @
     concat (map entry_bytes es)"
| "tag_bytes (OtherTag t bs) =
     u32_bytes t @ u32_bytes (of_nat (8 + length bs)) @ bs @ replicate (pad8 (length bs) - length bs) 0"

fun tag_ok :: "mb2_tag \<Rightarrow> bool" where
  "tag_ok (MmapTag es) = True"
| "tag_ok (OtherTag t bs) \<longleftrightarrow> t \<noteq> 6 \<and> (t = 0 \<longrightarrow> bs \<noteq> [])"

fun tag_entries :: "mb2_tag \<Rightarrow> mmap_entry list" where
  "tag_entries (MmapTag es) = es"
| "tag_entries (OtherTag t bs) = []"

definition end_bytes :: "u8 list" where
  "end_bytes = u32_bytes 0 @ u32_bytes 8"

definition body_bytes :: "mb2_tag list \<Rightarrow> u8 list" where
  "body_bytes tags = concat (map tag_bytes tags) @ end_bytes"

definition encode_info :: "mb2_tag list \<Rightarrow> u8 list" where
  "encode_info tags = u32_bytes (of_nat (8 + length (body_bytes tags))) @ u32_bytes 0 @ body_bytes tags"

lemma length_entry_bytes [simp]: "length (entry_bytes e) = 24"
  by (simp add: entry_bytes_def split: prod.splits)

lemma length_entries [simp]: "length (concat (map entry_bytes es)) = 24 * length es"
  by (induction es) auto

lemma length_end_bytes [simp]: "length end_bytes = 8"
  by (simp add: end_bytes_def)

lemma entry_at_has [simp]: "mem_has mem a (entry_bytes e) \<Longrightarrow> mmap_entry_at mem a = e"
  by (cases e) (simp add: entry_bytes_def mmap_entry_at_def add.commute)

lemma parse_entries_has:
  assumes "mem_has mem a (concat (map entry_bytes es))" "unat a + 24 * length es + 24 < 2 ^ 64"
  shows "parse_entries mem 24 a (a + of_nat (24 * length es)) = Some es"
  using assms
proof (induction es arbitrary: a)
  case Nil
  then have "unat (a + 24) = unat a + 24" by (subst unat_plus_exact) simp_all
  then have "\<not> a + 24 \<le> a" by (simp add: word_le_nat_alt)
  then show ?case by (simp add: parse_entries.simps)
next
  case (Cons e es)
  have a24: "unat (a + 24) = unat a + 24" using Cons.prems(2) by (subst unat_plus_exact) simp_all
  have "unat (of_nat (24 * length (e # es)) :: u64) = 24 * length (e # es)"
    using Cons.prems(2) by (subst unat_of_nat_small) simp_all
  then have "unat (a + of_nat (24 * length (e # es))) = unat a + 24 * length (e # es)"
    using Cons.prems(2) by (subst unat_plus_exact) simp_all
  with a24 have le: "a + 24 \<le> a + of_nat (24 * length (e # es))" by (simp add: word_le_nat_alt)
  have "parse_entries mem 24 (a + 24) ((a + 24) + of_nat (24 * length es)) = Some es"
    by (rule Cons.IH) (use Cons.prems a24 in auto)
  then have "parse_entries mem 24 (a + 24) (a + of_nat (24 * length (e # es))) = Some es"
    by (simp add: algebra_simps)
  with le Cons.prems(1) show ?case by (subst parse_entries.simps) simp
qed

lemma pad8_props: "n \<le> pad8 n" "pad8 n < n + 8" "8 dvd pad8 n"
  unfolding pad8_def by presburger+

lemma unat_round8:
  assumes "unat (x :: u32) + 7 < 2 ^ 32"
  shows "unat ((x + 7) AND NOT 7) = pad8 (unat x)"
proof -
  have m: "(7 :: u32) = mask 3" by (simp add: mask_eq_exp_minus_1)
  have "unat (x + 7) = unat x + 7" using assms by (subst unat_plus_exact) simp_all
  moreover have "unat ((x + 7) AND NOT (mask 3)) = unat (x + 7) div 2 ^ 3 * 2 ^ 3"
    by (rule unat_and_not_mask) simp
  ultimately show ?thesis unfolding m by (simp add: pad8_def mask_eq_exp_minus_1)
qed

lemma length_tag_bytes: "length (tag_bytes t) = pad8 (case t of MmapTag es \<Rightarrow> 16 + 24 * length es
    | OtherTag _ bs \<Rightarrow> 8 + length bs) \<and> 8 \<le> length (tag_bytes t)"
proof (cases t)
  case (MmapTag es)
  have "pad8 (8 * n) = 8 * n" for n unfolding pad8_def by simp
  from this [of "2 + 3 * length es"] MmapTag show ?thesis by simp
next
  case (OtherTag u bs)
  have "8 + length bs + 7 = length bs + 7 + 1 * 8" by simp
  then have "(8 + length bs + 7) div 8 = (length bs + 7) div 8 + 1" by (simp only: div_mult_self1)
  then have "pad8 (8 + length bs) = 8 + pad8 (length bs)" unfolding pad8_def by simp
  with OtherTag pad8_props(1) [of "length bs"] show ?thesis by simp
qed

lemma body_bytes_Cons [simp]: "body_bytes (t # ts) = tag_bytes t @ body_bytes ts"
  by (simp add: body_bytes_def)

lemma parse_tags_has:
  assumes "\<forall>t \<in> set tags. tag_ok t" "mem_has mem a (body_bytes tags)"
    "unat a + length (body_bytes tags) + 64 < 2 ^ 64" "length (body_bytes tags) + 64 < 2 ^ 32"
    "unat end = unat a + length (body_bytes tags)"
  shows "parse_tags mem a end = Some (concat (map tag_entries tags))"
  using assms
proof (induction tags arbitrary: a)
  case Nil
  have lt: "a < end" using Nil.prems(5) by (simp add: word_less_nat_alt body_bytes_def)
  have "tag_type mem a = 0" "tag_size mem a = 8"
    using Nil.prems(2) by (simp_all add: body_bytes_def end_bytes_def tag_type_def tag_size_def)
  with lt show ?case by (subst parse_tags.simps) simp
next
  case (Cons t ts)
  let ?n = "length (tag_bytes t)"
  let ?sz = "case t of MmapTag es \<Rightarrow> 16 + 24 * length es | OtherTag _ bs \<Rightarrow> 8 + length bs"
  have n: "?n = pad8 ?sz" "8 \<le> ?n" using length_tag_bytes [of t] by auto
  have n32: "?n + 64 < 2 ^ 32" using Cons.prems(4) by simp
  then have sz32: "?sz + 7 < 2 ^ 32" using n(1) pad8_props(1) [of ?sz] by linarith
  have lt: "a < end" using Cons.prems(5) n(2) by (auto simp: word_less_nat_alt)
  have sz: "tag_size mem a = of_nat ?sz"
    using Cons.prems(2) by (cases t) (auto simp: tag_size_def)
  then have usz: "unat (tag_size mem a) = ?sz" using sz32 by (simp add: unat_of_nat_small)
  have adv: "unat ((tag_size mem a + 7) AND NOT 7) = ?n"
    using unat_round8 [of "tag_size mem a"] usz sz32 n(1) by simp
  then have "(ucast ((tag_size mem a + 7) AND NOT 7) :: u64) = of_nat ?n"
    by (metis of_nat_unat)
  moreover have "unat (a + of_nat ?n) = unat a + ?n"
    using Cons.prems(3) n32 by (subst unat_plus_exact) (simp_all add: unat_of_nat_small)
  ultimately have rest: "parse_tags mem (a + ucast ((tag_size mem a + 7) AND NOT 7)) end =
      Some (concat (map tag_entries ts))"
    using Cons.prems by (simp only:) (intro Cons.IH, auto)
  show ?case
  proof (cases t)
    case (MmapTag es)
    have ty: "tag_type mem a = 6" "mmap_entry_size mem a = 24"
      using Cons.prems(2) MmapTag by (simp_all add: tag_type_def mmap_entry_size_def add.commute)
    have "unat (a + 16) = unat a + 16" using Cons.prems(3) by (subst unat_plus_exact) simp_all
    then have "parse_entries mem 24 (a + 16) ((a + 16) + of_nat (24 * length es)) = Some es"
      using Cons.prems(2,3) MmapTag by (intro parse_entries_has) (simp_all add: add.commute)
    moreover have "(ucast (tag_size mem a) :: u64) = of_nat (16 + 24 * length es)"
      using usz MmapTag by (metis mb2_tag.simps(5) of_nat_unat)
    ultimately have "parse_entries mem 24 (a + 16) (a + ucast (tag_size mem a)) = Some es"
      by (simp add: algebra_simps)
    with lt ty rest MmapTag show ?thesis
      by (subst parse_tags.simps) (simp add: MB2_TAG_TYPE_MMAP_def)
  next
    case (OtherTag u bs)
    have "tag_type mem a = u" using Cons.prems(2) OtherTag by (simp add: tag_type_def)
    moreover have "\<not> (u = 0 \<and> tag_size mem a = 8)"
      using Cons.prems(1) OtherTag usz by (cases bs) auto
    moreover have "u \<noteq> 6" using Cons.prems(1) OtherTag by simp
    ultimately show ?thesis
      using lt rest OtherTag by (subst parse_tags.simps) (auto simp: MB2_TAG_TYPE_MMAP_def)
  qed
qed

text \<open>A tag of size 0 that is not the end tag: the parser stays on it for ever.\<close>

lemma parse_tags_zero_size:
  assumes "a < end" "tag_size mem a = 0" "tag_type mem a \<noteq> MB2_TAG_TYPE_MMAP"
  shows "parse_tags mem a end = None"
proof (rule ccontr)
  assume "parse_tags mem a end \<noteq> None"
  then obtain r where r: "parse_tags mem a end = Some r" by auto
  have "(mem, a, end) \<noteq> (mem, a, end)"
  proof (rule parse_tags.raw_induct [where P = "\<lambda>m p e r. (m, p, e) \<noteq> (mem, a, end)", OF _ r])
    fix f m p e r
    assume IH: "\<And>m p e r. f m p e = Some r \<Longrightarrow> (m, p, e) \<noteq> (mem, a, end)"
      and eq: "(if p < e then
        if tag_type m p = 0 \<and> tag_size m p = 8 then Some []
        else Option.bind
          (if tag_type m p = MB2_TAG_TYPE_MMAP
           then parse_entries m (ucast (mmap_entry_size m p)) (p + 16) (p + ucast (tag_size m p))
           else Some [])
          (\<lambda>es. Option.bind (f m (p + ucast ((tag_size m p + 7) AND NOT 7)) e)
             (\<lambda>rest. Some (es @ rest)))
      else Some []) = Some r"
    show "(m, p, e) \<noteq> (mem, a, end)"
    proof
      assume same: "(m, p, e) = (mem, a, end)"
      then have "f mem a end \<noteq> None"
        using eq assms by (auto simp: bind_eq_Some_conv split: if_splits)
      then show False using IH [of mem a "end"] by auto
    qed
  qed
  then show False by simp
qed

subsection \<open>Properties\<close>

lemma parse_info:
  assumes "\<forall>t \<in> set tags. tag_ok t" and "mem_has mem a (encode_info tags)" and "a \<noteq> 0"
    and "unat a + length (encode_info tags) + 64 < 2 ^ 64" and "length (encode_info tags) + 64 < 2 ^ 32"
  shows "memory_parse_mmap mem a = Some (concat (map tag_entries tags))"
proof -
  let ?n = "8 + length (body_bytes tags)"
  have len: "length (encode_info tags) = ?n" by (simp add: encode_info_def)
  have h: "load32 mem a = of_nat ?n" "mem_has mem (a + 8) (body_bytes tags)"
    using assms(2) by (simp_all add: encode_info_def add.assoc)
  have "unat (load32 mem a) = ?n"
    unfolding h(1) using assms(5) len by (subst unat_of_nat_small) simp_all
  then have "unat (ucast (load32 mem a) :: u64) = ?n"
    using assms(4) len by (simp add: unsigned_ucast_eq take_bit_nat_eq_self)
  then have e: "unat (a + ucast (load32 mem a)) = unat a + ?n"
    using assms(4) len by (subst unat_plus_exact) simp_all
  have "unat (a + 8) = unat a + 8" using assms(4) by (subst unat_plus_exact) simp_all
  then have "parse_tags mem (a + 8) (a + ucast (load32 mem a)) = Some (concat (map tag_entries tags))"
    using assms h(2) e len by (intro parse_tags_has) auto
  with assms(3) show ?thesis by (simp add: memory_parse_mmap_def)
qed

text \<open>
  C28: the memory map round trips. For any list of tags laid out in memory as an information
  block (memory-map tags with their 24-byte entries, other tags with their payload and padding,
  the end tag), the parser terminates and calls its callback with exactly the entries of the
  memory-map tags, in order.
\<close>

theorem mmap_roundtrip:
  assumes "\<forall>t \<in> set tags. tag_ok t" and "mem_has mem a (encode_info tags)" and "a \<noteq> 0"
    and "unat a + length (encode_info tags) + 64 < 2 ^ 64" and "length (encode_info tags) + 64 < 2 ^ 32"
  shows "memory_parse_mmap mem a = Some (concat (map tag_entries tags))"
  by (rule parse_info [OF assms])

definition demo_tags :: "mb2_tag list" where
  "demo_tags = [OtherTag 2 [71, 82, 85, 66, 0], MmapTag [(0, 0x9FC00, 1), (0x100000, 0x7EE0000, 1)]]"

theorem mmap_roundtrip_witness:
  "memory_parse_mmap (mem_of 0x1000 (encode_info demo_tags)) 0x1000 =
     Some [(0, 0x9FC00, 1), (0x100000, 0x7EE0000, 1)]"
proof -
  have l: "length (encode_info demo_tags) = 96" by code_simp
  then have b: "mem_has (mem_of 0x1000 (encode_info demo_tags)) 0x1000 (encode_info demo_tags)"
    by (intro mem_has_mem_of) simp
  from mmap_roundtrip [OF _ b] l show ?thesis by (simp add: demo_tags_def)
qed

text \<open>
  A malformed block hangs the boot. A first tag with size 0 (other than a memory-map tag)
  makes the parser loop for ever: the size field is trusted, and nothing advances the pointer.
\<close>

theorem mmap_zero_size_hangs:
  assumes "a \<noteq> 0" and "a + 8 < a + ucast (load32 mem a)"
    and "tag_size mem (a + 8) = 0" and "tag_type mem (a + 8) \<noteq> MB2_TAG_TYPE_MMAP"
  shows "memory_parse_mmap mem a = None"
  using parse_tags_zero_size [OF assms(2-4)] assms(1) by (simp add: memory_parse_mmap_def)

theorem mmap_zero_size_hangs_witness:
  "memory_parse_mmap (\<lambda>p. if p = 0x1000 then 64 else 0) 0x1000 = None"
  by (rule mmap_zero_size_hangs)
    (simp_all add: load32_def le32_of_def tag_size_def tag_type_def MB2_TAG_TYPE_MMAP_def)

end
