(* ===== verification/Pmm.thy ===== *)
theory Pmm
  imports MemoryMap Heap
begin

text \<open>
  The physical memory manager (\<open>kernel/memory/pmm.c\<close>): at most 64 free regions of 4 KiB
  frames, filled from the boot loader's memory map. The array \<open>free_regions\<close> with its count is
  the list of its first \<open>free_count\<close> entries; shifting the tail of the array down over an empty
  entry removes it from the list. \<open>free_set\<close> is the abstract state, the set of free page
  numbers; the operations are shown to allocate from it and return to it.
\<close>

subsection \<open>State and operations\<close>

definition PAGE_SIZE :: u64 where "PAGE_SIZE = 4096"
definition MAX_FREE_REGIONS :: nat where "MAX_FREE_REGIONS = 64"

record free_region =
  addr :: u64
  frames :: u64

record pmm =
  free_regions :: "free_region list"
  total_memory :: u64

definition pmm_static :: pmm where
  "pmm_static = \<lparr>free_regions = [], total_memory = 0\<rparr>"

definition align_up :: "u64 \<Rightarrow> u64 \<Rightarrow> u64" where
  "align_up a align = (a + align - 1) AND NOT (align - 1)"

definition align_down :: "u64 \<Rightarrow> u64 \<Rightarrow> u64" where
  "align_down a align = a AND NOT (align - 1)"

text \<open>The coalescing loop of \<open>add_free_region\<close>: the first region that touches, if any, grows.\<close>

fun add_merge :: "u64 \<Rightarrow> u64 \<Rightarrow> u64 \<Rightarrow> free_region list \<Rightarrow> free_region list option" where
  "add_merge start end n [] = None"
| "add_merge start end n (r # rs) =
     (let rstart = addr r; rend = rstart + frames r * PAGE_SIZE
      in if end = rstart then Some (r\<lparr>addr := start, frames := frames r + n\<rparr> # rs)
         else if start = rend then Some (r\<lparr>frames := frames r + n\<rparr> # rs)
         else map_option (Cons r) (add_merge start end n rs))"

definition push_region :: "u64 \<Rightarrow> u64 \<Rightarrow> pmm \<Rightarrow> pmm" where
  "push_region a n p =
     (if length (free_regions p) < MAX_FREE_REGIONS
      then p\<lparr>free_regions := free_regions p @ [\<lparr>addr = a, frames = n\<rparr>]\<rparr> else p)"

definition add_free_region :: "u64 \<Rightarrow> u64 \<Rightarrow> pmm \<Rightarrow> pmm" where
  "add_free_region a len p =
     (if len < PAGE_SIZE then p
      else let start = align_up a PAGE_SIZE; end = align_down (a + len) PAGE_SIZE
      in if end \<le> start then p
      else let n = (end - start) div PAGE_SIZE
      in if n = 0 then p
      else case add_merge start end n (free_regions p) of
             Some rs \<Rightarrow> p\<lparr>free_regions := rs\<rparr>
           | None \<Rightarrow> push_region start n p)"

text \<open>\<open>kstart\<close> and \<open>kend\<close> are the linker symbols around the kernel image.\<close>

definition mmap_callback :: "u64 \<Rightarrow> u64 \<Rightarrow> u64 \<Rightarrow> u64 \<Rightarrow> u32 \<Rightarrow> pmm \<Rightarrow> pmm" where
  "mmap_callback kstart kend a len type p =
     (if type \<noteq> 1 then p
      else if a + len \<le> 0x100000 then p
      else let (region_start, region_len) =
               (if a < 0x100000 then (a + (0x100000 - a), len - (0x100000 - a)) else (a, len));
               kend' = kend + KERNEL_HEAP_SIZE;
               rstart = region_start; rend = region_start + region_len;
               p1 = (if rend \<le> kstart \<or> kend' \<le> rstart then add_free_region rstart (rend - rstart) p
                     else let p' = (if rstart < kstart then add_free_region rstart (kstart - rstart) p else p)
                          in if kend' < rend then add_free_region kend' (rend - kend') p' else p')
      in p1\<lparr>total_memory := total_memory p1 + len\<rparr>)"

fun alloc_first :: "free_region list \<Rightarrow> u64 \<times> free_region list" where
  "alloc_first [] = (0, [])"
| "alloc_first (r # rs) =
     (if frames r = 0 then let (a, rs') = alloc_first rs in (a, r # rs')
      else if frames r - 1 = 0 then (addr r, rs)
      else (addr r, r\<lparr>addr := addr r + PAGE_SIZE, frames := frames r - 1\<rparr> # rs))"

definition pmm_alloc_frame :: "pmm \<Rightarrow> u64 \<times> pmm" where
  "pmm_alloc_frame p =
     (let (a, rs) = alloc_first (free_regions p) in (a, p\<lparr>free_regions := rs\<rparr>))"

definition pmm_free_frame :: "u64 \<Rightarrow> pmm \<Rightarrow> pmm" where
  "pmm_free_frame phys_addr p =
     (if phys_addr mod PAGE_SIZE \<noteq> 0 then p
      else case add_merge phys_addr (phys_addr + PAGE_SIZE) 1 (free_regions p) of
             Some rs \<Rightarrow> p\<lparr>free_regions := rs\<rparr>
           | None \<Rightarrow> push_region phys_addr 1 p)"

fun alloc_fit :: "u64 \<Rightarrow> free_region list \<Rightarrow> u64 \<times> free_region list" where
  "alloc_fit count [] = (0, [])"
| "alloc_fit count (r # rs) =
     (if count \<le> frames r then
        (if frames r - count = 0 then (addr r, rs)
         else (addr r, r\<lparr>addr := addr r + count * PAGE_SIZE, frames := frames r - count\<rparr> # rs))
      else let (a, rs') = alloc_fit count rs in (a, r # rs'))"

definition pmm_alloc_frames :: "u64 \<Rightarrow> pmm \<Rightarrow> u64 \<times> pmm" where
  "pmm_alloc_frames count p =
     (if count = 0 then (0, p)
      else let (a, rs) = alloc_fit count (free_regions p) in (a, p\<lparr>free_regions := rs\<rparr>))"

definition pmm_free_frames :: "u64 \<Rightarrow> u64 \<Rightarrow> pmm \<Rightarrow> pmm" where
  "pmm_free_frames phys_addr count p =
     (if count = 0 then p
      else if phys_addr mod PAGE_SIZE \<noteq> 0 then p
      else add_free_region phys_addr (count * PAGE_SIZE) p)"

definition pmm_total_memory :: "pmm \<Rightarrow> u64" where
  "pmm_total_memory p = total_memory p"

definition pmm_free_memory :: "pmm \<Rightarrow> u64" where
  "pmm_free_memory p = foldl (\<lambda>free r. free + frames r * PAGE_SIZE) 0 (free_regions p)"

definition pmm_used_memory :: "pmm \<Rightarrow> u64" where
  "pmm_used_memory p = total_memory p - pmm_free_memory p"

subsection \<open>The set of free pages\<close>

definition region_pages :: "free_region \<Rightarrow> nat set" where
  "region_pages r = {unat (addr r) div 4096 ..< unat (addr r) div 4096 + unat (frames r)}"

definition pages_of :: "free_region list \<Rightarrow> nat set" where
  "pages_of rs = (\<Union>r \<in> set rs. region_pages r)"

definition free_set :: "pmm \<Rightarrow> nat set" where
  "free_set p = pages_of (free_regions p)"

definition region_ok :: "free_region \<Rightarrow> bool" where
  "region_ok r \<longleftrightarrow> 0 < addr r \<and> aligned 4096 (addr r) \<and> 0 < frames r \<and>
     unat (addr r) + unat (frames r) * 4096 < 2 ^ 64"

fun regions_ok :: "free_region list \<Rightarrow> bool" where
  "regions_ok [] = True"
| "regions_ok (r # rs) \<longleftrightarrow> region_ok r \<and> region_pages r \<inter> pages_of rs = {} \<and> regions_ok rs"

definition pmm_inv :: "pmm \<Rightarrow> bool" where
  "pmm_inv p \<longleftrightarrow> regions_ok (free_regions p) \<and> length (free_regions p) \<le> MAX_FREE_REGIONS"

lemma pages_of_simps [simp]:
  "pages_of [] = {}" "pages_of (r # rs) = region_pages r \<union> pages_of rs"
  "pages_of (rs @ ss) = pages_of rs \<union> pages_of ss"
  by (auto simp: pages_of_def)

lemma regions_ok_append:
  "regions_ok (rs @ ss) \<longleftrightarrow> regions_ok rs \<and> regions_ok ss \<and> pages_of rs \<inter> pages_of ss = {}"
  by (induction rs) auto

text \<open>Aligned addresses are page numbers times 4096.\<close>

lemma aligned_page: "aligned 4096 a \<Longrightarrow> unat a = 4096 * (unat a div 4096)"
  by (auto simp: aligned_def)

lemma region_okD:
  assumes "region_ok r"
  obtains k where "unat (addr r) = 4096 * k" "0 < k" "0 < unat (frames r)"
    "4096 * (k + unat (frames r)) < 2 ^ 64" "region_pages r = {k ..< k + unat (frames r)}"
    "unat (addr r + frames r * PAGE_SIZE) = 4096 * (k + unat (frames r))"
proof -
  let ?k = "unat (addr r) div 4096"
  from assms have a: "unat (addr r) = 4096 * ?k" "0 < unat (addr r)" "0 < unat (frames r)"
    and b: "unat (addr r) + unat (frames r) * 4096 < 2 ^ 64"
    using aligned_page [of "addr r"] by (auto simp: region_ok_def word_less_nat_alt)
  have "unat (frames r * PAGE_SIZE) = unat (frames r) * 4096"
    using b by (subst unat_mult_exact) (simp_all add: PAGE_SIZE_def)
  then have "unat (addr r + frames r * PAGE_SIZE) = unat (addr r) + unat (frames r) * 4096"
    using b by (subst unat_plus_exact) simp_all
  moreover have "unat (addr r) + unat (frames r) * 4096 = 4096 * (?k + unat (frames r))"
    using a(1) by (simp add: algebra_simps)
  moreover have "0 < ?k" using a(1,2) by (cases ?k) auto
  ultimately show ?thesis
    using a(1,3) b by (intro that [of ?k]) (simp_all only: region_pages_def)
qed

lemma mk_region_ok:
  assumes "unat a = 4096 * k" "0 < k" "0 < unat n" "4096 * (k + unat n) < 2 ^ 64"
  shows "region_ok \<lparr>addr = a, frames = n\<rparr> \<and> region_pages \<lparr>addr = a, frames = n\<rparr> = {k ..< k + unat n}"
  using assms by (auto simp: region_ok_def region_pages_def aligned_def word_less_nat_alt)

subsection \<open>Returning frames\<close>

text \<open>The new frames: pages \<open>k ..< k + n\<close>, none of them free already.\<close>

lemma merged_head:
  assumes "regions_ok (r # rs)" "region_ok r'" "region_pages r' = region_pages r \<union> N"
    "pages_of (r # rs) \<inter> N = {}"
  shows "regions_ok (r' # rs) \<and> pages_of (r' # rs) = pages_of (r # rs) \<union> N"
  using assms by auto

lemma add_merge_ok:
  assumes "regions_ok rs" "unat s = 4096 * k" "0 < k" "0 < unat n" "4096 * (k + unat n) < 2 ^ 64"
    "unat e = 4096 * (k + unat n)" "pages_of rs \<inter> {k ..< k + unat n} = {}"
    "add_merge s e n rs = Some rs'"
  shows "regions_ok rs' \<and> pages_of rs' = pages_of rs \<union> {k ..< k + unat n} \<and> length rs' = length rs"
  using assms(1,7,8)
proof (induction rs arbitrary: rs')
  case Nil
  then show ?case by simp
next
  case (Cons r rs)
  from Cons.prems(1) have "region_ok r" by simp
  then obtain j where j: "unat (addr r) = 4096 * j" "0 < j" "0 < unat (frames r)"
    "4096 * (j + unat (frames r)) < 2 ^ 64" "region_pages r = {j ..< j + unat (frames r)}"
    "unat (addr r + frames r * PAGE_SIZE) = 4096 * (j + unat (frames r))" by (rule region_okD)
  consider (low) "e = addr r" | (fwd) "e \<noteq> addr r" "s = addr r + frames r * PAGE_SIZE"
    | (skip) "e \<noteq> addr r" "s \<noteq> addr r + frames r * PAGE_SIZE" by blast
  then show ?case
  proof cases
    case low
    then have kj: "k + unat n = j" using assms(6) j(1) by simp
    have sum: "unat (frames r + n) = unat (frames r) + unat n"
      using j(4) kj by (subst unat_plus_exact) auto
    let ?r = "\<lparr>addr = s, frames = frames r + n\<rparr>"
    have rs': "rs' = ?r # rs" using Cons.prems(3) low by (cases r) (simp add: Let_def)
    have "region_ok ?r \<and> region_pages ?r = {k ..< k + unat (frames r + n)}"
      by (rule mk_region_ok) (use assms(2,3) sum j kj in auto)
    moreover have "{k ..< k + unat (frames r + n)} = region_pages r \<union> {k ..< k + unat n}"
      unfolding j(5) sum using kj by auto
    ultimately show ?thesis
      using merged_head [OF Cons.prems(1) _ _ Cons.prems(2), of ?r] unfolding rs' by simp
  next
    case fwd
    then have kj: "k = j + unat (frames r)" using assms(2) j(6) by simp
    have sum: "unat (frames r + n) = unat (frames r) + unat n"
      using assms(5) kj by (subst unat_plus_exact) auto
    let ?r = "\<lparr>addr = addr r, frames = frames r + n\<rparr>"
    have rs': "rs' = ?r # rs" using Cons.prems(3) fwd by (cases r) (simp add: Let_def)
    have "region_ok ?r \<and> region_pages ?r = {j ..< j + unat (frames r + n)}"
      by (rule mk_region_ok) (use assms(5) sum j kj in auto)
    moreover have "{j ..< j + unat (frames r + n)} = region_pages r \<union> {k ..< k + unat n}"
      unfolding j(5) sum using kj by auto
    ultimately show ?thesis
      using merged_head [OF Cons.prems(1) _ _ Cons.prems(2), of ?r] unfolding rs' by simp
  next
    case skip
    then obtain rs'' where rs'': "add_merge s e n rs = Some rs''" "rs' = r # rs''"
      using Cons.prems(3) by (auto simp: Let_def)
    have "regions_ok rs'' \<and> pages_of rs'' = pages_of rs \<union> {k ..< k + unat n} \<and> length rs'' = length rs"
      by (rule Cons.IH) (use Cons.prems rs'' in auto)
    then show ?thesis using Cons.prems rs''(2) by auto
  qed
qed

lemma push_region_ok:
  assumes "pmm_inv p" "unat a = 4096 * k" "0 < k" "0 < unat n" "4096 * (k + unat n) < 2 ^ 64"
    "free_set p \<inter> {k ..< k + unat n} = {}"
  shows "pmm_inv (push_region a n p) \<and> free_set (push_region a n p) =
    free_set p \<union> (if length (free_regions p) < MAX_FREE_REGIONS then {k ..< k + unat n} else {})"
  using assms mk_region_ok [OF assms(2-5)]
  by (auto simp: push_region_def pmm_inv_def free_set_def regions_ok_append)

text \<open>Pages \<open>k ..< k + n\<close> are returned; when the table is full and nothing touches, they are lost.\<close>

definition returned :: "pmm \<Rightarrow> nat set \<Rightarrow> pmm \<Rightarrow> bool" where
  "returned p ps p' \<longleftrightarrow> pmm_inv p' \<and> total_memory p' = total_memory p \<and>
     (free_set p' = free_set p \<union> ps \<or>
      free_set p' = free_set p \<and> length (free_regions p) = MAX_FREE_REGIONS)"

lemma merge_or_push:
  assumes "pmm_inv p" "unat s = 4096 * k" "0 < k" "0 < unat n" "4096 * (k + unat n) < 2 ^ 64"
    "unat e = 4096 * (k + unat n)" "free_set p \<inter> {k ..< k + unat n} = {}"
  shows "returned p {k ..< k + unat n}
    (case add_merge s e n (free_regions p) of Some rs \<Rightarrow> p\<lparr>free_regions := rs\<rparr>
       | None \<Rightarrow> push_region s n p)"
proof (cases "add_merge s e n (free_regions p)")
  case None
  have "total_memory (push_region s n p) = total_memory p" by (simp add: push_region_def)
  with None push_region_ok [OF assms(1-5,7)] assms(1) show ?thesis
    by (auto simp: returned_def pmm_inv_def)
next
  case (Some rs)
  with add_merge_ok [OF _ assms(2-6) _ Some] assms(1,7) show ?thesis
    by (simp add: returned_def pmm_inv_def free_set_def)
qed

lemma free_frame_returned:
  assumes "pmm_inv p" "unat a = 4096 * k" "0 < k" "4096 * (k + 1) < 2 ^ 64" "k \<notin> free_set p"
  shows "returned p {k} (pmm_free_frame a p)"
proof -
  have "a mod PAGE_SIZE = 0"
    using assms(2) by (simp add: word_unat_eq_iff unat_mod PAGE_SIZE_def)
  moreover have "unat (a + PAGE_SIZE) = 4096 * (k + unat (1 :: u64))"
    using assms(2,4) by (subst unat_plus_exact) (simp_all add: PAGE_SIZE_def)
  ultimately show ?thesis
    using merge_or_push [OF assms(1,2,3), of 1 "a + PAGE_SIZE"] assms(4,5)
    by (simp add: pmm_free_frame_def)
qed

lemma add_free_region_returned:
  assumes inv: "pmm_inv p" and r: "unat a + unat len + 4096 < 2 ^ 64" and pos: "0 < unat a"
    and dis: "free_set p \<inter> {(unat a + 4095) div 4096 ..< (unat a + unat len) div 4096} = {}"
  shows "returned p {(unat a + 4095) div 4096 ..< (unat a + unat len) div 4096} (add_free_region a len p)"
proof -
  let ?k = "(unat a + 4095) div 4096" and ?e = "(unat a + unat len) div 4096"
  let ?s = "align_up a PAGE_SIZE" and ?t = "align_down (a + len) PAGE_SIZE"
  have "unat (a + PAGE_SIZE - 1) = unat a + 4095"
  proof -
    have "a + PAGE_SIZE - 1 = a + 4095" by (simp add: PAGE_SIZE_def)
    then show ?thesis using r by (simp only: unat_plus_exact) (subst unat_plus_exact, simp_all)
  qed
  then have us: "unat ?s = 4096 * ?k"
    by (simp add: align_up_def PAGE_SIZE_def unat_align_down_4096 [simplified])
  have ut: "unat ?t = 4096 * ?e"
    using r by (simp add: align_down_def PAGE_SIZE_def unat_align_down_4096 [simplified] unat_plus_exact)
  have same: "returned p {} p" using inv by (simp add: returned_def)
  show ?thesis
  proof (cases "?k < ?e")
    case False
    then have "?t \<le> ?s" using us ut by (simp add: word_le_nat_alt)
    with False same show ?thesis by (simp add: add_free_region_def Let_def)
  next
    case True
    have "4096 \<le> unat len"
    proof (rule ccontr)
      assume "\<not> 4096 \<le> unat len"
      then have "?e \<le> ?k" by (intro div_le_mono) simp
      with True show False by simp
    qed
    then have nl: "\<not> len < PAGE_SIZE" by (simp add: word_less_nat_alt PAGE_SIZE_def)
    have lt: "\<not> ?t \<le> ?s" using us ut True by (simp add: word_le_nat_alt)
    let ?n = "(?t - ?s) div PAGE_SIZE"
    have "unat (?t - ?s) = 4096 * (?e - ?k)"
      using lt us ut by (subst unat_minus_exact) (auto simp: diff_mult_distrib2)
    then have un: "unat ?n = ?e - ?k" by (simp add: unat_div PAGE_SIZE_def)
    have n0: "?n \<noteq> 0" using un True by (metis unat_0 zero_less_diff less_numeral_extra(3))
    have ke: "?k + unat ?n = ?e" using un True by simp
    have k0: "0 < ?k" using pos by (simp add: div_greater_zero_iff)
    have lim: "4096 * ?e < 2 ^ 64"
      by (rule le_less_trans [OF times_div_less_eq_dividend]) (use r in simp)
    have "returned p {?k ..< ?k + unat ?n}
      (case add_merge ?s ?t ?n (free_regions p) of Some rs \<Rightarrow> p\<lparr>free_regions := rs\<rparr>
         | None \<Rightarrow> push_region ?s ?n p)"
      by (rule merge_or_push) (use inv us ut un ke k0 lim dis True in auto)
    with nl lt n0 ke show ?thesis by (simp add: add_free_region_def Let_def)
  qed
qed

subsection \<open>Taking frames\<close>

lemma shrink_region:
  assumes "region_ok r" "0 < unat c" "unat c < unat (frames r)"
  shows "region_ok (r\<lparr>addr := addr r + c * PAGE_SIZE, frames := frames r - c\<rparr>) \<and>
    region_pages r = {unat (addr r) div 4096 ..< unat (addr r) div 4096 + unat c} \<union>
      region_pages (r\<lparr>addr := addr r + c * PAGE_SIZE, frames := frames r - c\<rparr>) \<and>
    {unat (addr r) div 4096 ..< unat (addr r) div 4096 + unat c} \<inter>
      region_pages (r\<lparr>addr := addr r + c * PAGE_SIZE, frames := frames r - c\<rparr>) = {}"
proof -
  obtain k where k: "unat (addr r) = 4096 * k" "0 < k"
    "4096 * (k + unat (frames r)) < 2 ^ 64" "region_pages r = {k ..< k + unat (frames r)}"
    using region_okD [OF assms(1)] by metis
  let ?r = "\<lparr>addr = addr r + c * PAGE_SIZE, frames = frames r - c\<rparr>"
  have "unat (c * PAGE_SIZE) = 4096 * unat c"
    using assms(3) k(3) by (subst unat_mult_exact) (simp_all add: PAGE_SIZE_def)
  moreover have "4096 * (k + unat c) < 2 ^ 64"
    by (rule le_less_trans [OF _ k(3)]) (use assms(3) in simp)
  ultimately have ua: "unat (addr r + c * PAGE_SIZE) = 4096 * (k + unat c)"
    using k(1) by (subst unat_plus_exact) simp_all
  have uf: "unat (frames r - c) = unat (frames r) - unat c"
    using assms(3) by (subst unat_minus_exact) (simp_all add: word_le_nat_alt)
  have "region_ok ?r \<and> region_pages ?r = {k + unat c ..< k + unat c + unat (frames r - c)}"
    by (rule mk_region_ok) (use assms ua uf k in auto)
  moreover have "k + unat c + unat (frames r - c) = k + unat (frames r)" using assms(3) uf by simp
  ultimately have new: "region_ok ?r" "region_pages ?r = {k + unat c ..< k + unat (frames r)}"
    by simp_all
  have div: "unat (addr r) div 4096 = k" using k(1) by simp
  have upd: "r\<lparr>addr := addr r + c * PAGE_SIZE, frames := frames r - c\<rparr> = ?r" by (cases r) simp
  show ?thesis
    unfolding upd div using new k(4) assms(3) by (auto simp only:) auto
qed

lemma alloc_fit_ok:
  assumes "regions_ok rs" "0 < unat c" "alloc_fit c rs = (a, rs')"
  shows "(a = 0 \<and> rs' = rs \<and> (\<forall>r \<in> set rs. unat (frames r) < unat c)) \<or>
    (a \<noteq> 0 \<and> aligned 4096 a \<and> regions_ok rs' \<and> length rs' \<le> length rs \<and>
     pages_of rs = {unat a div 4096 ..< unat a div 4096 + unat c} \<union> pages_of rs' \<and>
     {unat a div 4096 ..< unat a div 4096 + unat c} \<inter> pages_of rs' = {})"
  using assms(1,3)
proof (induction rs arbitrary: rs')
  case Nil
  then show ?case by simp
next
  case (Cons r rs)
  have ok: "region_ok r" "regions_ok rs" "region_pages r \<inter> pages_of rs = {}" using Cons.prems by auto
  then have r: "addr r \<noteq> 0" "aligned 4096 (addr r)" by (auto simp: region_ok_def)
  consider (all) "unat (frames r) = unat c" | (part) "unat c < unat (frames r)" | (next_) "unat (frames r) < unat c"
    by linarith
  then show ?case
  proof cases
    case all
    then have "frames r = c" by (simp add: word_unat_eq_iff)
    with Cons.prems ok r show ?thesis by (auto simp: region_pages_def)
  next
    case part
    then have "c \<le> frames r" "c \<noteq> frames r" by (auto simp: word_le_nat_alt)
    then have "c \<le> frames r" "frames r - c \<noteq> 0" by simp_all
    then have e: "a = addr r" "rs' = r\<lparr>addr := addr r + c * PAGE_SIZE, frames := frames r - c\<rparr> # rs"
      using Cons.prems(2) by auto
    note sh = shrink_region [OF ok(1) assms(2) part]
    have "region_pages (r\<lparr>addr := addr r + c * PAGE_SIZE, frames := frames r - c\<rparr>) \<inter> pages_of rs = {}"
      using sh ok(3) by blast
    then have "regions_ok rs'" unfolding e using sh ok by simp
    moreover have "pages_of (r # rs) = {unat a div 4096 ..< unat a div 4096 + unat c} \<union> pages_of rs'"
      unfolding e using sh by (simp only: pages_of_simps) blast
    moreover have "{unat a div 4096 ..< unat a div 4096 + unat c} \<inter> pages_of rs' = {}"
      unfolding e using sh ok(3) by (simp only: pages_of_simps) blast
    ultimately show ?thesis using r e by simp
  next
    case next_
    then have nle: "\<not> c \<le> frames r" by (simp add: word_le_nat_alt)
    then obtain rs'' where rs'': "alloc_fit c rs = (a, rs'')" "rs' = r # rs''"
      using Cons.prems(2) by (auto split: prod.splits)
    from Cons.IH [OF ok(2) rs''(1)] show ?thesis
    proof (elim disjE conjE)
      assume "a = 0" "rs'' = rs" "\<forall>r \<in> set rs. unat (frames r) < unat c"
      with next_ rs'' show ?thesis by simp
    next
      assume "a \<noteq> 0" "aligned 4096 a" "regions_ok rs''" "length rs'' \<le> length rs"
        and eq: "pages_of rs = {unat a div 4096 ..< unat a div 4096 + unat c} \<union> pages_of rs''"
        and dis: "{unat a div 4096 ..< unat a div 4096 + unat c} \<inter> pages_of rs'' = {}"
      moreover have "region_pages r \<inter> pages_of rs'' = {}"
        and "{unat a div 4096 ..< unat a div 4096 + unat c} \<inter> region_pages r = {}"
        using ok(3) eq by blast+
      ultimately show ?thesis using rs''(2) ok(1) by (simp only: regions_ok.simps pages_of_simps) auto
    qed
  qed
qed

text \<open>A single frame: regions in the table are never empty, so the first one supplies it.\<close>

lemma alloc_first_fit: "regions_ok rs \<Longrightarrow> alloc_first rs = alloc_fit 1 rs"
proof (cases rs)
  case (Cons r rs')
  assume "regions_ok rs"
  with Cons have "0 < frames r" by (simp add: region_ok_def)
  then have "1 \<le> frames r" "frames r \<noteq> 0" by (auto simp: word_le_nat_alt word_less_nat_alt)
  with Cons show ?thesis by simp
qed simp

lemma pmm_alloc_frames_ok:
  assumes "pmm_inv p" "0 < unat c" "pmm_alloc_frames c p = (a, p')"
  shows "pmm_inv p' \<and> total_memory p' = total_memory p \<and>
   ((a = 0 \<and> p' = p \<and> (\<forall>r \<in> set (free_regions p). unat (frames r) < unat c)) \<or>
    (a \<noteq> 0 \<and> aligned 4096 a \<and>
     {unat a div 4096 ..< unat a div 4096 + unat c} \<subseteq> free_set p \<and>
     free_set p' = free_set p - {unat a div 4096 ..< unat a div 4096 + unat c}))"
proof -
  have c0: "c \<noteq> 0" using assms(2) by auto
  obtain rs where rs: "alloc_fit c (free_regions p) = (a, rs)" "p' = p\<lparr>free_regions := rs\<rparr>"
    using assms(3) c0 by (auto simp: pmm_alloc_frames_def split: prod.splits)
  have ok: "regions_ok (free_regions p)" "length (free_regions p) \<le> MAX_FREE_REGIONS"
    using assms(1) by (auto simp: pmm_inv_def)
  from alloc_fit_ok [OF ok(1) assms(2) rs(1)] show ?thesis
  proof (elim disjE conjE)
    assume "a = 0" "rs = free_regions p" "\<forall>r \<in> set (free_regions p). unat (frames r) < unat c"
    with rs assms(1) show ?thesis by simp
  next
    assume h: "a \<noteq> 0" "aligned 4096 a" "regions_ok rs" "length rs \<le> length (free_regions p)"
      "pages_of (free_regions p) = {unat a div 4096 ..< unat a div 4096 + unat c} \<union> pages_of rs"
      "{unat a div 4096 ..< unat a div 4096 + unat c} \<inter> pages_of rs = {}"
    have "pages_of rs = pages_of (free_regions p) - {unat a div 4096 ..< unat a div 4096 + unat c}"
      unfolding h(5) using h(6) by blast
    moreover have "{unat a div 4096 ..< unat a div 4096 + unat c} \<subseteq> pages_of (free_regions p)"
      unfolding h(5) by blast
    ultimately show ?thesis using h(1-4) rs ok by (simp add: pmm_inv_def free_set_def)
  qed
qed

lemma pmm_alloc_frame_eq: "pmm_inv p \<Longrightarrow> pmm_alloc_frame p = pmm_alloc_frames 1 p"
  by (simp add: pmm_inv_def pmm_alloc_frame_def pmm_alloc_frames_def alloc_first_fit)

lemma free_set_empty:
  "regions_ok rs \<Longrightarrow> \<forall>r \<in> set rs. unat (frames r) < 1 \<Longrightarrow> rs = []"
  by (cases rs) (auto simp: region_ok_def word_less_nat_alt)

subsection \<open>Building the table from the memory map\<close>

text \<open>\<open>pmm_init\<close>: parse the block, feed every entry to the callback, report the total.\<close>

definition pmm_load :: "u64 \<Rightarrow> u64 \<Rightarrow> mmap_entry list \<Rightarrow> pmm" where
  "pmm_load kstart kend es =
     foldl (\<lambda>p (a, len, type). mmap_callback kstart kend a len type p) pmm_static es"

definition pmm_init :: "u64 \<Rightarrow> u64 \<Rightarrow> memory \<Rightarrow> u64 \<Rightarrow> (pmm \<times> console_op list) option" where
  "pmm_init kstart kend mem info =
     Option.bind (memory_parse_mmap mem info) (\<lambda>es.
       let p = pmm_load kstart kend es
       in map_option (\<lambda>buf. (p, log_info ''[INFO] parsing multiboot memory map'' @
            [TermString ''Total memory (KB): '', TermString buf, TermString [newline]] @
            log_info ''[OK] pmm initialized''))
          (itoa (total_memory p div 1024) 10))"

text \<open>The whole pages of an entry that lie above 1 MiB and outside the kernel and its heap.\<close>

definition range_pages :: "nat \<Rightarrow> nat \<Rightarrow> nat set" where
  "range_pages lo hi = {k. lo \<le> 4096 * k \<and> 4096 * (k + 1) \<le> hi}"

definition usable_pages :: "u64 \<Rightarrow> u64 \<Rightarrow> u64 \<Rightarrow> u64 \<Rightarrow> nat set" where
  "usable_pages kstart kend a len =
     {k \<in> range_pages (max (unat a) 0x100000) (unat a + unat len).
        4096 * (k + 1) \<le> unat kstart \<or> unat kend + 8388608 \<le> 4096 * k}"

lemma range_pages_eq: "range_pages lo hi = {(lo + 4095) div 4096 ..< hi div 4096}"
proof -
  have "(lo + 4095) div 4096 \<le> k \<longleftrightarrow> lo \<le> 4096 * k" for k :: nat
    using div_less_iff_less_mult [of 4096 "lo + 4095" "k + 1"] by simp linarith
  moreover have "k < hi div 4096 \<longleftrightarrow> 4096 * (k + 1) \<le> hi" for k :: nat
    using less_eq_div_iff_mult_less_eq [of 4096 "k + 1" hi] by simp linarith
  ultimately show ?thesis by (auto simp: range_pages_def)
qed

lemma length_add_merge: "add_merge s e n rs = Some rs' \<Longrightarrow> length rs' = length rs"
  by (induction rs arbitrary: rs') (auto simp: Let_def split: if_splits)

lemma length_add_free_region:
  "length (free_regions (add_free_region a len p)) \<le> length (free_regions p) + 1"
  by (auto simp: add_free_region_def Let_def push_region_def dest: length_add_merge split: option.splits)

text \<open>\<open>adds p A p'\<close>: only pages of \<open>A\<close> become free, and all of them while the table has room.\<close>

definition adds :: "nat \<Rightarrow> pmm \<Rightarrow> nat set \<Rightarrow> pmm \<Rightarrow> bool" where
  "adds n p A p' \<longleftrightarrow> pmm_inv p' \<and> free_set p \<subseteq> free_set p' \<and> free_set p' \<subseteq> free_set p \<union> A \<and>
     length (free_regions p') \<le> length (free_regions p) + n \<and>
     (length (free_regions p) + n \<le> MAX_FREE_REGIONS \<longrightarrow> free_set p' = free_set p \<union> A)"

lemma adds_refl: "pmm_inv p \<Longrightarrow> adds n p {} p"
  by (simp add: adds_def)

lemma adds_trans: "adds m p A p1 \<Longrightarrow> adds n p1 B p2 \<Longrightarrow> adds (m + n) p (A \<union> B) p2"
  unfolding adds_def by auto

lemma adds_mono: "adds m p A p1 \<Longrightarrow> m \<le> n \<Longrightarrow> adds n p A p1"
  unfolding adds_def by auto

lemma adds_region:
  assumes "pmm_inv p" "unat a + unat len + 4096 < 2 ^ 64" "0 < unat a"
    "free_set p \<inter> range_pages (unat a) (unat a + unat len) = {}"
  shows "adds 1 p (range_pages (unat a) (unat a + unat len)) (add_free_region a len p)"
  using add_free_region_returned [OF assms(1-3)] assms(4) length_add_free_region [of a len p]
  unfolding range_pages_eq returned_def adds_def by auto

lemma adds_total: "adds n p A p' \<Longrightarrow> adds n p A (p'\<lparr>total_memory := t\<rparr>)"
  by (simp add: adds_def pmm_inv_def free_set_def)

text \<open>The part of a range below the kernel and the part above its heap.\<close>

lemma usable_split:
  assumes "lo < unat kstart \<or> True"
  shows "{k \<in> range_pages lo hi. 4096 * (k + 1) \<le> ks \<or> ke \<le> 4096 * k} =
    range_pages lo (min hi ks) \<union> range_pages (max lo ke) hi"
  by (auto simp: range_pages_def)

lemma callback_adds:
  assumes inv: "pmm_inv p" and rng: "unat a + unat len + 4096 < 2 ^ 64"
    and k: "0 < unat kstart" "kstart \<le> kend" "unat kend + 8388608 + 4096 < 2 ^ 64"
    and dis: "free_set p \<inter> range_pages (unat a) (unat a + unat len) = {}"
  shows "adds 2 p (if type = 1 then usable_pages kstart kend a len else {})
           (mmap_callback kstart kend a len type p)"
proof (cases "type = 1 \<and> \<not> a + len \<le> 0x100000")
  case False
  have "unat (a + len) = unat a + unat len" using rng by (subst unat_plus_exact) simp_all
  then have "a + len \<le> 0x100000 \<Longrightarrow> usable_pages kstart kend a len = {}"
    by (auto simp: usable_pages_def range_pages_def word_le_nat_alt)
  with False adds_refl [OF inv] show ?thesis by (auto simp: mmap_callback_def)
next
  case True
  define rs where "rs = (if a < 0x100000 then a + (0x100000 - a) else a)"
  define rl where "rl = (if a < 0x100000 then len - (0x100000 - a) else len)"
  define re where "re = rs + rl"
  let ?ke = "kend + KERNEL_HEAP_SIZE"
  have al: "unat (a + len) = unat a + unat len" using rng by (subst unat_plus_exact) simp_all
  have big: "0x100000 < unat a + unat len" using True al by (simp add: word_le_nat_alt)
  have urs: "unat rs = max (unat a) 0x100000"
    by (auto simp: rs_def word_less_nat_alt)
  have "unat rl = unat a + unat len - unat rs"
  proof (cases "a < 0x100000")
    case True
    then have d: "unat (0x100000 - a) = 0x100000 - unat a"
      by (subst unat_minus_exact) (simp_all add: word_less_nat_alt word_le_nat_alt)
    then have "unat (len - (0x100000 - a)) = unat len - (0x100000 - unat a)"
      using big by (subst unat_minus_exact) (simp_all add: word_le_nat_alt)
    with True urs big show ?thesis by (simp add: rl_def word_less_nat_alt)
  next
    case False
    with urs show ?thesis by (simp add: rl_def word_less_nat_alt)
  qed
  then have ure: "unat re = unat a + unat len"
    unfolding re_def using urs big rng by (subst unat_plus_exact) auto
  have uke: "unat ?ke = unat kend + 8388608"
    using k(3) by (subst unat_plus_exact) (simp_all add: KERNEL_HEAP_SIZE_def)
  have dis': "free_set p \<inter> range_pages lo hi = {}" if "unat rs \<le> lo" "hi \<le> unat re" for lo hi
    using dis that urs ure by (force simp: range_pages_def)
  have sub: "unat x + unat (y - x) = unat y" if "x \<le> y" for x y :: u64
    using that by (simp add: unat_minus_exact word_le_nat_alt)
  have reg: "adds 1 q (range_pages (unat x) (unat y)) (add_free_region x (y - x) q)"
    if "pmm_inv q" "x \<le> y" "unat y + 4096 < 2 ^ 64" "0 < unat x"
      "free_set q \<inter> range_pages (unat x) (unat y) = {}" for x y q
    using adds_region [OF that(1), of x "y - x"] sub [OF that(2)] that(3-5) by simp
  have rr: "rs \<le> re" "0 < unat rs" "unat re + 4096 < 2 ^ 64"
    using urs ure big rng by (auto simp: word_le_nat_alt)
  have us: "usable_pages kstart kend a len =
      range_pages (unat rs) (min (unat re) (unat kstart)) \<union> range_pages (max (unat rs) (unat ?ke)) (unat re)"
    unfolding usable_pages_def urs [symmetric] ure [symmetric] uke [symmetric]
    by (rule usable_split) simp
  define p1 where "p1 = (if re \<le> kstart \<or> ?ke \<le> rs then add_free_region rs (re - rs) p
      else let p' = (if rs < kstart then add_free_region rs (kstart - rs) p else p)
           in if ?ke < re then add_free_region ?ke (re - ?ke) p' else p')"
  have pair: "(if a < 0x100000 then (a + (0x100000 - a), len - (0x100000 - a)) else (a, len)) = (rs, rl)"
    by (simp add: rs_def rl_def)
  have cb: "mmap_callback kstart kend a len type p = p1\<lparr>total_memory := total_memory p1 + len\<rparr>"
    using True unfolding mmap_callback_def pair p1_def re_def by (simp add: Let_def)
  have "adds 2 p (usable_pages kstart kend a len) p1"
  proof (cases "re \<le> kstart \<or> ?ke \<le> rs")
    case True
    then have "usable_pages kstart kend a len = range_pages (unat rs) (unat re)"
      using k(2) uke unfolding us
      by (auto simp: range_pages_def word_le_nat_alt)
    moreover have "adds 1 p (range_pages (unat rs) (unat re)) (add_free_region rs (re - rs) p)"
      by (rule reg [OF inv rr(1,3,2)]) (rule dis', simp_all)
    ultimately show ?thesis using True by (simp add: p1_def adds_mono)
  next
    case False
    then have ov: "kstart < re" "rs < ?ke" by auto
    define p' where "p' = (if rs < kstart then add_free_region rs (kstart - rs) p else p)"
    have lo: "adds 1 p (range_pages (unat rs) (unat kstart)) p'"
    proof (cases "rs < kstart")
      case True
      have "adds 1 p (range_pages (unat rs) (unat kstart)) (add_free_region rs (kstart - rs) p)"
        by (rule reg [OF inv], use True ov rr in \<open>auto simp: word_less_nat_alt word_le_nat_alt intro!: dis'\<close>)
      with True show ?thesis by (simp add: p'_def)
    next
      case False
      then have "range_pages (unat rs) (unat kstart) = {}"
        by (auto simp: range_pages_def word_less_nat_alt)
      with False show ?thesis by (simp add: p'_def adds_refl inv)
    qed
    have hi: "adds 1 p' (range_pages (unat ?ke) (unat re)) (if ?ke < re then add_free_region ?ke (re - ?ke) p' else p')"
    proof (cases "?ke < re")
      case True
      have "free_set p' \<inter> range_pages (unat ?ke) (unat re) = {}"
      proof -
        have "free_set p \<inter> range_pages (unat ?ke) (unat re) = {}"
          by (rule dis') (use ov in \<open>auto simp: word_less_nat_alt\<close>)
        moreover have "range_pages (unat rs) (unat kstart) \<inter> range_pages (unat ?ke) (unat re) = {}"
          using k(2) uke by (auto simp: range_pages_def word_le_nat_alt)
        ultimately show ?thesis using lo unfolding adds_def by blast
      qed
      moreover have "0 < unat ?ke" "?ke \<le> re" using uke True by simp_all
      moreover have "pmm_inv p'" using lo by (simp add: adds_def)
      ultimately have "adds 1 p' (range_pages (unat ?ke) (unat re)) (add_free_region ?ke (re - ?ke) p')"
        using rr(3) by (intro reg)
      with True show ?thesis by simp
    next
      case False
      then have "range_pages (unat ?ke) (unat re) = {}"
        by (auto simp: range_pages_def word_less_nat_alt)
      with False lo show ?thesis by (simp add: adds_def)
    qed
    have "usable_pages kstart kend a len = range_pages (unat rs) (unat kstart) \<union> range_pages (unat ?ke) (unat re)"
      unfolding us using ov by (simp add: min_def max_def word_less_nat_alt)
    moreover have "p1 = (if ?ke < re then add_free_region ?ke (re - ?ke) p' else p')"
      using False by (simp add: p1_def p'_def Let_def)
    ultimately show ?thesis using adds_trans [OF lo hi] unfolding one_add_one by (simp only:)
  qed
  then show ?thesis using True cb adds_total by simp
qed

text \<open>
  A memory map that a boot loader may report: no usable entry wraps around the address space,
  and the usable entries do not overlap.
\<close>

definition usable :: "mmap_entry \<Rightarrow> bool" where
  "usable e \<longleftrightarrow> snd (snd e) = 1"

definition entry_pages :: "mmap_entry \<Rightarrow> nat set" where
  "entry_pages e = range_pages (unat (fst e)) (unat (fst e) + unat (fst (snd e)))"

fun mmap_ok :: "mmap_entry list \<Rightarrow> bool" where
  "mmap_ok [] = True"
| "mmap_ok (e # es) \<longleftrightarrow>
     unat (fst e) + unat (fst (snd e)) + 4096 < 2 ^ 64 \<and>
     (usable e \<longrightarrow> (\<forall>e' \<in> set es. usable e' \<longrightarrow> entry_pages e \<inter> entry_pages e' = {})) \<and> mmap_ok es"

definition kernel_ok :: "u64 \<Rightarrow> u64 \<Rightarrow> bool" where
  "kernel_ok kstart kend \<longleftrightarrow> 0 < unat kstart \<and> kstart \<le> kend \<and> unat kend + 8388608 + 4096 < 2 ^ 64"

definition map_pages :: "u64 \<Rightarrow> u64 \<Rightarrow> mmap_entry list \<Rightarrow> nat set" where
  "map_pages kstart kend es =
     (\<Union>e \<in> {e \<in> set es. usable e}. usable_pages kstart kend (fst e) (fst (snd e)))"

lemma map_pages_Cons: "map_pages kstart kend (e # es) =
  (if usable e then usable_pages kstart kend (fst e) (fst (snd e)) else {}) \<union> map_pages kstart kend es"
  by (auto simp: map_pages_def)

lemma usable_pages_sub: "usable_pages kstart kend (fst e) (fst (snd e)) \<subseteq> entry_pages e"
  by (auto simp: usable_pages_def entry_pages_def range_pages_def)

lemma callback_unusable: "\<not> usable (a, len, type) \<Longrightarrow> mmap_callback kstart kend a len type p = p"
  by (simp add: usable_def mmap_callback_def)

lemma load_adds:
  assumes "mmap_ok es" "kernel_ok kstart kend" "pmm_inv p"
    "\<forall>e \<in> set es. usable e \<longrightarrow> free_set p \<inter> entry_pages e = {}"
  shows "adds (2 * length es) p (map_pages kstart kend es)
    (foldl (\<lambda>p (a, len, type). mmap_callback kstart kend a len type p) p es)"
  using assms(1,3,4)
proof (induction es arbitrary: p)
  case Nil
  then show ?case by (simp add: adds_refl map_pages_def)
next
  case (Cons e es)
  obtain a len type where e: "e = (a, len, type)" by (cases e) auto
  let ?p = "mmap_callback kstart kend a len type p"
  let ?U = "if usable e then usable_pages kstart kend a len else {}"
  have k: "0 < unat kstart" "kstart \<le> kend" "unat kend + 8388608 + 4096 < 2 ^ 64"
    using assms(2) by (auto simp: kernel_ok_def)
  have st: "adds 2 p ?U ?p"
  proof (cases "usable e")
    case True
    have "free_set p \<inter> range_pages (unat a) (unat a + unat len) = {}"
      using Cons.prems(3) True e by (simp add: entry_pages_def)
    from callback_adds [OF Cons.prems(2) _ k this, of type] Cons.prems(1) True e
    show ?thesis by (simp add: usable_def)
  next
    case False
    with e adds_refl [OF Cons.prems(2)] show ?thesis by (simp add: callback_unusable)
  qed
  have U: "?U \<subseteq> entry_pages e" using usable_pages_sub [of kstart kend e] e by auto
  have "free_set ?p \<inter> entry_pages e' = {}" if "e' \<in> set es" "usable e'" for e'
  proof -
    have "free_set p \<inter> entry_pages e' = {}" using Cons.prems(3) that by auto
    moreover have "?U \<inter> entry_pages e' = {}" using Cons.prems(1) that U by (cases "usable e") auto
    ultimately show ?thesis using st unfolding adds_def by blast
  qed
  then have "adds (2 * length es) ?p (map_pages kstart kend es)
    (foldl (\<lambda>p (a, len, type). mmap_callback kstart kend a len type p) ?p es)"
    using Cons.prems(1) st by (intro Cons.IH) (auto simp: adds_def)
  from adds_trans [OF st this] e show ?case by (cases "usable e") (simp_all add: map_pages_Cons)
qed

lemma pmm_inv_static: "pmm_inv pmm_static" "free_set pmm_static = {}" "free_regions pmm_static = []"
  by (simp_all add: pmm_inv_def pmm_static_def free_set_def)

subsection \<open>The page pool as a contract\<close>

text \<open>
  What a client of the frame allocator may rely on: a frame comes from the pool and leaves it.
  A run of requests therefore never hands the same page out twice.
\<close>

fun take_run :: "('s \<Rightarrow> u64 \<times> 's) \<Rightarrow> nat \<Rightarrow> 's \<Rightarrow> u64 list \<times> 's" where
  "take_run f 0 s = ([], s)"
| "take_run f (Suc n) s = (let (a, t) = f s; (as, u) = take_run f n t in (a # as, u))"

definition page :: "u64 \<Rightarrow> nat" where
  "page a = unat a div 4096"

locale page_pool =
  fixes take_page :: "'s \<Rightarrow> u64 \<times> 's"
    and pool :: "'s \<Rightarrow> nat set"
    and ok :: "'s \<Rightarrow> bool"
  assumes take_ok: "ok s \<Longrightarrow> take_page s = (a, t) \<Longrightarrow> ok t"
    and take_some: "ok s \<Longrightarrow> take_page s = (a, t) \<Longrightarrow> a \<noteq> 0 \<Longrightarrow>
          aligned 4096 a \<and> page a \<in> pool s \<and> pool t = pool s - {page a}"
    and take_none: "ok s \<Longrightarrow> take_page s = (0, t) \<Longrightarrow> pool s = {} \<and> pool t = {}"
begin

lemma run_pages:
  assumes "ok s" "take_run take_page n s = (as, t)"
  shows "ok t \<and> (let bs = filter (\<lambda>a. a \<noteq> 0) as in distinct (map page bs) \<and>
    set (map page bs) \<subseteq> pool s \<and> pool t = pool s - set (map page bs) \<and> (\<forall>a \<in> set bs. aligned 4096 a))"
  using assms
proof (induction n arbitrary: s as)
  case 0
  then show ?case by simp
next
  case (Suc n)
  obtain a u where a: "take_page s = (a, u)" by (cases "take_page s")
  obtain as' where as': "take_run take_page n u = (as', t)" "as = a # as'"
    using Suc.prems(2) a by (auto split: prod.splits)
  note IH = Suc.IH [OF take_ok [OF Suc.prems(1) a] as'(1)]
  show ?case
  proof (cases "a = 0")
    case True
    with take_none [OF Suc.prems(1)] a IH as'(2) show ?thesis by (simp add: Let_def)
  next
    case False
    from take_some [OF Suc.prems(1) a False] IH as'(2) False show ?thesis
      by (auto simp: Let_def)
  qed
qed

end

interpretation frame_pool: page_pool pmm_alloc_frame free_set pmm_inv
proof (unfold_locales, goal_cases)
  case (1 s a t)
  with pmm_alloc_frames_ok [of s 1 a t] show ?case by (simp add: pmm_alloc_frame_eq)
next
  case (2 s a t)
  have "{unat a div 4096 ..< unat a div 4096 + 1} = {page a}" by (auto simp: page_def)
  with 2 pmm_alloc_frames_ok [of s 1 a t] show ?case by (simp add: pmm_alloc_frame_eq)
next
  case (3 s t)
  with pmm_alloc_frames_ok [of s 1 0 t] have "t = s" "\<forall>r \<in> set (free_regions s). unat (frames r) < 1"
    by (auto simp: pmm_alloc_frame_eq)
  with 3 free_set_empty [of "free_regions s"] show ?case by (simp add: pmm_inv_def free_set_def)
qed

subsection \<open>Accounting\<close>

lemma card_region_pages: "card (region_pages r) = unat (frames r)"
  by (simp add: region_pages_def)

lemma card_pages_of: "regions_ok rs \<Longrightarrow> card (pages_of rs) = sum_list (map (\<lambda>r. unat (frames r)) rs)"
proof (induction rs)
  case (Cons r rs)
  have "finite (pages_of rs)" "finite (region_pages r)" by (auto simp: pages_of_def region_pages_def)
  with Cons show ?case by (simp add: card_Un_disjoint card_region_pages)
qed simp

lemma free_memory_sum:
  "foldl (\<lambda>free r. free + frames r * PAGE_SIZE) z rs =
     z + of_nat (4096 * sum_list (map (\<lambda>r. unat (frames r)) rs))"
proof (induction rs arbitrary: z)
  case (Cons r rs)
  have "frames r * PAGE_SIZE = of_nat (4096 * unat (frames r))"
    by (simp add: PAGE_SIZE_def mult.commute)
  with Cons show ?case by (simp add: algebra_simps)
qed simp

subsection \<open>Properties\<close>

text \<open>
  C1: boot builds exactly the usable memory. For a memory map whose usable entries do not overlap,
  the table is well formed and its free pages are whole pages of usable entries, above 1 MiB and
  outside the kernel image and its heap; with at most 32 entries no such page is missing.
\<close>

theorem pmm_load_exact:
  assumes "mmap_ok es" and "kernel_ok kstart kend"
  shows "pmm_inv (pmm_load kstart kend es) \<and>
    free_set (pmm_load kstart kend es) \<subseteq> map_pages kstart kend es \<and>
    (length es \<le> 32 \<longrightarrow> free_set (pmm_load kstart kend es) = map_pages kstart kend es)"
  using load_adds [OF assms pmm_inv_static(1)]
  by (simp add: pmm_load_def adds_def pmm_inv_static MAX_FREE_REGIONS_def)

definition demo_map :: "mmap_entry list" where
  "demo_map = [(0, 0x9FC00, 1), (0x9FC00, 0x400, 2), (0x100000, 0x1F00000, 1)]"

theorem pmm_load_exact_witness:
  "free_set (pmm_load 0x100000 0x200000 demo_map) = map_pages 0x100000 0x200000 demo_map \<and>
   pmm_load 0x100000 0x200000 demo_map =
     \<lparr>free_regions = [\<lparr>addr = 0xA00000, frames = 0x1600\<rparr>], total_memory = 0x1F00000\<rparr>"
proof -
  have "mmap_ok demo_map"
    by (auto simp: demo_map_def usable_def entry_pages_def range_pages_def)
  moreover have "kernel_ok 0x100000 0x200000" by (simp add: kernel_ok_def)
  ultimately have "free_set (pmm_load 0x100000 0x200000 demo_map) = map_pages 0x100000 0x200000 demo_map"
    using pmm_load_exact [of demo_map] by (simp add: demo_map_def)
  moreover have "pmm_load 0x100000 0x200000 demo_map =
     \<lparr>free_regions = [\<lparr>addr = 0xA00000, frames = 0x1600\<rparr>], total_memory = 0x1F00000\<rparr>"
    by (simp add: pmm_load_def demo_map_def pmm_static_def mmap_callback_def KERNEL_HEAP_SIZE_def
        Let_def add_free_region_def PAGE_SIZE_def align_up_def align_down_def push_region_def
        MAX_FREE_REGIONS_def)
  ultimately show ?thesis by blast
qed



text \<open>
  \<open>pmm_alloc_frames\<close> either returns a page-aligned run of \<open>count\<close> free pages, which leave the
  free set, or returns 0, changes nothing, and no region of the table was large enough.
\<close>

theorem pmm_alloc_frames_contract:
  assumes "pmm_inv p" and "0 < unat count" and "pmm_alloc_frames count p = (a, p')"
  shows "pmm_inv p' \<and>
   (if a = 0 then p' = p \<and> (\<forall>r \<in> set (free_regions p). unat (frames r) < unat count)
    else aligned 4096 a \<and> {page a ..< page a + unat count} \<subseteq> free_set p \<and>
         free_set p' = free_set p - {page a ..< page a + unat count})"
  using pmm_alloc_frames_ok [OF assms] by (auto simp: page_def)

theorem pmm_alloc_frames_contract_witness:
  "pmm_alloc_frames 3 \<lparr>free_regions = [\<lparr>addr = 0xA00000, frames = 2\<rparr>, \<lparr>addr = 0xB00000, frames = 8\<rparr>],
      total_memory = 0\<rparr> = (0xB00000, \<lparr>free_regions = [\<lparr>addr = 0xA00000, frames = 2\<rparr>,
      \<lparr>addr = 0xB03000, frames = 5\<rparr>], total_memory = 0\<rparr>) \<and> aligned 4096 0xB00000"
proof -
  let ?p = "\<lparr>free_regions = [\<lparr>addr = 0xA00000, frames = 2\<rparr>, \<lparr>addr = 0xB00000, frames = 8\<rparr>],
      total_memory = 0\<rparr>"
  have run: "pmm_alloc_frames 3 ?p = (0xB00000, \<lparr>free_regions = [\<lparr>addr = 0xA00000, frames = 2\<rparr>,
      \<lparr>addr = 0xB03000, frames = 5\<rparr>], total_memory = 0\<rparr>)"
    by (simp add: pmm_alloc_frames_def PAGE_SIZE_def)
  have "pmm_inv ?p"
    by (auto simp: pmm_inv_def region_ok_def aligned_def region_pages_def MAX_FREE_REGIONS_def)
  from pmm_alloc_frames_contract [OF this _ run] run show ?thesis by simp
qed

text \<open>
  Freeing a page that is in use returns it. A page-aligned frame that is not free joins the free
  set and nothing else changes, unless all 64 slots of the table are taken and no region touches it:
  then the frame is lost.
\<close>

theorem pmm_free_frame_contract:
  assumes "pmm_inv p" and "aligned 4096 a" and "a \<noteq> 0" and "unat a + 4096 < 2 ^ 64"
    and "page a \<notin> free_set p"
  shows "pmm_inv (pmm_free_frame a p) \<and>
    (if length (free_regions p) < MAX_FREE_REGIONS
     then free_set (pmm_free_frame a p) = insert (page a) (free_set p)
     else free_set (pmm_free_frame a p) \<in> {free_set p, insert (page a) (free_set p)})"
proof -
  have a: "unat a = 4096 * page a" unfolding page_def by (rule aligned_page [OF assms(2)])
  have pos: "0 < page a"
  proof (rule gr0I)
    assume "page a = 0"
    then have "unat a = 0" using a by (metis mult_0_right)
    with assms(3) show False by (simp add: unat_eq_0)
  qed
  have top: "4096 * (page a + 1) < 2 ^ 64"
    using assms(4) unfolding a by (simp only: distrib_left mult_1_right)
  have "returned p {page a} (pmm_free_frame a p)"
    by (rule free_frame_returned [OF assms(1) a pos top assms(5)])
  then have i: "pmm_inv (pmm_free_frame a p)"
    and c: "free_set (pmm_free_frame a p) = insert (page a) (free_set p) \<or>
       free_set (pmm_free_frame a p) = free_set p \<and> length (free_regions p) = MAX_FREE_REGIONS"
    unfolding returned_def Un_insert_right Un_empty_right by (rule conjunct1, blast)
  from c show ?thesis by (rule disjE) (simp_all only: i insert_iff simp_thms if_cancel less_irrefl if_False)
qed

theorem pmm_free_frame_contract_witness:
  "free_set (pmm_free_frame 0x9FF000 \<lparr>free_regions = [\<lparr>addr = 0xA00000, frames = 2\<rparr>], total_memory = 0\<rparr>)
   = insert 0x9FF {0xA00, 0xA01}"
proof -
  let ?p = "\<lparr>free_regions = [\<lparr>addr = 0xA00000, frames = 2\<rparr>], total_memory = 0\<rparr>"
  have "pmm_inv ?p" by (simp add: pmm_inv_def region_ok_def aligned_def MAX_FREE_REGIONS_def)
  moreover have fs: "free_set ?p = {0xA00, 0xA01}" by (auto simp: free_set_def region_pages_def)
  ultimately show ?thesis
    using pmm_free_frame_contract [where p = ?p and a = "0x9FF000"]
    by (simp add: aligned_def page_def MAX_FREE_REGIONS_def)
qed

text \<open>
  The statistics add up: the free memory reported is 4096 bytes for every page of the free set,
  and the used memory is what is left of the total.
\<close>

lemma pmm_statistics:
  assumes "pmm_inv p"
  shows "pmm_free_memory p = of_nat (4096 * card (free_set p)) \<and>
         pmm_used_memory p + pmm_free_memory p = pmm_total_memory p"
  using assms
  by (simp add: pmm_free_memory_def free_memory_sum free_set_def card_pages_of pmm_inv_def
      pmm_used_memory_def pmm_total_memory_def)

end
