(* ===== verification/Vfs.thy ===== *)
theory Vfs
  imports Console Heap
begin

text \<open>
  The in-memory file system (\<open>kernel/fs/vfs.c\<close>): a tree of nodes allocated on the kernel heap.
  A node is a record at its address, directories hold the head of a \<open>vnext\<close>-linked list of
  children, and every node points to its parent. Names and file contents live in heap buffers
  of their own, which nothing writes after they are filled, so a node carries their values.
  A result of \<open>None\<close> is undefined behaviour (a null dereference) or a loop that never ends.
\<close>

subsection \<open>Nodes and the state\<close>

datatype vfs_type = VFS_FILE | VFS_DIR

record vfs_node =
  vname :: "string option"
  vtype :: vfs_type
  vparent :: u64
  vchildren :: u64
  vnext :: u64
  vdata :: "u8 list option"
  vsize :: u64

type_synonym node_map = "u64 \<rightharpoonup> vfs_node"

record vfs =
  nodes :: node_map
  vfs_root :: u64
  vheap :: heap

definition vfs_static :: "heap \<Rightarrow> vfs" where
  "vfs_static h = \<lparr>nodes = Map.empty, vfs_root = 0, vheap = h\<rparr>"

definition SIZEOF_VFS_NODE :: u64 where "SIZEOF_VFS_NODE = 56"

abbreviation slash :: char where "slash \<equiv> CHR ''/''"

definition vfs_kmalloc :: "u64 \<Rightarrow> u64 \<Rightarrow> vfs \<Rightarrow> u64 \<times> vfs" where
  "vfs_kmalloc kend n s = (let (p, h) = kmalloc kend n (vheap s) in (p, s\<lparr>vheap := h\<rparr>))"

definition vfs_strdup :: "u64 \<Rightarrow> string \<Rightarrow> vfs \<Rightarrow> string option \<times> vfs" where
  "vfs_strdup kend str s =
     (let (d, s1) = vfs_kmalloc kend (of_nat (strlen str) + 1) s
      in (if d = 0 then None else Some str, s1))"

definition vfs_node_new :: "u64 \<Rightarrow> string \<Rightarrow> vfs_type \<Rightarrow> vfs \<Rightarrow> u64 \<times> vfs" where
  "vfs_node_new kend name type s =
     (let (n, s1) = vfs_kmalloc kend SIZEOF_VFS_NODE s
      in if n = 0 then (0, s1)
         else let (nm, s2) = vfs_strdup kend name s1
              in (n, s2\<lparr>nodes := (nodes s2)(n \<mapsto>
                    \<lparr>vname = nm, vtype = type, vparent = 0, vchildren = 0, vnext = 0,
                     vdata = None, vsize = 0\<rparr>)\<rparr>))"

subsection \<open>Path resolution\<close>

partial_function (option) find_sibling :: "node_map \<Rightarrow> string \<Rightarrow> u64 \<Rightarrow> u64 option" where
  "find_sibling ns name c =
     (if c = 0 then Some 0
      else case ns c of None \<Rightarrow> None
           | Some n \<Rightarrow> (case vname n of None \<Rightarrow> None
               | Some nm \<Rightarrow> if strcmp nm name = 0 then Some c else find_sibling ns name (vnext n)))"

definition vfs_find_child :: "node_map \<Rightarrow> u64 \<Rightarrow> string \<Rightarrow> u64 option" where
  "vfs_find_child ns dir name =
     (if dir = 0 then Some 0
      else case ns dir of None \<Rightarrow> None
           | Some d \<Rightarrow> if vtype d \<noteq> VFS_DIR then Some 0 else find_sibling ns name (vchildren d))"

fun vfs_resolve_tokens :: "node_map \<Rightarrow> u64 \<Rightarrow> string list \<Rightarrow> u64 option" where
  "vfs_resolve_tokens ns cur [] = Some cur"
| "vfs_resolve_tokens ns cur (tok # toks) =
     (if cs_at tok 0 = NUL \<or> strcmp tok ''.'' = 0 then vfs_resolve_tokens ns cur toks
      else if strcmp tok ''..'' = 0 then
        (case ns cur of None \<Rightarrow> None
         | Some n \<Rightarrow> vfs_resolve_tokens ns (if vparent n \<noteq> 0 then vparent n else cur) toks)
      else case vfs_find_child ns cur tok of None \<Rightarrow> None
           | Some child \<Rightarrow> if child = 0 then Some 0 else vfs_resolve_tokens ns child toks)"

definition MAX_TOKENS :: nat where "MAX_TOKENS = 64"

text \<open>
  The token loop of \<open>vfs_resolve\<close>: each token gets a heap buffer; \<open>None\<close> is the early return when
  the heap is exhausted.
\<close>

function vfs_tokenize :: "u64 \<Rightarrow> string \<Rightarrow> string list \<Rightarrow> vfs \<Rightarrow> string list option \<times> vfs" where
  "vfs_tokenize kend p tokens s =
     (if cs_at p 0 \<noteq> NUL \<and> length tokens < MAX_TOKENS then
        let p1 = dropWhile (\<lambda>c. c = slash) p
        in if cs_at p1 0 = NUL then (Some tokens, s)
           else let tok = takeWhile (\<lambda>c. c \<noteq> NUL \<and> c \<noteq> slash) p1;
                    (buf, s1) = vfs_kmalloc kend (of_nat (length tok) + 1) s
                in if buf = 0 then (None, s1)
                   else vfs_tokenize kend (drop (length tok) p1) (tokens @ [tok]) s1
      else (Some tokens, s))"
  by pat_completeness auto
termination
  by (relation "measure (\<lambda>(kend, p, tokens, s). MAX_TOKENS - length tokens)")
    (auto simp: MAX_TOKENS_def)

declare vfs_tokenize.simps [simp del]

definition vfs_resolve :: "u64 \<Rightarrow> string option \<Rightarrow> u64 \<Rightarrow> vfs \<Rightarrow> (u64 \<times> vfs) option" where
  "vfs_resolve kend path start s =
     (case path of None \<Rightarrow> Some (0, s)
      | Some path \<Rightarrow>
        let start = (if start = 0 then vfs_root s else start)
        in if cs_at path 0 = slash \<and> (cs_at path 1 = NUL \<or> cs_at path 1 = newline)
           then Some (vfs_root s, s)
           else let (start, p) = (if cs_at path 0 = slash then (vfs_root s, drop 1 path) else (start, path));
                    (tokens, s1) = vfs_tokenize kend p [] s
                in case tokens of None \<Rightarrow> Some (0, s1)
                   | Some tokens \<Rightarrow> map_option (\<lambda>res. (res, s1)) (vfs_resolve_tokens (nodes s1) start tokens))"

definition vfs_get_root :: "vfs \<Rightarrow> u64" where
  "vfs_get_root s = vfs_root s"

subsection \<open>Creating and writing\<close>

fun strip_slashes :: "string \<Rightarrow> nat \<Rightarrow> nat" where
  "strip_slashes path 0 = 0"
| "strip_slashes path (Suc l) =
     (if Suc l > 1 \<and> cs_at path l = slash then strip_slashes path l else Suc l)"

fun name_pos :: "string \<Rightarrow> nat \<Rightarrow> nat" where
  "name_pos path 0 = 0"
| "name_pos path (Suc p) = (if cs_at path p \<noteq> slash then name_pos path p else Suc p)"

definition parent_buf :: "string \<Rightarrow> nat \<Rightarrow> string" where
  "parent_buf path pos =
     (if pos = 0 then (if cs_at path 0 = slash then ''/'' else ''.'')
      else List.take (if 256 \<le> pos then 255 else pos) path)"

definition vfs_create :: "u64 \<Rightarrow> string option \<Rightarrow> bool \<Rightarrow> u64 \<Rightarrow> vfs \<Rightarrow> (u64 \<times> vfs) option" where
  "vfs_create kend path is_dir start s =
     (case path of None \<Rightarrow> Some (0, s)
      | Some path \<Rightarrow>
        let start = (if start = 0 then vfs_root s else start);
            len = strip_slashes path (strlen path);
            pos = name_pos path len;
            name = drop pos path
        in case vfs_resolve kend (Some (parent_buf path pos)) start s of None \<Rightarrow> None
           | Some (parent, s1) \<Rightarrow>
             if parent = 0 then Some (0, s1)
             else case nodes s1 parent of None \<Rightarrow> None
             | Some pn \<Rightarrow>
               if vtype pn \<noteq> VFS_DIR then Some (0, s1)
               else case vfs_find_child (nodes s1) parent name of None \<Rightarrow> None
               | Some existing \<Rightarrow>
                 if existing \<noteq> 0 then Some (existing, s1)
                 else let (node, s2) = vfs_node_new kend name (if is_dir then VFS_DIR else VFS_FILE) s1
                      in if node = 0 then Some (0, s2)
                         else case (nodes s2 node, nodes s2 parent) of
                           (Some nn, Some pn) \<Rightarrow>
                             Some (node, s2\<lparr>nodes := (nodes s2)
                               (node \<mapsto> nn\<lparr>vparent := parent, vnext := vchildren pn\<rparr>,
                                parent \<mapsto> pn\<lparr>vchildren := node\<rparr>)\<rparr>)
                         | _ \<Rightarrow> None)"

definition vfs_write_file ::
  "u64 \<Rightarrow> string option \<Rightarrow> u8 list \<Rightarrow> u64 \<Rightarrow> u64 \<Rightarrow> vfs \<Rightarrow> (int \<times> vfs) option" where
  "vfs_write_file kend path data len start s =
     (if path = None then Some (- 1, s)
      else case vfs_create kend path False start s of None \<Rightarrow> None
      | Some (n, s1) \<Rightarrow>
        if n = 0 then Some (- 1, s1)
        else case nodes s1 n of None \<Rightarrow> None
        | Some nn \<Rightarrow>
          if vtype nn \<noteq> VFS_FILE then Some (- 1, s1)
          else let (buf, s2) = vfs_kmalloc kend (len + 1) s1
               in if buf = 0 then Some (- 1, s2)
                  else if length data < unat len then None
                  else Some (0, s2\<lparr>nodes := (nodes s2)
                         (n \<mapsto> nn\<lparr>vdata := Some (List.take (unat len) data), vsize := len\<rparr>)\<rparr>))"

text \<open>The returned pointer (\<open>None\<close> is NULL) and the value stored through \<open>len_out\<close>, if any.\<close>

definition vfs_read_file ::
  "u64 \<Rightarrow> string option \<Rightarrow> u64 \<Rightarrow> vfs \<Rightarrow> ((u8 list option \<times> u64 option) \<times> vfs) option" where
  "vfs_read_file kend path start s =
     (case vfs_resolve kend path start s of None \<Rightarrow> None
      | Some (n, s1) \<Rightarrow>
        if n = 0 then Some ((None, None), s1)
        else case nodes s1 n of None \<Rightarrow> None
        | Some nn \<Rightarrow>
          if vtype nn \<noteq> VFS_FILE then Some ((None, None), s1)
          else Some ((vdata nn, Some (vsize nn)), s1))"

subsection \<open>Listing and printing\<close>

partial_function (option) list_siblings :: "node_map \<Rightarrow> u64 \<Rightarrow> console_op list \<Rightarrow> console_op list option" where
  "list_siblings ns c out =
     (if c = 0 then Some out
      else case ns c of None \<Rightarrow> None
           | Some n \<Rightarrow> (case vname n of None \<Rightarrow> None
               | Some nm \<Rightarrow> list_siblings ns (vnext n) (out @ [TermString nm, TermString '' ''])))"

definition vfs_list_dir ::
  "u64 \<Rightarrow> string option \<Rightarrow> u64 \<Rightarrow> vfs \<Rightarrow> ((int \<times> console_op list) \<times> vfs) option" where
  "vfs_list_dir kend path start s =
     (case vfs_resolve kend path start s of None \<Rightarrow> None
      | Some (n, s1) \<Rightarrow>
        if n = 0 then Some ((- 1, []), s1)
        else case nodes s1 n of None \<Rightarrow> None
        | Some nn \<Rightarrow>
          if vtype nn \<noteq> VFS_DIR then Some ((- 1, []), s1)
          else map_option (\<lambda>out. ((0, out @ [TermString [newline]]), s1))
                 (list_siblings (nodes s1) (vchildren nn) []))"

text \<open>The walk to the root collects at most 64 names, innermost first.\<close>

fun walk_up :: "vfs \<Rightarrow> nat \<Rightarrow> u64 \<Rightarrow> string option list option" where
  "walk_up s 0 cur = Some []"
| "walk_up s (Suc left) cur =
     (if cur = 0 \<or> cur = vfs_root s then Some []
      else case nodes s cur of None \<Rightarrow> None
           | Some n \<Rightarrow> map_option (\<lambda>ps. vname n # ps) (walk_up s left (vparent n)))"

text \<open>\<open>buf\<close> is what has been written so far, so \<open>off\<close> is its length.\<close>

fun join_parts :: "nat \<Rightarrow> string option list \<Rightarrow> string \<Rightarrow> string option" where
  "join_parts buflen [] buf = Some buf"
| "join_parts buflen (part # parts) buf =
     (if buflen \<le> length buf + 1 then Some buf
      else case part of None \<Rightarrow> None
           | Some name \<Rightarrow> let buf1 = buf @ [slash]
                          in join_parts buflen parts (buf1 @ List.take (buflen - 1 - length buf1) name))"

text \<open>
  The string left in \<open>buf\<close>; a null node or an empty buffer leaves it untouched (\<open>Some None\<close>).
\<close>

definition vfs_get_path :: "u64 \<Rightarrow> nat \<Rightarrow> vfs \<Rightarrow> string option option" where
  "vfs_get_path node buflen s =
     (if node = 0 \<or> buflen = 0 then Some None
      else if node = vfs_root s then Some (Some (if 2 \<le> buflen then ''/'' else ''''))
      else case walk_up s 64 node of None \<Rightarrow> None
           | Some parts \<Rightarrow> map_option Some (join_parts buflen (rev parts) ''''))"

subsection \<open>The initial tree\<close>

definition c_bytes :: "string \<Rightarrow> u8 list" where
  "c_bytes str = map of_char str"

definition version_text :: string where "version_text = ''nanaos v0.1'' @ [newline]"
definition about_text :: string where "about_text = ''nanaos experimental operating system'' @ [newline]"
definition readme_text :: string where "readme_text = ''Welcome to nanaos!'' @ [newline]"

definition bind_state :: "('r \<times> 's) option \<Rightarrow> ('s \<Rightarrow> 't option) \<Rightarrow> 't option" where
  "bind_state m f = (case m of None \<Rightarrow> None | Some (r, s) \<Rightarrow> f s)"

definition write_text :: "u64 \<Rightarrow> string \<Rightarrow> string \<Rightarrow> vfs \<Rightarrow> (int \<times> vfs) option" where
  "write_text kend path text s =
     vfs_write_file kend (Some path) (c_bytes text) (of_nat (strlen text)) (vfs_root s) s"

text \<open>\<open>hello_elf\<close> is the array generated at build time in \<open>exec/hello_elf.h\<close>.\<close>

definition vfs_init :: "u64 \<Rightarrow> u8 list \<Rightarrow> vfs \<Rightarrow> (console_op list \<times> vfs) option" where
  "vfs_init kend hello_elf s =
     (if vfs_root s \<noteq> 0 then Some ([], s)
      else let (r, s1) = vfs_node_new kend '''' VFS_DIR s; s2 = s1\<lparr>vfs_root := r\<rparr>
        in if r = 0 then None
           else
             bind_state (vfs_create kend (Some ''/system'') True r s2) (\<lambda>s.
             bind_state (vfs_create kend (Some ''/home'') True r s) (\<lambda>s.
             bind_state (write_text kend ''/system/version'' version_text s) (\<lambda>s.
             bind_state (write_text kend ''/system/about'' about_text s) (\<lambda>s.
             bind_state (write_text kend ''/home/readme.txt'' readme_text s) (\<lambda>s.
             if hello_elf \<noteq> [] then
               bind_state (vfs_create kend (Some ''/bin'') True r s) (\<lambda>s.
               bind_state (vfs_write_file kend (Some ''/bin/hello'') hello_elf
                  (of_nat (length hello_elf)) r s) (\<lambda>s.
               Some (log_info ''[OK] vfs initialized'', s)))
             else Some (log_info ''[OK] vfs initialized'', s)))))))"

subsection \<open>Heap use\<close>

abbreviation brk :: "u64 \<Rightarrow> vfs \<Rightarrow> nat" where
  "brk kend s \<equiv> heap_brk kend (vheap s)"

definition room :: "u64 \<Rightarrow> vfs \<Rightarrow> nat \<Rightarrow> bool" where
  "room kend s n \<longleftrightarrow> heap_inv kend (vheap s) \<and> brk kend s + n \<le> unat kend + 8388608"

lemma room_mono: "room kend s n \<Longrightarrow> m \<le> n \<Longrightarrow> room kend s m"
  by (simp add: room_def)

lemma room_small: "room kend s n \<Longrightarrow> n \<le> 8388608"
  using kheap.ok_brk [of kend "vheap s"] by (auto simp: room_def)

lemma vfs_kmalloc_room:
  assumes "room kend s (n + 7)" and "0 < n"
  obtains a h' where "vfs_kmalloc kend (of_nat n) s = (a, s\<lparr>vheap := h'\<rparr>)" "a \<noteq> 0"
    "unat a = brk kend s" "heap_inv kend h'"
    "brk kend s < heap_brk kend h'" "heap_brk kend h' \<le> brk kend s + n + 7"
proof -
  have n: "n \<le> 8388608" using room_small [OF assms(1)] by simp
  then have u: "unat (of_nat n :: u64) = n" by (simp add: unat_of_nat_small)
  have inv: "heap_inv kend (vheap s)" using assms(1) by (simp add: room_def)
  obtain a h' where m: "kmalloc kend (of_nat n) (vheap s) = (a, h')"
    by (cases "kmalloc kend (of_nat n) (vheap s)")
  have z: "(0 :: u64) < of_nat n" using u assms(2) by (simp add: word_less_nat_alt)
  have r: "(n + 7) div 8 * 8 \<le> n + 7" "0 < (n + 7) div 8 * 8" using assms(2) by auto
  have "a \<noteq> 0"
    using kheap.alloc_room [OF inv z] assms(1) r(1) u n m unfolding room_def by fastforce
  with kheap.alloc_some [OF inv _ m] kheap.alloc_ok [OF inv _ m] r u n m that show ?thesis
    by (auto simp: vfs_kmalloc_def)
qed

subsection \<open>Tokens\<close>

text \<open>The components of a path: its maximal runs of characters other than the slash.\<close>

fun splits :: "string \<Rightarrow> string list" where
  "splits [] = [[]]"
| "splits (c # p) =
     (if c = slash then [] # splits p
      else case splits p of [] \<Rightarrow> [[c]] | t # ts \<Rightarrow> (c # t) # ts)"

definition path_tokens :: "string \<Rightarrow> string list" where
  "path_tokens p = filter (\<lambda>t. t \<noteq> []) (splits p)"

lemma splits_not_Nil [simp]: "splits p \<noteq> []"
  by (cases p) (auto split: list.splits)

lemma splits_append: "splits (d @ slash # n) = splits d @ splits n"
proof (induction d)
  case (Cons c d)
  then show ?case by (cases "splits d") auto
qed simp

lemma splits_name: "slash \<notin> set n \<Longrightarrow> splits n = [n]"
  by (induction n) auto

lemma splits_mem: "t \<in> set (splits p) \<Longrightarrow> slash \<notin> set t \<and> set t \<subseteq> set p"
proof (induction p arbitrary: t)
  case (Cons c p)
  obtain u us where u: "splits p = u # us" by (cases "splits p") auto
  show ?case
  proof (cases "c = slash")
    case True
    with Cons show ?thesis by auto
  next
    case False
    with Cons.prems u have "t = c # u \<or> t \<in> set us" by auto
    with Cons.IH u False show ?thesis by fastforce
  qed
qed simp

lemma path_tokens_Nil [simp]: "path_tokens [] = []"
  by (simp add: path_tokens_def)

lemma path_tokens_slash [simp]: "path_tokens (slash # p) = path_tokens p"
  by (simp add: path_tokens_def)

lemma path_tokens_skip: "path_tokens (dropWhile (\<lambda>c. c = slash) p) = path_tokens p"
  by (induction p) auto

lemma path_tokens_name: "n \<noteq> [] \<Longrightarrow> slash \<notin> set n \<Longrightarrow> path_tokens n = [n]"
  by (simp add: path_tokens_def splits_name)

lemma path_tokens_append: "path_tokens (d @ slash # n) = path_tokens d @ path_tokens n"
  by (simp add: path_tokens_def splits_append)

lemma path_tokens_mem:
  "t \<in> set (path_tokens p) \<Longrightarrow> t \<noteq> [] \<and> slash \<notin> set t \<and> set t \<subseteq> set p"
  using splits_mem by (auto simp: path_tokens_def)

text \<open>One round of the loop: the first token, and what is left after it.\<close>

lemma path_tokens_step:
  assumes "p \<noteq> []" "hd p \<noteq> slash"
  shows "path_tokens p = takeWhile (\<lambda>c. c \<noteq> slash) p # path_tokens (dropWhile (\<lambda>c. c \<noteq> slash) p)"
proof (cases "slash \<in> set p")
  case True
  then obtain d n where p: "p = d @ slash # n" "slash \<notin> set d" by (auto dest: split_list_first)
  then have "d \<noteq> []" using assms by auto
  moreover have "takeWhile (\<lambda>c. c \<noteq> slash) p = d" "dropWhile (\<lambda>c. c \<noteq> slash) p = slash # n"
    using p by (auto simp: takeWhile_append dropWhile_append takeWhile_eq_all_conv dropWhile_eq_Nil_conv)
  ultimately show ?thesis using p by (simp add: path_tokens_append path_tokens_name)
next
  case False
  then have "takeWhile (\<lambda>c. c \<noteq> slash) p = p" "dropWhile (\<lambda>c. c \<noteq> slash) p = []"
    by (auto simp: takeWhile_eq_all_conv dropWhile_eq_Nil_conv)
  note parts = this
  have "path_tokens p = [p]" using False assms by (simp add: path_tokens_name)
  then show ?thesis unfolding parts by simp
qed

lemma tokenize_eq:
  assumes "is_cstr p" "room kend s (9 * length p)" "length tokens \<le> MAX_TOKENS"
  shows "\<exists>h'. vfs_tokenize kend p tokens s
      = (Some (List.take MAX_TOKENS (tokens @ path_tokens p)), s\<lparr>vheap := h'\<rparr>) \<and>
    heap_inv kend h' \<and> brk kend s \<le> heap_brk kend h' \<and> heap_brk kend h' \<le> brk kend s + 9 * length p"
  using assms
proof (induction kend p tokens s rule: vfs_tokenize.induct)
  case (1 kend p tokens s)
  let ?p = "dropWhile (\<lambda>c. c = slash) p"
  have inv: "heap_inv kend (vheap s)" using 1(3) by (simp add: room_def)
  have cp: "is_cstr ?p" using 1(2) by (auto simp: is_cstr_def dest: set_dropWhileD)
  have lp: "length ?p \<le> length p" by (rule length_dropWhile_le)
  show ?case
  proof (cases "cs_at p 0 \<noteq> NUL \<and> length tokens < MAX_TOKENS")
    case False
    then have "p = [] \<or> length tokens = MAX_TOKENS"
      using 1(2,4) by (cases p) auto
    then have "List.take MAX_TOKENS (tokens @ path_tokens p) = tokens" using 1(4) by auto
    with False inv show ?thesis
      by (subst vfs_tokenize.simps) (auto intro!: exI [where x = "vheap s"])
  next
    case T: True
    show ?thesis
    proof (cases "?p = []")
      case True
      then have "path_tokens p = []" by (metis path_tokens_Nil path_tokens_skip)
      moreover have "vfs_tokenize kend p tokens s = (Some tokens, s)"
        by (subst vfs_tokenize.simps) (simp only: T True Let_def cs_at_Nil simp_thms if_True)
      ultimately show ?thesis using inv 1(4) by (intro exI [where x = "vheap s"]) simp
    next
      case False
      let ?t = "takeWhile (\<lambda>c. c \<noteq> slash) ?p" and ?r = "dropWhile (\<lambda>c. c \<noteq> slash) ?p"
      have hd: "hd ?p \<noteq> slash" using hd_dropWhile [OF False] by simp
      have nz: "cs_at ?p 0 \<noteq> NUL" using cp False by (cases ?p) auto
      have tw: "takeWhile (\<lambda>c. c \<noteq> NUL \<and> c \<noteq> slash) ?p = ?t"
        using cp by (intro takeWhile_cong) (auto simp: is_cstr_def)
      have dr: "drop (length ?t) ?p = ?r" by (simp add: dropWhile_eq_drop)
      have lt: "length ?t + length ?r = length ?p" by (metis length_append takeWhile_dropWhile_id)
      have pos: "0 < length ?t" using False hd by (cases ?p) auto
      have "room kend s ((length ?t + 1) + 7)"
        by (rule room_mono [OF 1(3)]) (use lt lp pos in linarith)
      then obtain a h1 where m: "vfs_kmalloc kend (of_nat (length ?t + 1)) s = (a, s\<lparr>vheap := h1\<rparr>)"
        "a \<noteq> 0" "heap_inv kend h1" "brk kend s < heap_brk kend h1"
        "heap_brk kend h1 \<le> brk kend s + (length ?t + 1) + 7"
        by (rule vfs_kmalloc_room) simp
      let ?s1 = "s\<lparr>vheap := h1\<rparr>"
      have m1: "vfs_kmalloc kend (of_nat (length ?t) + 1) s = (a, ?s1)"
        using m(1) by (simp add: add.commute)
      have cr: "is_cstr ?r" using cp by (auto simp: is_cstr_def dest: set_dropWhileD)
      have "heap_brk kend h1 + 9 * length ?r \<le> unat kend + 8388608"
        using 1(3) m(5) lt lp pos unfolding room_def by linarith
      then have "room kend ?s1 (9 * length ?r)" using m(3) by (simp add: room_def)
      moreover have "length (tokens @ [?t]) \<le> MAX_TOKENS" using T by simp
      ultimately obtain h2 where
        IH: "vfs_tokenize kend ?r (tokens @ [?t]) ?s1
             = (Some (List.take MAX_TOKENS ((tokens @ [?t]) @ path_tokens ?r)), ?s1\<lparr>vheap := h2\<rparr>)"
           "heap_inv kend h2" "heap_brk kend h1 \<le> heap_brk kend h2"
           "heap_brk kend h2 \<le> heap_brk kend h1 + 9 * length ?r"
        using 1(1) [OF T refl nz, of ?t "(a, ?s1)" a ?s1] cr tw dr m1 m(2) by auto
      have "path_tokens p = ?t # path_tokens ?r"
        using path_tokens_step [OF False hd] by (simp add: path_tokens_skip)
      then have "vfs_tokenize kend p tokens s
          = (Some (List.take MAX_TOKENS (tokens @ path_tokens p)), s\<lparr>vheap := h2\<rparr>)"
        using T nz m1 m(2) IH(1) tw dr
        by (subst vfs_tokenize.simps) (simp add: Let_def)
      moreover have "heap_brk kend h2 \<le> brk kend s + 9 * length p" using IH(4) m(5) lt lp pos by linarith
      ultimately show ?thesis using IH(2,3) m(4) by (intro exI [where x = h2]) simp
    qed
  qed
qed

text \<open>What \<open>vfs_resolve\<close> computes, apart from its use of the heap.\<close>

definition resolve_spec :: "vfs \<Rightarrow> string \<Rightarrow> u64 \<Rightarrow> u64 option" where
  "resolve_spec s path start =
     (if cs_at path 0 = slash \<and> (cs_at path 1 = NUL \<or> cs_at path 1 = newline) then Some (vfs_root s)
      else vfs_resolve_tokens (nodes s)
             (if cs_at path 0 = slash \<or> start = 0 then vfs_root s else start)
             (List.take MAX_TOKENS (path_tokens path)))"

lemma path_tokens_drop: "cs_at path 0 = slash \<Longrightarrow> path_tokens (drop 1 path) = path_tokens path"
  by (cases path) auto

lemma vfs_resolve_eq:
  assumes "is_cstr path" "room kend s (9 * length path)"
  shows "\<exists>h'. vfs_resolve kend (Some path) start s
      = map_option (\<lambda>r. (r, s\<lparr>vheap := h'\<rparr>)) (resolve_spec s path start) \<and>
    heap_inv kend h' \<and> brk kend s \<le> heap_brk kend h' \<and> heap_brk kend h' \<le> brk kend s + 9 * length path"
proof -
  let ?q = "if cs_at path 0 = slash then drop 1 path else path"
  have q: "is_cstr ?q" "length ?q \<le> length path"
    using assms(1) by (auto simp: is_cstr_def dest: in_set_dropD)
  have inv: "heap_inv kend (vheap s)" using assms(2) by (simp add: room_def)
  have "room kend s (9 * length ?q)" by (rule room_mono [OF assms(2)]) (use q in simp)
  from tokenize_eq [OF q(1) this, of "[]"] obtain h' where t:
    "vfs_tokenize kend ?q [] s = (Some (List.take MAX_TOKENS (path_tokens ?q)), s\<lparr>vheap := h'\<rparr>)"
    "heap_inv kend h'" "brk kend s \<le> heap_brk kend h'" "heap_brk kend h' \<le> brk kend s + 9 * length ?q"
    by auto
  have pt: "path_tokens ?q = path_tokens path" using path_tokens_drop by simp
  show ?thesis
  proof (cases "cs_at path 0 = slash \<and> (cs_at path 1 = NUL \<or> cs_at path 1 = newline)")
    case True
    with inv show ?thesis
      by (intro exI [where x = "vheap s"]) (simp add: vfs_resolve_def resolve_spec_def Let_def)
  next
    case False
    show ?thesis
    proof (cases "cs_at path 0 = slash")
      case True
      with False t pt q show ?thesis
        by (intro exI [where x = h']) (auto simp: vfs_resolve_def resolve_spec_def Let_def)
    next
      case False
      with t pt q show ?thesis
        by (intro exI [where x = h']) (auto simp: vfs_resolve_def resolve_spec_def Let_def)
    qed
  qed
qed

subsection \<open>The tree invariant\<close>

definition nexts :: "node_map \<Rightarrow> u64 \<Rightarrow> u64 option" where
  "nexts ns a = map_option vnext (ns a)"

definition name_at :: "node_map \<Rightarrow> u64 \<Rightarrow> string option" where
  "name_at ns a = Option.bind (ns a) vname"

text \<open>\<open>kids ns a xs\<close>: the child list of the node at \<open>a\<close> is \<open>xs\<close>.\<close>

definition kids :: "node_map \<Rightarrow> u64 \<Rightarrow> u64 list \<Rightarrow> bool" where
  "kids ns a xs \<longleftrightarrow> (\<exists>n. ns a = Some n \<and> chain (nexts ns) (vchildren n) xs)"

definition kid_ok :: "node_map \<Rightarrow> u64 \<Rightarrow> u64 \<Rightarrow> bool" where
  "kid_ok ns a x \<longleftrightarrow> (\<exists>m nm. ns x = Some m \<and> vparent m = a \<and> vname m = Some nm)"

text \<open>
  Every node has a name, every node but the root has a directory allocated before it as its
  parent and is in that directory's child list, the child lists are linked lists of nodes that
  point back with distinct names, files have no children, and a file's size is that of its data.
\<close>

definition node_ok :: "node_map \<Rightarrow> u64 \<Rightarrow> u64 \<Rightarrow> vfs_node \<Rightarrow> bool" where
  "node_ok ns root a n \<longleftrightarrow>
     (\<exists>nm. vname n = Some nm \<and> is_cstr nm) \<and>
     (if a = root then vparent n = 0 \<and> vtype n = VFS_DIR
      else \<exists>p xs. ns (vparent n) = Some p \<and> vtype p = VFS_DIR \<and> vparent n < a \<and>
             kids ns (vparent n) xs \<and> a \<in> set xs) \<and>
     (\<exists>xs. kids ns a xs \<and> (\<forall>x \<in> set xs. kid_ok ns a x) \<and> distinct (map (name_at ns) xs) \<and>
           (vtype n = VFS_FILE \<longrightarrow> xs = [])) \<and>
     (case vdata n of None \<Rightarrow> vsize n = 0 | Some d \<Rightarrow> length d = unat (vsize n))"

definition tree_ok :: "node_map \<Rightarrow> u64 \<Rightarrow> bool" where
  "tree_ok ns root \<longleftrightarrow> root \<noteq> 0 \<and> ns 0 = None \<and> root \<in> dom ns \<and> (\<forall>a n. ns a = Some n \<longrightarrow> node_ok ns root a n)"

definition vfs_inv :: "u64 \<Rightarrow> vfs \<Rightarrow> bool" where
  "vfs_inv kend s \<longleftrightarrow> heap_inv kend (vheap s) \<and> tree_ok (nodes s) (vfs_root s) \<and>
     (\<forall>a \<in> dom (nodes s). unat a < brk kend s)"

lemma tree_okD:
  assumes "tree_ok ns root" "ns a = Some n"
  obtains nm xs where "vname n = Some nm" "is_cstr nm" "kids ns a xs" "\<forall>x \<in> set xs. kid_ok ns a x"
    "distinct (map (name_at ns) xs)" "vtype n = VFS_FILE \<longrightarrow> xs = []" "a \<noteq> 0"
  using assms unfolding tree_ok_def node_ok_def by (metis option.distinct(1))

lemma nexts_apply: "ns x = Some m \<Longrightarrow> nexts ns x = Some (vnext m)"
  by (simp add: nexts_def)

lemma kids_unique: "kids ns a xs \<Longrightarrow> kids ns a ys \<Longrightarrow> xs = ys"
  by (auto simp: kids_def intro: chain_unique)

lemma find_sibling_chain:
  assumes "chain (nexts ns) c xs" "\<forall>x \<in> set xs. kid_ok ns a x" "is_cstr name"
    "\<forall>x \<in> set xs. \<forall>nm. name_at ns x = Some nm \<longrightarrow> is_cstr nm"
  shows "find_sibling ns name c =
    Some (case find (\<lambda>x. name_at ns x = Some name) xs of None \<Rightarrow> 0 | Some x \<Rightarrow> x)"
  using assms
proof (induction xs arbitrary: c)
  case Nil
  then show ?case by (simp add: find_sibling.simps)
next
  case (Cons x xs)
  then obtain m nm where m: "ns x = Some m" "vname m = Some nm" by (auto simp: kid_ok_def)
  then have cs: "is_cstr nm" using Cons.prems(4) by (auto simp: name_at_def)
  have c: "c = x" "x \<noteq> 0" "chain (nexts ns) (vnext m) xs"
    using Cons.prems(1) nexts_apply [of ns, OF m(1)] by auto
  show ?case
  proof (cases "nm = name")
    case True
    then show ?thesis using c m strcmp_zero [OF cs Cons.prems(3)]
      by (subst find_sibling.simps) (simp add: name_at_def)
  next
    case False
    then show ?thesis using c m strcmp_zero [OF cs Cons.prems(3)] Cons.IH [OF c(3)] Cons.prems
      by (subst find_sibling.simps) (simp add: name_at_def)
  qed
qed

lemma kid_names:
  assumes "tree_ok ns root" "\<forall>x \<in> set xs. kid_ok ns a x"
  shows "\<forall>x \<in> set xs. \<forall>nm. name_at ns x = Some nm \<longrightarrow> is_cstr nm"
proof (intro ballI allI impI)
  fix x nm assume x: "x \<in> set xs" "name_at ns x = Some nm"
  then obtain m where m: "ns x = Some m" "vname m = Some nm" by (auto simp: name_at_def bind_eq_Some_conv)
  from tree_okD [OF assms(1) m(1)] m(2) show "is_cstr nm" by (metis option.inject)
qed

text \<open>The directory lookup: it never fails, and finds the child of that name.\<close>

lemma find_child_kids:
  assumes "tree_ok ns root" "ns d = Some n" "is_cstr name" "kids ns d xs"
  shows "vfs_find_child ns d name =
    Some (case find (\<lambda>x. name_at ns x = Some name) xs of None \<Rightarrow> 0 | Some x \<Rightarrow> x)"
proof -
  from tree_okD [OF assms(1,2)] obtain ys where y: "kids ns d ys" "\<forall>x \<in> set ys. kid_ok ns d x"
    "vtype n = VFS_FILE \<longrightarrow> ys = []" "d \<noteq> 0" by metis
  have "ys = xs" by (rule kids_unique [OF y(1) assms(4)])
  with y assms(2,4) find_sibling_chain [OF _ _ assms(3) kid_names [OF assms(1)], of "vchildren n" xs d]
  show ?thesis by (cases "vtype n") (auto simp: vfs_find_child_def kids_def)
qed

lemma find_child_some:
  assumes "tree_ok ns root" "ns d = Some n" "is_cstr name"
  obtains c where "vfs_find_child ns d name = Some c"
    "c = 0 \<or> (\<exists>m. ns c = Some m \<and> vparent m = d \<and> vname m = Some name)"
proof -
  from tree_okD [OF assms(1,2)] obtain xs where x: "kids ns d xs" "\<forall>x \<in> set xs. kid_ok ns d x"
    by metis
  let ?f = "find (\<lambda>x. name_at ns x = Some name) xs"
  have "vfs_find_child ns d name = Some (case ?f of None \<Rightarrow> 0 | Some x \<Rightarrow> x)"
    by (rule find_child_kids [OF assms x(1)])
  moreover have "?f = None \<or> (\<exists>c m. ?f = Some c \<and> ns c = Some m \<and> vparent m = d \<and> vname m = Some name)"
  proof (cases ?f)
    case (Some c)
    then have "c \<in> set xs" "name_at ns c = Some name" by (auto simp: find_Some_iff)
    with x(2) Some show ?thesis by (auto simp: name_at_def kid_ok_def)
  qed simp
  ultimately show ?thesis using that by fastforce
qed

subsection \<open>Inserting a node\<close>

definition can_insert :: "node_map \<Rightarrow> u64 \<Rightarrow> u64 \<Rightarrow> vfs_node \<Rightarrow> u64 \<Rightarrow> string \<Rightarrow> bool" where
  "can_insert ns root p pn a nm \<longleftrightarrow> tree_ok ns root \<and> ns p = Some pn \<and> vtype pn = VFS_DIR \<and>
     a \<noteq> 0 \<and> (\<forall>b \<in> dom ns. b < a) \<and> is_cstr nm \<and> vfs_find_child ns p nm = Some 0"

definition insert_node :: "node_map \<Rightarrow> u64 \<Rightarrow> vfs_node \<Rightarrow> u64 \<Rightarrow> string \<Rightarrow> vfs_type \<Rightarrow> node_map" where
  "insert_node ns p pn a nm ty = ns
     (a \<mapsto> \<lparr>vname = Some nm, vtype = ty, vparent = p, vchildren = 0, vnext = vchildren pn,
          vdata = None, vsize = 0\<rparr>,
      p \<mapsto> pn\<lparr>vchildren := a\<rparr>)"

lemma can_insertD:
  assumes "can_insert ns root p pn a nm"
  shows "tree_ok ns root" "ns p = Some pn" "vtype pn = VFS_DIR" "a \<noteq> 0" "ns a = None" "a \<noteq> p"
    "is_cstr nm" "vfs_find_child ns p nm = Some 0" "\<And>b n. ns b = Some n \<Longrightarrow> b < a"
proof -
  have lt: "b < a" if "ns b = Some n" for b n
    using assms that unfolding can_insert_def by blast
  then show "b < a" if "ns b = Some n" for b n using that .
  show "ns a = None" using lt [of a] by (cases "ns a") auto
  have "ns p = Some pn" using assms unfolding can_insert_def by blast
  from lt [OF this] show "a \<noteq> p" by simp
qed (use assms in \<open>simp_all add: can_insert_def\<close>)

lemma kid_notin: "\<forall>x \<in> set xs. kid_ok ns d x \<Longrightarrow> ns a = None \<Longrightarrow> a \<notin> set xs"
  by (auto simp: kid_ok_def)

lemma nexts_insert:
  "can_insert ns root p pn a nm \<Longrightarrow>
   nexts (insert_node ns p pn a nm ty) = (nexts ns)(a \<mapsto> vchildren pn)"
  by (rule ext) (auto simp: nexts_def insert_node_def dest: can_insertD)

lemma kids_dom: "tree_ok ns root \<Longrightarrow> kids ns d xs \<Longrightarrow> x \<in> set xs \<Longrightarrow> kid_ok ns d x"
  unfolding kids_def by (metis kids_def kids_unique tree_okD)

lemma kids_insert:
  assumes c: "can_insert ns root p pn a nm" and k: "kids ns d xs"
  shows "kids (insert_node ns p pn a nm ty) d (if d = p then a # xs else xs)"
proof -
  note D = can_insertD [OF c]
  have na: "a \<notin> set xs"
    by (rule kid_notin [where ns = ns and d = d]) (use kids_dom [OF D(1) k] D(5) in blast)+
  obtain n where n: "ns d = Some n" "chain (nexts ns) (vchildren n) xs" using k by (auto simp: kids_def)
  show ?thesis
  proof (cases "d = p")
    case True
    with n na D(2,4) show ?thesis
      unfolding kids_def nexts_insert [OF c] by (simp add: insert_node_def)
  next
    case False
    moreover have "d \<noteq> a" using n(1) D(5) by auto
    ultimately show ?thesis
      using n na unfolding kids_def nexts_insert [OF c] by (simp add: insert_node_def)
  qed
qed

lemma kids_insert_new:
  "can_insert ns root p pn a nm \<Longrightarrow> kids (insert_node ns p pn a nm ty) a []"
  using can_insertD(6) by (simp add: kids_def insert_node_def)

lemma name_at_insert:
  assumes "can_insert ns root p pn a nm"
  shows "name_at (insert_node ns p pn a nm ty) x = (if x = a then Some nm else name_at ns x)"
  using can_insertD [OF assms] by (auto simp: name_at_def insert_node_def)

lemma name_fresh:
  assumes c: "can_insert ns root p pn a nm" and k: "kids ns p xs"
  shows "Some nm \<notin> name_at ns ` set xs"
proof -
  note D = can_insertD [OF c]
  have "find (\<lambda>x. name_at ns x = Some nm) xs = None"
  proof (rule ccontr)
    assume "find (\<lambda>x. name_at ns x = Some nm) xs \<noteq> None"
    then obtain x where x: "find (\<lambda>x. name_at ns x = Some nm) xs = Some x" by blast
    then have "x \<in> set xs" by (auto simp: find_Some_iff)
    then have "kid_ok ns p x" by (rule kids_dom [OF D(1) k])
    then have "x \<noteq> 0" using D(1) by (auto simp: kid_ok_def tree_ok_def)
    with find_child_kids [OF D(1,2,7) k] x D(8) show False by simp
  qed
  then show ?thesis by (force simp: find_None_iff)
qed

lemma tree_ok_insert:
  assumes c: "can_insert ns root p pn a nm"
  shows "tree_ok (insert_node ns p pn a nm ty) root"
proof -
  let ?ns = "insert_node ns p pn a nm ty"
  note D = can_insertD [OF c]
  have at: "?ns b = (if b = p then Some (pn\<lparr>vchildren := a\<rparr>)
      else if b = a then Some \<lparr>vname = Some nm, vtype = ty, vparent = p, vchildren = 0,
        vnext = vchildren pn, vdata = None, vsize = 0\<rparr> else ns b)" for b
    by (simp add: insert_node_def)
  have r: "root \<noteq> 0" "ns 0 = None" "root \<in> dom ns" "root \<noteq> a" "p \<noteq> 0"
    using D by (auto simp: tree_ok_def)
  have kid: "kid_ok ?ns d x" if "kid_ok ns d x" for d x
    using that D(2,5) by (auto simp: kid_ok_def at)
  have "node_ok ?ns root b n" if b: "?ns b = Some n" for b n
  proof (cases "b = a")
    case True
    then have n: "n = \<lparr>vname = Some nm, vtype = ty, vparent = p, vchildren = 0,
        vnext = vchildren pn, vdata = None, vsize = 0\<rparr>" using b D(6) by (simp add: at)
    obtain xs where xs: "kids ns p xs" using tree_okD [OF D(1,2)] by metis
    have "kids ?ns p (a # xs)" using kids_insert [OF c xs] by simp
    moreover have "?ns p = Some (pn\<lparr>vchildren := a\<rparr>)" by (simp add: at)
    ultimately have "\<exists>q ys. ?ns p = Some q \<and> vtype q = VFS_DIR \<and> p < a \<and> kids ?ns p ys \<and> a \<in> set ys"
      using D(3) D(9) [OF D(2)] by (intro exI [where x = "pn\<lparr>vchildren := a\<rparr>"] exI [where x = "a # xs"]) simp
    moreover have "\<exists>ys. kids ?ns a ys \<and> (\<forall>x \<in> set ys. kid_ok ?ns a x) \<and>
        distinct (map (name_at ?ns) ys) \<and> (ty = VFS_FILE \<longrightarrow> ys = [])"
      using kids_insert_new [OF c, of ty] by (intro exI [where x = "[]"]) simp
    ultimately show ?thesis using True n r(4) D(7) unfolding node_ok_def by simp
  next
    case False
    obtain m where m: "ns b = Some m" "vname n = vname m" "vtype n = vtype m" "vparent n = vparent m"
      "vdata n = vdata m" "vsize n = vsize m"
      using b False D(2) by (auto simp: at split: if_splits)
    have ok: "node_ok ns root b m" using D(1) m(1) by (simp add: tree_ok_def)
    have par: "\<exists>q ys. ?ns (vparent m) = Some q \<and> vtype q = VFS_DIR \<and> vparent m < b \<and>
          kids ?ns (vparent m) ys \<and> b \<in> set ys" if "b \<noteq> root"
    proof -
      from ok that obtain q ys where q: "ns (vparent m) = Some q" "vtype q = VFS_DIR" "vparent m < b"
          "kids ns (vparent m) ys" "b \<in> set ys" by (auto simp: node_ok_def)
      have "vparent m \<noteq> a" using q(1) D(5) by auto
      then obtain q' where "?ns (vparent m) = Some q'" "vtype q' = VFS_DIR"
        using q(1,2) D(3) by (cases "vparent m = p") (simp_all add: at)
      moreover obtain ys' where "kids ?ns (vparent m) ys'" "b \<in> set ys'"
        using q(5) kids_insert [OF c q(4), of ty] by (cases "vparent m = p") auto
      ultimately show ?thesis using q(3) by blast
    qed
    from ok obtain xs where xs: "kids ns b xs" "\<forall>x \<in> set xs. kid_ok ns b x"
        "distinct (map (name_at ns) xs)" "vtype m = VFS_FILE \<longrightarrow> xs = []" by (auto simp: node_ok_def)
    have na: "a \<notin> set xs" using xs(2) D(5) by (auto simp: kid_ok_def)
    have nm: "map (name_at ?ns) xs = map (name_at ns) xs" using na by (auto simp: name_at_insert [OF c])
    have "\<exists>ys. kids ?ns b ys \<and> (\<forall>x \<in> set ys. kid_ok ?ns b x) \<and> distinct (map (name_at ?ns) ys) \<and>
        (vtype m = VFS_FILE \<longrightarrow> ys = [])"
    proof (cases "b = p")
      case True
      have "kid_ok ?ns p a" using D(6) by (simp add: kid_ok_def at)
      then have "\<forall>x \<in> set (a # xs). kid_ok ?ns b x" using True xs(2) kid by auto
      moreover have "distinct (map (name_at ?ns) (a # xs))"
        using name_fresh [OF c, of xs] xs(1,3) True
        by (simp only: list.map nm distinct.simps set_map name_at_insert [OF c] if_True refl simp_thms)
      moreover have "kids ?ns b (a # xs)" using kids_insert [OF c xs(1), of ty] True by simp
      moreover have "vtype m \<noteq> VFS_FILE" using True D(2,3) m(1) by auto
      ultimately show ?thesis by blast
    next
      case False
      then have "kids ?ns b xs" using kids_insert [OF c xs(1), of ty] by simp
      moreover have "distinct (map (name_at ?ns) xs)" unfolding nm by (rule xs(3))
      moreover have "\<forall>x \<in> set xs. kid_ok ?ns b x" using xs(2) kid by blast
      ultimately show ?thesis using xs(4) by blast
    qed
    with ok par show ?thesis unfolding node_ok_def m(2-6) by auto
  qed
  then show ?thesis using r D(4,6) unfolding tree_ok_def by (auto simp: at)
qed

text \<open>Afterwards exactly the new name resolves to the new node; every other lookup is unchanged.\<close>

lemma find_child_insert:
  assumes c: "can_insert ns root p pn a nm" and d: "ns d = Some n" and name: "is_cstr name"
  shows "vfs_find_child (insert_node ns p pn a nm ty) d name =
    (if d = p \<and> name = nm then Some a else vfs_find_child ns d name)"
proof -
  let ?ns = "insert_node ns p pn a nm ty"
  note D = can_insertD [OF c]
  from tree_okD [OF D(1) d] obtain xs where xs: "kids ns d xs" "\<forall>x \<in> set xs. kid_ok ns d x" by metis
  have "\<exists>n'. ?ns d = Some n'" using d by (simp add: insert_node_def)
  then obtain n' where n': "?ns d = Some n'" ..
  have na: "a \<notin> set xs" using xs(2) D(5) by (rule kid_notin)
  have "find (\<lambda>x. name_at ?ns x = Some name) xs = find (\<lambda>x. name_at ns x = Some name) xs"
    using na by (intro find_cong) (auto simp: name_at_insert [OF c])
  then show ?thesis
    using find_child_kids [OF tree_ok_insert [OF c] n' name kids_insert [OF c xs(1)]]
      find_child_kids [OF D(1) d name xs(1)]
    by (auto simp: name_at_insert [OF c])
qed

subsection \<open>Walking the tree\<close>

lemma walk_append:
  "vfs_resolve_tokens ns cur ts = Some r \<Longrightarrow> r \<noteq> 0 \<Longrightarrow>
   vfs_resolve_tokens ns cur (ts @ us) = vfs_resolve_tokens ns r us"
  by (induction ts arbitrary: cur) (auto split: option.splits if_splits)

lemma walk_fails_append:
  "vfs_resolve_tokens ns cur ts = Some 0 \<Longrightarrow> cur \<noteq> 0 \<Longrightarrow> vfs_resolve_tokens ns cur (ts @ us) = Some 0"
  by (induction ts arbitrary: cur) (auto split: option.splits if_splits)

lemma tree_parent:
  assumes "tree_ok ns root" "ns a = Some n" "vparent n \<noteq> 0"
  shows "\<exists>p. ns (vparent n) = Some p"
  using assms unfolding tree_ok_def node_ok_def by metis

lemma walk_some:
  assumes "tree_ok ns root" "\<forall>t \<in> set ts. is_cstr t" "cur \<in> dom ns"
  shows "\<exists>r. vfs_resolve_tokens ns cur ts = Some r \<and> (r = 0 \<or> r \<in> dom ns)"
  using assms(2,3)
proof (induction ts arbitrary: cur)
  case (Cons t ts)
  from Cons.prems(2) obtain n where n: "ns cur = Some n" by blast
  obtain c where c: "vfs_find_child ns cur t = Some c" "c = 0 \<or> c \<in> dom ns"
    using find_child_some [OF assms(1) n] Cons.prems(1) by (metis domI list.set_intros(1))
  have "vparent n \<noteq> 0 \<Longrightarrow> vparent n \<in> dom ns" using tree_parent [OF assms(1) n] by blast
  with Cons c n show ?case by auto
qed auto

lemma walk_insert:
  assumes c: "can_insert ns root p pn a nm" and ts: "\<forall>t \<in> set ts. is_cstr t" and "cur \<in> dom ns"
    and w: "vfs_resolve_tokens ns cur ts = Some r" and r: "r \<noteq> 0"
  shows "vfs_resolve_tokens (insert_node ns p pn a nm ty) cur ts = Some r"
  using ts w assms(3)
proof (induction ts arbitrary: cur)
  case (Cons t ts)
  let ?ns = "insert_node ns p pn a nm ty"
  note D = can_insertD [OF c]
  from Cons.prems(3) obtain n where n: "ns cur = Some n" by blast
  have t: "is_cstr t" using Cons.prems(1) by simp
  have "\<exists>n'. ?ns cur = Some n' \<and> vparent n' = vparent n"
    using n D(2,5) by (cases "cur = p"; cases "cur = a") (simp_all add: insert_node_def)
  then obtain n' where n': "?ns cur = Some n'" "vparent n' = vparent n" by blast
  have par: "vparent n \<noteq> 0 \<Longrightarrow> vparent n \<in> dom ns" using tree_parent [OF D(1) n] by blast
  obtain k where k: "vfs_find_child ns cur t = Some k" "k = 0 \<or> k \<in> dom ns"
    using find_child_some [OF D(1) n t] by (metis domI)
  have same: "vfs_find_child ?ns cur t = Some k" if "k \<noteq> 0"
    using find_child_insert [OF c n t, of ty] k(1) that D(8) by (auto split: if_splits)
  show ?case
    using Cons.IH Cons.prems n n' par k same r by (auto split: if_splits)
qed auto

lemma resolve_spec_heap [simp]: "resolve_spec (s\<lparr>vheap := h\<rparr>) = resolve_spec s"
proof (intro ext)
  fix path start
  have "nodes (s\<lparr>vheap := h\<rparr>) = nodes s" "vfs_root (s\<lparr>vheap := h\<rparr>) = vfs_root s" by simp_all
  then show "resolve_spec (s\<lparr>vheap := h\<rparr>) path start = resolve_spec s path start"
    unfolding resolve_spec_def by (simp only:)
qed

lemma resolve_spec_null:
  "resolve_spec s path (if start = 0 then vfs_root s else start) = resolve_spec s path start"
proof -
  have "(if cs_at path 0 = slash \<or> (if start = 0 then vfs_root s else start) = 0 then vfs_root s
         else if start = 0 then vfs_root s else start)
      = (if cs_at path 0 = slash \<or> start = 0 then vfs_root s else start)" by auto
  then show ?thesis unfolding resolve_spec_def by (simp only:)
qed

lemma tokens_cstr: "is_cstr path \<Longrightarrow> t \<in> set (List.take n (path_tokens path)) \<Longrightarrow> is_cstr t"
  by (auto simp: is_cstr_def dest!: in_set_takeD path_tokens_mem)

lemma resolve_spec_some:
  assumes "tree_ok (nodes s) (vfs_root s)" "is_cstr path" "start = 0 \<or> start \<in> dom (nodes s)"
  shows "\<exists>r. resolve_spec s path start = Some r \<and> (r = 0 \<or> r \<in> dom (nodes s))"
proof -
  have root: "vfs_root s \<in> dom (nodes s)" using assms(1) by (simp add: tree_ok_def)
  let ?ts = "List.take MAX_TOKENS (path_tokens path)"
  let ?st = "if cs_at path 0 = slash \<or> start = 0 then vfs_root s else start"
  have "\<exists>r. vfs_resolve_tokens (nodes s) ?st ?ts = Some r \<and> (r = 0 \<or> r \<in> dom (nodes s))"
    using root assms(3) by (intro walk_some [OF assms(1)]) (auto intro: tokens_cstr [OF assms(2)])
  with root show ?thesis by (auto simp: resolve_spec_def)
qed

subsection \<open>\<open>vfs_create\<close>\<close>

lemma strip_slashes_le: "strip_slashes path l \<le> l"
  by (induction l) (auto simp: le_SucI)

lemma name_pos_le: "name_pos path l \<le> l"
  by (induction l) auto

definition path_pos :: "string \<Rightarrow> nat" where
  "path_pos path = name_pos path (strip_slashes path (length path))"

lemma path_pos_le: "path_pos path \<le> length path"
  unfolding path_pos_def using name_pos_le strip_slashes_le le_trans by blast

lemma parent_buf_cstr: "is_cstr path \<Longrightarrow> is_cstr (parent_buf path pos)"
  by (auto simp: parent_buf_def is_cstr_def dest: in_set_takeD)

lemma length_parent_buf: "length (parent_buf path (path_pos path)) \<le> length path + 1"
  using path_pos_le [of path] by (auto simp: parent_buf_def)

definition vfs_with :: "vfs \<Rightarrow> heap \<Rightarrow> node_map \<Rightarrow> vfs" where
  "vfs_with s h ns = \<lparr>nodes = ns, vfs_root = vfs_root s, vheap = h\<rparr>"

lemma vfs_with_sel [simp]:
  "nodes (vfs_with s h ns) = ns" "vfs_root (vfs_with s h ns) = vfs_root s" "vheap (vfs_with s h ns) = h"
  by (simp_all add: vfs_with_def)

lemma node_new_room:
  assumes "room kend s (length nm + 71)" "is_cstr nm"
  obtains a h' where "vfs_node_new kend nm ty s =
      (a, s\<lparr>vheap := h', nodes := (nodes s)(a \<mapsto> \<lparr>vname = Some nm, vtype = ty, vparent = 0,
        vchildren = 0, vnext = 0, vdata = None, vsize = 0\<rparr>)\<rparr>)"
    "a \<noteq> 0" "unat a = brk kend s" "heap_inv kend h'" "unat a < heap_brk kend h'"
    "heap_brk kend h' \<le> brk kend s + length nm + 71"
proof -
  have "room kend s (56 + 7)" by (rule room_mono [OF assms(1)]) simp
  then obtain a h1 where m: "vfs_kmalloc kend (of_nat 56) s = (a, s\<lparr>vheap := h1\<rparr>)" "a \<noteq> 0"
    "unat a = brk kend s" "heap_inv kend h1" "brk kend s < heap_brk kend h1"
    "heap_brk kend h1 \<le> brk kend s + 56 + 7" by (rule vfs_kmalloc_room) simp
  let ?s1 = "s\<lparr>vheap := h1\<rparr>"
  have "heap_brk kend h1 + (length nm + 1 + 7) \<le> unat kend + 8388608"
    using m(6) assms(1) unfolding room_def by linarith
  then have "room kend ?s1 ((length nm + 1) + 7)" using m(4) by (simp add: room_def)
  then obtain b h2 where m2: "vfs_kmalloc kend (of_nat (length nm + 1)) ?s1 = (b, ?s1\<lparr>vheap := h2\<rparr>)"
    "b \<noteq> 0" "heap_inv kend h2" "brk kend ?s1 < heap_brk kend h2"
    "heap_brk kend h2 \<le> brk kend ?s1 + (length nm + 1) + 7" by (rule vfs_kmalloc_room) simp
  have "vfs_strdup kend nm ?s1 = (Some nm, s\<lparr>vheap := h2\<rparr>)"
    using m2(1,2) assms(2) by (simp add: vfs_strdup_def add.commute)
  moreover have "vfs_kmalloc kend SIZEOF_VFS_NODE s = (a, ?s1)"
    using m(1) by (simp add: SIZEOF_VFS_NODE_def)
  moreover have "unat a < heap_brk kend h2" "heap_brk kend h2 \<le> brk kend s + length nm + 71"
    using m m2 by simp_all
  ultimately show ?thesis
    using m(2,3) m2(3) by (intro that [of a h2]) (simp_all add: vfs_node_new_def)
qed

text \<open>
  What \<open>vfs_create\<close> does on any path, with enough room on the heap: it fails when the parent does
  not resolve to a directory, returns the node that is already there, or inserts a new one.
\<close>

lemma vfs_create_eq:
  assumes inv: "vfs_inv kend s" and path: "is_cstr path" and start: "start = 0 \<or> start \<in> dom (nodes s)"
    and rm: "room kend s (10 * length path + 100)"
  obtains p h' where
    "resolve_spec s (parent_buf path (path_pos path)) start = Some p"
    "heap_inv kend h'" "brk kend s \<le> heap_brk kend h'" "heap_brk kend h' \<le> brk kend s + 10 * length path + 100"
    "(p = 0 \<or> (\<exists>pn. nodes s p = Some pn \<and> vtype pn \<noteq> VFS_DIR)) \<and>
       vfs_create kend (Some path) is_dir start s = Some (0, vfs_with s h' (nodes s)) \<or>
     (\<exists>pn e. nodes s p = Some pn \<and> vtype pn = VFS_DIR \<and>
       vfs_find_child (nodes s) p (drop (path_pos path) path) = Some e \<and> e \<noteq> 0 \<and>
       vfs_create kend (Some path) is_dir start s = Some (e, vfs_with s h' (nodes s))) \<or>
     (\<exists>pn a. can_insert (nodes s) (vfs_root s) p pn a (drop (path_pos path) path) \<and> unat a < heap_brk kend h' \<and>
       vfs_create kend (Some path) is_dir start s = Some (a, vfs_with s h'
         (insert_node (nodes s) p pn a (drop (path_pos path) path) (if is_dir then VFS_DIR else VFS_FILE))))"
proof -
  let ?pb = "parent_buf path (path_pos path)" and ?nm = "drop (path_pos path) path"
  let ?ty = "if is_dir then VFS_DIR else VFS_FILE"
  let ?st = "if start = 0 then vfs_root s else start"
  have tree: "tree_ok (nodes s) (vfs_root s)" using inv by (simp add: vfs_inv_def)
  have st: "resolve_spec s ?pb ?st = resolve_spec s ?pb start" by (rule resolve_spec_null)
  have nm: "is_cstr ?nm" using path by (auto simp: is_cstr_def dest: in_set_dropD)
  have lnm: "length ?nm \<le> length path" by simp
  have lpb: "9 * length ?pb \<le> 9 * length path + 9" using length_parent_buf [of path] by linarith
  have "room kend s (9 * length ?pb)" by (rule room_mono [OF rm]) (use lpb in linarith)
  from vfs_resolve_eq [OF parent_buf_cstr [OF path] this, of ?st] obtain h1 where
    res: "vfs_resolve kend (Some ?pb) ?st s = map_option (\<lambda>r. (r, s\<lparr>vheap := h1\<rparr>)) (resolve_spec s ?pb start)"
    and h1: "heap_inv kend h1" "brk kend s \<le> heap_brk kend h1" "heap_brk kend h1 \<le> brk kend s + 9 * length ?pb"
    unfolding st by blast
  obtain p where p: "resolve_spec s ?pb start = Some p" "p = 0 \<or> p \<in> dom (nodes s)"
    using resolve_spec_some [OF tree parent_buf_cstr [OF path] start] by blast
  have w: "s\<lparr>vheap := h1\<rparr> = vfs_with s h1 (nodes s)" by (simp add: vfs_with_def)
  have res': "vfs_resolve kend (Some ?pb) ?st s = Some (p, vfs_with s h1 (nodes s))"
    using res p(1) w by simp
  have ub: "heap_brk kend h1 \<le> brk kend s + 10 * length path + 100" using h1(3) lpb by linarith
  have pos: "name_pos path (strip_slashes path (strlen path)) = path_pos path"
    using path by (simp add: path_pos_def)
  have unf: "vfs_create kend (Some path) is_dir start s =
     (if p = 0 then Some (0, vfs_with s h1 (nodes s))
      else case nodes s p of None \<Rightarrow> None
      | Some pn \<Rightarrow>
        if vtype pn \<noteq> VFS_DIR then Some (0, vfs_with s h1 (nodes s))
        else case vfs_find_child (nodes s) p ?nm of None \<Rightarrow> None
        | Some existing \<Rightarrow>
          if existing \<noteq> 0 then Some (existing, vfs_with s h1 (nodes s))
          else let (node, s2) = vfs_node_new kend ?nm ?ty (vfs_with s h1 (nodes s))
               in if node = 0 then Some (0, s2)
                  else case (nodes s2 node, nodes s2 p) of
                    (Some nn, Some pn) \<Rightarrow>
                      Some (node, s2\<lparr>nodes := (nodes s2)
                        (node \<mapsto> nn\<lparr>vparent := p, vnext := vchildren pn\<rparr>,
                         p \<mapsto> pn\<lparr>vchildren := node\<rparr>)\<rparr>)
                  | _ \<Rightarrow> None)"
    unfolding vfs_create_def Let_def option.case pos res' prod.case vfs_with_sel by (rule refl)
  show ?thesis
  proof (cases "p = 0 \<or> (\<exists>pn. nodes s p = Some pn \<and> vtype pn \<noteq> VFS_DIR)")
    case True
    then have "vfs_create kend (Some path) is_dir start s = Some (0, vfs_with s h1 (nodes s))"
      unfolding unf by auto
    with True show ?thesis by (intro that [OF p(1) h1(1,2) ub]) blast
  next
    case False
    then obtain pn where pn: "nodes s p = Some pn" "vtype pn = VFS_DIR" "p \<noteq> 0" using p(2) by auto
    obtain e where e: "vfs_find_child (nodes s) p ?nm = Some e"
      using find_child_some [OF tree pn(1) nm] by metis
    show ?thesis
    proof (cases "e = 0")
      case False
      then have "vfs_create kend (Some path) is_dir start s = Some (e, vfs_with s h1 (nodes s))"
        unfolding unf using pn e by simp
      with False pn e show ?thesis by (intro that [OF p(1) h1(1,2) ub]) blast
    next
      case True
      have "heap_brk kend h1 + (length ?nm + 71) \<le> unat kend + 8388608"
        using h1(3) lpb lnm rm unfolding room_def by linarith
      then have "room kend (vfs_with s h1 (nodes s)) (length ?nm + 71)" using h1(1) by (simp add: room_def)
      then obtain a h2 where a: "vfs_node_new kend ?nm ?ty (vfs_with s h1 (nodes s)) =
          (a, (vfs_with s h1 (nodes s))\<lparr>vheap := h2, nodes := (nodes (vfs_with s h1 (nodes s)))
            (a \<mapsto> \<lparr>vname = Some ?nm, vtype = ?ty, vparent = 0, vchildren = 0, vnext = 0,
               vdata = None, vsize = 0\<rparr>)\<rparr>)"
        "a \<noteq> 0" "unat a = brk kend (vfs_with s h1 (nodes s))" "heap_inv kend h2" "unat a < heap_brk kend h2"
        "heap_brk kend h2 \<le> brk kend (vfs_with s h1 (nodes s)) + length ?nm + 71"
        by (rule node_new_room [OF _ nm])
      have fresh: "\<forall>b \<in> dom (nodes s). b < a"
        using inv h1(2) unfolding vfs_inv_def word_less_nat_alt a(3) vfs_with_sel
        using order.strict_trans2 by blast
      have c: "can_insert (nodes s) (vfs_root s) p pn a ?nm"
        using tree pn e True a(2) fresh nm by (simp add: can_insert_def)
      have "vfs_create kend (Some path) is_dir start s =
          Some (a, vfs_with s h2 (insert_node (nodes s) p pn a ?nm ?ty))"
        unfolding unf using pn e True a(1,2) can_insertD(6) [OF c]
        by (simp add: insert_node_def vfs_with_def)
      moreover have "brk kend s \<le> heap_brk kend h2" "heap_brk kend h2 \<le> brk kend s + 10 * length path + 100"
        using a(3,5,6) h1(2,3) lpb lnm by (simp_all only: vfs_with_sel)
      ultimately show ?thesis using c a(4,5) by (intro that [OF p(1)]) blast+
    qed
  qed
qed

lemma vfs_create_inv:
  assumes inv: "vfs_inv kend s" and path: "is_cstr path" and start: "start = 0 \<or> start \<in> dom (nodes s)"
    and rm: "room kend s (10 * length path + 100)"
    and cr: "vfs_create kend (Some path) is_dir start s = Some (n, s')"
  shows "vfs_inv kend s' \<and> vfs_root s' = vfs_root s \<and> dom (nodes s) \<subseteq> dom (nodes s') \<and>
    (n = 0 \<or> n \<in> dom (nodes s')) \<and> brk kend s \<le> brk kend s' \<and> brk kend s' \<le> brk kend s + 10 * length path + 100"
proof -
  have tree: "tree_ok (nodes s) (vfs_root s)" and lt: "\<forall>a \<in> dom (nodes s). unat a < brk kend s"
    using inv by (simp_all add: vfs_inv_def)
  obtain p h' where h: "heap_inv kend h'" "brk kend s \<le> heap_brk kend h'"
      "heap_brk kend h' \<le> brk kend s + 10 * length path + 100" and
    c: "(p = 0 \<or> (\<exists>pn. nodes s p = Some pn \<and> vtype pn \<noteq> VFS_DIR)) \<and>
       vfs_create kend (Some path) is_dir start s = Some (0, vfs_with s h' (nodes s)) \<or>
     (\<exists>pn e. nodes s p = Some pn \<and> vtype pn = VFS_DIR \<and>
       vfs_find_child (nodes s) p (drop (path_pos path) path) = Some e \<and> e \<noteq> 0 \<and>
       vfs_create kend (Some path) is_dir start s = Some (e, vfs_with s h' (nodes s))) \<or>
     (\<exists>pn a. can_insert (nodes s) (vfs_root s) p pn a (drop (path_pos path) path) \<and> unat a < heap_brk kend h' \<and>
       vfs_create kend (Some path) is_dir start s = Some (a, vfs_with s h'
         (insert_node (nodes s) p pn a (drop (path_pos path) path) (if is_dir then VFS_DIR else VFS_FILE))))"
    by (rule vfs_create_eq [OF inv path start rm])
  have old: "vfs_inv kend (vfs_with s h' (nodes s))"
    unfolding vfs_inv_def vfs_with_sel using tree h(1) lt h(2) order.strict_trans2 by blast
  from c show ?thesis
  proof (elim disjE exE conjE, goal_cases)
    case (3 pn e)
    have "e \<in> dom (nodes s)"
      using find_child_some [OF tree 3(1), of "drop (path_pos path) path"] 3(3,4) path
      by (auto simp: is_cstr_def dest: in_set_dropD)
    with 3 cr old h show ?case by auto
  next
    case (4 pn a)
    let ?ns = "insert_node (nodes s) p pn a (drop (path_pos path) path) (if is_dir then VFS_DIR else VFS_FILE)"
    have dom: "dom ?ns = insert a (dom (nodes s))"
      using can_insertD(2) [OF 4(1)] by (auto simp: insert_node_def)
    have "\<forall>b \<in> dom ?ns. unat b < heap_brk kend h'"
      unfolding dom using lt h(2) 4(2) order.strict_trans2 by blast
    with tree_ok_insert [OF 4(1)] h(1) have "vfs_inv kend (vfs_with s h' ?ns)" by (simp add: vfs_inv_def)
    with 4 cr h dom show ?case by auto
  qed (use cr old h in auto)
qed

subsection \<open>Ordinary paths\<close>

text \<open>
  A path whose last component is an ordinary name: \<open>dir\<close> is empty or ends in a slash, and the
  limits of the code (a parent of at most 255 characters, 64 components) are respected.
\<close>

definition plain_path :: "string \<Rightarrow> string \<Rightarrow> bool" where
  "plain_path dir nm \<longleftrightarrow> is_cstr (dir @ nm) \<and> nm \<noteq> [] \<and> slash \<notin> set nm \<and> nm \<noteq> ''.'' \<and> nm \<noteq> ''..'' \<and>
     (dir = [] \<or> last dir = slash) \<and> length dir < 256 \<and> length (path_tokens dir) < 64 \<and>
     \<not> (cs_at (dir @ nm) 0 = slash \<and> cs_at (dir @ nm) 1 = newline)"

lemma cs_at_append1: "i < length xs \<Longrightarrow> cs_at (xs @ ys) i = cs_at xs i"
  by (simp add: cs_at_def nth_append)

lemma name_pos_plain:
  assumes "slash \<notin> set nm" "dir = [] \<or> last dir = slash" "k \<le> length nm"
  shows "name_pos (dir @ nm) (length dir + k) = length dir"
  using assms(3)
proof (induction k)
  case 0
  show ?case
  proof (cases dir rule: rev_cases)
    case (snoc d c)
    then have "c = slash" using assms(2) by simp
    with snoc show ?thesis by (simp add: cs_at_def nth_append)
  qed simp
next
  case (Suc k)
  then have "cs_at (dir @ nm) (length dir + k) = nm ! k" by (simp add: cs_at_def nth_append)
  moreover have "nm ! k \<noteq> slash" using assms(1) Suc.prems by (metis Suc_le_lessD nth_mem)
  ultimately show ?case using Suc by simp
qed

lemma path_pos_plain:
  assumes "plain_path dir nm"
  shows "path_pos (dir @ nm) = length dir"
proof -
  have nm: "nm \<noteq> []" "slash \<notin> set nm" "dir = [] \<or> last dir = slash"
    using assms by (auto simp: plain_path_def)
  obtain ns c where c: "nm = ns @ [c]" using nm(1) by (cases nm rule: rev_cases) auto
  then have "strip_slashes (dir @ nm) (length (dir @ nm)) = length (dir @ nm)"
    using nm(2) by (auto simp: cs_at_def nth_append)
  then show ?thesis using name_pos_plain [OF nm(2,3), of "length nm"] by (simp add: path_pos_def)
qed

lemma parent_buf_plain:
  assumes "plain_path dir nm"
  shows "parent_buf (dir @ nm) (length dir) = (if dir = [] then ''.'' else dir)"
proof (cases dir)
  case Nil
  then have "cs_at nm 0 \<noteq> slash" using assms by (cases nm) (auto simp: plain_path_def)
  with Nil show ?thesis by (simp add: parent_buf_def)
next
  case (Cons c d)
  with assms show ?thesis by (auto simp: parent_buf_def plain_path_def)
qed

lemma walk_name:
  assumes "plain_path dir nm"
  shows "vfs_resolve_tokens ns p [nm] = vfs_find_child ns p nm"
proof -
  have nm: "is_cstr nm" "nm \<noteq> []" "nm \<noteq> ''.''" "nm \<noteq> ''..''"
    using assms by (auto simp: plain_path_def is_cstr_def)
  have "strcmp nm ''.'' \<noteq> 0" "strcmp nm ''..'' \<noteq> 0"
    using nm strcmp_zero [OF nm(1), of "''.''"] strcmp_zero [OF nm(1), of "''..''"] by auto
  moreover have "cs_at nm 0 \<noteq> NUL" using nm(1,2) by (cases nm) auto
  ultimately show ?thesis by (simp split: option.split)
qed

text \<open>The path resolves to the child of the parent that \<open>vfs_create\<close> works in.\<close>

lemma resolve_plain:
  assumes pl: "plain_path dir nm" and p: "resolve_spec s (if dir = [] then ''.'' else dir) start = Some p"
    and "p \<noteq> 0"
  shows "resolve_spec s (dir @ nm) start = vfs_find_child (nodes s) p nm"
proof -
  have nm: "nm \<noteq> []" "slash \<notin> set nm" "is_cstr nm" and dir: "is_cstr dir" "length (path_tokens dir) < 64"
    and nn: "\<not> (cs_at (dir @ nm) 0 = slash \<and> cs_at (dir @ nm) 1 = newline)"
    using pl by (auto simp: plain_path_def is_cstr_def)
  have hd: "cs_at nm 0 \<noteq> slash" "cs_at nm 0 \<noteq> NUL" using nm by (cases nm; auto)+
  show ?thesis
  proof (cases "dir = []")
    case True
    have "path_tokens ''.'' = [''.'']" by (simp add: path_tokens_def)
    moreover have "strcmp ''.'' ''.'' = 0" using strcmp_zero [of "''.''" "''.''"] by simp
    ultimately have "p = (if start = 0 then vfs_root s else start)"
      using p True by (simp add: resolve_spec_def MAX_TOKENS_def)
    then show ?thesis
      using True hd path_tokens_name [OF nm(1,2)] walk_name [OF pl, of "nodes s"]
      by (simp add: resolve_spec_def MAX_TOKENS_def del: vfs_resolve_tokens.simps)
  next
    case False
    then obtain d where d: "dir = d @ [slash]" using pl by (metis append_butlast_last_id plain_path_def)
    have td: "path_tokens dir = path_tokens d" using path_tokens_append [of d "[]"] d by simp
    have tp: "path_tokens (dir @ nm) = path_tokens dir @ [nm]"
      using path_tokens_append [of d nm] d td path_tokens_name [OF nm(1,2)] by simp
    have h0: "cs_at (dir @ nm) 0 = cs_at dir 0" using False by (simp add: cs_at_append1)
    let ?st = "if cs_at dir 0 = slash \<or> start = 0 then vfs_root s else start"
    have w: "vfs_resolve_tokens (nodes s) ?st (path_tokens dir) = Some p"
    proof (cases "cs_at dir 0 = slash \<and> (cs_at dir 1 = NUL \<or> cs_at dir 1 = newline)")
      case True
      have "length dir = 1"
      proof (rule ccontr)
        assume "length dir \<noteq> 1"
        then have l: "1 < length dir" using False by (cases dir) auto
        then have "cs_at (dir @ nm) 1 = cs_at dir 1" by (rule cs_at_append1)
        moreover have "cs_at dir 1 \<noteq> NUL" using l cs_at_nonzero [OF dir(1)] by simp
        ultimately show False using True nn h0 by simp
      qed
      then have "dir = ''/''" using d by simp
      with p show ?thesis by (simp add: resolve_spec_def)
    next
      case F: False
      have "List.take MAX_TOKENS (path_tokens dir) = path_tokens dir"
        using dir(2) by (simp add: MAX_TOKENS_def)
      with p \<open>dir \<noteq> []\<close> show ?thesis
        unfolding resolve_spec_def if_not_P [OF F] if_not_P [OF \<open>dir \<noteq> []\<close>] by (simp only:)
    qed
    have "\<not> (cs_at (dir @ nm) 0 = slash \<and> (cs_at (dir @ nm) 1 = NUL \<or> cs_at (dir @ nm) 1 = newline))"
    proof
      assume a: "cs_at (dir @ nm) 0 = slash \<and> (cs_at (dir @ nm) 1 = NUL \<or> cs_at (dir @ nm) 1 = newline)"
      have "1 < length (dir @ nm)" using False nm(1) by (cases dir; cases nm) auto
      moreover have "is_cstr (dir @ nm)" using pl by (simp add: plain_path_def)
      ultimately have "cs_at (dir @ nm) 1 \<noteq> NUL" using cs_at_nonzero by blast
      with a nn show False by blast
    qed
    note nr = this
    have "List.take MAX_TOKENS (path_tokens dir @ [nm]) = path_tokens dir @ [nm]"
      using dir(2) by (simp add: MAX_TOKENS_def)
    then have "resolve_spec s (dir @ nm) start = vfs_resolve_tokens (nodes s) ?st (path_tokens dir @ [nm])"
      unfolding resolve_spec_def if_not_P [OF nr [unfolded h0]] tp h0 by (simp only:)
    also have "\<dots> = vfs_resolve_tokens (nodes s) p [nm]" by (rule walk_append [OF w assms(3)])
    finally show ?thesis by (simp only: walk_name [OF pl])
  qed
qed

lemma resolve_spec_insert:
  assumes c: "can_insert (nodes s) (vfs_root s) p pn a nm" and path: "is_cstr path"
    and start: "start = 0 \<or> start \<in> dom (nodes s)" and r: "resolve_spec s path start = Some r" "r \<noteq> 0"
  shows "resolve_spec (vfs_with s h (insert_node (nodes s) p pn a nm ty)) path start = Some r"
proof -
  have root: "vfs_root s \<in> dom (nodes s)" using can_insertD(1) [OF c] by (simp add: tree_ok_def)
  let ?st = "if cs_at path 0 = slash \<or> start = 0 then vfs_root s else start"
  have "?st \<in> dom (nodes s)" using root start by auto
  moreover have "\<forall>t \<in> set (List.take MAX_TOKENS (path_tokens path)). is_cstr t"
    using tokens_cstr [OF path] by blast
  ultimately show ?thesis
    using r walk_insert [OF c, of "List.take MAX_TOKENS (path_tokens path)" ?st r ty]
    by (auto simp: resolve_spec_def split: if_splits)
qed

subsection \<open>Storing a file's data\<close>

definition set_data :: "node_map \<Rightarrow> u64 \<Rightarrow> vfs_node \<Rightarrow> u8 list \<Rightarrow> u64 \<Rightarrow> node_map" where
  "set_data ns n nn d l = ns(n \<mapsto> nn\<lparr>vdata := Some d, vsize := l\<rparr>)"

text \<open>Two maps of nodes with the same shape: only data and sizes may differ.\<close>

definition shape :: "vfs_node \<Rightarrow> string option \<times> vfs_type \<times> u64 \<times> u64 \<times> u64" where
  "shape n = (vname n, vtype n, vparent n, vchildren n, vnext n)"

definition same_shape :: "node_map \<Rightarrow> node_map \<Rightarrow> bool" where
  "same_shape ns ns' \<longleftrightarrow> (\<forall>a. map_option shape (ns a) = map_option shape (ns' a))"

lemma same_shape_set_data: "ns n = Some nn \<Longrightarrow> same_shape ns (set_data ns n nn d l)"
  by (simp add: same_shape_def set_data_def shape_def)

lemma same_shapeD:
  assumes "same_shape ns ns'" "ns a = Some n"
  obtains n' where "ns' a = Some n'" "vname n' = vname n" "vtype n' = vtype n"
    "vparent n' = vparent n" "vchildren n' = vchildren n" "vnext n' = vnext n"
proof -
  have "map_option shape (ns' a) = Some (shape n)"
    using assms unfolding same_shape_def by (metis option.map(2))
  then obtain n' where "ns' a = Some n'" "shape n' = shape n" by auto
  then show ?thesis using that by (simp add: shape_def)
qed

lemma same_shape_None: "same_shape ns ns' \<Longrightarrow> ns a = None \<Longrightarrow> ns' a = None"
  unfolding same_shape_def by (metis option.map_disc_iff)

lemma same_shape_sym: "same_shape ns ns' \<Longrightarrow> same_shape ns' ns"
  by (simp add: same_shape_def)

lemma same_shape_nexts: "same_shape ns ns' \<Longrightarrow> nexts ns' = nexts ns"
proof (rule ext)
  fix a assume s: "same_shape ns ns'"
  show "nexts ns' a = nexts ns a"
  proof (cases "ns a")
    case None
    with same_shape_None [OF s None] show ?thesis by (simp add: nexts_def)
  next
    case (Some n)
    obtain n' where "ns' a = Some n'" "vnext n' = vnext n" by (rule same_shapeD [OF s Some])
    with Some show ?thesis by (simp add: nexts_def)
  qed
qed

lemma same_shape_name: "same_shape ns ns' \<Longrightarrow> name_at ns' = name_at ns"
proof (rule ext)
  fix a assume s: "same_shape ns ns'"
  show "name_at ns' a = name_at ns a"
  proof (cases "ns a")
    case None
    with same_shape_None [OF s None] show ?thesis by (simp add: name_at_def)
  next
    case (Some n)
    obtain n' where "ns' a = Some n'" "vname n' = vname n" by (rule same_shapeD [OF s Some])
    with Some show ?thesis by (simp add: name_at_def)
  qed
qed

lemma same_shape_kids:
  assumes "same_shape ns ns'" "kids ns a xs"
  shows "kids ns' a xs"
proof -
  obtain n where n: "ns a = Some n" "chain (nexts ns) (vchildren n) xs" using assms(2) by (auto simp: kids_def)
  from same_shapeD [OF assms(1) n(1)] n(2) show ?thesis
    unfolding kids_def same_shape_nexts [OF assms(1)] by metis
qed

lemma same_shape_kid_ok: "same_shape ns ns' \<Longrightarrow> kid_ok ns a x \<Longrightarrow> kid_ok ns' a x"
  unfolding kid_ok_def by (elim exE conjE) (erule (1) same_shapeD, simp)

lemma tree_ok_set_data:
  assumes t: "tree_ok ns root" and n: "ns n = Some nn" "length d = unat l"
  shows "tree_ok (set_data ns n nn d l) root"
proof -
  let ?ns = "set_data ns n nn d l"
  have sh: "same_shape ns ?ns" using n(1) by (rule same_shape_set_data)
  have "node_ok ?ns root a m" if m: "?ns a = Some m" for a m
  proof -
    obtain m' where m': "ns a = Some m'" "vname m' = vname m" "vtype m' = vtype m" "vparent m' = vparent m"
      using same_shapeD [OF same_shape_sym [OF sh] m] by metis
    have ok: "node_ok ns root a m'" using t m'(1) by (simp add: tree_ok_def)
    have data: "case vdata m of None \<Rightarrow> vsize m = 0 | Some d \<Rightarrow> length d = unat (vsize m)"
      using ok m m'(1) n(2) by (cases "a = n") (auto simp: set_data_def node_ok_def)
    have par: "\<exists>p xs. ?ns (vparent m) = Some p \<and> vtype p = VFS_DIR \<and> vparent m < a \<and>
        kids ?ns (vparent m) xs \<and> a \<in> set xs" if "a \<noteq> root"
    proof -
      from ok that m'(4) obtain p xs where p: "ns (vparent m) = Some p" "vtype p = VFS_DIR" "vparent m < a"
        "kids ns (vparent m) xs" "a \<in> set xs" by (auto simp: node_ok_def)
      from same_shapeD [OF sh p(1)] p(2) obtain p' where "?ns (vparent m) = Some p'" "vtype p' = VFS_DIR"
        by metis
      with p same_shape_kids [OF sh p(4)] show ?thesis by blast
    qed
    from ok obtain xs where xs: "kids ns a xs" "\<forall>x \<in> set xs. kid_ok ns a x"
        "distinct (map (name_at ns) xs)" "vtype m = VFS_FILE \<longrightarrow> xs = []" using m'(3) by (auto simp: node_ok_def)
    then have "\<exists>xs. kids ?ns a xs \<and> (\<forall>x \<in> set xs. kid_ok ?ns a x) \<and> distinct (map (name_at ?ns) xs) \<and>
        (vtype m = VFS_FILE \<longrightarrow> xs = [])"
      using same_shape_kids [OF sh xs(1)] same_shape_kid_ok [OF sh] same_shape_name [OF sh] by metis
    moreover have "a = root \<Longrightarrow> vparent m = 0 \<and> vtype m = VFS_DIR"
      using ok m' by (simp add: node_ok_def)
    moreover have "\<exists>nm. vname m = Some nm \<and> is_cstr nm" using ok m'(2) by (simp add: node_ok_def)
    ultimately show ?thesis using data par unfolding node_ok_def by (simp only: simp_thms split: if_split) blast
  qed
  moreover have "?ns 0 = None" "root \<in> dom ?ns"
    using t n(1) by (auto simp: tree_ok_def set_data_def)
  ultimately show ?thesis using t by (simp add: tree_ok_def)
qed

lemma find_child_same:
  assumes sh: "same_shape ns ns'" and t: "tree_ok ns root" "tree_ok ns' root"
    and d: "ns d = Some n" and name: "is_cstr name"
  shows "vfs_find_child ns' d name = vfs_find_child ns d name"
proof -
  obtain xs where xs: "kids ns d xs" using tree_okD [OF t(1) d] by metis
  obtain n' where n': "ns' d = Some n'" using same_shapeD [OF sh d] by metis
  show ?thesis
    using find_child_kids [OF t(1) d name xs] find_child_kids [OF t(2) n' name same_shape_kids [OF sh xs]]
    by (simp add: same_shape_name [OF sh])
qed

lemma walk_same:
  assumes sh: "same_shape ns ns'" and t: "tree_ok ns root" "tree_ok ns' root"
    and ts: "\<forall>t \<in> set ts. is_cstr t" and "cur \<in> dom ns"
  shows "vfs_resolve_tokens ns' cur ts = vfs_resolve_tokens ns cur ts"
  using ts assms(5)
proof (induction ts arbitrary: cur)
  case (Cons u us)
  then obtain n where n: "ns cur = Some n" and u: "is_cstr u" by auto
  obtain n' where n': "ns' cur = Some n'" "vparent n' = vparent n" using same_shapeD [OF sh n] by metis
  have par: "vparent n \<noteq> 0 \<Longrightarrow> vparent n \<in> dom ns" using tree_parent [OF t(1) n] by blast
  obtain k where k: "vfs_find_child ns cur u = Some k" "k = 0 \<or> k \<in> dom ns"
    using find_child_some [OF t(1) n u] by (metis domI)
  have "vfs_find_child ns' cur u = Some k" using find_child_same [OF sh t n u] k(1) by simp
  with k n n' par Cons show ?case by auto
qed simp

lemma resolve_spec_same:
  assumes sh: "same_shape (nodes s) ns'" and t: "tree_ok (nodes s) (vfs_root s)" "tree_ok ns' (vfs_root s)"
    and path: "is_cstr path" and start: "start = 0 \<or> start \<in> dom (nodes s)"
  shows "resolve_spec (vfs_with s h ns') path start = resolve_spec s path start"
proof -
  have root: "vfs_root s \<in> dom (nodes s)" using t(1) by (simp add: tree_ok_def)
  let ?st = "if cs_at path 0 = slash \<or> start = 0 then vfs_root s else start"
  have "?st \<in> dom (nodes s)" using root start by auto
  then have "vfs_resolve_tokens ns' ?st (List.take MAX_TOKENS (path_tokens path))
      = vfs_resolve_tokens (nodes s) ?st (List.take MAX_TOKENS (path_tokens path))"
    by (intro walk_same [OF sh t]) (auto intro: tokens_cstr [OF path])
  then show ?thesis unfolding resolve_spec_def vfs_with_sel by (simp only:)
qed

subsection \<open>What callers see\<close>

definition resolves :: "u64 \<Rightarrow> vfs \<Rightarrow> string \<Rightarrow> u64 \<Rightarrow> u64 \<Rightarrow> bool" where
  "resolves kend s path start r \<longleftrightarrow> (\<exists>s1. vfs_resolve kend (Some path) start s = Some (r, s1))"

definition reads :: "u64 \<Rightarrow> vfs \<Rightarrow> string \<Rightarrow> u64 \<Rightarrow> u8 list option \<times> u64 option \<Rightarrow> bool" where
  "reads kend s path start res \<longleftrightarrow> (\<exists>s1. vfs_read_file kend (Some path) start s = Some (res, s1))"

lemma resolves_iff:
  assumes "is_cstr path" "room kend s (9 * length path)"
  shows "resolves kend s path start r \<longleftrightarrow> resolve_spec s path start = Some r"
proof -
  obtain h' where "vfs_resolve kend (Some path) start s
      = map_option (\<lambda>r. (r, s\<lparr>vheap := h'\<rparr>)) (resolve_spec s path start)"
    using vfs_resolve_eq [OF assms] by blast
  then show ?thesis by (auto simp: resolves_def)
qed

lemma reads_iff:
  assumes "is_cstr path" "room kend s (9 * length path)"
  shows "reads kend s path start (Some d, Some l) \<longleftrightarrow>
    (\<exists>r n. resolve_spec s path start = Some r \<and> r \<noteq> 0 \<and> nodes s r = Some n \<and> vtype n = VFS_FILE \<and>
      vdata n = Some d \<and> vsize n = l)"
proof -
  obtain h' where "vfs_resolve kend (Some path) start s
      = map_option (\<lambda>r. (r, s\<lparr>vheap := h'\<rparr>)) (resolve_spec s path start)"
    using vfs_resolve_eq [OF assms] by blast
  then show ?thesis
    by (auto simp: reads_def vfs_read_file_def split: option.splits)
qed

lemma plain_cstr: "plain_path dir nm \<Longrightarrow> is_cstr (dir @ nm)"
  by (simp add: plain_path_def)

lemma node_kept:
  assumes c: "can_insert ns root p pn a nm" and n: "ns b = Some n"
  shows "\<exists>n'. insert_node ns p pn a nm ty b = Some n' \<and> vtype n' = vtype n \<and> vdata n' = vdata n \<and> vsize n' = vsize n"
  using can_insertD [OF c] n by (auto simp: insert_node_def)

text \<open>
  \<open>vfs_create\<close> in terms of the pure lookup: it returns the node the path resolves to from then
  on, and no other path or file is affected.
\<close>

lemma vfs_create_spec:
  assumes inv: "vfs_inv kend s" and pl: "plain_path dir nm" and start: "start = 0 \<or> start \<in> dom (nodes s)"
    and rm: "room kend s (10 * length (dir @ nm) + 100)"
  obtains n s' p where "vfs_create kend (Some (dir @ nm)) is_dir start s = Some (n, s')"
    "resolve_spec s (if dir = [] then ''.'' else dir) start = Some p"
    "n \<noteq> 0 \<longleftrightarrow> (\<exists>pn. nodes s p = Some pn \<and> vtype pn = VFS_DIR)"
    "n \<noteq> 0 \<Longrightarrow> resolve_spec s' (dir @ nm) start = Some n"
    "\<And>q st r. is_cstr q \<Longrightarrow> st = 0 \<or> st \<in> dom (nodes s) \<Longrightarrow> resolve_spec s q st = Some r \<Longrightarrow> r \<noteq> 0
      \<Longrightarrow> resolve_spec s' q st = Some r"
    "\<And>b m. nodes s b = Some m \<Longrightarrow>
      \<exists>m'. nodes s' b = Some m' \<and> vtype m' = vtype m \<and> vdata m' = vdata m \<and> vsize m' = vsize m"
    "\<And>m. n \<notin> dom (nodes s) \<Longrightarrow> nodes s' n = Some m \<Longrightarrow> vtype m = (if is_dir then VFS_DIR else VFS_FILE)"
    "n \<in> dom (nodes s) \<Longrightarrow> nodes s' n = nodes s n \<and> resolve_spec s (dir @ nm) start = Some n"
proof -
  have tree: "tree_ok (nodes s) (vfs_root s)" using inv by (simp add: vfs_inv_def)
  have z: "nodes s 0 = None" using tree by (simp add: tree_ok_def)
  have nm: "is_cstr nm" using pl by (simp add: plain_path_def is_cstr_def)
  have pos: "path_pos (dir @ nm) = length dir" and d: "drop (length dir) (dir @ nm) = nm"
    using path_pos_plain [OF pl] by simp_all
  let ?ty = "if is_dir then VFS_DIR else VFS_FILE"
  obtain p h' where p: "resolve_spec s (if dir = [] then ''.'' else dir) start = Some p" and
    c: "(p = 0 \<or> (\<exists>pn. nodes s p = Some pn \<and> vtype pn \<noteq> VFS_DIR)) \<and>
       vfs_create kend (Some (dir @ nm)) is_dir start s = Some (0, vfs_with s h' (nodes s)) \<or>
     (\<exists>pn e. nodes s p = Some pn \<and> vtype pn = VFS_DIR \<and>
       vfs_find_child (nodes s) p nm = Some e \<and> e \<noteq> 0 \<and>
       vfs_create kend (Some (dir @ nm)) is_dir start s = Some (e, vfs_with s h' (nodes s))) \<or>
     (\<exists>pn a. can_insert (nodes s) (vfs_root s) p pn a nm \<and> unat a < heap_brk kend h' \<and>
       vfs_create kend (Some (dir @ nm)) is_dir start s = Some (a, vfs_with s h'
         (insert_node (nodes s) p pn a nm ?ty)))"
    by (rule vfs_create_eq [OF inv plain_cstr [OF pl] start rm, of is_dir, unfolded pos d parent_buf_plain [OF pl]])
  have old: "resolve_spec (vfs_with s h' (nodes s)) q st = resolve_spec s q st" for q st
    by (simp only: resolve_spec_def vfs_with_sel)
  from c show ?thesis
  proof (elim disjE conjE exE, goal_cases)
    case 1
    show ?case by (rule that [OF 1(1) p]) (use 1(2) z old in auto)
  next
    case (2 pn)
    show ?case by (rule that [OF 2(1) p]) (use 2(2,3) z old in auto)
  next
    case (3 pn e)
    have "p \<noteq> 0" using 3(1) z by auto
    from resolve_plain [OF pl p this] 3(3) have r: "resolve_spec s (dir @ nm) start = Some e" by simp
    have "e \<in> dom (nodes s)" using find_child_some [OF tree 3(1) nm] 3(3,4) by (metis domI option.inject)
    then show ?case by (intro that [OF 3(5) p]) (use 3(1,2,4) r old in auto)
  next
    case (4 pn a)
    note D = can_insertD [OF 4(1)]
    let ?s = "vfs_with s h' (insert_node (nodes s) p pn a nm ?ty)"
    have keep: "resolve_spec ?s q st = Some r"
      if "is_cstr q" "st = 0 \<or> st \<in> dom (nodes s)" "resolve_spec s q st = Some r" "r \<noteq> 0" for q st r
      by (rule resolve_spec_insert [OF 4(1) that])
    have "p \<noteq> 0" using D(2) z by auto
    have "is_cstr (if dir = [] then ''.'' else dir)" using pl by (simp add: plain_path_def is_cstr_def)
    from keep [OF this start p \<open>p \<noteq> 0\<close>]
    have "resolve_spec ?s (dir @ nm) start = vfs_find_child (insert_node (nodes s) p pn a nm ?ty) p nm"
      using resolve_plain [OF pl _ \<open>p \<noteq> 0\<close>, of ?s start] by simp
    then have r: "resolve_spec ?s (dir @ nm) start = Some a"
      using find_child_insert [OF 4(1) D(2) nm] by simp
    show ?case
    proof (rule that [OF 4(3) p], goal_cases)
      case 1
      then show ?case using D(2-4) by blast
    next
      case 2
      show ?case by (rule r)
    next
      case (3 q st r)
      then show ?case by (rule keep)
    next
      case (4 b m)
      then show ?case using node_kept [OF \<open>can_insert (nodes s) (vfs_root s) p pn a nm\<close>] by simp
    next
      case (5 m)
      then show ?case using D(6) by (auto simp: insert_node_def)
    next
      case 6
      then show ?case using D(5) by auto
    qed
  qed
qed

text \<open>
  \<open>vfs_write_file\<close> on an ordinary path, in the same terms.
\<close>

lemma vfs_write_spec:
  assumes inv: "vfs_inv kend s" and pl: "plain_path dir nm" and start: "start = 0 \<or> start \<in> dom (nodes s)"
    and rm: "room kend s (10 * length (dir @ nm) + unat len + 110)" and len: "unat len \<le> length data"
  obtains rc s' where "vfs_write_file kend (Some (dir @ nm)) data len start s = Some (rc, s')"
    "vfs_inv kend s'" "rc = 0 \<or> rc = - 1" "vfs_root s' = vfs_root s"
    "brk kend s \<le> brk kend s'"
    "brk kend s' \<le> brk kend s + 10 * length (dir @ nm) + unat len + 110" "dom (nodes s) \<subseteq> dom (nodes s')"
    "rc = 0 \<Longrightarrow> \<exists>n m. resolve_spec s' (dir @ nm) start = Some n \<and> n \<noteq> 0 \<and> nodes s' n = Some m \<and>
      vtype m = VFS_FILE \<and> vdata m = Some (List.take (unat len) data) \<and> vsize m = len"
    "\<And>q st r. is_cstr q \<Longrightarrow> st = 0 \<or> st \<in> dom (nodes s) \<Longrightarrow> resolve_spec s q st = Some r \<Longrightarrow> r \<noteq> 0
      \<Longrightarrow> resolve_spec s' q st = Some r"
    "\<And>b m. nodes s b = Some m \<Longrightarrow> resolve_spec s' (dir @ nm) start \<noteq> Some b \<Longrightarrow>
      \<exists>m'. nodes s' b = Some m' \<and> vtype m' = vtype m \<and> vdata m' = vdata m \<and> vsize m' = vsize m"
    "rc = 0 \<longleftrightarrow> (\<exists>p pn. resolve_spec s (if dir = [] then ''.'' else dir) start = Some p \<and>
        nodes s p = Some pn \<and> vtype pn = VFS_DIR) \<and>
      (\<forall>n m. resolve_spec s (dir @ nm) start = Some n \<and> nodes s n = Some m \<longrightarrow> vtype m = VFS_FILE)"
proof -
  have path: "is_cstr (dir @ nm)" by (rule plain_cstr [OF pl])
  have z: "nodes s 0 = None" using inv by (simp add: vfs_inv_def tree_ok_def)
  have rm1: "room kend s (10 * length (dir @ nm) + 100)" by (rule room_mono [OF rm]) simp
  obtain n s1 p where cr: "vfs_create kend (Some (dir @ nm)) False start s = Some (n, s1)"
    and p: "resolve_spec s (if dir = [] then ''.'' else dir) start = Some p"
    and nz: "n \<noteq> 0 \<longleftrightarrow> (\<exists>pn. nodes s p = Some pn \<and> vtype pn = VFS_DIR)"
    and res: "n \<noteq> 0 \<Longrightarrow> resolve_spec s1 (dir @ nm) start = Some n"
    and keep: "\<And>q st r. is_cstr q \<Longrightarrow> st = 0 \<or> st \<in> dom (nodes s) \<Longrightarrow> resolve_spec s q st = Some r \<Longrightarrow> r \<noteq> 0
      \<Longrightarrow> resolve_spec s1 q st = Some r"
    and kept: "\<And>b m. nodes s b = Some m \<Longrightarrow>
      \<exists>m'. nodes s1 b = Some m' \<and> vtype m' = vtype m \<and> vdata m' = vdata m \<and> vsize m' = vsize m"
    and new: "\<And>m. n \<notin> dom (nodes s) \<Longrightarrow> nodes s1 n = Some m \<Longrightarrow> vtype m = (if False then VFS_DIR else VFS_FILE)"
    and same: "n \<in> dom (nodes s) \<Longrightarrow> nodes s1 n = nodes s n \<and> resolve_spec s (dir @ nm) start = Some n"
    by (rule vfs_create_spec [OF inv pl start rm1, of False]) blast
  have inv1: "vfs_inv kend s1" and root1: "vfs_root s1 = vfs_root s" and dom1: "dom (nodes s) \<subseteq> dom (nodes s1)"
    and n1: "n = 0 \<or> n \<in> dom (nodes s1)" and b0: "brk kend s \<le> brk kend s1"
    and b1: "brk kend s1 \<le> brk kend s + 10 * length (dir @ nm) + 100"
    using vfs_create_inv [OF inv path start rm1 cr] by auto
  have start1: "start = 0 \<or> start \<in> dom (nodes s1)" using start dom1 by blast
  have z1: "nodes s1 0 = None" using inv1 by (simp add: vfs_inv_def tree_ok_def)
  have b1': "brk kend s1 \<le> brk kend s + 10 * length (dir @ nm) + unat len + 110" using b1 by simp
  show ?thesis
  proof (cases "n = 0 \<or> (\<exists>m. nodes s1 n = Some m \<and> vtype m \<noteq> VFS_FILE)")
    case True
    then have w: "vfs_write_file kend (Some (dir @ nm)) data len start s = Some (- 1, s1)"
      using cr n1 by (auto simp: vfs_write_file_def)
    have no: "\<not> ((\<exists>p pn. resolve_spec s (if dir = [] then ''.'' else dir) start = Some p \<and>
        nodes s p = Some pn \<and> vtype pn = VFS_DIR) \<and>
      (\<forall>n m. resolve_spec s (dir @ nm) start = Some n \<and> nodes s n = Some m \<longrightarrow> vtype m = VFS_FILE))"
    proof (cases "n = 0")
      case True
      with nz p show ?thesis by auto
    next
      case False
      then obtain m where m: "nodes s1 n = Some m" "vtype m \<noteq> VFS_FILE"
        using \<open>n = 0 \<or> (\<exists>m. nodes s1 n = Some m \<and> vtype m \<noteq> VFS_FILE)\<close> by blast
      have nd: "n \<in> dom (nodes s)" using new m by auto
      from m same [OF nd] show ?thesis by auto
    qed
    show ?thesis
      by (rule that [OF w inv1 _ root1 b0 b1' dom1]) (use no keep kept in simp_all)
  next
    case False
    then obtain m where m: "nodes s1 n = Some m" "vtype m = VFS_FILE" "n \<noteq> 0"
      using n1 by auto
    have u: "unat (len + 1) = unat len + 1"
      using room_small [OF rm] by (subst unat_plus_exact) simp_all
    have "brk kend s1 + (unat len + 1 + 7) \<le> unat kend + 8388608"
      using rm b1 unfolding room_def by linarith
    then have "room kend s1 ((unat len + 1) + 7)" using inv1 by (simp add: room_def vfs_inv_def)
    then obtain b h2 where k: "vfs_kmalloc kend (of_nat (unat len + 1)) s1 = (b, s1\<lparr>vheap := h2\<rparr>)" "b \<noteq> 0"
      "heap_inv kend h2" "brk kend s1 < heap_brk kend h2" "heap_brk kend h2 \<le> brk kend s1 + (unat len + 1) + 7"
      by (rule vfs_kmalloc_room) simp
    let ?d = "List.take (unat len) data"
    let ?s = "vfs_with s1 h2 (set_data (nodes s1) n m ?d len)"
    have lend: "len + 1 = of_nat (unat len + 1)" by simp
    have w: "vfs_write_file kend (Some (dir @ nm)) data len start s = Some (0, ?s)"
      using cr m k(1,2) len unfolding vfs_write_file_def lend
      by (simp add: set_data_def vfs_with_def)
    have tree1: "tree_ok (nodes s1) (vfs_root s1)" using inv1 by (simp add: vfs_inv_def)
    have sh: "same_shape (nodes s1) (set_data (nodes s1) n m ?d len)" using m(1) by (rule same_shape_set_data)
    have "tree_ok (set_data (nodes s1) n m ?d len) (vfs_root s1)"
      using len by (intro tree_ok_set_data [OF tree1 m(1)]) simp
    note t = this
    have dom2: "dom (set_data (nodes s1) n m ?d len) = dom (nodes s1)" using m(1) by (auto simp: set_data_def)
    have inv2: "vfs_inv kend ?s"
      unfolding vfs_inv_def vfs_with_sel dom2 using k(3,4) t inv1 unfolding vfs_inv_def
      by (meson order.strict_trans)
    have rs: "resolve_spec ?s q st = resolve_spec s1 q st" if "is_cstr q" "st = 0 \<or> st \<in> dom (nodes s)" for q st
      by (rule resolve_spec_same [OF sh tree1 t that(1)]) (use that(2) dom1 in blast)
    have rn: "resolve_spec ?s (dir @ nm) start = Some n" using rs [OF path start] res [OF m(3)] by simp
    have yes: "\<forall>k m. resolve_spec s (dir @ nm) start = Some k \<and> nodes s k = Some m \<longrightarrow> vtype m = VFS_FILE"
    proof (intro allI impI, elim conjE)
      fix k m' assume k: "resolve_spec s (dir @ nm) start = Some k" "nodes s k = Some m'"
      then have "k \<noteq> 0" using z by auto
      from keep [OF path start k(1) this] res [OF m(3)] have "k = n" by simp
      with kept [OF k(2)] m show "vtype m' = VFS_FILE" by auto
    qed
    show ?thesis
    proof (rule that [OF w inv2], goal_cases)
      case 3
      show ?case using b0 k(4) by simp
    next
      case 4
      show ?case using b1 k(5) by simp
    next
      case 5
      show ?case using dom1 dom2 by simp
    next
      case 6
      show ?case using rn m by (simp add: set_data_def)
    next
      case (7 q st r)
      then show ?case using keep rs by simp
    next
      case (8 b m')
      have "b \<noteq> n" using rn 8(2) by auto
      with kept [OF 8(1)] show ?case by (simp add: set_data_def)
    next
      case 9
      show ?case using yes p nz m(3) by auto
    qed (simp_all add: root1)
  qed
qed

subsection \<open>Properties\<close>

definition parent_path :: "string \<Rightarrow> string" where
  "parent_path dir = (if dir = [] then ''.'' else dir)"


text \<open>
  C16: a file that has been written reads back. On an ordinary path with room on the heap,
  \<open>vfs_write_file\<close> returns 0 exactly when the parent is a directory and the path does not name one;
  reading the path then gives the \<open>len\<close> bytes written, and any path that resolves to another file
  still reads as before.
\<close>

theorem vfs_write_then_read:
  assumes "vfs_inv kend s" and "plain_path dir nm" and "start = 0 \<or> start \<in> dom (nodes s)"
    and "room kend s (20 * length (dir @ nm) + unat len + 120)" and "unat len \<le> length data"
  shows "\<exists>rc s'. vfs_write_file kend (Some (dir @ nm)) data len start s = Some (rc, s') \<and> vfs_inv kend s' \<and>
    (rc = 0 \<longrightarrow> reads kend s' (dir @ nm) start (Some (List.take (unat len) data), Some len)) \<and>
    (rc \<noteq> 0 \<longrightarrow> rc = - 1) \<and>
    (rc = 0 \<longleftrightarrow>
       (\<exists>p pn. resolves kend s (parent_path dir) start p \<and> nodes s p = Some pn \<and> vtype pn = VFS_DIR) \<and>
       (\<forall>n m. resolves kend s (dir @ nm) start n \<and> nodes s n = Some m \<longrightarrow> vtype m = VFS_FILE)) \<and>
    (\<forall>q st r d l. is_cstr q \<and> room kend s' (9 * length q) \<and> (st = 0 \<or> st \<in> dom (nodes s)) \<and>
       resolves kend s q st r \<and> \<not> resolves kend s' (dir @ nm) start r \<and> reads kend s q st (Some d, Some l)
       \<longrightarrow> reads kend s' q st (Some d, Some l))"
proof -
  have path: "is_cstr (dir @ nm)" by (rule plain_cstr [OF assms(2)])
  have rm: "room kend s (10 * length (dir @ nm) + unat len + 110)" by (rule room_mono [OF assms(4)]) simp
  obtain rc s' where w: "vfs_write_file kend (Some (dir @ nm)) data len start s = Some (rc, s')"
    and i: "vfs_inv kend s'" "rc = 0 \<or> rc = - 1" "brk kend s \<le> brk kend s'"
      "brk kend s' \<le> brk kend s + 10 * length (dir @ nm) + unat len + 110"
    and rd: "rc = 0 \<Longrightarrow> \<exists>n m. resolve_spec s' (dir @ nm) start = Some n \<and> n \<noteq> 0 \<and> nodes s' n = Some m \<and>
      vtype m = VFS_FILE \<and> vdata m = Some (List.take (unat len) data) \<and> vsize m = len"
    and keep: "\<And>q st r. is_cstr q \<Longrightarrow> st = 0 \<or> st \<in> dom (nodes s) \<Longrightarrow> resolve_spec s q st = Some r \<Longrightarrow> r \<noteq> 0
      \<Longrightarrow> resolve_spec s' q st = Some r"
    and kept: "\<And>b m. nodes s b = Some m \<Longrightarrow> resolve_spec s' (dir @ nm) start \<noteq> Some b \<Longrightarrow>
      \<exists>m'. nodes s' b = Some m' \<and> vtype m' = vtype m \<and> vdata m' = vdata m \<and> vsize m' = vsize m"
    and ok: "rc = 0 \<longleftrightarrow> (\<exists>p pn. resolve_spec s (if dir = [] then ''.'' else dir) start = Some p \<and>
        nodes s p = Some pn \<and> vtype pn = VFS_DIR) \<and>
      (\<forall>n m. resolve_spec s (dir @ nm) start = Some n \<and> nodes s n = Some m \<longrightarrow> vtype m = VFS_FILE)"
    by (rule vfs_write_spec [OF assms(1-3) rm assms(5)]) blast
  have rm': "room kend s' (9 * length (dir @ nm))"
    using i assms(4) unfolding room_def vfs_inv_def by linarith
  have frame: "reads kend s' q st (Some d, Some l)"
    if h: "is_cstr q" "room kend s' (9 * length q)" "st = 0 \<or> st \<in> dom (nodes s)" "resolves kend s q st r"
      "\<not> resolves kend s' (dir @ nm) start r" "reads kend s q st (Some d, Some l)" for q st r d l
  proof -
    have True: "room kend s (9 * length q)"
      using h(2) i(3) assms(1) unfolding room_def vfs_inv_def by linarith
    obtain n where n: "r \<noteq> 0" "nodes s r = Some n" "vtype n = VFS_FILE" "vdata n = Some d" "vsize n = l"
        "resolve_spec s q st = Some r"
      using h(4,6) by (auto simp: resolves_iff [OF h(1) True] reads_iff [OF h(1) True])
    have "resolve_spec s' (dir @ nm) start \<noteq> Some r" using h(5) by (simp add: resolves_iff [OF path rm'])
    from kept [OF n(2) this] keep [OF h(1,3) n(6,1)] n show ?thesis
      by (auto simp: reads_iff [OF h(1,2)])
  qed
  have got: "rc = 0 \<longrightarrow> reads kend s' (dir @ nm) start (Some (List.take (unat len) data), Some len)"
    using rd unfolding reads_iff [OF path rm'] by blast
  have "room kend s (9 * length (parent_path dir))" by (rule room_mono [OF assms(4)]) (simp add: parent_path_def)
  moreover have "is_cstr (parent_path dir)" using path by (simp add: parent_path_def is_cstr_def)
  ultimately have par: "resolves kend s (parent_path dir) start p \<longleftrightarrow>
      resolve_spec s (if dir = [] then ''.'' else dir) start = Some p" for p
    by (simp only: resolves_iff) (simp only: parent_path_def)
  have "room kend s (9 * length (dir @ nm))" by (rule room_mono [OF assms(4)]) simp
  note self = resolves_iff [OF path this]
  have "rc \<noteq> 0 \<longrightarrow> rc = - 1" using i(2) by blast
  with w i(1) got ok [folded par self] frame show ?thesis by blast
qed

lemma walk_dot: "vfs_resolve_tokens ns cur [''.''] = Some cur"
  using strcmp_zero [of "''.''" "''.''"] by simp

lemma resolve_dot: "resolve_spec s ''.'' start = Some (if start = 0 then vfs_root s else start)"
proof -
  have "path_tokens ''.'' = [''.'']" by (simp add: path_tokens_def)
  then show ?thesis using walk_dot by (simp add: resolve_spec_def MAX_TOKENS_def)
qed

lemma path_pos_trailing:
  assumes "slash \<notin> set nm" "nm \<noteq> []"
  shows "path_pos (nm @ [slash]) = 0"
proof -
  obtain ns c where c: "nm = ns @ [c]" using assms(2) by (cases nm rule: rev_cases) auto
  have "strip_slashes (nm @ [slash]) (length nm) = length nm"
    using c assms(1) by (auto simp: cs_at_def nth_append)
  then have "strip_slashes (nm @ [slash]) (length (nm @ [slash])) = length nm"
    using assms(2) by (simp add: cs_at_def nth_append)
  moreover have "name_pos (nm @ [slash]) k = 0" if "k \<le> length nm" for k
    using that assms(1) by (induction k) (auto simp: cs_at_def nth_append in_set_conv_nth)
  ultimately show ?thesis by (simp add: path_pos_def)
qed

text \<open>
  A trailing slash makes a directory nobody can reach. Creating \<open>name/\<close> for a name that does
  not exist yet succeeds, but the slash becomes part of the stored name: afterwards neither
  \<open>name/\<close> nor \<open>name\<close> resolves.
\<close>

theorem vfs_create_trailing_slash:
  assumes "vfs_inv kend s" and "plain_path [] nm" and "start \<in> dom (nodes s)"
    and "\<forall>n. nodes s start = Some n \<longrightarrow> vtype n = VFS_DIR"
    and "room kend s (20 * length nm + 200)" and "resolves kend s nm start 0"
  shows "\<exists>n s'. vfs_create kend (Some (nm @ ''/'')) is_dir start s = Some (n, s') \<and> n \<noteq> 0 \<and>
    resolves kend s' (nm @ ''/'') start 0 \<and> resolves kend s' nm start 0"
proof -
  have nm: "is_cstr nm" "nm \<noteq> []" "slash \<notin> set nm" using assms(2) by (auto simp: plain_path_def)
  have tree: "tree_ok (nodes s) (vfs_root s)" using assms(1) by (simp add: vfs_inv_def)
  have st0: "start \<noteq> 0" using assms(3) tree by (auto simp: tree_ok_def)
  obtain sn where sn: "nodes s start = Some sn" "vtype sn = VFS_DIR" using assms(3,4) by blast
  let ?path = "nm @ [slash]"
  have path: "is_cstr ?path" using nm(1) by (simp add: is_cstr_def)
  have h0: "cs_at nm 0 \<noteq> slash" "cs_at ?path 0 \<noteq> slash" using nm(2,3) by (cases nm; auto)+
  have pos: "path_pos ?path = 0" by (rule path_pos_trailing [OF nm(3,2)])
  have pb: "parent_buf ?path 0 = ''.''" using h0 by (simp add: parent_buf_def)
  have tok: "path_tokens ?path = [nm]" "path_tokens nm = [nm]"
    using path_tokens_append [of nm "[]"] path_tokens_name [OF nm(2,3)] by simp_all
  have look: "resolve_spec t q start = vfs_find_child (nodes t) start nm" if "q \<in> {nm, ?path}" for t q
    using that h0 tok st0 walk_name [OF assms(2), of "nodes t" start]
    by (auto simp: resolve_spec_def MAX_TOKENS_def simp del: vfs_resolve_tokens.simps)
  have "room kend s (9 * length nm)" by (rule room_mono [OF assms(5)]) simp
  then have none: "vfs_find_child (nodes s) start nm = Some 0"
    using assms(6) look [of nm s] by (simp add: resolves_iff [OF nm(1)])
  have rm: "room kend s (10 * length ?path + 100)" by (rule room_mono [OF assms(5)]) simp
  obtain p h' where p: "resolve_spec s ''.'' start = Some p" and h: "heap_inv kend h'"
      "heap_brk kend h' \<le> brk kend s + 10 * length ?path + 100" and
    c: "(p = 0 \<or> (\<exists>pn. nodes s p = Some pn \<and> vtype pn \<noteq> VFS_DIR)) \<and>
       vfs_create kend (Some ?path) is_dir start s = Some (0, vfs_with s h' (nodes s)) \<or>
     (\<exists>pn e. nodes s p = Some pn \<and> vtype pn = VFS_DIR \<and>
       vfs_find_child (nodes s) p ?path = Some e \<and> e \<noteq> 0 \<and>
       vfs_create kend (Some ?path) is_dir start s = Some (e, vfs_with s h' (nodes s))) \<or>
     (\<exists>pn a. can_insert (nodes s) (vfs_root s) p pn a ?path \<and> unat a < heap_brk kend h' \<and>
       vfs_create kend (Some ?path) is_dir start s = Some (a, vfs_with s h'
         (insert_node (nodes s) p pn a ?path (if is_dir then VFS_DIR else VFS_FILE))))"
    by (rule vfs_create_eq [OF assms(1) path disjI2 [OF assms(3)] rm, of is_dir, unfolded pos pb drop_0])
  have ps: "p = start" using p st0 by (simp add: resolve_dot)
  have done': "\<exists>n s'. vfs_create kend (Some (nm @ ''/'')) is_dir start s = Some (n, s') \<and> n \<noteq> 0 \<and>
      resolves kend s' (nm @ ''/'') start 0 \<and> resolves kend s' nm start 0"
    if "vfs_create kend (Some ?path) is_dir start s = Some (n, vfs_with s h' ns)" "n \<noteq> 0"
      "vfs_find_child ns start nm = Some 0" for n ns
  proof -
    have "room kend (vfs_with s h' ns) (9 * length nm + 9)"
      using h assms(5) unfolding room_def by simp
    then have r: "room kend (vfs_with s h' ns) (9 * length nm)" "room kend (vfs_with s h' ns) (9 * length ?path)"
      by (auto elim: room_mono)
    have "resolves kend (vfs_with s h' ns) ?path start 0" "resolves kend (vfs_with s h' ns) nm start 0"
      using that(3) look by (simp_all add: resolves_iff [OF nm(1) r(1)] resolves_iff [OF path r(2)])
    with that show ?thesis by (intro exI [where x = n] exI [where x = "vfs_with s h' ns"]) simp
  qed
  from c show ?thesis unfolding ps
  proof (elim disjE conjE exE, goal_cases)
    case (3 pn e)
    then show ?case using none by (intro done') auto
  next
    case (4 pn a)
    show ?case
      by (rule done' [OF 4(3)])
        (use find_child_insert [OF 4(1) sn(1) nm(1)] none can_insertD(4) [OF 4(1)] in simp_all)
  qed (use sn st0 in auto)
qed

subsection \<open>Witnesses\<close>

definition demo_vfs :: vfs where
  "demo_vfs = \<lparr>nodes = [0x200000 \<mapsto> \<lparr>vname = Some '''', vtype = VFS_DIR, vparent = 0, vchildren = 0,
      vnext = 0, vdata = None, vsize = 0\<rparr>], vfs_root = 0x200000,
     vheap = \<lparr>heap_base = 0x200000, heap_ptr = 0x200040, heap_limit = 0xA00000\<rparr>\<rparr>"

lemma demo_room: "n \<le> 8000000 \<Longrightarrow> room 0x200000 demo_vfs n"
  by (simp add: room_def demo_vfs_def heap_inv_def heap_brk_def kend_ok_def KERNEL_HEAP_SIZE_def)

lemma demo_inv: "vfs_inv 0x200000 demo_vfs"
proof -
  have "kids (nodes demo_vfs) 0x200000 []" by (simp add: kids_def demo_vfs_def)
  then have "tree_ok (nodes demo_vfs) 0x200000"
    by (auto simp: tree_ok_def node_ok_def demo_vfs_def split: if_splits intro!: exI [where x = "[]"])
  moreover have "heap_inv 0x200000 (vheap demo_vfs)" using demo_room [of 0] by (simp add: room_def)
  ultimately show ?thesis by (simp add: vfs_inv_def demo_vfs_def heap_brk_def)
qed

lemma demo_root: "resolves 0x200000 demo_vfs ''/'' 0 0x200000"
  by (simp add: resolves_def vfs_resolve_def demo_vfs_def)


lemma demo_plain: "plain_path ''/'' ''a''"
  by (simp add: plain_path_def path_tokens_def)

lemma demo_empty: "resolves 0x200000 demo_vfs ''/a'' 0 r \<longleftrightarrow> r = 0"
proof -
  have "resolve_spec demo_vfs ''/'' 0 = Some 0x200000" by (simp add: resolve_spec_def demo_vfs_def)
  then have "resolve_spec demo_vfs (''/'' @ ''a'') 0 = vfs_find_child (nodes demo_vfs) 0x200000 ''a''"
    by (intro resolve_plain [OF demo_plain]) simp_all
  also have "\<dots> = Some 0" by (simp add: vfs_find_child_def demo_vfs_def find_sibling.simps)
  finally show ?thesis by (subst resolves_iff) (auto simp: demo_room)
qed

theorem vfs_write_then_read_witness:
  "\<exists>s'. vfs_write_file 0x200000 (Some ''/a'') [104, 105] 2 0 demo_vfs = Some (0, s') \<and>
     reads 0x200000 s' ''/a'' 0 (Some [104, 105], Some 2)"
proof -
  have n: "nodes demo_vfs 0 = None" "\<exists>pn. nodes demo_vfs 0x200000 = Some pn \<and> vtype pn = VFS_DIR"
    by (simp_all add: demo_vfs_def)
  have "resolves 0x200000 demo_vfs (parent_path ''/'') 0 0x200000" using demo_root by (simp add: parent_path_def)
  with n have c: "\<exists>p pn. resolves 0x200000 demo_vfs (parent_path ''/'') 0 p \<and> nodes demo_vfs p = Some pn \<and>
      vtype pn = VFS_DIR" by blast
  have d: "\<forall>r m. resolves 0x200000 demo_vfs (''/'' @ ''a'') 0 r \<and> nodes demo_vfs r = Some m \<longrightarrow> vtype m = VFS_FILE"
    using n demo_empty by simp
  have r: "room 0x200000 demo_vfs (20 * length (''/'' @ ''a'') + unat (2 :: u64) + 120)"
    by (rule demo_room) simp
  have l: "unat (2 :: u64) \<le> length [104, 105 :: u8]" by simp
  obtain rc s' where w: "vfs_write_file 0x200000 (Some (''/'' @ ''a'')) [104, 105] 2 0 demo_vfs = Some (rc, s')"
    "rc = 0 \<longrightarrow> reads 0x200000 s' (''/'' @ ''a'') 0 (Some (List.take (unat (2 :: u64)) [104, 105]), Some 2)"
    "rc = 0 \<longleftrightarrow> (\<exists>p pn. resolves 0x200000 demo_vfs (parent_path ''/'') 0 p \<and> nodes demo_vfs p = Some pn \<and>
      vtype pn = VFS_DIR) \<and>
      (\<forall>r m. resolves 0x200000 demo_vfs (''/'' @ ''a'') 0 r \<and> nodes demo_vfs r = Some m \<longrightarrow> vtype m = VFS_FILE)"
    using vfs_write_then_read [OF demo_inv demo_plain disjI1 [OF refl] r l] by blast
  from c d w show ?thesis by simp
qed

theorem vfs_create_trailing_slash_witness:
  "\<exists>n s'. vfs_create 0x200000 (Some ''a/'') True 0x200000 demo_vfs = Some (n, s') \<and> n \<noteq> 0 \<and>
     resolves 0x200000 s' ''a/'' 0x200000 0"
proof -
  have p: "plain_path [] ''a''" by (simp add: plain_path_def path_tokens_def)
  have "vfs_find_child (nodes demo_vfs) 0x200000 ''a'' = Some 0"
    by (simp add: vfs_find_child_def demo_vfs_def find_sibling.simps)
  then have "resolves 0x200000 demo_vfs ''a'' 0x200000 0"
    using walk_name [OF p, of "nodes demo_vfs" "0x200000"]
    by (subst resolves_iff) (simp_all add: demo_room resolve_spec_def MAX_TOKENS_def path_tokens_def
        del: vfs_resolve_tokens.simps)
  from vfs_create_trailing_slash [OF demo_inv p _ _ _ this, where is_dir = True]
  show ?thesis by (auto simp: demo_room) (auto simp: demo_vfs_def)
qed

end
