(* ===== verification/Vmm.thy ===== *)
theory Vmm
  imports Console Heap
begin

text \<open>
  The virtual memory manager (\<open>kernel/memory/vmm.c\<close>): four-level page tables in kernel heap memory.
  Memory is a function from the address of an aligned 8-byte word to its value; an address space
  is the struct of its \<open>pml4\<close> pointer (offset 0) and its \<open>cr3\<close> value (offset 8). \<open>kas\<close> is the
  address of the static \<open>kernel_as\<close>.
\<close>

subsection \<open>State\<close>

definition VMM_PAGE_PRESENT :: u64 where "VMM_PAGE_PRESENT = 1"
definition VMM_PAGE_WRITABLE :: u64 where "VMM_PAGE_WRITABLE = 2"
definition VMM_PAGE_USER :: u64 where "VMM_PAGE_USER = 4"
definition ENTRY_ADDR_MASK :: u64 where "ENTRY_ADDR_MASK = 0x000FFFFFFFFFF000"

type_synonym wordmem = "u64 \<Rightarrow> u64"

record vmm =
  vm_mem :: wordmem
  vm_heap :: heap
  current_as :: u64
  cpu_cr3 :: u64

definition as_pml4 :: "vmm \<Rightarrow> u64 \<Rightarrow> u64" where "as_pml4 s as = vm_mem s as"
definition as_cr3 :: "vmm \<Rightarrow> u64 \<Rightarrow> u64" where "as_cr3 s as = vm_mem s (as + 8)"

definition store64 :: "u64 \<Rightarrow> u64 \<Rightarrow> vmm \<Rightarrow> vmm" where
  "store64 a v s = s\<lparr>vm_mem := (vm_mem s)(a := v)\<rparr>"

text \<open>The \<open>i\<close>-th entry of a table.\<close>

definition entry_at :: "u64 \<Rightarrow> nat \<Rightarrow> u64" where
  "entry_at table i = table + 8 * of_nat i"

subsection \<open>Operations\<close>

definition vmm_init :: "u64 \<Rightarrow> vmm \<Rightarrow> console_op list \<times> vmm" where
  "vmm_init kas s =
     (let cr3 = cpu_cr3 s AND ENTRY_ADDR_MASK;
          s1 = store64 (kas + 8) cr3 (store64 kas cr3 s)
      in (log_info ''[OK] vmm ready'', s1\<lparr>current_as := kas\<rparr>))"

fun zero_entries :: "u64 \<Rightarrow> nat \<Rightarrow> wordmem \<Rightarrow> wordmem" where
  "zero_entries t 0 m = m"
| "zero_entries t (Suc n) m = (zero_entries t n m)(entry_at t n := 0)"

definition vmm_alloc_table :: "u64 \<Rightarrow> vmm \<Rightarrow> u64 \<times> vmm" where
  "vmm_alloc_table kend s =
     (let (t, h) = kmalloc kend 4096 (vm_heap s)
      in if t = 0 then (0, s\<lparr>vm_heap := h\<rparr>)
         else (t, s\<lparr>vm_heap := h, vm_mem := zero_entries t 512 (vm_mem s)\<rparr>))"

definition vmm_next_table :: "u64 \<Rightarrow> u64 \<Rightarrow> nat \<Rightarrow> u64 \<Rightarrow> bool \<Rightarrow> vmm \<Rightarrow> u64 \<times> vmm" where
  "vmm_next_table kend table idx flags create s =
     (let e = vm_mem s (entry_at table idx)
      in if e AND VMM_PAGE_PRESENT \<noteq> 0 then (e AND ENTRY_ADDR_MASK, s)
         else if \<not> create then (0, s)
         else let (new_table, s1) = vmm_alloc_table kend s
              in if new_table = 0 then (0, s1)
                 else (new_table, store64 (entry_at table idx)
                        ((new_table AND ENTRY_ADDR_MASK) OR (flags AND 0xFFF) OR VMM_PAGE_PRESENT) s1))"

definition vmm_index :: "nat \<Rightarrow> u64 \<Rightarrow> nat" where
  "vmm_index sh virt = unat (drop_bit sh virt AND 0x1FF)"

definition vmm_map_page :: "u64 \<Rightarrow> u64 \<Rightarrow> u64 \<Rightarrow> u64 \<Rightarrow> u64 \<Rightarrow> vmm \<Rightarrow> int \<times> vmm" where
  "vmm_map_page kend as virt phys flags s =
     (if as = 0 \<or> as_pml4 s as = 0 then (- 1, s)
      else let (pdpt, s1) = vmm_next_table kend (as_pml4 s as) (vmm_index 39 virt) flags True s
      in if pdpt = 0 then (- 2, s1)
      else let (pd, s2) = vmm_next_table kend pdpt (vmm_index 30 virt) flags True s1
      in if pd = 0 then (- 3, s2)
      else let (pt, s3) = vmm_next_table kend pd (vmm_index 21 virt) flags True s2
      in if pt = 0 then (- 4, s3)
      else (0, store64 (entry_at pt (vmm_index 12 virt))
                 ((phys AND ENTRY_ADDR_MASK) OR (flags AND 0xFFF) OR VMM_PAGE_PRESENT) s3))"

definition vmm_unmap_page :: "u64 \<Rightarrow> u64 \<Rightarrow> u64 \<Rightarrow> vmm \<Rightarrow> int \<times> vmm" where
  "vmm_unmap_page kend as virt s =
     (if as = 0 \<or> as_pml4 s as = 0 then (- 1, s)
      else let (pdpt, s1) = vmm_next_table kend (as_pml4 s as) (vmm_index 39 virt) 0 False s
      in if pdpt = 0 then (- 2, s1)
      else let (pd, s2) = vmm_next_table kend pdpt (vmm_index 30 virt) 0 False s1
      in if pd = 0 then (- 3, s2)
      else let (pt, s3) = vmm_next_table kend pd (vmm_index 21 virt) 0 False s2
      in if pt = 0 then (- 4, s3)
      else (0, store64 (entry_at pt (vmm_index 12 virt)) 0 s3))"

fun copy_entries :: "u64 \<Rightarrow> u64 \<Rightarrow> nat \<Rightarrow> wordmem \<Rightarrow> wordmem" where
  "copy_entries dst src 0 m = m"
| "copy_entries dst src (Suc n) m =
     (let m1 = copy_entries dst src n m in m1(entry_at dst n := m1 (entry_at src n)))"

definition SIZEOF_ADDRESS_SPACE :: u64 where "SIZEOF_ADDRESS_SPACE = 16"

definition vmm_create_address_space :: "u64 \<Rightarrow> u64 \<Rightarrow> vmm \<Rightarrow> u64 \<times> vmm" where
  "vmm_create_address_space kend kas s =
     (let (as, h) = kmalloc kend SIZEOF_ADDRESS_SPACE (vm_heap s); s1 = s\<lparr>vm_heap := h\<rparr>
      in if as = 0 then (0, s1)
         else let (t, s2) = vmm_alloc_table kend s1; s3 = store64 as t s2
         in if t = 0 then (0, s3)
            else let s4 = (if as_pml4 s3 kas \<noteq> 0
                           then s3\<lparr>vm_mem := copy_entries t (as_pml4 s3 kas) 512 (vm_mem s3)\<rparr> else s3)
                 in (as, store64 (as + 8) (as_pml4 s4 as AND ENTRY_ADDR_MASK) s4))"

definition vmm_switch_address_space :: "u64 \<Rightarrow> vmm \<Rightarrow> vmm" where
  "vmm_switch_address_space as s =
     (if as = 0 \<or> as_pml4 s as = 0 \<or> current_as s = as then s
      else s\<lparr>current_as := as, cpu_cr3 := as_cr3 s as\<rparr>)"

definition vmm_get_kernel_address_space :: "u64 \<Rightarrow> u64" where
  "vmm_get_kernel_address_space kas = kas"

subsection \<open>The page walk\<close>

text \<open>
  What the hardware does with a table of tables: \<open>table_at\<close> follows a path of indices from a
  root, \<open>walk\<close> the four indices of a page; it yields the last entry if every entry on the way is
  present.
\<close>

definition present :: "u64 \<Rightarrow> bool" where
  "present e \<longleftrightarrow> e AND VMM_PAGE_PRESENT \<noteq> 0"

fun table_at :: "wordmem \<Rightarrow> u64 \<Rightarrow> nat list \<Rightarrow> u64 option" where
  "table_at m t [] = Some t"
| "table_at m t (i # is) =
     (let e = m (entry_at t i) in if present e then table_at m (e AND ENTRY_ADDR_MASK) is else None)"

type_synonym vpn = "nat list \<times> nat"

definition vpn_of :: "u64 \<Rightarrow> vpn" where
  "vpn_of virt = ([vmm_index 39 virt, vmm_index 30 virt, vmm_index 21 virt], vmm_index 12 virt)"

definition walk :: "wordmem \<Rightarrow> u64 \<Rightarrow> vpn \<Rightarrow> u64 option" where
  "walk m root v =
     (case table_at m root (fst v) of None \<Rightarrow> None
      | Some pt \<Rightarrow> let e = m (entry_at pt (snd v)) in if present e then Some e else None)"

definition page_entry :: "u64 \<Rightarrow> u64 \<Rightarrow> u64" where
  "page_entry phys flags = (phys AND ENTRY_ADDR_MASK) OR (flags AND 0xFFF) OR VMM_PAGE_PRESENT"

lemma vmm_index_lt: "vmm_index sh virt < 512"
proof -
  have "drop_bit sh virt AND 0x1FF = take_bit 9 (drop_bit sh virt)"
    by (simp add: take_bit_eq_mask mask_eq_exp_minus_1)
  then have "unat (drop_bit sh virt AND 0x1FF) = unat (drop_bit sh virt) mod 2 ^ 9"
    by (simp add: take_bit_eq_mod unat_mod)
  then show ?thesis by (simp add: vmm_index_def)
qed

lemma present_or: "present (x OR VMM_PAGE_PRESENT)"
proof -
  have "bit ((x OR VMM_PAGE_PRESENT) AND VMM_PAGE_PRESENT) 0"
    by (simp add: VMM_PAGE_PRESENT_def bit_simps)
  then show ?thesis unfolding present_def by (cases "(x OR VMM_PAGE_PRESENT) AND VMM_PAGE_PRESENT = 0") auto
qed

lemma present_page_entry: "present (a OR b OR VMM_PAGE_PRESENT)"
  using present_or [of "a OR b"] by (simp only: or.assoc)

lemma not_present_0 [simp]: "\<not> present 0"
  by (simp add: present_def)

lemma table_at_snoc:
  "table_at m r (q @ [j]) =
     (case table_at m r q of None \<Rightarrow> None
      | Some u \<Rightarrow> if present (m (entry_at u j)) then Some (m (entry_at u j) AND ENTRY_ADDR_MASK) else None)"
  by (induction q arbitrary: r) (auto simp: Let_def)

lemma addr_mask_aligned:
  assumes "aligned 4096 t" "unat t < 2 ^ 52"
  shows "((t AND ENTRY_ADDR_MASK) OR (f AND 0xFFF) OR VMM_PAGE_PRESENT) AND ENTRY_ADDR_MASK = t"
proof -
  have m: "ENTRY_ADDR_MASK = push_bit 12 (mask 40)" by (simp add: ENTRY_ADDR_MASK_def mask_eq_exp_minus_1)
  have "t = push_bit 12 (drop_bit 12 t)"
  proof -
    have "take_bit 12 t = 0"
      using assms(1) by (simp add: aligned_def word_unat_eq_iff take_bit_eq_mod unat_mod)
    then show ?thesis by (metis bits_ident add.right_neutral)
  qed
  have lo: "\<not> bit t n" if "n < 12" for n
    using that \<open>t = push_bit 12 (drop_bit 12 t)\<close> by (metis bit_push_bit_iff leD)
  have tb: "take_bit 52 t = t"
    using assms(2) by (simp add: word_unat_eq_iff unsigned_take_bit_eq take_bit_nat_eq_self)
  have hi: "\<not> bit t n" if "52 \<le> n" for n
    using that tb by (metis bit_take_bit_iff leD)
  show ?thesis
  proof (rule bit_word_eqI)
    fix n assume n: "n < LENGTH(64)"
    have f: "f AND 0xFFF = take_bit 12 f" by (simp add: take_bit_eq_mask mask_eq_exp_minus_1)
    consider "n < 12" | "12 \<le> n" "n < 52" | "52 \<le> n" by linarith
    then show "bit (((t AND ENTRY_ADDR_MASK) OR (f AND 0xFFF) OR VMM_PAGE_PRESENT) AND ENTRY_ADDR_MASK) n = bit t n"
      using n lo [of n] hi [of n] unfolding f m VMM_PAGE_PRESENT_def by cases (auto simp: bit_simps)
  qed
qed

subsection \<open>Well-formed tables\<close>

definition short :: "nat list \<Rightarrow> bool" where
  "short p \<longleftrightarrow> length p \<le> 3 \<and> (\<forall>i \<in> set p. i < 512)"

abbreviation vbrk :: "u64 \<Rightarrow> vmm \<Rightarrow> nat" where
  "vbrk kend s \<equiv> heap_brk kend (vm_heap s)"

text \<open>A table is a page of its own, allocated already or outside the heap, away from the struct at \<open>as\<close>.\<close>

definition table_ok :: "u64 \<Rightarrow> u64 \<Rightarrow> nat \<Rightarrow> u64 \<Rightarrow> bool" where
  "table_ok kend as b t \<longleftrightarrow> t \<noteq> 0 \<and> aligned 4096 t \<and> unat t < 2 ^ 52 \<and>
     (unat t + 4096 \<le> b \<or> unat kend + 8388608 \<le> unat t) \<and>
     (unat as < unat t \<or> unat t + 4096 \<le> unat as)"

definition tree_tables :: "u64 \<Rightarrow> u64 \<Rightarrow> nat \<Rightarrow> wordmem \<Rightarrow> u64 \<Rightarrow> bool" where
  "tree_tables kend as b m root \<longleftrightarrow>
     (\<forall>p t. short p \<and> table_at m root p = Some t \<longrightarrow> table_ok kend as b t) \<and>
     (\<forall>p q t. short p \<and> short q \<and> table_at m root p = Some t \<and> table_at m root q = Some t \<longrightarrow> p = q)"

definition vmm_inv :: "u64 \<Rightarrow> u64 \<Rightarrow> u64 \<Rightarrow> vmm \<Rightarrow> bool" where
  "vmm_inv kend as root s \<longleftrightarrow> heap_inv kend (vm_heap s) \<and> vbrk kend s mod 4096 = 0 \<and>
     unat kend + 8388608 \<le> 2 ^ 52 \<and> as \<noteq> 0 \<and> (unat as < vbrk kend s \<or> unat kend + 8388608 \<le> unat as) \<and>
     as_pml4 s as = root \<and> tree_tables kend as (vbrk kend s) (vm_mem s) root"

lemma unat_entry_at:
  assumes "aligned 4096 t" "unat t < 2 ^ 52" "i < 512"
  shows "unat (entry_at t i) = unat t + 8 * i"
proof -
  have "unat (8 * of_nat i :: u64) = 8 * i"
    using assms(3) by (subst unat_mult_exact) (simp_all add: unat_of_nat_small)
  then show ?thesis using assms unfolding entry_at_def by (subst unat_plus_exact) simp_all
qed

lemma entry_at_inj:
  assumes "aligned 4096 t" "unat t < 2 ^ 52" "i < 512" "aligned 4096 u" "unat u < 2 ^ 52" "j < 512"
    and "entry_at t i = entry_at u j"
  shows "t = u \<and> i = j"
proof -
  have e: "unat t + 8 * i = unat u + 8 * j"
    using assms unat_entry_at [OF assms(1-3)] unat_entry_at [OF assms(4-6)] by simp
  have "unat t mod 4096 = 0" "unat u mod 4096 = 0" using assms(1,4) by (simp_all add: aligned_def)
  then obtain x y where xy: "unat t = 4096 * x" "unat u = 4096 * y" by (auto elim!: dvdE simp: mod_eq_0_iff_dvd)
  have "x = y"
  proof (rule ccontr)
    assume "x \<noteq> y"
    then consider "x + 1 \<le> y" | "y + 1 \<le> x" by linarith
    then show False using e xy assms(3,6) by cases linarith+
  qed
  with xy e show ?thesis by (simp add: word_unat_eq_iff)
qed

lemma zero_entries_at:
  "zero_entries t n m a = (if \<exists>i < n. a = entry_at t i then 0 else m a)"
  by (induction n) (auto simp: less_Suc_eq)

lemma short_snoc: "short (p @ [i]) \<longleftrightarrow> length p \<le> 2 \<and> (\<forall>j \<in> set p. j < 512) \<and> i < 512"
  by (auto simp: short_def)

lemma short_snocD: "short (p @ [i]) \<Longrightarrow> short p \<and> i < 512"
  by (auto simp: short_def)

text \<open>Filling a free entry \<open>i\<close> of the table at path \<open>p\<close> with a fresh empty table adds one path.\<close>

lemma table_at_extend:
  assumes inj: "\<And>p q t. short p \<Longrightarrow> short q \<Longrightarrow> table_at m root p = Some t \<Longrightarrow> table_at m root q = Some t \<Longrightarrow> p = q"
    and t: "table_at m root p = Some t" "short (p @ [i])" "\<not> present (m (entry_at t i))"
    and same: "\<And>q u j. short q \<Longrightarrow> table_at m root q = Some u \<Longrightarrow> j < 512 \<Longrightarrow> u \<noteq> t \<or> j \<noteq> i \<Longrightarrow>
        m' (entry_at u j) = m (entry_at u j)"
    and new: "present (m' (entry_at t i))" "m' (entry_at t i) AND ENTRY_ADDR_MASK = a"
      "\<And>j. j < 512 \<Longrightarrow> \<not> present (m' (entry_at a j))"
    and q: "short q"
  shows "table_at m' root q = (if q = p @ [i] then Some a else table_at m root q)"
  using q
proof (induction q rule: rev_induct)
  case Nil
  then show ?case by simp
next
  case (snoc j q)
  have sq: "short q" "j < 512" using short_snocD [OF snoc.prems] by auto
  have sp: "short p" using short_snocD [OF t(2)] by simp
  have IH: "table_at m' root q = (if q = p @ [i] then Some a else table_at m root q)"
    by (rule snoc.IH [OF sq(1)])
  have none: "table_at m root (p @ [i]) = None" using t(1,3) by (simp add: table_at_snoc)
  show ?case
  proof (cases "q = p @ [i]")
    case True
    then show ?thesis
      unfolding table_at_snoc [of m' root q] table_at_snoc [of m root q]
      using IH new(3) [OF sq(2)] none by simp
  next
    case False
    show ?thesis
    proof (cases "table_at m root q")
      case None
      then have "q \<noteq> p" using t(1) by auto
      with None IH False show ?thesis by (simp add: table_at_snoc [of _ _ q])
    next
      case (Some u)
      show ?thesis
      proof (cases "u = t \<and> j = i")
        case True
        then have "q = p" using inj [OF sq(1) sp Some] t(1) by simp
        with True Some IH False new(1,2) show ?thesis
          unfolding table_at_snoc [of m' root q] table_at_snoc [of m root q] by simp
      next
        case F: False
        have "q @ [j] \<noteq> p @ [i]" using F Some t(1) by auto
        moreover have "m' (entry_at u j) = m (entry_at u j)"
          by (rule same [OF sq(1) Some sq(2)]) (use F in blast)
        ultimately show ?thesis
          unfolding table_at_snoc [of m' root q] table_at_snoc [of m root q] using Some IH False by auto
      qed
    qed
  qed
qed

text \<open>
  \<open>vmm_next_table\<close> with \<open>create\<close>: the path exists afterwards, no other path appears or changes, an
  entry of an existing table changes only if it was the missing one, and a new table is empty.
\<close>

lemma vmm_next_table_create:
  assumes inv: "vmm_inv kend as root s" and t: "table_at (vm_mem s) root p = Some t" "short (p @ [i])"
    and room: "vbrk kend s + 4096 \<le> unat kend + 8388608"
  obtains t' s' where "vmm_next_table kend t i flags True s = (t', s')" "t' \<noteq> 0" "vmm_inv kend as root s'"
    "vbrk kend s' \<le> vbrk kend s + 4096"
    "table_at (vm_mem s') root (p @ [i]) = Some t'"
    "\<And>q u. short q \<Longrightarrow> table_at (vm_mem s) root q = Some u \<Longrightarrow> table_at (vm_mem s') root q = Some u"
    "\<And>q u. short q \<Longrightarrow> table_at (vm_mem s') root q = Some u \<Longrightarrow> table_at (vm_mem s) root q = Some u \<or>
        q = p @ [i] \<and> (\<forall>j < 512. vm_mem s' (entry_at u j) = 0)"
    "\<And>q u j. short q \<Longrightarrow> table_at (vm_mem s) root q = Some u \<Longrightarrow> j < 512 \<Longrightarrow> length q = 3 \<Longrightarrow>
        vm_mem s' (entry_at u j) = vm_mem s (entry_at u j)"
proof -
  let ?m = "vm_mem s" and ?e = "vm_mem s (entry_at t i)"
  have hi: "heap_inv kend (vm_heap s)" and al: "vbrk kend s mod 4096 = 0" and top: "unat kend + 8388608 \<le> 2 ^ 52"
    and as: "as \<noteq> 0" "unat as < vbrk kend s \<or> unat kend + 8388608 \<le> unat as" "as_pml4 s as = root"
    and tree: "tree_tables kend as (vbrk kend s) ?m root"
    using inv by (auto simp: vmm_inv_def)
  have tok: "table_ok kend as (vbrk kend s) u" if "short q" "table_at ?m root q = Some u" for q u
    using tree that by (auto simp: tree_tables_def)
  have inj: "p = q" if "short p" "short q" "table_at ?m root p = Some u" "table_at ?m root q = Some u" for p q u
    using tree that unfolding tree_tables_def by blast
  have sp: "short p" "i < 512" using short_snocD [OF t(2)] by auto
  show ?thesis
  proof (cases "present ?e")
    case True
    have pi: "table_at ?m root (p @ [i]) = Some (?e AND ENTRY_ADDR_MASK)" using t(1) True by (simp add: table_at_snoc)
    then have "?e AND ENTRY_ADDR_MASK \<noteq> 0" using tok [OF t(2)] by (simp add: table_ok_def)
    with pi True inv show ?thesis
      by (intro that [of "?e AND ENTRY_ADDR_MASK" s]) (simp_all add: vmm_next_table_def present_def)
  next
    case False
    obtain a h where k: "kmalloc kend 4096 (vm_heap s) = (a, h)" by (cases "kmalloc kend 4096 (vm_heap s)")
    have "a \<noteq> 0" using kheap.alloc_room [OF hi, of 4096] room k by simp
    with kheap.alloc_some [OF hi _ k] kheap.alloc_ok [OF hi _ k]
    have a: "a \<noteq> 0" "unat a = vbrk kend s" "heap_brk kend h = vbrk kend s + 4096" "heap_inv kend h" by simp_all
    have a52: "unat a < 2 ^ 52" and aal: "aligned 4096 a" using a(2) room top al by (auto simp: aligned_def)
    let ?E = "(a AND ENTRY_ADDR_MASK) OR (flags AND 0xFFF) OR VMM_PAGE_PRESENT"
    let ?m' = "(zero_entries a 512 ?m)(entry_at t i := ?E)"
    let ?s = "s\<lparr>vm_heap := h, vm_mem := ?m'\<rparr>"
    have E: "?E AND ENTRY_ADDR_MASK = a" "present ?E"
      using addr_mask_aligned [OF aal a52] present_page_entry by blast+
    have nt: "vmm_next_table kend t i flags True s = (a, ?s)"
      using k a(1) False by (simp add: vmm_next_table_def vmm_alloc_table_def store64_def present_def Let_def)
    have old: "u \<noteq> a \<and> unat (entry_at u j) \<noteq> unat as \<and> entry_at u j \<noteq> entry_at a k"
      if "short q" "table_at ?m root q = Some u" "j < 512" "k < 512" for q u j k
    proof -
      have u: "aligned 4096 u" "unat u < 2 ^ 52" "unat u + 4096 \<le> vbrk kend s \<or> unat kend + 8388608 \<le> unat u"
        "unat as < unat u \<or> unat u + 4096 \<le> unat as"
        using tok [OF that(1,2)] by (auto simp: table_ok_def)
      have "u \<noteq> a" using u(3) a(2) room by auto
      then have "entry_at u j \<noteq> entry_at a k" using entry_at_inj [OF u(1,2) that(3) aal a52 that(4)] by blast
      with \<open>u \<noteq> a\<close> u(4) unat_entry_at [OF u(1,2) that(3)] that(3) show ?thesis by auto
    qed
    have tt: "aligned 4096 t" "unat t < 2 ^ 52" using tok [OF sp(1) t(1)] by (simp_all add: table_ok_def)
    have same: "?m' (entry_at u j) = ?m (entry_at u j)"
      if "short q" "table_at ?m root q = Some u" "j < 512" "u \<noteq> t \<or> j \<noteq> i" for q u j
    proof -
      have u: "aligned 4096 u" "unat u < 2 ^ 52" using tok [OF that(1,2)] by (simp_all add: table_ok_def)
      have "entry_at u j \<noteq> entry_at t i" using entry_at_inj [OF u that(3) tt sp(2)] that(4) by blast
      moreover have "\<not> (\<exists>k < 512. entry_at u j = entry_at a k)" using old [OF that(1-3)] by blast
      ultimately show ?thesis by (auto simp: zero_entries_at)
    qed
    have zero: "?m' (entry_at a j) = 0" if "j < 512" for j
      using old [OF sp(1) t(1) sp(2) that] that by (auto simp: zero_entries_at)
    have ext: "table_at ?m' root q = (if q = p @ [i] then Some a else table_at ?m root q)" if "short q" for q
      by (rule table_at_extend [OF inj t False same _ _ _ that]) (use E zero in simp_all)
    have none: "table_at ?m root (p @ [i]) = None" using t(1) False by (simp add: table_at_snoc)
    have fresh: "table_at ?m root q \<noteq> Some a" if "short q" for q
      using old [OF that, of a 0 0] by auto
    have "tree_tables kend as (heap_brk kend h) ?m' root"
      unfolding tree_tables_def
    proof (intro conjI allI impI, goal_cases)
      case (1 q u)
      then consider "q = p @ [i]" "u = a" | "table_at ?m root q = Some u"
        using ext [of q] by (auto split: if_splits)
      then show ?case
      proof cases
        case 1
        show ?thesis using a a52 aal as(2) room unfolding 1 by (auto simp: table_ok_def)
      next
        case 2
        from tok [OF _ 2] 1 show ?thesis using a(3) by (auto simp: table_ok_def)
      qed
    next
      case (2 q r u)
      then show ?case using ext [of q] ext [of r] inj [of q r u] fresh by (auto split: if_splits)
    qed
    moreover have "?m' as = ?m as"
    proof -
      have "unat (entry_at t i) \<noteq> unat as" using old [OF sp(1) t(1) sp(2), of 0] by simp
      then have "as \<noteq> entry_at t i" by auto
      moreover have "as \<noteq> entry_at a j" if "j < 512" for j
      proof
        assume "as = entry_at a j"
        then have "unat as = vbrk kend s + 8 * j" using unat_entry_at [OF aal a52 that] a(2) by simp
        with as(2) that room show False by linarith
      qed
      ultimately show ?thesis by (auto simp: zero_entries_at)
    qed
    ultimately have inv': "vmm_inv kend as root ?s"
      using a(3,4) al top as by (auto simp: vmm_inv_def as_pml4_def)
    show ?thesis
    proof (rule that [OF nt a(1) inv'], goal_cases)
      case 1
      show ?case using a(3) by simp
    next
      case 2
      show ?case using ext [OF t(2)] by simp
    next
      case (3 q u)
      then show ?case using ext [of q] none by auto
    next
      case (4 q u)
      have mem: "vm_mem ?s = ?m'" by simp
      have "q = p @ [i] \<and> u = a \<or> table_at ?m root q = Some u"
        using 4(2) ext [OF 4(1)] unfolding mem by (auto split: if_splits)
      with zero show ?case unfolding mem by blast
    next
      case (5 q u j)
      have "u \<noteq> t"
      proof
        assume "u = t"
        then have "q = p" using inj [OF 5(1) sp(1) 5(2)] t(1) by simp
        with 5(4) t(2) show False by (simp add: short_def)
      qed
      with same [OF 5(1-3)] show ?case by simp
    qed
  qed
qed

subsection \<open>Mapping and unmapping\<close>

definition valid_vpn :: "vpn \<Rightarrow> bool" where
  "valid_vpn v \<longleftrightarrow> length (fst v) = 3 \<and> short (fst v) \<and> snd v < 512"

lemma valid_vpn_of [simp]: "valid_vpn (vpn_of v)"
  by (simp add: valid_vpn_def vpn_of_def short_def vmm_index_lt)

text \<open>A store into a table of the last level changes that entry and nothing else.\<close>

lemma store_leaf:
  fixes v :: u64
  assumes inv: "vmm_inv kend as root s" and p: "table_at (vm_mem s) root p = Some t" "length p = 3" "short p"
    and i: "i < 512"
  defines "s' \<equiv> store64 (entry_at t i) v s"
  shows "vmm_inv kend as root s'" and "vm_heap s' = vm_heap s" and "table_at (vm_mem s') root p = Some t"
    and "valid_vpn w \<Longrightarrow> walk (vm_mem s') root w =
      (if w = (p, i) then (if present v then Some v else None) else walk (vm_mem s) root w)"
proof -
  have tree: "tree_tables kend as (vbrk kend s) (vm_mem s) root" and as: "as_pml4 s as = root"
    using inv by (auto simp: vmm_inv_def)
  have tok: "table_ok kend as (vbrk kend s) u" if "short q" "table_at (vm_mem s) root q = Some u" for q u
    using tree that by (auto simp: tree_tables_def)
  have inj: "p = q" if "short p" "short q" "table_at (vm_mem s) root p = Some u" "table_at (vm_mem s) root q = Some u" for p q u
    using tree that unfolding tree_tables_def by blast
  have m': "vm_mem s' = (vm_mem s)(entry_at t i := v)" by (simp add: s'_def store64_def)
  show heap: "vm_heap s' = vm_heap s" by (simp add: s'_def store64_def)
  have same: "vm_mem s' (entry_at u j) = vm_mem s (entry_at u j)"
    if "short q" "table_at (vm_mem s) root q = Some u" "j < 512" "(q, j) \<noteq> (p, i)" for q u j
  proof -
    have u: "aligned 4096 u" "unat u < 2 ^ 52" "aligned 4096 t" "unat t < 2 ^ 52"
      using tok [OF that(1,2)] tok [OF p(3,1)] by (simp_all add: table_ok_def)
    have "entry_at u j \<noteq> entry_at t i"
    proof
      assume "entry_at u j = entry_at t i"
      then have "u = t" "j = i" using entry_at_inj [OF u(1,2) that(3) u(3,4) i] by auto
      then show False using inj [OF that(1) p(3) that(2)] p(1) that(4) by simp
    qed
    then show ?thesis by (simp add: m')
  qed
  have tab: "table_at (vm_mem s') root q = table_at (vm_mem s) root q" if "short q" for q
    using that
  proof (induction q rule: rev_induct)
    case (snoc j q)
    have q: "short q" "j < 512" "q \<noteq> p" using snoc.prems p(2) by (auto simp: short_def)
    show ?case
    proof (cases "table_at (vm_mem s) root q")
      case None
      with snoc.IH [OF q(1)] show ?thesis by (simp add: table_at_snoc)
    next
      case (Some u)
      with snoc.IH [OF q(1)] same [OF q(1) Some q(2)] q(3) show ?thesis by (simp add: table_at_snoc)
    qed
  qed simp
  then show "table_at (vm_mem s') root p = Some t" using p by simp
  have "as \<noteq> entry_at t i"
  proof
    assume a: "as = entry_at t i"
    have "table_ok kend as (vbrk kend s) t" by (rule tok [OF p(3,1)])
    with a unat_entry_at [of t i] i show False by (auto simp: table_ok_def)
  qed
  then have "as_pml4 s' as = root" using as by (simp add: as_pml4_def m')
  with inv tab heap show "vmm_inv kend as root s'" by (auto simp: vmm_inv_def tree_tables_def)
  assume w: "valid_vpn w"
  obtain q j where qj: "w = (q, j)" by (cases w)
  have q: "short q" "j < 512" using w qj by (simp_all add: valid_vpn_def)
  show "walk (vm_mem s') root w = (if w = (p, i) then (if present v then Some v else None) else walk (vm_mem s) root w)"
  proof (cases "w = (p, i)")
    case True
    with p tab [OF p(3)] qj show ?thesis by (simp add: walk_def m')
  next
    case False
    show ?thesis
    proof (cases "table_at (vm_mem s) root q")
      case None
      with False tab [OF q(1)] qj show ?thesis by (simp add: walk_def)
    next
      case (Some u)
      with False tab [OF q(1)] same [OF q(1) Some q(2)] qj show ?thesis by (auto simp: walk_def)
    qed
  qed
qed

lemma root_table:
  assumes "vmm_inv kend as root s"
  shows "root \<noteq> 0"
proof -
  have "short []" "table_at (vm_mem s) root [] = Some root" by (simp_all add: short_def)
  with assms show ?thesis unfolding vmm_inv_def tree_tables_def table_ok_def by blast
qed

text \<open>A creating step never changes what the pages of the tree translate to.\<close>

lemma next_table_walk:
  assumes mono: "\<And>q u. short q \<Longrightarrow> table_at m root q = Some u \<Longrightarrow> table_at m' root q = Some u"
    and new: "\<And>q u. short q \<Longrightarrow> table_at m' root q = Some u \<Longrightarrow> table_at m root q = Some u \<or>
        q = p \<and> (\<forall>j < 512. m' (entry_at u j) = 0)"
    and leaf: "\<And>q u j. short q \<Longrightarrow> table_at m root q = Some u \<Longrightarrow> j < 512 \<Longrightarrow> length q = 3 \<Longrightarrow>
        m' (entry_at u j) = m (entry_at u j)"
    and w: "valid_vpn w"
  shows "walk m' root w = walk m root w"
proof -
  obtain q j where qj: "w = (q, j)" by (cases w)
  have q: "short q" "j < 512" "length q = 3" using w qj by (simp_all add: valid_vpn_def)
  show ?thesis
  proof (cases "table_at m root q")
    case (Some u)
    with mono [OF q(1) Some] leaf [OF q(1) Some q(2,3)] qj show ?thesis by (simp add: walk_def)
  next
    case None
    show ?thesis
    proof (cases "table_at m' root q")
      case None
      with \<open>table_at m root q = None\<close> qj show ?thesis by (simp add: walk_def)
    next
      case (Some u)
      with new [OF q(1) Some] None have "m' (entry_at u j) = 0" using q(2) by simp
      with Some None qj show ?thesis by (simp add: walk_def)
    qed
  qed
qed

lemma vmm_next_table_step:
  assumes inv: "vmm_inv kend as root s" and t: "table_at (vm_mem s) root p = Some t" "short (p @ [i])"
    and room: "vbrk kend s + 4096 \<le> unat kend + 8388608"
  obtains t' s' where "vmm_next_table kend t i flags True s = (t', s')" "t' \<noteq> 0" "vmm_inv kend as root s'"
    "vbrk kend s' \<le> vbrk kend s + 4096" "table_at (vm_mem s') root (p @ [i]) = Some t'"
    "\<And>w. valid_vpn w \<Longrightarrow> walk (vm_mem s') root w = walk (vm_mem s) root w"
proof (rule vmm_next_table_create [OF assms, of flags], goal_cases)
  case (1 t' s')
  show ?case
  proof (rule that [OF 1(2-6)])
    fix w assume w: "valid_vpn w"
    show "walk (vm_mem s') root w = walk (vm_mem s) root w"
      by (rule next_table_walk [OF 1(7) 1(8) 1(9) w])
  qed
qed

lemma vmm_map_page_walk:
  assumes inv: "vmm_inv kend as root s" and room: "vbrk kend s + 12288 \<le> unat kend + 8388608"
  shows "\<exists>s'. vmm_map_page kend as virt phys flags s = (0, s') \<and> vmm_inv kend as root s' \<and>
    vbrk kend s' \<le> vbrk kend s + 12288 \<and>
    (\<forall>w. valid_vpn w \<longrightarrow> walk (vm_mem s') root w =
       (if w = vpn_of virt then Some (page_entry phys flags) else walk (vm_mem s) root w))"
proof -
  let ?i4 = "vmm_index 39 virt" and ?i3 = "vmm_index 30 virt" and ?i2 = "vmm_index 21 virt" and ?i1 = "vmm_index 12 virt"
  have as: "as \<noteq> 0" "as_pml4 s as = root" using inv by (simp_all add: vmm_inv_def)
  have root: "root \<noteq> 0" by (rule root_table [OF inv])
  have sh: "short ([] @ [?i4])" "short ([?i4] @ [?i3])" "short ([?i4, ?i3] @ [?i2])"
    by (simp_all add: short_def vmm_index_lt)
  have p0: "table_at (vm_mem s) root [] = Some root" by simp
  have r1: "vbrk kend s + 4096 \<le> unat kend + 8388608" using room by simp
  obtain t1 s1 where 1: "vmm_next_table kend root ?i4 flags True s = (t1, s1)" "t1 \<noteq> 0" "vmm_inv kend as root s1"
    "vbrk kend s1 \<le> vbrk kend s + 4096" "table_at (vm_mem s1) root ([] @ [?i4]) = Some t1"
    and w1: "\<And>w. valid_vpn w \<Longrightarrow> walk (vm_mem s1) root w = walk (vm_mem s) root w"
    by (rule vmm_next_table_step [OF inv p0 sh(1) r1, of flags]) (rule that)
  have r2: "vbrk kend s1 + 4096 \<le> unat kend + 8388608" using room 1(4) by simp
  have p1: "table_at (vm_mem s1) root [?i4] = Some t1" using 1(5) by simp
  obtain t2 s2 where 2: "vmm_next_table kend t1 ?i3 flags True s1 = (t2, s2)" "t2 \<noteq> 0" "vmm_inv kend as root s2"
    "vbrk kend s2 \<le> vbrk kend s1 + 4096" "table_at (vm_mem s2) root ([?i4] @ [?i3]) = Some t2"
    and w2: "\<And>w. valid_vpn w \<Longrightarrow> walk (vm_mem s2) root w = walk (vm_mem s1) root w"
    by (rule vmm_next_table_step [OF 1(3) p1 sh(2) r2, of flags]) (rule that)
  have r3: "vbrk kend s2 + 4096 \<le> unat kend + 8388608" using room 1(4) 2(4) by simp
  have p2: "table_at (vm_mem s2) root [?i4, ?i3] = Some t2" using 2(5) by simp
  obtain t3 s3 where 3: "vmm_next_table kend t2 ?i2 flags True s2 = (t3, s3)" "t3 \<noteq> 0" "vmm_inv kend as root s3"
    "vbrk kend s3 \<le> vbrk kend s2 + 4096" "table_at (vm_mem s3) root ([?i4, ?i3] @ [?i2]) = Some t3"
    and w3: "\<And>w. valid_vpn w \<Longrightarrow> walk (vm_mem s3) root w = walk (vm_mem s2) root w"
    by (rule vmm_next_table_step [OF 2(3) p2 sh(3) r3, of flags]) (rule that)
  let ?s = "store64 (entry_at t3 ?i1) (page_entry phys flags) s3"
  have p3: "table_at (vm_mem s3) root [?i4, ?i3, ?i2] = Some t3" using 3(5) by simp
  have len: "length [?i4, ?i3, ?i2] = 3" "short [?i4, ?i3, ?i2]" using sh(3) by simp_all
  note L = store_leaf [OF 3(3) p3 len vmm_index_lt [of 12 virt], where v = "page_entry phys flags"]
  have run: "vmm_map_page kend as virt phys flags s = (0, ?s)"
    using as root 1(1,2) 2(1,2) 3(1,2) by (simp add: vmm_map_page_def page_entry_def)
  have pe: "present (page_entry phys flags)" unfolding page_entry_def by (rule present_page_entry)
  have "\<forall>w. valid_vpn w \<longrightarrow> walk (vm_mem ?s) root w =
       (if w = vpn_of virt then Some (page_entry phys flags) else walk (vm_mem s) root w)"
    using L(4) w1 w2 w3 pe unfolding vpn_of_def by auto
  with run L(1,2) 1(4) 2(4) 3(4) show ?thesis by (intro exI [where x = ?s]) auto
qed

lemma next_table_lookup:
  assumes inv: "vmm_inv kend as root s" and t: "table_at (vm_mem s) root p = Some t" "short (p @ [i])"
  shows "vmm_next_table kend t i flags False s =
    (case table_at (vm_mem s) root (p @ [i]) of None \<Rightarrow> 0 | Some u \<Rightarrow> u, s)"
    and "table_at (vm_mem s) root (p @ [i]) = Some u \<Longrightarrow> u \<noteq> 0"
proof -
  show "vmm_next_table kend t i flags False s =
      (case table_at (vm_mem s) root (p @ [i]) of None \<Rightarrow> 0 | Some u \<Rightarrow> u, s)"
    using t(1) by (simp add: vmm_next_table_def table_at_snoc present_def Let_def)
  show "u \<noteq> 0" if "table_at (vm_mem s) root (p @ [i]) = Some u"
    using inv t(2) that unfolding vmm_inv_def tree_tables_def table_ok_def by blast
qed

lemma vmm_unmap_page_walk:
  assumes inv: "vmm_inv kend as root s"
  shows "\<exists>rc s'. vmm_unmap_page kend as virt s = (rc, s') \<and> vmm_inv kend as root s' \<and>
    vbrk kend s' = vbrk kend s \<and> (rc = 0 \<or> s' = s \<and> walk (vm_mem s) root (vpn_of virt) = None) \<and>
    (\<forall>w. valid_vpn w \<longrightarrow> walk (vm_mem s') root w =
       (if w = vpn_of virt then None else walk (vm_mem s) root w))"
proof -
  let ?i4 = "vmm_index 39 virt" and ?i3 = "vmm_index 30 virt" and ?i2 = "vmm_index 21 virt" and ?i1 = "vmm_index 12 virt"
  let ?m = "vm_mem s"
  have as: "as \<noteq> 0" "as_pml4 s as = root" using inv by (simp_all add: vmm_inv_def)
  have root: "root \<noteq> 0" by (rule root_table [OF inv])
  have sh: "short ([] @ [?i4])" "short ([?i4] @ [?i3])" "short ([?i4, ?i3] @ [?i2])"
    by (simp_all add: short_def vmm_index_lt)
  have p0: "table_at ?m root [] = Some root" by simp
  have missing: ?thesis if "\<exists>rc. vmm_unmap_page kend as virt s = (rc, s)" "table_at ?m root [?i4, ?i3, ?i2] = None"
    using that inv by (auto simp: walk_def vpn_of_def)
  have cut: "table_at ?m root (q @ [j]) = None" if "table_at ?m root q = None" for q j
    using that by (simp add: table_at_snoc)
  note n1 = next_table_lookup [OF inv p0 sh(1)]
  show ?thesis
  proof (cases "table_at ?m root [?i4]")
    case None
    have "table_at ?m root [?i4, ?i3, ?i2] = None" using cut [OF cut [OF None, of ?i3], of ?i2] by simp
    moreover have "\<exists>rc. vmm_unmap_page kend as virt s = (rc, s)"
      using as root n1(1) None by (simp add: vmm_unmap_page_def)
    ultimately show ?thesis by (intro missing)
  next
    case (Some t1)
    note s1 = this and n2 = next_table_lookup [OF inv Some sh(2)]
    have t1: "t1 \<noteq> 0" using n1(2) [of t1] Some by simp
    show ?thesis
    proof (cases "table_at ?m root [?i4, ?i3]")
      case None
      have "table_at ?m root [?i4, ?i3, ?i2] = None" using cut [OF None, of ?i2] by simp
      moreover have "\<exists>rc. vmm_unmap_page kend as virt s = (rc, s)"
        using as root n1(1) n2(1) None s1 t1 by (simp add: vmm_unmap_page_def)
      ultimately show ?thesis by (intro missing)
    next
      case (Some t2)
      note s2 = this and n3 = next_table_lookup [OF inv Some sh(3)]
      have t2: "t2 \<noteq> 0" using n2(2) [of t2] Some by simp
      show ?thesis
      proof (cases "table_at ?m root [?i4, ?i3, ?i2]")
        case None
        moreover have "\<exists>rc. vmm_unmap_page kend as virt s = (rc, s)"
          using as root n1(1) n2(1) n3(1) None s1 s2 t1 t2 by (simp add: vmm_unmap_page_def)
        ultimately show ?thesis by (intro missing)
      next
        case (Some t3)
        have t3: "t3 \<noteq> 0" using n3(2) [of t3] Some by simp
        let ?s = "store64 (entry_at t3 ?i1) 0 s"
        have len: "length [?i4, ?i3, ?i2] = 3" "short [?i4, ?i3, ?i2]" using sh(3) by simp_all
        note L = store_leaf [OF inv Some len vmm_index_lt [of 12 virt], where v = 0]
        have run: "vmm_unmap_page kend as virt s = (0, ?s)"
          using as root n1(1) n2(1) n3(1) Some s1 s2 t1 t2 t3 by (simp add: vmm_unmap_page_def)
        have "\<forall>w. valid_vpn w \<longrightarrow> walk (vm_mem ?s) root w =
            (if w = vpn_of virt then None else walk ?m root w)"
          using L(4) unfolding vpn_of_def by simp
        with run L(1,2) show ?thesis by (intro exI [where x = 0] exI [where x = ?s]) simp
      qed
    qed
  qed
qed

subsection \<open>An address space is a map from pages to entries\<close>

text \<open>
  The contract: each operation acts on what is looked up as it does on an abstract map; \<open>inv n\<close>
  says there is room for \<open>n\<close> more operations.
\<close>

locale map_machine =
  fixes run :: "'op \<Rightarrow> 's \<Rightarrow> 's"
    and look :: "'s \<Rightarrow> 'k \<Rightarrow> 'v option"
    and eff :: "'op \<Rightarrow> ('k \<Rightarrow> 'v option) \<Rightarrow> 'k \<Rightarrow> 'v option"
    and inv :: "nat \<Rightarrow> 's \<Rightarrow> bool"
  assumes step: "inv (Suc n) s \<Longrightarrow> inv n (run op s) \<and> look (run op s) = eff op (look s)"
begin

lemma run_all: "inv (length ops + n) s \<Longrightarrow> inv n (fold run ops s) \<and> look (fold run ops s) = fold eff ops (look s)"
proof (induction ops arbitrary: s)
  case (Cons op ops)
  then have "inv (Suc (length ops + n)) s" by simp
  from step [OF this, of op] Cons.IH show ?case by simp
qed simp

end

datatype vm_op = MapPage u64 u64 u64 | UnmapPage u64

fun vm_run :: "u64 \<Rightarrow> u64 \<Rightarrow> vm_op \<Rightarrow> vmm \<Rightarrow> vmm" where
  "vm_run kend as (MapPage virt phys flags) s = snd (vmm_map_page kend as virt phys flags s)"
| "vm_run kend as (UnmapPage virt) s = snd (vmm_unmap_page kend as virt s)"

fun vm_eff :: "vm_op \<Rightarrow> (vpn \<Rightarrow> u64 option) \<Rightarrow> vpn \<Rightarrow> u64 option" where
  "vm_eff (MapPage virt phys flags) m = m(vpn_of virt \<mapsto> page_entry phys flags)"
| "vm_eff (UnmapPage virt) m = m(vpn_of virt := None)"

text \<open>What the hardware translates in the current state.\<close>

definition translation :: "u64 \<Rightarrow> vmm \<Rightarrow> vpn \<Rightarrow> u64 option" where
  "translation root s w = (if valid_vpn w then walk (vm_mem s) root w else None)"

definition vm_ready :: "u64 \<Rightarrow> u64 \<Rightarrow> u64 \<Rightarrow> nat \<Rightarrow> vmm \<Rightarrow> bool" where
  "vm_ready kend as root n s \<longleftrightarrow> vmm_inv kend as root s \<and> vbrk kend s + 12288 * n \<le> unat kend + 8388608"

interpretation address_space: map_machine "vm_run kend as" "translation root" vm_eff "vm_ready kend as root"
  for kend as root
proof (unfold_locales, goal_cases)
  case (1 n s op)
  then have inv: "vmm_inv kend as root s" and r: "vbrk kend s + 12288 \<le> unat kend + 8388608"
    and r': "vbrk kend s + (12288 + 12288 * n) \<le> unat kend + 8388608" by (simp_all add: vm_ready_def)
  show ?case
  proof (cases op)
    case (MapPage virt phys flags)
    obtain s' where s': "vmm_map_page kend as virt phys flags s = (0, s')" "vmm_inv kend as root s'"
      "vbrk kend s' \<le> vbrk kend s + 12288"
      "\<forall>w. valid_vpn w \<longrightarrow> walk (vm_mem s') root w =
       (if w = vpn_of virt then Some (page_entry phys flags) else walk (vm_mem s) root w)"
      using vmm_map_page_walk [OF inv r] by blast
    have "translation root s' = (translation root s)(vpn_of virt \<mapsto> page_entry phys flags)"
      by (rule ext) (simp add: translation_def s'(4))
    with s' r' MapPage show ?thesis by (simp add: vm_ready_def)
  next
    case (UnmapPage virt)
    obtain rc s' where s': "vmm_unmap_page kend as virt s = (rc, s')" "vmm_inv kend as root s'"
      "vbrk kend s' = vbrk kend s"
      "\<forall>w. valid_vpn w \<longrightarrow> walk (vm_mem s') root w =
       (if w = vpn_of virt then None else walk (vm_mem s) root w)"
      using vmm_unmap_page_walk [OF inv] by blast
    have "translation root s' = (translation root s)(vpn_of virt := None)"
      by (rule ext) (simp add: translation_def s'(4))
    with s' r' UnmapPage show ?thesis by (simp add: vm_ready_def)
  qed
qed

subsection \<open>Properties\<close>


definition demo_vmm :: vmm where
  "demo_vmm = \<lparr>vm_mem = (\<lambda>a. if a = 0x1000 then 0x2000 else 0),
     vm_heap = \<lparr>heap_base = 0x200000, heap_ptr = 0x201000, heap_limit = 0xA00000\<rparr>,
     current_as = 0x1000, cpu_cr3 = 0x2000\<rparr>"

lemma demo_vmm_ready: "vm_ready 0x200000 0x1000 0x2000 2 demo_vmm"
proof -
  have e: "entry_at 0x2000 i \<noteq> 0x1000" if "i < 512" for i
  proof
    assume "entry_at 0x2000 i = 0x1000"
    moreover have "unat (entry_at 0x2000 i) = unat (0x2000 :: u64) + 8 * i"
      by (rule unat_entry_at) (use that in \<open>simp_all add: aligned_def\<close>)
    ultimately show False by simp
  qed
  have t: "table_at (vm_mem demo_vmm) 0x2000 p = (if p = [] then Some 0x2000 else None)" if "short p" for p
    using that e by (cases p) (auto simp: demo_vmm_def short_def Let_def)
  have "table_ok 0x200000 0x1000 0x201000 0x2000" by (simp add: table_ok_def aligned_def)
  with t have "tree_tables 0x200000 0x1000 0x201000 (vm_mem demo_vmm) 0x2000"
    unfolding tree_tables_def by (auto split: if_splits)
  then show ?thesis
    by (simp add: vm_ready_def vmm_inv_def heap_brk_def demo_vmm_def heap_inv_def kend_ok_def
        KERNEL_HEAP_SIZE_def as_pml4_def)
qed


lemma addr_mask_small:
  assumes "unat t < 2 ^ 52"
  shows "t AND ENTRY_ADDR_MASK = t AND NOT (4096 - 1)"
proof -
  have "take_bit 52 t = t"
    using assms by (simp add: word_unat_eq_iff unsigned_take_bit_eq take_bit_nat_eq_self)
  then have hi: "\<not> bit t n" if "52 \<le> n" for n using that by (metis bit_take_bit_iff leD)
  have m: "ENTRY_ADDR_MASK = push_bit 12 (mask 40)" by (simp add: ENTRY_ADDR_MASK_def mask_eq_exp_minus_1)
  show ?thesis
    unfolding not_mask_u64_12 m
  proof (rule bit_word_eqI)
    fix n
    show "bit (t AND push_bit 12 (mask 40)) n = bit (t AND NOT (mask 12)) n"
      using hi [of n] by (cases "n < 52") (auto simp: bit_simps)
  qed
qed

lemma copy_entries_other: "\<forall>i < n. a \<noteq> entry_at t i \<Longrightarrow> copy_entries t src n m a = m a"
  by (induction n) (auto simp: Let_def)

text \<open>
  \<open>vmm_create_address_space\<close> never makes a usable address space on an aligned heap. It allocates
  the 16-byte struct first, so the top-level table that follows is not page aligned, and the \<open>cr3\<close>
  value it stores, which drops the low 12 bits, is not the address of the table.
\<close>

theorem vmm_create_misaligned:
  assumes "heap_inv kend (vm_heap s)" and "vbrk kend s mod 4096 = 0"
    and "vbrk kend s + 4112 \<le> unat kend + 8388608" and "unat kend + 8388608 \<le> 2 ^ 52"
  shows "\<exists>as s'. vmm_create_address_space kend kas s = (as, s') \<and> as \<noteq> 0 \<and> as_pml4 s' as = as + 16 \<and>
    as_cr3 s' as = as \<and> as_cr3 s' as \<noteq> as_pml4 s' as"
proof -
  obtain a h where k: "kmalloc kend 16 (vm_heap s) = (a, h)" by (cases "kmalloc kend 16 (vm_heap s)")
  have "a \<noteq> 0" using kheap.alloc_room [OF assms(1), of 16] assms(3) k by simp
  with kheap.alloc_some [OF assms(1) _ k] kheap.alloc_ok [OF assms(1) _ k]
  have a: "a \<noteq> 0" "unat a = vbrk kend s" "heap_brk kend h = vbrk kend s + 16" "heap_inv kend h" by simp_all
  obtain t h2 where k2: "kmalloc kend 4096 h = (t, h2)" by (cases "kmalloc kend 4096 h")
  have "t \<noteq> 0" using kheap.alloc_room [OF a(4), of 4096] assms(3) a(3) k2 by simp
  with kheap.alloc_some [OF a(4) _ k2] have t: "t \<noteq> 0" "unat t = vbrk kend s + 16" using a(3) by simp_all
  have lt: "unat a + 4112 < 2 ^ 64" using a(2) assms(3,4) by simp
  have ta: "t = a + 16" using a(2) t(2) lt by (simp add: word_unat_eq_iff unat_plus_exact)
  have e: "unat (entry_at t i) = unat a + (16 + 8 * i)" if "i < 512" for i
  proof -
    have "unat (8 * of_nat i :: u64) = 8 * i"
      using that by (subst unat_mult_exact) (simp_all add: unat_of_nat_small)
    then show ?thesis using that lt t(2) a(2) unfolding entry_at_def by (subst unat_plus_exact) simp_all
  qed
  have off: "\<forall>i < 512. a \<noteq> entry_at t i"
  proof (intro allI impI notI)
    fix i :: nat assume "i < 512" "a = entry_at t i"
    with e [of i] show False by simp
  qed
  have lt52: "unat t < 2 ^ 52" using t(2) assms(3,4) by simp
  have m: "t AND ENTRY_ADDR_MASK = a"
  proof -
    have "unat (t AND ENTRY_ADDR_MASK) = unat t div 4096 * 4096"
      unfolding addr_mask_small [of t, OF lt52] by (rule unat_align_down_4096)
    also have "\<dots> = unat a" using assms(2) t(2) a(2) by (auto elim!: dvdE simp: mod_eq_0_iff_dvd)
    finally show ?thesis by (simp add: word_unat_eq_iff)
  qed
  let ?s3 = "store64 a t (s\<lparr>vm_heap := h2, vm_mem := zero_entries t 512 (vm_mem s)\<rparr>)"
  let ?s4 = "if as_pml4 ?s3 kas \<noteq> 0
             then ?s3\<lparr>vm_mem := copy_entries t (as_pml4 ?s3 kas) 512 (vm_mem ?s3)\<rparr> else ?s3"
  have p4: "as_pml4 ?s4 a = t" using off by (simp add: as_pml4_def store64_def copy_entries_other)
  have run: "vmm_create_address_space kend kas s = (a, store64 (a + 8) (as_pml4 ?s4 a AND ENTRY_ADDR_MASK) ?s4)"
    using k k2 a(1) t(1)
    by (simp add: vmm_create_address_space_def SIZEOF_ADDRESS_SPACE_def vmm_alloc_table_def Let_def)
  have ne: "a \<noteq> a + 8" "a \<noteq> a + 16" by simp_all
  show ?thesis
    using run a(1) ne p4 ta m
    by (intro exI [where x = a] exI [where x = "store64 (a + 8) (as_pml4 ?s4 a AND ENTRY_ADDR_MASK) ?s4"])
      (simp add: as_pml4_def as_cr3_def store64_def)
qed

theorem vmm_create_misaligned_witness:
  "\<exists>as s'. vmm_create_address_space 0x200000 0x1000 demo_vmm = (as, s') \<and> as_cr3 s' as \<noteq> as_pml4 s' as"
proof -
  have "heap_inv 0x200000 (vm_heap demo_vmm)"
    by (simp add: demo_vmm_def heap_inv_def kend_ok_def KERNEL_HEAP_SIZE_def)
  from vmm_create_misaligned [OF this, of "0x1000"] show ?thesis
    by (auto simp: demo_vmm_def heap_brk_def)
qed

end
