(* ===== verification/Scheduler.thy ===== *)
theory Scheduler
  imports Vmm CString
begin

text \<open>
  Processes and the round-robin scheduler (\<open>kernel/scheduler/scheduler.c\<close>,
  \<open>kernel/process/process.c\<close>, \<open>kernel/arch/x86_64/context_switch.S\<close>). Process structs live on the
  kernel heap at their addresses; the run queue and the zombie list are chains through \<open>pnext\<close>.
  A context switch saves the registers on the current stack and loads another stack, so the CPU
  registers are part of the state. Following a dangling pointer or looping for ever is \<open>None\<close>.
\<close>

subsection \<open>The CPU and \<open>context_switch\<close>\<close>

text \<open>
  \<open>regs\<close> are the 15 registers the routine saves, in the order it pops them: rax, rbx, rcx, rdx,
  rsi, rdi, rbp, r8 to r15. \<open>rip\<close> is the address the running code continues at.
\<close>

record cpu =
  regs :: "u64 list"
  rip :: u64
  rsp :: u64

fun push_all :: "u64 list \<Rightarrow> u64 \<Rightarrow> wordmem \<Rightarrow> u64 \<times> wordmem" where
  "push_all [] sp m = (sp, m)"
| "push_all (r # rs) sp m = push_all rs (sp - 8) (m(sp - 8 := r))"

fun pop_n :: "nat \<Rightarrow> u64 \<Rightarrow> wordmem \<Rightarrow> u64 list" where
  "pop_n 0 sp m = []"
| "pop_n (Suc n) sp m = m sp # pop_n n (sp + 8) m"

text \<open>
  The call pushes the return address, then r15 down to rax are pushed and the stack pointer is the
  value stored through \<open>old_sp\<close>; then the registers are popped off the new stack and \<open>ret\<close> pops
  the new rip. The result is the saved stack pointer and the new CPU and memory.
\<close>

definition context_switch :: "u64 \<Rightarrow> cpu \<Rightarrow> wordmem \<Rightarrow> u64 \<times> cpu \<times> wordmem" where
  "context_switch new_sp c m =
     (let (old, m1) = push_all (rip c # rev (regs c)) (rsp c) m
      in (old, \<lparr>regs = pop_n 15 new_sp m1, rip = m1 (new_sp + 120), rsp = new_sp + 128\<rparr>, m1))"

subsection \<open>State\<close>

datatype proc_state = PROC_RUNNING | PROC_READY | PROC_BLOCKED | PROC_TERMINATED

definition PROC_NAME_LEN :: nat where "PROC_NAME_LEN = 32"
definition PROC_MAX_FDS :: nat where "PROC_MAX_FDS = 16"

record process_fd =
  used :: bool
  fd :: int
  offset :: u64
  fpath :: string

record process =
  pid :: u32
  pname :: string
  pstate :: proc_state
  stack_ptr :: u64
  stack_base :: u64
  stack_size :: u64
  priority :: int
  pnext :: u64
  image_base :: u64
  image_size :: u64
  exit_code :: int
  address_space :: u64
  pcr3 :: u64
  fds :: "process_fd list"

type_synonym proc_map = "u64 \<rightharpoonup> process"

record sched =
  procs :: proc_map
  runqueue_head :: u64
  current :: u64
  kernel_sp :: u64
  tick_count :: u64
  need_resched :: bool
  zombie_head :: u64
  next_pid :: u32
  cpu :: cpu
  vm :: vmm

definition upd_proc :: "u64 \<Rightarrow> (process \<Rightarrow> process) \<Rightarrow> sched \<Rightarrow> sched" where
  "upd_proc p f s = (case procs s p of None \<Rightarrow> s | Some n \<Rightarrow> s\<lparr>procs := (procs s)(p \<mapsto> f n)\<rparr>)"

definition state_of :: "proc_map \<Rightarrow> u64 \<Rightarrow> proc_state option" where
  "state_of ps p = map_option pstate (ps p)"

subsection \<open>Queue operations\<close>

definition scheduler_init :: "sched \<Rightarrow> sched" where
  "scheduler_init s = s\<lparr>runqueue_head := 0, current := 0, kernel_sp := 0, tick_count := 0,
     need_resched := False, zombie_head := 0\<rparr>"

partial_function (option) last_of :: "proc_map \<Rightarrow> u64 \<Rightarrow> u64 option" where
  "last_of ps it = (case ps it of None \<Rightarrow> None
     | Some n \<Rightarrow> if pnext n \<noteq> 0 then last_of ps (pnext n) else Some it)"

definition scheduler_add :: "u64 \<Rightarrow> sched \<Rightarrow> sched option" where
  "scheduler_add p s =
     (if p = 0 then Some s
      else let s1 = upd_proc p (\<lambda>n. n\<lparr>pnext := 0\<rparr>) s
      in if runqueue_head s1 = 0 then Some (s1\<lparr>runqueue_head := p\<rparr>)
         else case last_of (procs s1) (runqueue_head s1) of None \<Rightarrow> None
              | Some it \<Rightarrow> Some (upd_proc it (\<lambda>n. n\<lparr>pnext := p\<rparr>) s1))"

text \<open>The loop that finds \<open>target\<close> and its predecessor: \<open>(prev, it)\<close>, \<open>it = 0\<close> when it is not there.\<close>

partial_function (option) find_prev ::
  "proc_map \<Rightarrow> u64 \<Rightarrow> u64 \<Rightarrow> u64 \<Rightarrow> (u64 \<times> u64) option" where
  "find_prev ps target prev it =
     (if it = 0 \<or> it = target then Some (prev, it)
      else case ps it of None \<Rightarrow> None | Some n \<Rightarrow> find_prev ps target it (pnext n))"

text \<open>Unlinking \<open>it\<close>, whose predecessor is \<open>prev\<close>.\<close>

definition unlink :: "u64 \<Rightarrow> u64 \<Rightarrow> sched \<Rightarrow> sched option" where
  "unlink prev it s =
     (case procs s it of None \<Rightarrow> None
      | Some n \<Rightarrow> Some (if prev = 0 then s\<lparr>runqueue_head := pnext n\<rparr>
                        else upd_proc prev (\<lambda>m. m\<lparr>pnext := pnext n\<rparr>) s))"

definition scheduler_remove_current :: "sched \<Rightarrow> sched option" where
  "scheduler_remove_current s =
     (if current s = 0 then Some s
      else let s1 = upd_proc (current s) (\<lambda>n. n\<lparr>pstate := PROC_TERMINATED\<rparr>) s
      in case find_prev (procs s1) (current s1) 0 (runqueue_head s1) of None \<Rightarrow> None
         | Some (prev, it) \<Rightarrow>
           if it = 0 then Some s1
           else case unlink prev it s1 of None \<Rightarrow> None
             | Some s2 \<Rightarrow> Some ((upd_proc it (\<lambda>n. n\<lparr>pnext := zombie_head s2\<rparr>) s2)\<lparr>zombie_head := it\<rparr>))"

partial_function (option) find_pid :: "proc_map \<Rightarrow> u32 \<Rightarrow> u64 \<Rightarrow> u64 option" where
  "find_pid ps k it =
     (if it = 0 then Some 0
      else case ps it of None \<Rightarrow> None | Some n \<Rightarrow> if pid n = k then Some it else find_pid ps k (pnext n))"

definition scheduler_find_by_pid :: "u32 \<Rightarrow> sched \<Rightarrow> u64 option" where
  "scheduler_find_by_pid k s =
     (case find_pid (procs s) k (runqueue_head s) of None \<Rightarrow> None
      | Some it \<Rightarrow>
        if it \<noteq> 0 then Some it
        else if current s \<noteq> 0 \<and> map_option pid (procs s (current s)) = Some k then Some (current s)
        else find_pid (procs s) k (zombie_head s))"

subsection \<open>Switching\<close>

definition switch_from_kernel :: "u64 \<Rightarrow> sched \<Rightarrow> sched" where
  "switch_from_kernel new_sp s =
     (let (old, c, m) = context_switch new_sp (cpu s) (vm_mem (vm s))
      in s\<lparr>kernel_sp := old, cpu := c, vm := (vm s)\<lparr>vm_mem := m\<rparr>\<rparr>)"

definition switch_from_process :: "u64 \<Rightarrow> u64 \<Rightarrow> sched \<Rightarrow> sched" where
  "switch_from_process prev new_sp s =
     (let (old, c, m) = context_switch new_sp (cpu s) (vm_mem (vm s))
      in (upd_proc prev (\<lambda>n. n\<lparr>stack_ptr := old\<rparr>) s)\<lparr>cpu := c, vm := (vm s)\<lparr>vm_mem := m\<rparr>\<rparr>)"

definition scheduler_start :: "sched \<Rightarrow> sched option" where
  "scheduler_start s =
     (if runqueue_head s = 0 then Some s
      else case procs s (runqueue_head s) of None \<Rightarrow> None
      | Some n \<Rightarrow> Some (switch_from_kernel (stack_ptr n)
          (upd_proc (runqueue_head s) (\<lambda>n. n\<lparr>pstate := PROC_RUNNING\<rparr>) (s\<lparr>current := runqueue_head s\<rparr>))))"

text \<open>
  The search of \<open>pick_next\<close> from \<open>cand\<close>; \<open>it\<close> is where the running process was found, 0 if it is
  not queued. \<open>cur\<close> is the answer when no other process is ready.
\<close>

partial_function (option) pick_loop ::
  "proc_map \<Rightarrow> u64 \<Rightarrow> u64 \<Rightarrow> u64 \<Rightarrow> u64 \<Rightarrow> u64 option" where
  "pick_loop ps rq it cur cand =
     (if cand = 0 then Some cur
      else case ps cand of None \<Rightarrow> None
      | Some n \<Rightarrow>
        if pstate n = PROC_READY then Some cand
        else let cand' = (if pnext n \<noteq> 0 then pnext n else rq)
             in if cand' = it then Some cur else pick_loop ps rq it cur cand')"

definition pick_next :: "sched \<Rightarrow> u64 option" where
  "pick_next s =
     (if runqueue_head s = 0 then Some 0
      else if current s = 0 then Some (runqueue_head s)
      else case find_prev (procs s) (current s) 0 (runqueue_head s) of None \<Rightarrow> None
      | Some (prev, it) \<Rightarrow>
        if it = 0 then pick_loop (procs s) (runqueue_head s) it (current s) (runqueue_head s)
        else case procs s it of None \<Rightarrow> None
             | Some n \<Rightarrow> pick_loop (procs s) (runqueue_head s) it (current s) (pnext n))"

definition enter_address_space :: "u64 \<Rightarrow> sched \<Rightarrow> sched" where
  "enter_address_space as s = (if as \<noteq> 0 then s\<lparr>vm := vmm_switch_address_space as (vm s)\<rparr> else s)"

definition scheduler_yield :: "sched \<Rightarrow> sched option" where
  "scheduler_yield s =
     (case pick_next s of None \<Rightarrow> None
      | Some next \<Rightarrow>
        if next = 0 \<or> next = current s then Some s
        else let s1 = s\<lparr>need_resched := False\<rparr> in
        case procs s1 next of None \<Rightarrow> None
        | Some n \<Rightarrow>
          if current s1 = 0 then
            let s2 = (upd_proc next (\<lambda>n. n\<lparr>pstate := PROC_RUNNING\<rparr>) s1)\<lparr>current := next\<rparr>
            in Some (switch_from_kernel (stack_ptr n) (enter_address_space (address_space n) s2))
          else
            let prev = current s1;
                s2 = (if state_of (procs s1) prev = Some PROC_TERMINATED then s1
                      else upd_proc prev (\<lambda>n. n\<lparr>pstate := PROC_READY\<rparr>) s1);
                s3 = upd_proc next (\<lambda>n. n\<lparr>pstate := PROC_RUNNING\<rparr>) (s2\<lparr>current := next\<rparr>)
            in Some (switch_from_process prev (stack_ptr n) (enter_address_space (address_space n) s3)))"

definition scheduler_tick :: "sched \<Rightarrow> sched" where
  "scheduler_tick s =
     (let t = tick_count s + 1
      in s\<lparr>tick_count := t, need_resched := (if t mod 50 = 0 then True else need_resched s)\<rparr>)"

definition scheduler_get_current :: "sched \<Rightarrow> u64" where
  "scheduler_get_current s = current s"

definition scheduler_needs_reschedule :: "sched \<Rightarrow> bool" where
  "scheduler_needs_reschedule s = need_resched s"

definition scheduler_kill :: "u32 \<Rightarrow> sched \<Rightarrow> (int \<times> sched) option" where
  "scheduler_kill k s =
     (case scheduler_find_by_pid k s of None \<Rightarrow> None
      | Some p \<Rightarrow>
        if p = 0 then Some (- 1, s)
        else if p = current s then
          (case scheduler_remove_current (upd_proc p (\<lambda>n. n\<lparr>pstate := PROC_TERMINATED\<rparr>) s) of None \<Rightarrow> None
           | Some s1 \<Rightarrow> map_option (\<lambda>s2. (0, s2)) (scheduler_yield s1))
        else case find_prev (procs s) p 0 (runqueue_head s) of None \<Rightarrow> None
          | Some (prev, it) \<Rightarrow>
            if it = 0 then Some (- 1, s)
            else map_option (\<lambda>s1. (0, upd_proc it (\<lambda>n. n\<lparr>pstate := PROC_TERMINATED\<rparr>) s1)) (unlink prev it s))"

text \<open>\<open>scheduler_list\<close> prints the queue and the running process.\<close>

definition state_text :: "proc_state \<Rightarrow> string" where
  "state_text st = (case st of PROC_RUNNING \<Rightarrow> ''RUNNING'' | PROC_READY \<Rightarrow> ''READY''
     | PROC_BLOCKED \<Rightarrow> ''BLOCKED'' | PROC_TERMINATED \<Rightarrow> ''TERMINATED'')"

abbreviation tab :: char where "tab \<equiv> CHR 0x09"

text \<open>A name buffer read as a C string.\<close>

definition c_str :: "string \<Rightarrow> string" where
  "c_str buf = takeWhile (\<lambda>c. c \<noteq> NUL) buf"

partial_function (option) list_queue :: "proc_map \<Rightarrow> u64 \<Rightarrow> console_op list \<Rightarrow> console_op list option" where
  "list_queue ps it out =
     (if it = 0 then Some out
      else case ps it of None \<Rightarrow> None
      | Some n \<Rightarrow> (case itoa (ucast (pid n)) 10 of None \<Rightarrow> None
         | Some buf \<Rightarrow> list_queue ps (pnext n) (out @
             [TermString buf, TermString [tab], TermString (state_text (pstate n) @ [tab]),
              TermString (c_str (pname n)), TermString [newline]])))"

definition scheduler_list :: "sched \<Rightarrow> console_op list option" where
  "scheduler_list s =
     (case list_queue (procs s) (runqueue_head s) [TermString (''PID'' @ [tab] @ ''STATE'' @ [tab] @ ''NAME'' @ [newline])]
      of None \<Rightarrow> None
      | Some out \<Rightarrow>
        if current s = 0 then Some out
        else case procs s (current s) of None \<Rightarrow> None
        | Some n \<Rightarrow> (case itoa (ucast (pid n)) 10 of None \<Rightarrow> None
          | Some buf \<Rightarrow> Some (out @ [TermString ''-- currently running PID: '', TermString buf, TermString [newline]])))"

subsection \<open>Processes\<close>

definition empty_fd :: "nat \<Rightarrow> process_fd" where
  "empty_fd i = \<lparr>used = i < 3, fd = int i, offset = 0, fpath = ''''\<rparr>"

definition process_init_fds :: "process_fd list" where
  "process_init_fds = map empty_fd [0..<PROC_MAX_FDS]"

text \<open>
  The name buffer of a new process: up to 31 characters of the name, the bytes the heap memory
  held before (\<open>uninit\<close>) up to the last, and a NUL in the last.
\<close>

definition name_buffer :: "string \<Rightarrow> string \<Rightarrow> string" where
  "name_buffer name uninit =
     (let n = List.take (PROC_NAME_LEN - 1) (c_str name)
      in n @ List.take (PROC_NAME_LEN - 1 - length n) (drop (length n) uninit) @ [NUL])"

definition SIZEOF_PROCESS :: u64 where "SIZEOF_PROCESS = 2424"

definition with_heap :: "heap \<Rightarrow> sched \<Rightarrow> sched" where
  "with_heap h s = s\<lparr>vm := (vm s)\<lparr>vm_heap := h\<rparr>\<rparr>"

text \<open>The first stack frame: sixteen zero words, then \<open>rdi\<close> and the return address.\<close>

definition initial_frame :: "u64 \<Rightarrow> u64 \<Rightarrow> u64 \<Rightarrow> wordmem \<Rightarrow> wordmem" where
  "initial_frame sp arg entry m =
     ((zero_entries sp 16 m)(entry_at sp 5 := arg))(entry_at sp 15 := entry)"

definition process_create ::
  "u64 \<Rightarrow> u64 \<Rightarrow> string \<Rightarrow> string option \<Rightarrow> u64 \<Rightarrow> u64 \<Rightarrow> int \<Rightarrow> sched \<Rightarrow> (u64 \<times> sched) option" where
  "process_create kend kas uninit name entry arg prio s =
     (if entry = 0 then Some (0, s)
      else let (p, h) = kmalloc kend SIZEOF_PROCESS (vm_heap (vm s)); s1 = with_heap h s
      in if p = 0 then Some (0, s1)
      else let stack_size = 16 * 1024; (stack, h) = kmalloc kend stack_size (vm_heap (vm s1)); s2 = with_heap h s1
      in if stack = 0 then Some (0, s2)
      else let (as, v) = vmm_create_address_space kend kas (vm s2);
               sp = ((stack + stack_size) AND NOT 0xF) - 128;
               proc = \<lparr>pid = next_pid s2, pname = name_buffer (case name of None \<Rightarrow> '''' | Some n \<Rightarrow> n) uninit,
                  pstate = PROC_READY, stack_ptr = sp, stack_base = stack, stack_size = stack_size,
                  priority = prio, pnext = 0, image_base = 0, image_size = 0, exit_code = 0,
                  address_space = as, pcr3 = (if as = 0 then 0 else as_cr3 v as), fds = process_init_fds\<rparr>;
               s3 = s2\<lparr>next_pid := next_pid s2 + 1,
                       vm := v\<lparr>vm_mem := initial_frame sp arg entry (vm_mem v)\<rparr>,
                       procs := (procs s2)(p \<mapsto> proc)\<rparr>
           in map_option (\<lambda>s4. (p, s4)) (scheduler_add p s3))"

definition process_exit_current :: "sched \<Rightarrow> sched option" where
  "process_exit_current s =
     (if current s = 0 then Some s
      else case scheduler_remove_current (upd_proc (current s) (\<lambda>n. n\<lparr>pstate := PROC_TERMINATED\<rparr>) s) of
        None \<Rightarrow> None | Some s1 \<Rightarrow> scheduler_yield s1)"

definition process_exit_current_status :: "int \<Rightarrow> sched \<Rightarrow> sched option" where
  "process_exit_current_status code s =
     (if current s = 0 then Some s
      else case scheduler_remove_current
             (upd_proc (current s) (\<lambda>n. n\<lparr>exit_code := code, pstate := PROC_TERMINATED\<rparr>) s) of
        None \<Rightarrow> None | Some s1 \<Rightarrow> scheduler_yield s1)"

definition process_find_by_pid :: "u32 \<Rightarrow> sched \<Rightarrow> u64 option" where
  "process_find_by_pid k s = scheduler_find_by_pid k s"

definition process_get_current :: "sched \<Rightarrow> u64" where
  "process_get_current s = scheduler_get_current s"

definition process_list :: "sched \<Rightarrow> console_op list option" where
  "process_list s = scheduler_list s"

definition process_kill :: "u32 \<Rightarrow> sched \<Rightarrow> (int \<times> sched) option" where
  "process_kill k s = scheduler_kill k s"

subsection \<open>Queues as lists\<close>

definition pnexts :: "proc_map \<Rightarrow> u64 \<Rightarrow> u64 option" where
  "pnexts ps a = map_option pnext (ps a)"

lemma upd_proc_sel [simp]:
  "runqueue_head (upd_proc p f s) = runqueue_head s" "current (upd_proc p f s) = current s"
  "kernel_sp (upd_proc p f s) = kernel_sp s" "tick_count (upd_proc p f s) = tick_count s"
  "need_resched (upd_proc p f s) = need_resched s" "zombie_head (upd_proc p f s) = zombie_head s"
  "next_pid (upd_proc p f s) = next_pid s" "cpu (upd_proc p f s) = cpu s" "vm (upd_proc p f s) = vm s"
  by (simp_all add: upd_proc_def split: option.split)

lemma procs_upd_proc: "procs (upd_proc p f s) a = (if a = p then map_option f (procs s p) else procs s a)"
  by (simp add: upd_proc_def split: option.split)

lemma dom_upd_proc [simp]: "dom (procs (upd_proc p f s)) = dom (procs s)"
  by (auto simp: procs_upd_proc split: if_splits)

lemma pnexts_upd_proc:
  "pnexts (procs (upd_proc p f s)) a = (if a = p then map_option (\<lambda>n. pnext (f n)) (procs s p) else pnexts (procs s) a)"
  by (simp add: pnexts_def procs_upd_proc option.map_comp o_def)

lemma pnexts_upd_same: "(\<And>n. pnext (f n) = pnext n) \<Longrightarrow> pnexts (procs (upd_proc p f s)) = pnexts (procs s)"
  by (rule ext) (simp add: pnexts_def procs_upd_proc option.map_comp o_def)

lemma pnexts_upd_pnext:
  "procs s p = Some n \<Longrightarrow>
   pnexts (procs (upd_proc p (\<lambda>m. m\<lparr>pnext := q\<rparr>) s)) = (pnexts (procs s))(p \<mapsto> q)"
  by (rule ext) (simp add: pnexts_upd_proc)

lemma chain_at:
  assumes "chain (pnexts ps) it (x # xs)"
  obtains n where "it = x" "x \<noteq> 0" "ps x = Some n" "chain (pnexts ps) (pnext n) xs"
  using assms by (auto simp: pnexts_def)

lemma chain_in_dom: "chain (pnexts ps) it xs \<Longrightarrow> x \<in> set xs \<Longrightarrow> x \<noteq> 0 \<and> x \<in> dom ps"
  using chain_dom [of "pnexts ps" it xs x] chain_nonzero [of "pnexts ps" it xs] by (auto simp: pnexts_def)

lemma last_of_chain: "chain (pnexts ps) it (xs @ [x]) \<Longrightarrow> last_of ps it = Some x"
proof (induction xs arbitrary: it)
  case Nil
  then show ?case by (auto simp: last_of.simps pnexts_def)
next
  case (Cons y ys)
  then have "chain (pnexts ps) it (y # ys @ [x])" by simp
  then obtain n where n: "it = y" "ps y = Some n" "chain (pnexts ps) (pnext n) (ys @ [x])" by (rule chain_at)
  then have "pnext n \<noteq> 0" by (cases ys) auto
  with n Cons.IH [OF n(3)] show ?case by (subst last_of.simps) simp
qed

lemma find_prev_in:
  "chain (pnexts ps) it (xs @ t # ys) \<Longrightarrow> find_prev ps t prev it = Some (last (prev # xs), t)"
proof (induction xs arbitrary: it prev)
  case Nil
  then show ?case by (auto simp: find_prev.simps)
next
  case (Cons x xs)
  then have c: "chain (pnexts ps) it (x # xs @ t # ys)" by simp
  then obtain n where n: "it = x" "x \<noteq> 0" "ps x = Some n" "chain (pnexts ps) (pnext n) (xs @ t # ys)"
    by (rule chain_at)
  have "x \<noteq> t" using chain_distinct [OF c] by auto
  with n Cons.IH [OF n(4), of x] show ?case by (subst find_prev.simps) simp
qed

lemma find_prev_notin:
  "chain (pnexts ps) it xs \<Longrightarrow> t \<notin> set xs \<Longrightarrow> find_prev ps t prev it = Some (last (prev # xs), 0)"
proof (induction xs arbitrary: it prev)
  case Nil
  then show ?case by (simp add: find_prev.simps)
next
  case (Cons x xs)
  from Cons.prems(1) obtain n where n: "it = x" "x \<noteq> 0" "ps x = Some n" "chain (pnexts ps) (pnext n) xs"
    by (rule chain_at)
  with Cons.prems(2) Cons.IH [OF n(4), of x] show ?case by (subst find_prev.simps) auto
qed

lemma find_pid_chain:
  "chain (pnexts ps) it xs \<Longrightarrow>
   find_pid ps k it = Some (case find (\<lambda>p. map_option pid (ps p) = Some k) xs of None \<Rightarrow> 0 | Some p \<Rightarrow> p)"
proof (induction xs arbitrary: it)
  case Nil
  then show ?case by (simp add: find_pid.simps)
next
  case (Cons x xs)
  from Cons.prems obtain n where n: "it = x" "x \<noteq> 0" "ps x = Some n" "chain (pnexts ps) (pnext n) xs"
    by (rule chain_at)
  with Cons.IH [OF n(4)] show ?case by (subst find_pid.simps) simp
qed

subsection \<open>The invariant\<close>

text \<open>
  \<open>qs\<close> is the run queue and \<open>zs\<close> the zombie list: disjoint chains of live structs. Every queued
  process but the running one is ready; the current process is queued and running, or a zombie;
  every other struct belongs to a terminated process.
\<close>

definition queues :: "sched \<Rightarrow> u64 list \<Rightarrow> u64 list \<Rightarrow> bool" where
  "queues s qs zs \<longleftrightarrow> chain (pnexts (procs s)) (runqueue_head s) qs \<and>
     chain (pnexts (procs s)) (zombie_head s) zs \<and> set qs \<inter> set zs = {} \<and> procs s 0 = None"

definition states_ok :: "sched \<Rightarrow> u64 list \<Rightarrow> u64 list \<Rightarrow> bool" where
  "states_ok s qs zs \<longleftrightarrow>
     (\<forall>p n. procs s p = Some n \<longrightarrow>
        pstate n = (if p \<in> set qs then (if p = current s then PROC_RUNNING else PROC_READY) else PROC_TERMINATED)) \<and>
     (current s = 0 \<or> current s \<in> set qs \<or> current s \<in> set zs)"

definition sched_ok :: "sched \<Rightarrow> u64 list \<Rightarrow> u64 list \<Rightarrow> bool" where
  "sched_ok s qs zs \<longleftrightarrow> queues s qs zs \<and> states_ok s qs zs"

lemma queues_frame:
  assumes "procs s' = procs s" "runqueue_head s' = runqueue_head s" "zombie_head s' = zombie_head s"
  shows "queues s' qs zs = queues s qs zs"
  using assms by (simp add: queues_def)

lemma sched_ok_frame:
  assumes "procs s' = procs s" "runqueue_head s' = runqueue_head s" "zombie_head s' = zombie_head s"
    "current s' = current s"
  shows "sched_ok s' qs zs = sched_ok s qs zs"
  using assms by (simp add: sched_ok_def states_ok_def queues_def)

lemma sched_okD:
  assumes "sched_ok s qs zs"
  shows "chain (pnexts (procs s)) (runqueue_head s) qs" "chain (pnexts (procs s)) (zombie_head s) zs"
    "set qs \<inter> set zs = {}" "procs s 0 = None" "distinct qs" "distinct zs"
    "\<And>p. p \<in> set qs \<Longrightarrow> p \<noteq> 0 \<and> p \<in> dom (procs s)" "\<And>p. p \<in> set zs \<Longrightarrow> p \<noteq> 0 \<and> p \<in> dom (procs s)"
    "\<And>p n. procs s p = Some n \<Longrightarrow>
       pstate n = (if p \<in> set qs then (if p = current s then PROC_RUNNING else PROC_READY) else PROC_TERMINATED)"
    "current s = 0 \<or> current s \<in> set qs \<or> current s \<in> set zs"
proof -
  show q: "chain (pnexts (procs s)) (runqueue_head s) qs" and z: "chain (pnexts (procs s)) (zombie_head s) zs"
    and "set qs \<inter> set zs = {}" "procs s 0 = None"
    using assms by (simp_all add: sched_ok_def queues_def)
  show "distinct qs" by (rule chain_distinct [OF q])
  show "distinct zs" by (rule chain_distinct [OF z])
  show "p \<noteq> 0 \<and> p \<in> dom (procs s)" if "p \<in> set qs" for p by (rule chain_in_dom [OF q that])
  show "p \<noteq> 0 \<and> p \<in> dom (procs s)" if "p \<in> set zs" for p by (rule chain_in_dom [OF z that])
  show "pstate n = (if p \<in> set qs then (if p = current s then PROC_RUNNING else PROC_READY) else PROC_TERMINATED)"
    if "procs s p = Some n" for p n
    using assms that unfolding sched_ok_def states_ok_def by blast
  show "current s = 0 \<or> current s \<in> set qs \<or> current s \<in> set zs"
    using assms unfolding sched_ok_def states_ok_def by blast
qed

text \<open>Adding a fresh, ready process appends it.\<close>

lemma scheduler_add_ok:
  assumes q: "queues s qs zs" and p: "p \<notin> set qs" "p \<notin> set zs" "p \<noteq> 0" "procs s p = Some n" "pnext n = 0"
  shows "\<exists>s'. scheduler_add p s = Some s' \<and> queues s' (qs @ [p]) zs \<and> current s' = current s \<and> vm s' = vm s \<and>
    dom (procs s') = dom (procs s) \<and>
    (\<forall>a m. procs s' a = Some m \<longrightarrow> (\<exists>m0. procs s a = Some m0 \<and> m = m0\<lparr>pnext := pnext m\<rparr>))"
proof -
  let ?s1 = "upd_proc p (\<lambda>n. n\<lparr>pnext := 0\<rparr>) s"
  have Q: "chain (pnexts (procs s)) (runqueue_head s) qs" "chain (pnexts (procs s)) (zombie_head s) zs"
    "set qs \<inter> set zs = {}" "procs s 0 = None" using q by (auto simp: queues_def)
  have "n\<lparr>pnext := 0\<rparr> = n" using p(5) by simp
  then have "procs ?s1 = procs s" using p(4) by (intro ext) (simp add: procs_upd_proc)
  note s1 = this
  show ?thesis
  proof (cases qs rule: rev_cases)
    case Nil
    then have "runqueue_head s = 0" using Q(1) by simp
    then have "scheduler_add p s = Some (?s1\<lparr>runqueue_head := p\<rparr>)" using p(3) by (simp add: scheduler_add_def Let_def)
    moreover have "queues (?s1\<lparr>runqueue_head := p\<rparr>) (qs @ [p]) zs"
      using Nil Q p s1 by (simp add: queues_def pnexts_def)
    ultimately show ?thesis using s1 by (intro exI [where x = "?s1\<lparr>runqueue_head := p\<rparr>"]) auto
  next
    case (snoc xs x)
    have x: "x \<noteq> 0" "x \<in> dom (procs s)" using chain_in_dom [OF Q(1), of x] snoc by auto
    have hd: "runqueue_head s \<noteq> 0" using Q(1) snoc by (cases xs) auto
    have la: "last_of (procs ?s1) (runqueue_head s) = Some x"
      using last_of_chain [of "procs s" _ xs x] Q(1) snoc s1 by simp
    let ?s2 = "upd_proc x (\<lambda>m. m\<lparr>pnext := p\<rparr>) ?s1"
    have run: "scheduler_add p s = Some ?s2" using p(3) hd la by (simp add: scheduler_add_def Let_def)
    obtain m where m: "procs ?s1 x = Some m" using x s1 by auto
    have nx: "pnexts (procs ?s2) = (pnexts (procs s))(x \<mapsto> p)"
      unfolding pnexts_upd_pnext [OF m] s1 ..
    have "pnexts (procs s) p = Some 0" using p(4,5) by (simp add: pnexts_def)
    then have nx': "pnexts (procs ?s2) = (pnexts (procs s))(x \<mapsto> p, p \<mapsto> 0)"
      unfolding nx using p(1) snoc by (auto simp: fun_upd_twist)
    have "chain (pnexts (procs ?s2)) (runqueue_head s) (xs @ [x, p])"
      unfolding nx' using Q(1) snoc p by (intro chain_append) auto
    moreover have "chain (pnexts (procs ?s2)) (zombie_head s) zs"
      unfolding nx using Q(2,3) snoc by (subst chain_upd_notin) auto
    moreover have "procs ?s2 0 = None" using Q(4) s1 x(1) by (simp add: procs_upd_proc)
    ultimately have "queues ?s2 (qs @ [p]) zs" using Q(3) p snoc by (simp add: queues_def)
    moreover have "\<forall>a m. procs ?s2 a = Some m \<longrightarrow> (\<exists>m0. procs s a = Some m0 \<and> m = m0\<lparr>pnext := pnext m\<rparr>)"
      unfolding procs_upd_proc [of x _ ?s1] s1 by (auto split: if_splits)
    ultimately show ?thesis using run s1 by (intro exI [where x = ?s2]) simp
  qed
qed

text \<open>
  Operations relink the queues and change a few fields: \<open>relinked f s s'\<close> says that \<open>f\<close> was applied to
  the structs and nothing else changed but links.
\<close>

definition relinked :: "(u64 \<Rightarrow> process \<Rightarrow> process) \<Rightarrow> sched \<Rightarrow> sched \<Rightarrow> bool" where
  "relinked f s s' \<longleftrightarrow> (\<forall>a. map_option (\<lambda>n. n\<lparr>pnext := 0\<rparr>) (procs s' a) =
     map_option (\<lambda>n. (f a n)\<lparr>pnext := 0\<rparr>) (procs s a))"

lemma relinked_dom: "relinked f s s' \<Longrightarrow> dom (procs s') = dom (procs s)"
  unfolding relinked_def dom_def by (metis (no_types, lifting) option.map_disc_iff)

lemma relinkedD:
  assumes "relinked f s s'" "procs s' a = Some m"
  obtains n where "procs s a = Some n" "m\<lparr>pnext := 0\<rparr> = (f a n)\<lparr>pnext := 0\<rparr>"
proof -
  have "Some (m\<lparr>pnext := 0\<rparr>) = map_option (\<lambda>n. (f a n)\<lparr>pnext := 0\<rparr>) (procs s a)"
    using assms unfolding relinked_def by (metis option.map(2))
  then show ?thesis using that by (cases "procs s a") auto
qed

lemma pnext_irrelevant:
  "m\<lparr>pnext := 0\<rparr> = n\<lparr>pnext := 0\<rparr> \<Longrightarrow> pstate m = pstate n \<and> stack_ptr m = stack_ptr n \<and> pid m = pid n \<and>
     exit_code m = exit_code n \<and> address_space m = address_space n \<and> fds m = fds n"
  by (cases m; cases n) simp

lemma pstate_relinked:
  assumes "relinked f s s'" "procs s' a = Some m"
  shows "\<exists>n. procs s a = Some n \<and> pstate m = pstate (f a n)"
  by (rule relinkedD [OF assms]) (auto dest: pnext_irrelevant)

text \<open>Unlinking the member \<open>t\<close> of the run queue.\<close>

lemma unlink_ok:
  assumes q: "queues s (xs @ t # ys) zs"
  shows "\<exists>s'. unlink (last (0 # xs)) t s = Some s' \<and> queues s' (xs @ ys) zs \<and> relinked (\<lambda>a n. n) s s' \<and>
    current s' = current s \<and> vm s' = vm s \<and> kernel_sp s' = kernel_sp s \<and> cpu s' = cpu s"
proof -
  have Q: "chain (pnexts (procs s)) (runqueue_head s) (xs @ t # ys)" "chain (pnexts (procs s)) (zombie_head s) zs"
    "set (xs @ t # ys) \<inter> set zs = {}" "procs s 0 = None" using q by (auto simp: queues_def)
  obtain n where n: "procs s t = Some n" using chain_in_dom [OF Q(1), of t] by auto
  show ?thesis
  proof (cases xs rule: rev_cases)
    case Nil
    then have "chain (pnexts (procs s)) (pnext n) ys" using Q(1) n by (auto simp: pnexts_def)
    with Nil n Q show ?thesis
      by (intro exI [where x = "s\<lparr>runqueue_head := pnext n\<rparr>"]) (auto simp: unlink_def queues_def relinked_def)
  next
    case (snoc us u)
    have u: "u \<noteq> 0" "u \<in> dom (procs s)" using chain_in_dom [OF Q(1), of u] snoc by auto
    let ?s = "upd_proc u (\<lambda>m. m\<lparr>pnext := pnext n\<rparr>) s"
    have run: "unlink (last (0 # xs)) t s = Some ?s" using n u(1) snoc by (simp add: unlink_def)
    obtain m where m: "procs s u = Some m" using u by auto
    have nx: "pnexts (procs ?s) = (pnexts (procs s))(u \<mapsto> pnext n)" by (rule pnexts_upd_pnext [OF m])
    have "chain (pnexts (procs s)) (runqueue_head s) (us @ [u, t] @ ys)" using Q(1) snoc by simp
    then have "chain (pnexts (procs ?s)) (runqueue_head s) (us @ [u] @ ys)"
      unfolding nx by (rule chain_remove) (simp add: pnexts_def n)
    moreover have "chain (pnexts (procs ?s)) (zombie_head s) zs"
      unfolding nx using Q(2,3) snoc by (subst chain_upd_notin) auto
    moreover have "procs ?s 0 = None" using Q(4) u(1) by (simp add: procs_upd_proc)
    ultimately have "queues ?s (xs @ ys) zs" using Q(3) snoc by (auto simp: queues_def)
    moreover have "relinked (\<lambda>a n. n) s ?s"
      by (auto simp: relinked_def procs_upd_proc option.map_comp o_def)
    ultimately show ?thesis using run by (intro exI [where x = ?s]) simp
  qed
qed

lemma upd_relinked: "relinked (\<lambda>a n. if a = p then f n else n) s (upd_proc p f s)"
  by (auto simp: relinked_def procs_upd_proc option.map_comp o_def)

lemma relinked_trans:
  assumes "relinked f s t" "relinked g t u" and "\<And>a n q. (g a (n\<lparr>pnext := q\<rparr>))\<lparr>pnext := 0\<rparr> = (g a n)\<lparr>pnext := 0\<rparr>"
  shows "relinked (\<lambda>a n. g a (f a n)) s u"
  unfolding relinked_def
proof
  fix a
  show "map_option (\<lambda>n. n\<lparr>pnext := 0\<rparr>) (procs u a) = map_option (\<lambda>n. (g a (f a n))\<lparr>pnext := 0\<rparr>) (procs s a)"
  proof (cases "procs u a")
    case None
    then have "procs s a = None" using relinked_dom [OF assms(1)] relinked_dom [OF assms(2)] by blast
    with None show ?thesis by simp
  next
    case (Some m)
    obtain k where k: "procs t a = Some k" "m\<lparr>pnext := 0\<rparr> = (g a k)\<lparr>pnext := 0\<rparr>"
      by (rule relinkedD [OF assms(2) Some])
    obtain n where n: "procs s a = Some n" "k\<lparr>pnext := 0\<rparr> = (f a n)\<lparr>pnext := 0\<rparr>"
      by (rule relinkedD [OF assms(1) k(1)])
    have "(g a k)\<lparr>pnext := 0\<rparr> = (g a (k\<lparr>pnext := 0\<rparr>))\<lparr>pnext := 0\<rparr>" by (rule assms(3) [symmetric])
    also have "\<dots> = (g a (f a n))\<lparr>pnext := 0\<rparr>" unfolding n(2) by (rule assms(3))
    finally show ?thesis using Some k n by simp
  qed
qed

lemma relinked_frame: "procs s' = procs s \<Longrightarrow> relinked (\<lambda>a n. n) s s'"
  by (simp add: relinked_def)

lemma queues_upd_same:
  "(\<And>n. pnext (f n) = pnext n) \<Longrightarrow> queues (upd_proc p f s) qs zs = queues s qs zs"
  by (simp add: queues_def pnexts_upd_same procs_upd_proc)

definition terminate :: "u64 \<Rightarrow> u64 \<Rightarrow> process \<Rightarrow> process" where
  "terminate c a n = (if a = c then n\<lparr>pstate := PROC_TERMINATED\<rparr> else n)"

text \<open>Removing the running process moves it to the zombies.\<close>

lemma remove_current_ok:
  assumes q: "queues s qs zs" and c: "current s \<noteq> 0" "current s \<in> dom (procs s)"
  shows "\<exists>s'. scheduler_remove_current s = Some s' \<and> relinked (terminate (current s)) s s' \<and>
    current s' = current s \<and> vm s' = vm s \<and> kernel_sp s' = kernel_sp s \<and> cpu s' = cpu s \<and>
    queues s' (remove1 (current s) qs) (if current s \<in> set qs then current s # zs else zs)"
proof -
  let ?c = "current s" and ?t = "\<lambda>n. n\<lparr>pstate := PROC_TERMINATED\<rparr>"
  let ?s1 = "upd_proc ?c ?t s"
  have q1: "queues ?s1 qs zs" using q by (subst queues_upd_same) simp_all
  have ch: "chain (pnexts (procs ?s1)) (runqueue_head s) qs" using q1 by (simp add: queues_def)
  have r1: "relinked (terminate ?c) s ?s1"
    using upd_relinked [of ?c ?t s] by (simp add: terminate_def [abs_def])
  show ?thesis
  proof (cases "?c \<in> set qs")
    case False
    then have "scheduler_remove_current s = Some ?s1"
      using c(1) find_prev_notin [OF ch False] by (simp add: scheduler_remove_current_def Let_def)
    with False r1 q1 show ?thesis by (intro exI [where x = ?s1]) (simp add: remove1_idem)
  next
    case True
    then obtain xs ys where qs: "qs = xs @ ?c # ys" "?c \<notin> set xs" by (auto dest: split_list_first)
    obtain s2 where s2: "unlink (last (0 # xs)) ?c ?s1 = Some s2" "queues s2 (xs @ ys) zs"
      "relinked (\<lambda>a n. n) ?s1 s2" "current s2 = current ?s1" "vm s2 = vm ?s1" "kernel_sp s2 = kernel_sp ?s1" "cpu s2 = cpu ?s1"
      using unlink_ok [of ?s1 xs ?c ys zs] q1 unfolding qs(1) by blast
    let ?s3 = "(upd_proc ?c (\<lambda>n. n\<lparr>pnext := zombie_head s2\<rparr>) s2)\<lparr>zombie_head := ?c\<rparr>"
    have run: "scheduler_remove_current s = Some ?s3"
      using c(1) find_prev_in [of "procs ?s1" _ xs ?c ys 0] ch s2(1) unfolding qs(1)
      by (simp add: scheduler_remove_current_def Let_def)
    have r2: "relinked (terminate ?c) s s2"
      using relinked_trans [OF r1 s2(3)] by simp
    have r3: "relinked (\<lambda>a n. n) s2 ?s3"
      by (auto simp: relinked_def procs_upd_proc option.map_comp o_def)
    have r: "relinked (terminate ?c) s ?s3" using relinked_trans [OF r2 r3] by simp
    have d: "distinct qs" using chain_distinct [OF ch] .
    then have nin: "?c \<notin> set (xs @ ys)" using qs by auto
    have nz: "?c \<notin> set zs" using q True by (auto simp: queues_def)
    have "?c \<in> dom (procs s2)" using relinked_dom [OF r2] c(2) by simp
    then obtain m where m: "procs s2 ?c = Some m" by auto
    have nx: "pnexts (procs ?s3) = (pnexts (procs s2))(?c \<mapsto> zombie_head s2)"
      using pnexts_upd_pnext [OF m] by simp
    have "chain (pnexts (procs ?s3)) (runqueue_head s2) (xs @ ys)"
      unfolding nx using s2(2) nin by (subst chain_upd_notin) (auto simp: queues_def)
    moreover have "chain (pnexts (procs ?s3)) ?c (?c # zs)"
      unfolding nx using s2(2) nz c(1) by (auto simp: queues_def chain_upd_notin)
    moreover have "procs ?s3 0 = None" using s2(2) c(1) by (simp add: queues_def procs_upd_proc)
    ultimately have "queues ?s3 (xs @ ys) (?c # zs)" using s2(2) nin by (auto simp: queues_def)
    moreover have "remove1 ?c qs = xs @ ys" using qs by (simp add: remove1_append)
    ultimately show ?thesis using run r s2 True by (intro exI [where x = ?s3]) simp
  qed
qed

subsection \<open>The next process\<close>

text \<open>
  The specification of \<open>pick_next\<close> on the queue as a list: the successor of the running process,
  the running process itself when it is last, and the first of the queue when the running process
  is not queued; 0 for an empty queue.
\<close>

definition spec_pick :: "u64 \<Rightarrow> u64 list \<Rightarrow> u64" where
  "spec_pick c qs =
     (if c \<in> set qs then (case tl (dropWhile (\<lambda>x. x \<noteq> c) qs) of [] \<Rightarrow> c | y # ys \<Rightarrow> y)
      else case qs of [] \<Rightarrow> 0 | q # rest \<Rightarrow> q)"

lemma spec_pick_split:
  "c \<notin> set xs \<Longrightarrow> spec_pick c (xs @ c # ys) = (case ys of [] \<Rightarrow> c | y # zs \<Rightarrow> y)"
  by (simp add: spec_pick_def dropWhile_append)

lemma spec_pick_mem: "spec_pick c qs \<in> set qs \<or> spec_pick c qs = 0"
proof (cases "c \<in> set qs")
  case True
  then obtain xs ys where "qs = xs @ c # ys" "c \<notin> set xs" by (auto dest: split_list_first)
  then show ?thesis by (auto simp: spec_pick_split split: list.split)
next
  case False
  then show ?thesis by (auto simp: spec_pick_def split: list.split)
qed

lemma pick_loop_ready:
  "ps cand = Some n \<Longrightarrow> cand \<noteq> 0 \<Longrightarrow> pstate n = PROC_READY \<Longrightarrow> pick_loop ps rq it cur cand = Some cand"
  by (simp add: pick_loop.simps)

lemma pick_loop_null: "pick_loop ps rq it cur 0 = Some cur"
  by (simp add: pick_loop.simps)

lemma queued_ready:
  assumes q: "queues s qs zs" and st: "\<And>p n. procs s p = Some n \<Longrightarrow> p \<in> set qs \<Longrightarrow> p \<noteq> current s \<Longrightarrow> pstate n = PROC_READY"
    and p: "p \<in> set qs" "p \<noteq> current s"
  obtains n where "procs s p = Some n" "p \<noteq> 0" "pstate n = PROC_READY"
  using chain_in_dom [of "procs s" "runqueue_head s" qs p] q st p by (auto simp: queues_def)

lemma pick_next_ok:
  assumes q: "queues s qs zs"
    and st: "\<And>p n. procs s p = Some n \<Longrightarrow> p \<in> set qs \<Longrightarrow> p \<noteq> current s \<Longrightarrow> pstate n = PROC_READY"
  shows "pick_next s = Some (spec_pick (current s) qs)"
proof -
  have ch: "chain (pnexts (procs s)) (runqueue_head s) qs" using q by (simp add: queues_def)
  have nz: "0 \<notin> set qs" by (rule chain_nonzero [OF ch])
  show ?thesis
  proof (cases qs)
    case Nil
    with ch show ?thesis by (simp add: pick_next_def spec_pick_def)
  next
    case (Cons h t)
    have hd: "runqueue_head s = h" "h \<noteq> 0" using ch Cons by auto
    show ?thesis
    proof (cases "current s \<in> set qs")
      case True
      then obtain xs ys where qs: "qs = xs @ current s # ys" "current s \<notin> set xs" by (auto dest: split_list_first)
      have c0: "current s \<noteq> 0" using True nz by metis
      have fp: "find_prev (procs s) (current s) 0 (runqueue_head s) = Some (last (0 # xs), current s)"
        using ch unfolding qs(1) by (rule find_prev_in)
      obtain n where n: "procs s (current s) = Some n" using chain_in_dom [OF ch True] by auto
      have cy: "chain (pnexts (procs s)) (pnext n) ys"
        using chain_suffix [of "pnexts (procs s)" "runqueue_head s" xs "current s" ys] ch qs(1) n
        by (auto simp: pnexts_def)
      have base: "pick_next s = pick_loop (procs s) h (current s) (current s) (pnext n)"
        using fp n c0 hd by (simp add: pick_next_def)
      show ?thesis
      proof (cases ys)
        case Nil
        with cy base qs show ?thesis by (simp add: pick_loop_null spec_pick_split)
      next
        case (Cons y zs')
        have y: "y \<in> set qs" "y \<noteq> current s" "pnext n = y"
          using cy Cons qs(1) chain_distinct [OF ch] by auto
        obtain m where "procs s y = Some m" "y \<noteq> 0" "pstate m = PROC_READY" by (rule queued_ready [OF q st y(1,2)])
        with base y(3) qs Cons show ?thesis by (simp add: pick_loop_ready spec_pick_split)
      qed
    next
      case False
      have fp: "find_prev (procs s) (current s) 0 (runqueue_head s) = Some (last (0 # qs), 0)"
        by (rule find_prev_notin [OF ch False])
      have h: "h \<in> set qs" "h \<noteq> current s" using Cons False by auto
      obtain m where "procs s h = Some m" "h \<noteq> 0" "pstate m = PROC_READY" by (rule queued_ready [OF q st h])
      with fp hd False Cons show ?thesis
        by (simp add: pick_next_def spec_pick_def pick_loop_ready)
    qed
  qed
qed

subsection \<open>Yielding\<close>

text \<open>
  What a switch to \<open>next\<close> does besides the run-queue bookkeeping: the address space of \<open>next\<close> is
  loaded and the CPU continues from its saved stack.
\<close>

definition resumed :: "sched \<Rightarrow> u64 \<Rightarrow> process \<Rightarrow> sched \<Rightarrow> bool" where
  "resumed s next n s' \<longleftrightarrow>
     (let v = (if address_space n \<noteq> 0 then vmm_switch_address_space (address_space n) (vm s) else vm s);
          (old, c, m) = context_switch (stack_ptr n) (cpu s) (vm_mem v)
      in cpu s' = c \<and> vm s' = v\<lparr>vm_mem := m\<rparr> \<and>
         (if current s = 0 then kernel_sp s' = old
          else kernel_sp s' = kernel_sp s \<and> map_option stack_ptr (procs s' (current s)) = Some old))"

lemma enter_address_space_sel [simp]:
  "procs (enter_address_space as s) = procs s" "runqueue_head (enter_address_space as s) = runqueue_head s"
  "zombie_head (enter_address_space as s) = zombie_head s" "current (enter_address_space as s) = current s"
  "kernel_sp (enter_address_space as s) = kernel_sp s" "cpu (enter_address_space as s) = cpu s"
  "vm (enter_address_space as s) = (if as \<noteq> 0 then vmm_switch_address_space as (vm s) else vm s)"
  by (simp_all add: enter_address_space_def)

lemma upd_procs_frame: "procs s = procs t \<Longrightarrow> procs (upd_proc p f s) = procs (upd_proc p f t)"
  by (rule ext) (simp add: procs_upd_proc)

text \<open>
  The state after a yield that picks \<open>next\<close>: \<open>yielded\<close> gives each struct's new state and the saved
  stack pointer of the process switched away from.
\<close>

definition yielded :: "u64 \<Rightarrow> u64 \<Rightarrow> u64 \<Rightarrow> u64 \<Rightarrow> process \<Rightarrow> process" where
  "yielded prev next old a n =
     (let n1 = (if a = prev \<and> pstate n \<noteq> PROC_TERMINATED then n\<lparr>pstate := PROC_READY\<rparr> else n);
          n2 = (if a = next then n1\<lparr>pstate := PROC_RUNNING\<rparr> else n1)
      in if a = prev then n2\<lparr>stack_ptr := old\<rparr> else n2)"

lemma switch_from_kernel_sel:
  fixes s sp
  defines "r \<equiv> context_switch sp (cpu s) (vm_mem (vm s))"
  shows "procs (switch_from_kernel sp s) = procs s" "current (switch_from_kernel sp s) = current s"
    "runqueue_head (switch_from_kernel sp s) = runqueue_head s" "zombie_head (switch_from_kernel sp s) = zombie_head s"
    "kernel_sp (switch_from_kernel sp s) = fst r" "cpu (switch_from_kernel sp s) = fst (snd r)"
    "vm (switch_from_kernel sp s) = (vm s)\<lparr>vm_mem := snd (snd r)\<rparr>"
  by (simp_all add: switch_from_kernel_def r_def split: prod.split)

lemma switch_from_process_sel:
  fixes s sp p
  defines "r \<equiv> context_switch sp (cpu s) (vm_mem (vm s))"
  shows "procs (switch_from_process p sp s) = procs (upd_proc p (\<lambda>n. n\<lparr>stack_ptr := fst r\<rparr>) s)"
    "current (switch_from_process p sp s) = current s"
    "runqueue_head (switch_from_process p sp s) = runqueue_head s" "zombie_head (switch_from_process p sp s) = zombie_head s"
    "kernel_sp (switch_from_process p sp s) = kernel_sp s" "cpu (switch_from_process p sp s) = fst (snd r)"
    "vm (switch_from_process p sp s) = (vm s)\<lparr>vm_mem := snd (snd r)\<rparr>"
  by (simp_all add: switch_from_process_def r_def split: prod.split)

lemma yield_switch:
  assumes p: "pick_next s = Some next" "next \<noteq> 0" "next \<noteq> current s" "procs s next = Some n"
    and c: "current s \<noteq> 0 \<Longrightarrow> current s \<in> dom (procs s)" and z: "procs s 0 = None"
  shows "\<exists>s' old. scheduler_yield s = Some s' \<and> current s' = next \<and> resumed s next n s' \<and>
    runqueue_head s' = runqueue_head s \<and> zombie_head s' = zombie_head s \<and>
    (\<forall>a. procs s' a = map_option (yielded (current s) next old a) (procs s a))"
proof (cases "current s = 0")
  case True
  let ?s2 = "(upd_proc next (\<lambda>n. n\<lparr>pstate := PROC_RUNNING\<rparr>) (s\<lparr>need_resched := False\<rparr>))\<lparr>current := next\<rparr>"
  let ?s' = "switch_from_kernel (stack_ptr n) (enter_address_space (address_space n) ?s2)"
  have run: "scheduler_yield s = Some ?s'" using p True by (simp add: scheduler_yield_def Let_def)
  have "\<forall>a. procs ?s' a = map_option (yielded 0 next 0 a) (procs s a)"
  proof
    fix a
    show "procs ?s' a = map_option (yielded 0 next 0 a) (procs s a)"
      using z by (cases "procs s a") (auto simp: switch_from_kernel_sel procs_upd_proc yielded_def Let_def p(4))
  qed
  moreover have "resumed s next n ?s'"
    using True by (simp add: resumed_def switch_from_kernel_sel Let_def split: prod.split)
  ultimately show ?thesis using run True
    by (intro exI [where x = ?s'] exI [where x = 0]) (simp add: switch_from_kernel_sel)
next
  case False
  let ?s1 = "s\<lparr>need_resched := False\<rparr>"
  let ?s2 = "if state_of (procs s) (current s) = Some PROC_TERMINATED then ?s1
      else upd_proc (current s) (\<lambda>n. n\<lparr>pstate := PROC_READY\<rparr>) ?s1"
  let ?s3 = "upd_proc next (\<lambda>n. n\<lparr>pstate := PROC_RUNNING\<rparr>) (?s2\<lparr>current := next\<rparr>)"
  let ?s4 = "enter_address_space (address_space n) ?s3"
  let ?s' = "switch_from_process (current s) (stack_ptr n) ?s4"
  have run: "scheduler_yield s = Some ?s'" using p False by (simp add: scheduler_yield_def Let_def)
  define old where "old = fst (context_switch (stack_ptr n) (cpu ?s4) (vm_mem (vm ?s4)))"
  obtain cn where cn: "procs s (current s) = Some cn" using c [OF False] by auto
  have cpu: "cpu ?s4 = cpu s" "vm ?s4 = (if address_space n \<noteq> 0 then vmm_switch_address_space (address_space n) (vm s) else vm s)"
    by (simp_all add: enter_address_space_def)
  have ps: "procs ?s' a = map_option (yielded (current s) next old a) (procs s a)" for a
    using p(3,4) cn False
    by (cases "procs s a") (auto simp: switch_from_process_sel procs_upd_proc yielded_def Let_def old_def state_of_def option.map_comp o_def)
  have "map_option stack_ptr (procs ?s' (current s)) = Some old"
    unfolding ps cn by (simp add: yielded_def Let_def)
  note saved = this
  define v where "v = (if address_space n \<noteq> 0 then vmm_switch_address_space (address_space n) (vm s) else vm s)"
  obtain r c m where r: "context_switch (stack_ptr n) (cpu s) (vm_mem v) = (r, c, m)" by (rule prod_cases3)
  have s4: "cpu ?s4 = cpu s" "vm ?s4 = v" using cpu by (simp_all only: v_def)
  have "cpu ?s' = c" "vm ?s' = v\<lparr>vm_mem := m\<rparr>" "old = r"
    unfolding switch_from_process_sel old_def s4 r by simp_all
  moreover have "kernel_sp ?s' = kernel_sp s" by (simp add: switch_from_process_sel)
  ultimately have "resumed s next n ?s'"
    using saved False unfolding resumed_def v_def [symmetric] Let_def r prod.case by simp
  with run ps p(3) show ?thesis
    by (intro exI [where x = ?s'] exI [where x = old]) (simp add: switch_from_process_sel)
qed

lemma yielded_pnext: "pnext (yielded p n old a m) = pnext m"
  by (simp add: yielded_def Let_def)

lemma queues_map:
  assumes "\<And>a. procs s' a = map_option (g a) (procs s a)" "\<And>a n. pnext (g a n) = pnext n"
    "runqueue_head s' = runqueue_head s" "zombie_head s' = zombie_head s"
  shows "queues s' qs zs = queues s qs zs"
proof -
  have "pnexts (procs s') = pnexts (procs s)"
    by (rule ext) (simp add: pnexts_def assms(1,2) option.map_comp o_def)
  with assms show ?thesis by (simp add: queues_def)
qed

lemma yield_ok:
  assumes ok: "sched_ok s qs zs"
  defines "nx \<equiv> spec_pick (current s) qs"
  shows "(nx = 0 \<or> nx = current s \<longrightarrow> scheduler_yield s = Some s) \<and>
    (nx \<noteq> 0 \<and> nx \<noteq> current s \<longrightarrow> (\<exists>s' n. scheduler_yield s = Some s' \<and> procs s nx = Some n \<and>
       sched_ok s' qs zs \<and> current s' = nx \<and> resumed s nx n s' \<and> dom (procs s') = dom (procs s)))"
proof -
  note D = sched_okD [OF ok]
  have q: "queues s qs zs" using ok by (simp add: sched_ok_def)
  have pk: "pick_next s = Some nx"
    unfolding nx_def by (rule pick_next_ok [OF q]) (use D(9) in auto)
  have "scheduler_yield s = Some s" if "nx = 0 \<or> nx = current s"
    using pk that by (simp add: scheduler_yield_def)
  moreover have "\<exists>s' n. scheduler_yield s = Some s' \<and> procs s nx = Some n \<and> sched_ok s' qs zs \<and>
      current s' = nx \<and> resumed s nx n s' \<and> dom (procs s') = dom (procs s)" if nz: "nx \<noteq> 0" "nx \<noteq> current s"
  proof -
    have nq: "nx \<in> set qs" using spec_pick_mem [of "current s" qs] nz by (simp add: nx_def)
    obtain n where n: "procs s nx = Some n" using D(7) [OF nq] by auto
    have c: "current s \<noteq> 0 \<Longrightarrow> current s \<in> dom (procs s)" using D(7,8,10) by metis
    obtain s' old where s': "scheduler_yield s = Some s'" "current s' = nx" "resumed s nx n s'"
      "runqueue_head s' = runqueue_head s" "zombie_head s' = zombie_head s"
      and ps: "\<And>a. procs s' a = map_option (yielded (current s) nx old a) (procs s a)"
      using yield_switch [OF pk nz n c D(4)] by blast
    have "queues s' qs zs" using q queues_map [OF ps yielded_pnext s'(4,5)] by simp
    moreover have "states_ok s' qs zs"
      unfolding states_ok_def
    proof (intro conjI allI impI)
      fix a m assume "procs s' a = Some m"
      then obtain m0 where m0: "procs s a = Some m0" "m = yielded (current s) nx old a m0" using ps by auto
      show "pstate m = (if a \<in> set qs then (if a = current s' then PROC_RUNNING else PROC_READY) else PROC_TERMINATED)"
        using D(9) [OF m0(1)] m0(2) nq s'(2) nz(2)
        by (auto simp: yielded_def Let_def split: if_splits)
    next
      show "current s' = 0 \<or> current s' \<in> set qs \<or> current s' \<in> set zs" using nq s'(2) by simp
    qed
    ultimately have "sched_ok s' qs zs" by (simp add: sched_ok_def)
    moreover have "dom (procs s') = dom (procs s)" using ps by (auto simp: dom_def)
    ultimately show ?thesis using s' n by blast
  qed
  ultimately show ?thesis by blast
qed

corollary yield_total:
  assumes "sched_ok s qs zs"
  shows "\<exists>s'. scheduler_yield s = Some s' \<and> sched_ok s' qs zs \<and> dom (procs s') = dom (procs s) \<and>
    (current s \<noteq> 0 \<longrightarrow> current s' \<noteq> 0)"
proof (cases "spec_pick (current s) qs = 0 \<or> spec_pick (current s) qs = current s")
  case True
  then have "scheduler_yield s = Some s" using yield_ok [OF assms] by blast
  with assms show ?thesis by blast
next
  case False
  then have "\<exists>s' n. scheduler_yield s = Some s' \<and> sched_ok s' qs zs \<and> current s' = spec_pick (current s) qs \<and>
      dom (procs s') = dom (procs s)" using yield_ok [OF assms] by blast
  with False show ?thesis by auto
qed

text \<open>Terminating the current process, as exit and kill do it.\<close>

lemma terminate_current_ok:
  assumes ok: "sched_ok s qs zs" and c: "current s \<noteq> 0"
    and f: "\<And>n. pstate (f n) = PROC_TERMINATED" "\<And>n. pnext (f n) = pnext n"
  shows "\<exists>s'. scheduler_remove_current (upd_proc (current s) f s) = Some s' \<and>
    sched_ok s' (remove1 (current s) qs) (if current s \<in> set qs then current s # zs else zs) \<and>
    current s' = current s \<and> vm s' = vm s \<and> kernel_sp s' = kernel_sp s \<and> cpu s' = cpu s \<and>
    dom (procs s') = dom (procs s) \<and>
    (\<forall>n. procs s (current s) = Some n \<longrightarrow> (\<exists>m. procs s' (current s) = Some m \<and> exit_code m = exit_code (f n) \<and>
        pstate m = PROC_TERMINATED))"
proof -
  note D = sched_okD [OF ok]
  let ?c = "current s" and ?s1 = "upd_proc (current s) f s"
  have q1: "queues ?s1 qs zs" using ok f(2) by (subst queues_upd_same) (simp_all add: sched_ok_def)
  have cd: "?c \<in> dom (procs s)" using D(7,8,10) c by metis
  then have "current ?s1 \<noteq> 0" "current ?s1 \<in> dom (procs ?s1)" using c by simp_all
  then obtain s' where s': "scheduler_remove_current ?s1 = Some s'"
    "relinked (terminate ?c) ?s1 s'" "current s' = ?c" "vm s' = vm s" "kernel_sp s' = kernel_sp s" "cpu s' = cpu s"
    "queues s' (remove1 ?c qs) (if ?c \<in> set qs then ?c # zs else zs)"
    using remove_current_ok [OF q1] unfolding upd_proc_sel by blast
  have r1: "relinked (\<lambda>a n. if a = ?c then f n else n) s ?s1" by (rule upd_relinked)
  have st: "pstate m = (if a = ?c then PROC_TERMINATED else pstate n)"
    if h: "procs s' a = Some m" "procs s a = Some n" for a m n
  proof -
    obtain k where k: "procs ?s1 a = Some k" "m\<lparr>pnext := 0\<rparr> = (terminate ?c a k)\<lparr>pnext := 0\<rparr>"
      by (rule relinkedD [OF s'(2) h(1)])
    have "k = (if a = ?c then f n else n)" using k(1) h(2) by (auto simp: procs_upd_proc split: if_splits)
    with pnext_irrelevant [OF k(2)] f(1) show ?thesis by (auto simp: terminate_def)
  qed
  have d: "dom (procs s') = dom (procs s)" using relinked_dom [OF s'(2)] by simp
  have "states_ok s' (remove1 ?c qs) (if ?c \<in> set qs then ?c # zs else zs)"
    unfolding states_ok_def
  proof (intro conjI allI impI)
    fix a m assume m: "procs s' a = Some m"
    then obtain n where n: "procs s a = Some n" using d by blast
    show "pstate m = (if a \<in> set (remove1 ?c qs) then (if a = current s' then PROC_RUNNING else PROC_READY) else PROC_TERMINATED)"
      using st [OF m n] D(9) [OF n] D(5) s'(3) by (auto simp: set_remove1_eq)
  next
    show "current s' = 0 \<or> current s' \<in> set (remove1 ?c qs) \<or> current s' \<in> set (if ?c \<in> set qs then ?c # zs else zs)"
      using D(10) c s'(3) by auto
  qed
  moreover have "\<exists>m. procs s' ?c = Some m \<and> exit_code m = exit_code (f n) \<and> pstate m = PROC_TERMINATED"
    if n: "procs s ?c = Some n" for n
  proof -
    obtain m where m: "procs s' ?c = Some m" using n d by blast
    obtain k where k: "procs ?s1 ?c = Some k" "m\<lparr>pnext := 0\<rparr> = (terminate ?c ?c k)\<lparr>pnext := 0\<rparr>"
      by (rule relinkedD [OF s'(2) m])
    have "k = f n" using k(1) n by (simp add: procs_upd_proc)
    with pnext_irrelevant [OF k(2)] m show ?thesis by (simp add: terminate_def)
  qed
  ultimately show ?thesis using s' d by (intro exI [where x = s']) (simp add: sched_ok_def)
qed

lemma exit_ok:
  assumes ok: "sched_ok s qs zs" and c: "current s \<noteq> 0"
  shows "\<exists>s'. process_exit_current_status code s = Some s' \<and> dom (procs s') = dom (procs s) \<and> current s' \<noteq> 0 \<and>
    sched_ok s' (remove1 (current s) qs) (if current s \<in> set qs then current s # zs else zs)"
proof -
  let ?f = "\<lambda>n. n\<lparr>exit_code := code, pstate := PROC_TERMINATED\<rparr>"
  obtain s1 where s1: "scheduler_remove_current (upd_proc (current s) ?f s) = Some s1"
    "sched_ok s1 (remove1 (current s) qs) (if current s \<in> set qs then current s # zs else zs)"
    "current s1 = current s" "dom (procs s1) = dom (procs s)"
    using terminate_current_ok [OF ok c, of ?f] by auto
  from yield_total [OF s1(2)] s1 c show ?thesis by (auto simp: process_exit_current_status_def)
qed

text \<open>The lookup by pid finds a queued process or a zombie whenever there is one.\<close>

lemma find_by_pid_ok:
  assumes ok: "sched_ok s qs zs"
  shows "\<exists>r. scheduler_find_by_pid k s = Some r \<and>
    (if \<exists>p \<in> set qs \<union> set zs. map_option pid (procs s p) = Some k
     then r \<in> set qs \<union> set zs \<and> r \<noteq> 0 \<and> map_option pid (procs s r) = Some k else r = 0)"
proof -
  note D = sched_okD [OF ok]
  let ?P = "\<lambda>p. map_option pid (procs s p) = Some k"
  have fq: "find_pid (procs s) k (runqueue_head s) = Some (case find ?P qs of None \<Rightarrow> 0 | Some p \<Rightarrow> p)"
    by (rule find_pid_chain [OF D(1)])
  have fz: "find_pid (procs s) k (zombie_head s) = Some (case find ?P zs of None \<Rightarrow> 0 | Some p \<Rightarrow> p)"
    by (rule find_pid_chain [OF D(2)])
  have found: "p \<in> set xs \<and> ?P p" if "find ?P xs = Some p" for xs p
    using that by (auto simp: find_Some_iff)
  show ?thesis
  proof (cases "find ?P qs")
    case (Some p)
    from found [OF this] have "p \<in> set qs" "?P p" by auto
    moreover from this have "p \<noteq> 0" using D(7) by blast
    ultimately show ?thesis using Some fq by (auto simp: scheduler_find_by_pid_def)
  next
    case None
    then have nq: "\<forall>p \<in> set qs. \<not> ?P p" by (simp add: find_None_iff)
    show ?thesis
    proof (cases "current s \<noteq> 0 \<and> ?P (current s)")
      case True
      then have "current s \<in> set zs" using nq D(10) by blast
      with True None fq show ?thesis by (auto simp: scheduler_find_by_pid_def)
    next
      case False
      then have r: "scheduler_find_by_pid k s = Some (case find ?P zs of None \<Rightarrow> 0 | Some p \<Rightarrow> p)"
        using fz unfolding scheduler_find_by_pid_def fq None if_not_P [OF False] by simp
      show ?thesis
      proof (cases "find ?P zs")
        case None
        then have "scheduler_find_by_pid k s = Some 0" using r unfolding None by simp
        moreover have "\<forall>p \<in> set zs. \<not> ?P p" using None by (simp add: find_None_iff)
        ultimately show ?thesis using nq by auto
      next
        case (Some p)
        from found [OF this] have "p \<in> set zs" "?P p" by auto
        moreover from this have "p \<noteq> 0" using D(8) by blast
        moreover have "scheduler_find_by_pid k s = Some p" using r unfolding Some by simp
        ultimately show ?thesis by auto
      qed
    qed
  qed
qed

lemma kill_ok:
  assumes ok: "sched_ok s qs zs"
  shows "\<exists>rc s' qs' zs'. scheduler_kill k s = Some (rc, s') \<and> sched_ok s' qs' zs' \<and> dom (procs s') = dom (procs s) \<and>
    (current s \<noteq> 0 \<longrightarrow> current s' \<noteq> 0)"
proof -
  note D = sched_okD [OF ok]
  obtain p where p: "scheduler_find_by_pid k s = Some p" "p = 0 \<or> p \<in> set qs \<union> set zs"
    using find_by_pid_ok [OF ok, of k] by (auto split: if_splits)
  consider "p = 0" | "p \<noteq> 0" "p = current s" | "p \<noteq> 0" "p \<noteq> current s" "p \<in> set qs" | "p \<noteq> 0" "p \<noteq> current s" "p \<notin> set qs"
    by blast
  then show ?thesis
  proof cases
    case 1
    with ok p(1) show ?thesis by (auto simp: scheduler_kill_def)
  next
    case 2
    then have c: "current s \<noteq> 0" by simp
    obtain s1 where s1: "scheduler_remove_current (upd_proc (current s) (\<lambda>n. n\<lparr>pstate := PROC_TERMINATED\<rparr>) s) = Some s1"
      "sched_ok s1 (remove1 (current s) qs) (if current s \<in> set qs then current s # zs else zs)"
      "current s1 = current s" "dom (procs s1) = dom (procs s)"
      using terminate_current_ok [OF ok c, of "\<lambda>n. n\<lparr>pstate := PROC_TERMINATED\<rparr>"] by auto
    from yield_total [OF s1(2)] obtain s2 where s2: "scheduler_yield s1 = Some s2"
      "sched_ok s2 (remove1 (current s) qs) (if current s \<in> set qs then current s # zs else zs)"
      "dom (procs s2) = dom (procs s1)" "current s1 \<noteq> 0 \<longrightarrow> current s2 \<noteq> 0" by blast
    have "scheduler_kill k s = Some (0, s2)" using p(1) 2 s1(1) s2(1) by (simp add: scheduler_kill_def)
    with s1 s2 show ?thesis by auto
  next
    case 3
    then obtain xs ys where qs: "qs = xs @ p # ys" "p \<notin> set xs" by (auto dest: split_list_first)
    have "queues s (xs @ p # ys) zs" using ok qs by (simp add: sched_ok_def)
    from unlink_ok [OF this] obtain s1 where s1: "unlink (last (0 # xs)) p s = Some s1" "queues s1 (xs @ ys) zs"
      "relinked (\<lambda>a n. n) s s1" "current s1 = current s" by blast
    have fp: "find_prev (procs s) p 0 (runqueue_head s) = Some (last (0 # xs), p)"
      using D(1) unfolding qs(1) by (rule find_prev_in)
    let ?s2 = "upd_proc p (\<lambda>n. n\<lparr>pstate := PROC_TERMINATED\<rparr>) s1"
    have run: "scheduler_kill k s = Some (0, ?s2)" using p(1) 3 fp s1(1) by (simp add: scheduler_kill_def)
    have q2: "queues ?s2 (xs @ ys) zs" using s1(2) by (subst queues_upd_same) simp_all
    have "states_ok ?s2 (xs @ ys) zs"
      unfolding states_ok_def
    proof (intro conjI allI impI)
      fix a m assume m: "procs ?s2 a = Some m"
      then obtain m1 where m1: "procs s1 a = Some m1" "pstate m = (if a = p then PROC_TERMINATED else pstate m1)"
        by (auto simp: procs_upd_proc split: if_splits)
      obtain n where n: "procs s a = Some n" "pstate m1 = pstate n" using pstate_relinked [OF s1(3) m1(1)] by auto
      show "pstate m = (if a \<in> set (xs @ ys) then (if a = current ?s2 then PROC_RUNNING else PROC_READY) else PROC_TERMINATED)"
        using D(9) [OF n(1)] D(5) m1(2) n(2) s1(4) qs by auto
    next
      show "current ?s2 = 0 \<or> current ?s2 \<in> set (xs @ ys) \<or> current ?s2 \<in> set zs"
        using D(10) s1(4) 3(2) qs by auto
    qed
    moreover have "dom (procs ?s2) = dom (procs s)" using relinked_dom [OF s1(3)] by simp
    ultimately show ?thesis using run q2 s1(4)
      by (intro exI [where x = 0] exI [where x = ?s2] exI [where x = "xs @ ys"] exI [where x = zs]) (simp add: sched_ok_def)
  next
    case 4
    have "find_prev (procs s) p 0 (runqueue_head s) = Some (last (0 # qs), 0)"
      by (rule find_prev_notin [OF D(1) 4(3)])
    then have "scheduler_kill k s = Some (- 1, s)" using p(1) 4 by (simp add: scheduler_kill_def)
    with ok show ?thesis by blast
  qed
qed

subsection \<open>Creating a process\<close>

definition sched_heap :: "u64 \<Rightarrow> sched \<Rightarrow> bool" where
  "sched_heap kend s \<longleftrightarrow> heap_inv kend (vm_heap (vm s)) \<and> (\<forall>p \<in> dom (procs s). unat p < vbrk kend (vm s))"

lemma kmalloc_heap:
  assumes "heap_inv kend h" "unat n \<le> 2 ^ 63" "kmalloc kend n h = (p, h')"
  shows "heap_inv kend h'" "heap_brk kend h \<le> heap_brk kend h'"
    "p \<noteq> 0 \<Longrightarrow> unat p = heap_brk kend h" "p \<noteq> 0 \<Longrightarrow> 0 < n \<Longrightarrow> heap_brk kend h < heap_brk kend h'"
proof -
  show "heap_inv kend h'" by (rule kheap.alloc_ok [OF assms])
  show "heap_brk kend h \<le> heap_brk kend h'" by (rule kheap.alloc_mono [OF assms])
  show "unat p = heap_brk kend h" if "p \<noteq> 0" using kheap.alloc_some [OF assms that] by simp
  show "heap_brk kend h < heap_brk kend h'" if "p \<noteq> 0" "0 < n"
  proof -
    have "0 < (unat n + 7) div 8" using that(2) by (simp add: word_less_nat_alt)
    then show ?thesis using kheap.alloc_some [OF assms that(1)] by simp
  qed
qed

lemma alloc_table_heap:
  assumes "heap_inv kend (vm_heap s)" "vmm_alloc_table kend s = (t, s')"
  shows "heap_inv kend (vm_heap s') \<and> vbrk kend s \<le> vbrk kend s'"
proof -
  obtain p h where k: "kmalloc kend 4096 (vm_heap s) = (p, h)" by (cases "kmalloc kend 4096 (vm_heap s)")
  from kmalloc_heap [OF assms(1) _ k] assms(2) k show ?thesis
    by (auto simp: vmm_alloc_table_def split: if_splits)
qed

lemma create_as_heap:
  assumes "heap_inv kend (vm_heap s)" "vmm_create_address_space kend kas s = (as, s')"
  shows "heap_inv kend (vm_heap s') \<and> vbrk kend s \<le> vbrk kend s'"
proof -
  obtain p h where k: "kmalloc kend 16 (vm_heap s) = (p, h)" by (cases "kmalloc kend 16 (vm_heap s)")
  have h: "heap_inv kend h" "vbrk kend s \<le> heap_brk kend h" using kmalloc_heap [OF assms(1) _ k] by simp_all
  obtain t s2 where t: "vmm_alloc_table kend (s\<lparr>vm_heap := h\<rparr>) = (t, s2)"
    by (cases "vmm_alloc_table kend (s\<lparr>vm_heap := h\<rparr>)")
  have "heap_inv kend (vm_heap s2) \<and> heap_brk kend h \<le> vbrk kend s2"
    using alloc_table_heap [OF _ t] h(1) by simp
  with assms(2) k t h show ?thesis
    by (auto simp: vmm_create_address_space_def SIZEOF_ADDRESS_SPACE_def store64_def Let_def split: if_splits)
qed

lemma entry_at_eq:
  assumes "i < 2 ^ 60" "j < 2 ^ 60"
  shows "entry_at t i = entry_at t j \<longleftrightarrow> i = j"
proof
  assume "entry_at t i = entry_at t j"
  then have "(of_nat (8 * i) :: u64) = of_nat (8 * j)" by (simp add: entry_at_def)
  then have "unat (of_nat (8 * i) :: u64) = unat (of_nat (8 * j) :: u64)" by (rule arg_cong)
  then have "8 * i mod 2 ^ 64 = 8 * j mod 2 ^ 64" by (simp only: unat_of_nat) simp
  then show "i = j" using assms by simp
qed simp

lemma initial_frame_at:
  "i < 16 \<Longrightarrow> initial_frame sp arg entry m (entry_at sp i) = (if i = 15 then entry else if i = 5 then arg else 0)"
  by (auto simp: initial_frame_def zero_entries_at entry_at_eq)

lemma create_ok:
  assumes ok: "sched_ok s qs zs" and hp: "sched_heap kend s"
  shows "\<exists>p s' qs'. process_create kend kas uninit name entry arg prio s = Some (p, s') \<and>
    sched_ok s' qs' zs \<and> sched_heap kend s' \<and> current s' = current s \<and>
    (if p = 0 then qs' = qs \<and> procs s' = procs s
     else qs' = qs @ [p] \<and> p \<notin> dom (procs s) \<and> dom (procs s') = insert p (dom (procs s)) \<and>
       (\<exists>n. procs s' p = Some n \<and> pid n = next_pid s \<and> address_space n = fst (vmm_create_address_space kend kas
           ((vm s)\<lparr>vm_heap := snd (kmalloc kend (16 * 1024) (snd (kmalloc kend SIZEOF_PROCESS (vm_heap (vm s)))))\<rparr>)) \<and>
         (\<forall>i < 16. vm_mem (vm s') (entry_at (stack_ptr n) i) = (if i = 15 then entry else if i = 5 then arg else 0))))"
proof -
  note D = sched_okD [OF ok]
  have inv: "heap_inv kend (vm_heap (vm s))" and lt: "\<And>p. p \<in> dom (procs s) \<Longrightarrow> unat p < vbrk kend (vm s)"
    using hp by (auto simp: sched_heap_def)
  have frame: "sched_ok (with_heap h s) qs zs" for h
    using ok by (subst sched_ok_frame) (simp_all add: with_heap_def)
  have heapf: "sched_heap kend (with_heap h s)" if "heap_inv kend h" "vbrk kend (vm s) \<le> heap_brk kend h" for h
    using that lt by (force simp: sched_heap_def with_heap_def)
  show ?thesis
  proof (cases "entry = 0")
    case True
    with ok hp show ?thesis by (auto simp: process_create_def)
  next
    case e: False
    obtain p h1 where k1: "kmalloc kend SIZEOF_PROCESS (vm_heap (vm s)) = (p, h1)"
      by (cases "kmalloc kend SIZEOF_PROCESS (vm_heap (vm s))")
    note K1 = kmalloc_heap [OF inv _ k1]
    have h1: "heap_inv kend h1" "vbrk kend (vm s) \<le> heap_brk kend h1" using K1(1,2) by (simp_all add: SIZEOF_PROCESS_def)
    show ?thesis
    proof (cases "p = 0")
      case True
      with e k1 have "process_create kend kas uninit name entry arg prio s = Some (0, with_heap h1 s)"
        by (simp add: process_create_def)
      with frame heapf [OF h1] show ?thesis by (auto simp: with_heap_def)
    next
      case p0: False
      obtain st h2 where k2: "kmalloc kend (16 * 1024) h1 = (st, h2)" by (cases "kmalloc kend (16 * 1024) h1")
      have h2: "heap_inv kend h2" "heap_brk kend h1 \<le> heap_brk kend h2"
        using kmalloc_heap [OF h1(1) _ k2] by simp_all
      have wh: "vm_heap (vm (with_heap h1 s)) = h1" "with_heap h2 (with_heap h1 s) = with_heap h2 s"
        by (simp_all add: with_heap_def)
      show ?thesis
      proof (cases "st = 0")
        case True
        with e k1 k2 p0 have "process_create kend kas uninit name entry arg prio s = Some (0, with_heap h2 s)"
          by (simp add: process_create_def wh)
        with frame heapf [OF h2(1)] h1 h2 show ?thesis by (auto simp: with_heap_def)
      next
        case False
        let ?s2 = "with_heap h2 s"
        obtain as v where av: "vmm_create_address_space kend kas (vm ?s2) = (as, v)"
          by (cases "vmm_create_address_space kend kas (vm ?s2)")
        have hv: "heap_inv kend (vm_heap v)" "heap_brk kend h2 \<le> vbrk kend v"
          using create_as_heap [OF _ av] h2(1) by (simp_all add: with_heap_def)
        let ?sp = "((st + 16 * 1024) AND NOT 0xF) - 128"
        let ?pr = "\<lparr>pid = next_pid s, pname = name_buffer (case name of None \<Rightarrow> [] | Some n \<Rightarrow> n) uninit,
            pstate = PROC_READY, stack_ptr = ?sp, stack_base = st, stack_size = 16 * 1024,
            priority = prio, pnext = 0, image_base = 0, image_size = 0, exit_code = 0,
            address_space = as, pcr3 = (if as = 0 then 0 else as_cr3 v as), fds = process_init_fds\<rparr>"
        let ?s3 = "?s2\<lparr>next_pid := next_pid s + 1, vm := v\<lparr>vm_mem := initial_frame ?sp arg entry (vm_mem v)\<rparr>,
            procs := (procs s)(p \<mapsto> ?pr)\<rparr>"
        have up: "unat p = vbrk kend (vm s)" "vbrk kend (vm s) < heap_brk kend h1"
          using K1(3,4) p0 by (simp_all add: SIZEOF_PROCESS_def)
        have fresh: "p \<notin> dom (procs s)" using lt [of p] up(1) by auto
        then have pq: "p \<notin> set qs" "p \<notin> set zs" using D(7,8) by auto
        have nx: "pnexts (procs ?s3) = (pnexts (procs s))(p \<mapsto> 0)" by (rule ext) (simp add: pnexts_def)
        have q3: "queues ?s3 qs zs"
          unfolding queues_def nx using D(1-4) pq p0 by (auto simp: with_heap_def)
        have p3: "procs ?s3 p = Some ?pr" "pnext ?pr = 0" by simp_all
        obtain s' where s': "scheduler_add p ?s3 = Some s'" "queues s' (qs @ [p]) zs" "current s' = current ?s3"
          "vm s' = vm ?s3" "dom (procs s') = dom (procs ?s3)"
          and rl: "\<forall>a m. procs s' a = Some m \<longrightarrow> (\<exists>m0. procs ?s3 a = Some m0 \<and> m = m0\<lparr>pnext := pnext m\<rparr>)"
          using scheduler_add_ok [OF q3 pq p0 p3] by blast
        have run: "process_create kend kas uninit name entry arg prio s = Some (p, s')"
        proof -
          have "process_create kend kas uninit name entry arg prio s = map_option (\<lambda>s4. (p, s4)) (scheduler_add p ?s3)"
            using e k1 k2 p0 False av unfolding process_create_def
            by (simp add: wh Let_def split del: if_split) (simp add: with_heap_def split del: if_split)
          then show ?thesis unfolding s'(1) by simp
        qed
        have cur: "current s' = current s" using s'(3) by (simp add: with_heap_def)
        have dm: "dom (procs s') = insert p (dom (procs s))" using s'(5) by auto
        have "states_ok s' (qs @ [p]) zs"
          unfolding states_ok_def
        proof (intro conjI allI impI)
          fix a m assume m: "procs s' a = Some m"
          then obtain m0 where m0: "procs ?s3 a = Some m0" "m = m0\<lparr>pnext := pnext m\<rparr>" using rl by blast
          have st: "pstate m = pstate m0" by (subst m0(2)) simp
          have cp: "current s \<noteq> p" using D(10) pq p0 by auto
          show "pstate m = (if a \<in> set (qs @ [p]) then (if a = current s' then PROC_RUNNING else PROC_READY) else PROC_TERMINATED)"
            using m0(1) st cur cp D(9) [of a] fresh by (cases "a = p") auto
        next
          show "current s' = 0 \<or> current s' \<in> set (qs @ [p]) \<or> current s' \<in> set zs" using D(10) cur by auto
        qed
        then have ok': "sched_ok s' (qs @ [p]) zs" using s'(2) by (simp add: sched_ok_def)
        have "vm_heap (vm s') = vm_heap v" using s'(4) by simp
        then have hp': "sched_heap kend s'"
        proof -
          have "unat a < vbrk kend v" if "a \<in> insert p (dom (procs s))" for a
            using that hv(2) h2(2) h1(2) up lt [of a] by (cases "a = p") fastforce+
          then show ?thesis unfolding sched_heap_def dm using hv(1) \<open>vm_heap (vm s') = vm_heap v\<close> by simp
        qed
        obtain m where m: "procs s' p = Some m" using dm by auto
        then obtain m0 where m0: "procs ?s3 p = Some m0" and me: "m = m0\<lparr>pnext := pnext m\<rparr>" using rl by blast
        have "m0 = ?pr" using m0 p3(1) by (simp only: option.inject)
        moreover have "pid m = pid m0" "stack_ptr m = stack_ptr m0" "address_space m = address_space m0"
          by (subst me, simp)+
        ultimately have pm: "pid m = next_pid s" "stack_ptr m = ?sp" "address_space m = as" by simp_all
        have "\<forall>i < 16. vm_mem (vm s') (entry_at ?sp i) = (if i = 15 then entry else if i = 5 then arg else 0)"
          using s'(4) by (simp add: initial_frame_at)
        with m pm k1 k2 av have "\<exists>n. procs s' p = Some n \<and> pid n = next_pid s \<and>
            address_space n = fst (vmm_create_address_space kend kas
             ((vm s)\<lparr>vm_heap := snd (kmalloc kend (16 * 1024) (snd (kmalloc kend SIZEOF_PROCESS (vm_heap (vm s)))))\<rparr>)) \<and>
          (\<forall>i < 16. vm_mem (vm s') (entry_at (stack_ptr n) i) = (if i = 15 then entry else if i = 5 then arg else 0))"
          by (simp add: with_heap_def)
        with run ok' hp' cur p0 fresh dm show ?thesis by (intro exI [where x = p] exI [where x = s'] exI [where x = "qs @ [p]"]) simp
      qed
    qed
  qed
qed

subsection \<open>Saving and loading a context\<close>

lemma push_all_eq:
  "push_all rs sp m = (sp - 8 * of_nat (length rs),
     foldl (\<lambda>m k. m(sp - 8 * of_nat (Suc k) := rs ! k)) m [0..<length rs])"
proof (induction rs arbitrary: sp m rule: rev_induct)
  case Nil
  then show ?case by simp
next
  case (snoc r rs)
  have app: "push_all (xs @ [r]) sp m = (let (q, n) = push_all xs sp m in (q - 8, n(q - 8 := r)))" for xs sp m
    by (induction xs arbitrary: sp m) simp_all
  have "foldl (\<lambda>m k. m(sp - 8 * of_nat (Suc k) := (rs @ [r]) ! k)) m [0..<length rs] =
      foldl (\<lambda>m k. m(sp - 8 * of_nat (Suc k) := rs ! k)) m [0..<length rs]"
    by (rule foldl_cong) (simp_all add: nth_append)
  moreover have "sp - 8 * of_nat (length rs) - 8 = sp - 8 * of_nat (Suc (length rs))" by (simp add: algebra_simps)
  ultimately show ?case
    by (simp only: app snoc.IH Let_def prod.case length_append_singleton upt_Suc le0 if_True foldl_append
        foldl_Cons foldl_Nil nth_append_length)
qed

lemma foldl_writes:
  assumes "\<And>j k. j < n \<Longrightarrow> k < n \<Longrightarrow> f j = f k \<Longrightarrow> j = k"
  shows "foldl (\<lambda>m k. m(f k := g k)) m [0..<n] a = (if \<exists>k < n. a = f k then g (THE k. k < n \<and> a = f k) else m a)"
  using assms
proof (induction n)
  case 0
  then show ?case by simp
next
  case (Suc n)
  have inj: "\<And>j k. j < Suc n \<Longrightarrow> k < Suc n \<Longrightarrow> f j = f k \<Longrightarrow> j = k" by (rule Suc.prems)
  have the: "(THE k. k < i \<and> f j = f k) = j" if "j < i" "i \<le> Suc n" for i j
    using inj that by (intro the_equality) auto
  show ?case
  proof (cases "a = f n")
    case True
    then show ?thesis using the [of n "Suc n"] by auto
  next
    case False
    then have *: "(\<exists>k < Suc n. a = f k) = (\<exists>k < n. a = f k)" using less_Suc_eq by auto
    show ?thesis
    proof (cases "\<exists>k < n. a = f k")
      case True
      then obtain k where k: "k < n" "a = f k" by auto
      then show ?thesis using Suc False * the [of k n] the [of k "Suc n"] by auto
    next
      case no: False
      then show ?thesis using Suc False * by auto
    qed
  qed
qed

lemma push_slot: "k < n \<Longrightarrow> sp - 8 * of_nat (Suc k) = entry_at (sp - 8 * of_nat n) (n - Suc k)"
  by (simp add: entry_at_def of_nat_diff algebra_simps)

lemma push_all_at:
  assumes "n = length rs" "n < 2 ^ 60" "push_all rs sp m = (q, m')"
  shows "q = sp - 8 * of_nat n" "i < n \<Longrightarrow> m' (entry_at q i) = rs ! (n - Suc i)"
    "(\<And>i. i < n \<Longrightarrow> a \<noteq> entry_at q i) \<Longrightarrow> m' a = m a"
proof -
  have q: "q = sp - 8 * of_nat n" and m': "m' = foldl (\<lambda>m k. m(sp - 8 * of_nat (Suc k) := rs ! k)) m [0..<n]"
    using assms(1,3) unfolding push_all_eq by simp_all
  show "q = sp - 8 * of_nat n" by (rule q)
  have slot: "sp - 8 * of_nat (Suc k) = entry_at q (n - Suc k)" if "k < n" for k
    unfolding q using that by (rule push_slot)
  have inj: "j = k" if "j < n" "k < n" "sp - 8 * of_nat (Suc j) = sp - (8 * of_nat (Suc k) :: u64)" for j k
  proof -
    have "entry_at q (n - Suc j) = entry_at q (n - Suc k)" using that slot by metis
    then show ?thesis using that assms(2) by (subst (asm) entry_at_eq) simp_all
  qed
  show "m' (entry_at q i) = rs ! (n - Suc i)" if i: "i < n"
  proof -
    have k: "n - Suc i < n" "entry_at q i = sp - 8 * of_nat (Suc (n - Suc i))"
      using i slot [of "n - Suc i"] by simp_all
    have "(THE k. k < n \<and> entry_at q i = sp - 8 * of_nat (Suc k)) = n - Suc i"
      using k inj by (intro the_equality) auto
    then show ?thesis unfolding m' by (subst foldl_writes) (use inj k in auto)
  qed
  show "m' a = m a" if "\<And>i. i < n \<Longrightarrow> a \<noteq> entry_at q i"
  proof -
    have "a \<noteq> sp - 8 * of_nat (Suc k)" if "k < n" for k
      using slot [OF that] \<open>\<And>i. i < n \<Longrightarrow> a \<noteq> entry_at q i\<close> [of "n - Suc k"] that by simp
    then show ?thesis unfolding m' by (subst foldl_writes) (use inj in auto)
  qed
qed

lemma pop_n_at: "pop_n n sp m = map (\<lambda>i. m (entry_at sp i)) [0..<n]"
proof (induction n arbitrary: sp)
  case 0
  then show ?case by simp
next
  case (Suc n)
  have "entry_at (sp + 8) i = entry_at sp (Suc i)" for i by (simp add: entry_at_def algebra_simps)
  then show ?case
    by (simp add: Suc entry_at_def upt_conv_Cons [of 0 "Suc n"] map_Suc_upt [symmetric] add.assoc del: upt_Suc)
qed

text \<open>
  The saved words lie below the old stack pointer: \<open>saved_words c\<close> is what is stored there, and the
  new context is what sixteen words from the new stack pointer hold.
\<close>

definition saved_words :: "cpu \<Rightarrow> u64 list" where
  "saved_words c = regs c @ [rip c]"

lemma context_switch_spec:
  assumes "length (regs c) = 15" "context_switch sp c m = (old, c', m')"
  shows "old = rsp c - 128" "\<And>i. i < 16 \<Longrightarrow> m' (entry_at old i) = saved_words c ! i"
    "\<And>a. (\<And>i. i < 16 \<Longrightarrow> a \<noteq> entry_at old i) \<Longrightarrow> m' a = m a"
    "c' = \<lparr>regs = map (\<lambda>i. m' (entry_at sp i)) [0..<15], rip = m' (entry_at sp 15), rsp = sp + 128\<rparr>"
proof -
  obtain q n where pa: "push_all (rip c # rev (regs c)) (rsp c) m = (q, n)" by (cases "push_all (rip c # rev (regs c)) (rsp c) m")
  then have e: "old = q" "m' = n" and c': "c' = \<lparr>regs = pop_n 15 sp n, rip = n (sp + 120), rsp = sp + 128\<rparr>"
    using assms(2) unfolding context_switch_def pa by auto
  have l: "16 = length (rip c # rev (regs c))" "(16::nat) < 2 ^ 60" using assms(1) by simp_all
  show "old = rsp c - 128" using push_all_at(1) [OF l pa] e by simp
  show "m' (entry_at old i) = saved_words c ! i" if "i < 16" for i
  proof (cases "i = 15")
    case True
    then show ?thesis using push_all_at(2) [OF l pa that] e assms(1) by (simp add: saved_words_def nth_append)
  next
    case False
    then have i: "i < 15" using that by simp
    then have "(rip c # rev (regs c)) ! (16 - Suc i) = rev (regs c) ! (15 - Suc i)"
      by (metis Suc_diff_Suc diff_Suc_Suc eval_nat_numeral(3) numeral_eq_Suc nth_Cons_Suc pred_numeral_simps(2) semiring_norm(26,27))
    also have "\<dots> = regs c ! i" using i assms(1) by (simp add: rev_nth)
    finally show ?thesis using push_all_at(2) [OF l pa that] e i assms(1) by (simp add: saved_words_def nth_append)
  qed
  show "m' a = m a" if "\<And>i. i < 16 \<Longrightarrow> a \<noteq> entry_at old i" for a
    using push_all_at(3) [OF l pa, of a] that e by simp
  show "c' = \<lparr>regs = map (\<lambda>i. m' (entry_at sp i)) [0..<15], rip = m' (entry_at sp 15), rsp = sp + 128\<rparr>"
    using c' e by (simp add: pop_n_at entry_at_def)
qed

text \<open>Coming back: the sixteen saved words bring the CPU back, with the stack pointer it had.\<close>

lemma context_switch_back:
  assumes c: "length (regs c) = 15" "length (regs d) = 15"
    and out: "context_switch sp c m = (old, c1, m1)"
    and kept: "\<And>i. i < 16 \<Longrightarrow> m2 (entry_at old i) = m1 (entry_at old i)"
    and apart: "\<And>i j. i < 16 \<Longrightarrow> j < 16 \<Longrightarrow> entry_at (rsp d - 128) i \<noteq> entry_at old j"
    and ret: "context_switch old d m2 = (old2, c2, m3)"
  shows "c2 = c"
proof -
  note A = context_switch_spec [OF c(1) out] and B = context_switch_spec [OF c(2) ret]
  have w: "m3 (entry_at old i) = saved_words c ! i" if "i < 16" for i
  proof -
    have "m3 (entry_at old i) = m2 (entry_at old i)" using apart that B(1) by (intro B(3)) metis
    then show ?thesis using kept A(2) that by simp
  qed
  have "map (\<lambda>i. m3 (entry_at old i)) [0..<15] = regs c"
    by (rule nth_equalityI) (simp_all add: w c(1) saved_words_def nth_append)
  moreover have "m3 (entry_at old 15) = rip c" using w [of 15] c(1) by (simp add: saved_words_def nth_append)
  moreover have "old + 128 = rsp c" using A(1) by simp
  ultimately show ?thesis using B(4) by simp
qed

subsection \<open>Steps\<close>

text \<open>
  What happens between two scheduler calls: running code changes the CPU and any memory
  (\<open>Run\<close>; the C structs are not in that memory), the kernel allocates heap blocks (\<open>Alloc\<close>), and
  the code calls the scheduler. \<open>scheduler_start\<close> is a step only before anything runs.
\<close>

inductive sched_step :: "u64 \<Rightarrow> u64 \<Rightarrow> sched \<Rightarrow> sched \<Rightarrow> bool" for kend kas where
  Run: "length (regs c) = 15 \<Longrightarrow> sched_step kend kas s (s\<lparr>cpu := c, vm := (vm s)\<lparr>vm_mem := m\<rparr>\<rparr>)"
| Alloc: "unat n \<le> 2 ^ 63 \<Longrightarrow> sched_step kend kas s (with_heap (snd (kmalloc kend n (vm_heap (vm s)))) s)"
| Create: "process_create kend kas uninit name entry arg prio s = Some (p, s') \<Longrightarrow> sched_step kend kas s s'"
| Start: "current s = 0 \<Longrightarrow> scheduler_start s = Some s' \<Longrightarrow> sched_step kend kas s s'"
| Yield: "scheduler_yield s = Some s' \<Longrightarrow> sched_step kend kas s s'"
| Exit: "process_exit_current s = Some s' \<Longrightarrow> sched_step kend kas s s'"
| Exit_status: "process_exit_current_status code s = Some s' \<Longrightarrow> sched_step kend kas s s'"
| Kill: "process_kill k s = Some (rc, s') \<Longrightarrow> sched_step kend kas s s'"
| Tick: "sched_step kend kas s (scheduler_tick s)"

inductive sched_reach :: "u64 \<Rightarrow> u64 \<Rightarrow> sched \<Rightarrow> bool" for kend kas where
  Init: "procs s = Map.empty \<Longrightarrow> heap_inv kend (vm_heap (vm s)) \<Longrightarrow> length (regs (cpu s)) = 15 \<Longrightarrow>
    sched_reach kend kas (scheduler_init s)"
| Step: "sched_reach kend kas s \<Longrightarrow> sched_step kend kas s s' \<Longrightarrow> sched_reach kend kas s'"

subsection \<open>What the operations leave alone\<close>

text \<open>\<open>steady s s'\<close>: the heap is the same, and once a process runs, one always runs and the saved kernel stack stays.\<close>

definition steady :: "sched \<Rightarrow> sched \<Rightarrow> bool" where
  "steady s s' \<longleftrightarrow> vm_heap (vm s') = vm_heap (vm s) \<and>
     (length (regs (cpu s)) = 15 \<longrightarrow> length (regs (cpu s')) = 15) \<and>
     (current s \<noteq> 0 \<longrightarrow> current s' \<noteq> 0 \<and> kernel_sp s' = kernel_sp s)"

lemma steady_refl: "steady s s"
  by (simp add: steady_def)

lemma steady_trans: "steady s s1 \<Longrightarrow> steady s1 s2 \<Longrightarrow> steady s s2"
  by (simp add: steady_def)

lemma steady_frame:
  "vm s' = vm s \<Longrightarrow> cpu s' = cpu s \<Longrightarrow> current s' = current s \<Longrightarrow> kernel_sp s' = kernel_sp s \<Longrightarrow> steady s s'"
  by (simp add: steady_def)

lemma steady_upd: "steady s (upd_proc p f s)"
  by (rule steady_frame) simp_all

lemma steady_unlink: "unlink prev it s = Some s' \<Longrightarrow> steady s s'"
  by (auto simp: unlink_def steady_def split: option.splits if_splits)

lemma steady_add: "scheduler_add p s = Some s' \<Longrightarrow> steady s s'"
  by (auto simp: scheduler_add_def steady_def Let_def split: option.splits if_splits)

lemma steady_remove_current: "scheduler_remove_current s = Some s' \<Longrightarrow> steady s s'"
  by (auto simp: scheduler_remove_current_def unlink_def steady_def Let_def split: option.splits if_splits prod.splits)

lemma length_pop_n [simp]: "length (pop_n n sp m) = n"
  by (induction n arbitrary: sp) simp_all

lemma context_switch_regs: "length (regs (fst (snd (context_switch sp c m)))) = 15"
  by (simp add: context_switch_def split: prod.split)

lemma vmm_switch_heap [simp]: "vm_heap (vmm_switch_address_space as v) = vm_heap v"
  by (simp add: vmm_switch_address_space_def)

lemma steady_yield:
  assumes "scheduler_yield s = Some s'" "procs s 0 = None"
  shows "steady s s'"
  using assms unfolding scheduler_yield_def
  by (auto simp: steady_def Let_def switch_from_kernel_sel switch_from_process_sel context_switch_regs
      split: option.splits if_split_asm)

lemma steady_exit_status:
  assumes "process_exit_current_status code s = Some s'" and ok: "sched_ok s qs zs"
  shows "steady s s'"
proof (cases "current s = 0")
  case True
  with assms(1) show ?thesis by (simp add: process_exit_current_status_def steady_refl)
next
  case False
  let ?s1 = "upd_proc (current s) (\<lambda>n. n\<lparr>exit_code := code, pstate := PROC_TERMINATED\<rparr>) s"
  obtain s2 where s2: "scheduler_remove_current ?s1 = Some s2" "scheduler_yield s2 = Some s'"
    using assms(1) False by (auto simp: process_exit_current_status_def split: option.splits)
  have "dom (procs s2) = dom (procs s)"
    using terminate_current_ok [OF ok False, of "\<lambda>n. n\<lparr>exit_code := code, pstate := PROC_TERMINATED\<rparr>"] s2(1) by auto
  then have "procs s2 0 = None" using sched_okD(4) [OF ok] by (metis domIff)
  from steady_trans [OF steady_trans [OF steady_upd steady_remove_current [OF s2(1)]] steady_yield [OF s2(2) this]]
  show ?thesis .
qed

text \<open>Exiting without a status is exiting with the exit code the struct holds.\<close>

lemma upd_proc_cong: "procs s p = Some n \<Longrightarrow> f n = g n \<Longrightarrow> upd_proc p f s = upd_proc p g s"
  by (simp add: upd_proc_def)

lemma exit_current_eq:
  assumes "procs s (current s) = Some n"
  shows "process_exit_current s = process_exit_current_status (exit_code n) s"
proof -
  have "upd_proc (current s) (\<lambda>n. n\<lparr>pstate := PROC_TERMINATED\<rparr>) s =
      upd_proc (current s) (\<lambda>m. m\<lparr>exit_code := exit_code n, pstate := PROC_TERMINATED\<rparr>) s"
    using assms by (rule upd_proc_cong) simp
  then show ?thesis by (simp add: process_exit_current_def process_exit_current_status_def)
qed

lemma steady_kill:
  assumes k: "scheduler_kill k s = Some (rc, s')" and ok: "sched_ok s qs zs"
  shows "steady s s'"
proof -
  obtain p where p: "scheduler_find_by_pid k s = Some p" using find_by_pid_ok [OF ok, of k] by blast
  consider "p = 0" | "p \<noteq> 0" "p = current s" | "p \<noteq> 0" "p \<noteq> current s" by blast
  then show ?thesis
  proof cases
    case 1
    with k p show ?thesis by (simp add: scheduler_kill_def steady_refl)
  next
    case 2
    let ?f = "\<lambda>n. n\<lparr>pstate := PROC_TERMINATED\<rparr>"
    obtain s2 where s2: "scheduler_remove_current (upd_proc (current s) ?f s) = Some s2" "scheduler_yield s2 = Some s'"
      using k p 2 by (auto simp: scheduler_kill_def split: option.splits)
    have "current s \<noteq> 0" using 2 by simp
    then have "dom (procs s2) = dom (procs s)" using terminate_current_ok [OF ok, of ?f] s2(1) by auto
    then have "procs s2 0 = None" using sched_okD(4) [OF ok] by (metis domIff)
    from steady_trans [OF steady_trans [OF steady_upd steady_remove_current [OF s2(1)]] steady_yield [OF s2(2) this]]
    show ?thesis .
  next
    case 3
    then obtain prev it where f: "find_prev (procs s) p 0 (runqueue_head s) = Some (prev, it)"
      using k p by (auto simp: scheduler_kill_def split: option.splits)
    show ?thesis
    proof (cases "it = 0")
      case True
      with k p 3 f show ?thesis by (simp add: scheduler_kill_def steady_refl)
    next
      case False
      then obtain s1 where "unlink prev it s = Some s1" "s' = upd_proc it (\<lambda>n. n\<lparr>pstate := PROC_TERMINATED\<rparr>) s1"
        using k p 3 f by (auto simp: scheduler_kill_def)
      then show ?thesis using steady_trans [OF steady_unlink steady_upd] by blast
    qed
  qed
qed

subsection \<open>Every reachable state\<close>

definition sched_inv :: "u64 \<Rightarrow> sched \<Rightarrow> bool" where
  "sched_inv kend s \<longleftrightarrow> (\<exists>qs zs. sched_ok s qs zs) \<and> sched_heap kend s \<and> length (regs (cpu s)) = 15"

lemma sched_heap_steady:
  "sched_heap kend s \<Longrightarrow> steady s s' \<Longrightarrow> dom (procs s') = dom (procs s) \<Longrightarrow> sched_heap kend s'"
  by (simp add: sched_heap_def steady_def)

lemma sched_invI:
  "sched_inv kend s \<Longrightarrow> sched_ok s' qs zs \<Longrightarrow> steady s s' \<Longrightarrow> dom (procs s') = dom (procs s) \<Longrightarrow> sched_inv kend s'"
  using sched_heap_steady [of kend s s'] by (auto simp: sched_inv_def steady_def)

lemma exit_current_ok:
  assumes ok: "sched_ok s qs zs"
  shows "\<exists>s' code. process_exit_current s = Some s' \<and> process_exit_current_status code s = Some s'"
proof (cases "current s = 0")
  case True
  then show ?thesis by (simp add: process_exit_current_def process_exit_current_status_def)
next
  case False
  have "current s \<in> dom (procs s)" using sched_okD(7,8,10) [OF ok] False by metis
  then obtain n where "procs s (current s) = Some n" by blast
  from exit_current_eq [OF this] exit_ok [OF ok False] show ?thesis by metis
qed

lemma exit_status_inv:
  assumes inv: "sched_inv kend s" and e: "process_exit_current_status code s = Some s'"
  shows "sched_inv kend s'"
proof -
  obtain qs zs where ok: "sched_ok s qs zs" using inv by (auto simp: sched_inv_def)
  show ?thesis
  proof (cases "current s = 0")
    case True
    with e inv show ?thesis by (simp add: process_exit_current_status_def)
  next
    case False
    from exit_ok [OF ok this, of code] e obtain qs' zs' where "sched_ok s' qs' zs'" "dom (procs s') = dom (procs s)" by auto
    with sched_invI [OF inv _ steady_exit_status [OF e ok]] show ?thesis by blast
  qed
qed

lemma start_ok:
  assumes ok: "sched_ok s qs zs" and z: "current s = 0"
  shows "\<exists>s'. scheduler_start s = Some s' \<and> sched_ok s' qs zs \<and> steady s s' \<and> dom (procs s') = dom (procs s)"
proof (cases qs)
  case Nil
  then have "runqueue_head s = 0" using sched_okD(1) [OF ok] by simp
  with ok show ?thesis by (simp add: scheduler_start_def steady_refl)
next
  case (Cons q rest)
  note D = sched_okD [OF ok]
  have "chain (pnexts (procs s)) (runqueue_head s) (q # rest)" using D(1) Cons by simp
  then obtain n where n: "runqueue_head s = q" "q \<noteq> 0" "procs s q = Some n" by (rule chain_at)
  let ?s1 = "upd_proc q (\<lambda>n. n\<lparr>pstate := PROC_RUNNING\<rparr>) (s\<lparr>current := q\<rparr>)"
  let ?s' = "switch_from_kernel (stack_ptr n) ?s1"
  have run: "scheduler_start s = Some ?s'" using n by (simp add: scheduler_start_def)
  have "queues s qs zs" using ok by (simp add: sched_ok_def)
  then have "queues (s\<lparr>current := q\<rparr>) qs zs" by (subst queues_frame) simp_all
  then have "queues ?s1 qs zs" by (subst queues_upd_same) simp_all
  then have q1: "queues ?s' qs zs" by (subst queues_frame) (simp_all add: switch_from_kernel_sel)
  have "states_ok ?s' qs zs"
    unfolding states_ok_def
  proof (intro conjI allI impI)
    fix a m assume m: "procs ?s' a = Some m"
    then obtain k where k: "procs s a = Some k" "pstate m = (if a = q then PROC_RUNNING else pstate k)"
      by (auto simp: switch_from_kernel_sel procs_upd_proc split: if_splits)
    show "pstate m = (if a \<in> set qs then (if a = current ?s' then PROC_RUNNING else PROC_READY) else PROC_TERMINATED)"
      using D(9) [OF k(1)] k(2) z D(7) Cons by (auto simp: switch_from_kernel_sel)
  next
    show "current ?s' = 0 \<or> current ?s' \<in> set qs \<or> current ?s' \<in> set zs" using Cons by (simp add: switch_from_kernel_sel)
  qed
  then have "sched_ok ?s' qs zs" using q1 by (simp add: sched_ok_def)
  moreover have "steady s ?s'" using z by (simp add: steady_def switch_from_kernel_sel context_switch_regs)
  moreover have "dom (procs ?s') = dom (procs s)" by (auto simp: switch_from_kernel_sel procs_upd_proc split: if_splits)
  ultimately show ?thesis using run by blast
qed

lemma steady_create:
  assumes "process_create kend kas uninit name entry arg prio s = Some (p, s')"
  shows "cpu s' = cpu s \<and> current s' = current s \<and> kernel_sp s' = kernel_sp s"
proof -
  have add: "scheduler_add q t = Some t' \<Longrightarrow> cpu t' = cpu t \<and> current t' = current t \<and> kernel_sp t' = kernel_sp t" for q t t'
    by (auto simp: scheduler_add_def Let_def split: option.splits if_splits)
  show ?thesis using assms unfolding process_create_def
    by (auto simp: Let_def with_heap_def split: prod.splits if_split_asm dest!: add)
qed

lemma create_inv:
  assumes inv: "sched_inv kend s" and c: "process_create kend kas uninit name entry arg prio s = Some (p, s')"
  shows "sched_inv kend s'"
proof -
  obtain qs zs where ok: "sched_ok s qs zs" and hp: "sched_heap kend s" and r: "length (regs (cpu s)) = 15"
    using inv by (auto simp: sched_inv_def)
  have "\<exists>qs'. sched_ok s' qs' zs \<and> sched_heap kend s'"
    using create_ok [OF ok hp, of kas uninit name entry arg prio] c by auto
  then show ?thesis using steady_create [OF c] r by (auto simp: sched_inv_def)
qed

lemma step_inv:
  assumes "sched_step kend kas s s'" "sched_inv kend s"
  shows "sched_inv kend s'"
  using assms
proof (induction rule: sched_step.induct)
  case (Run c s m)
  then obtain qs zs where ok: "sched_ok s qs zs" by (auto simp: sched_inv_def)
  have "sched_ok (s\<lparr>cpu := c, vm := (vm s)\<lparr>vm_mem := m\<rparr>\<rparr>) qs zs" using ok by (subst sched_ok_frame) simp_all
  with Run show ?case by (auto simp: sched_inv_def sched_heap_def)
next
  case (Alloc n s)
  then obtain qs zs where ok: "sched_ok s qs zs" and hp: "sched_heap kend s" and r: "length (regs (cpu s)) = 15"
    by (auto simp: sched_inv_def)
  obtain p h where k: "kmalloc kend n (vm_heap (vm s)) = (p, h)" by (cases "kmalloc kend n (vm_heap (vm s))")
  have "heap_inv kend (vm_heap (vm s))" using hp by (simp add: sched_heap_def)
  note K = kmalloc_heap(1,2) [OF this Alloc(1) k]
  have "sched_ok (with_heap h s) qs zs" using ok by (subst sched_ok_frame) (simp_all add: with_heap_def)
  moreover have "sched_heap kend (with_heap h s)"
    unfolding sched_heap_def
  proof (intro conjI ballI)
    fix a assume "a \<in> dom (procs (with_heap h s))"
    then have "a \<in> dom (procs s)" by (simp add: with_heap_def)
    then have "unat a < vbrk kend (vm s)" using hp unfolding sched_heap_def by blast
    then show "unat a < vbrk kend (vm (with_heap h s))" using K(2) by (simp add: with_heap_def)
  qed (simp add: with_heap_def K(1))
  ultimately show ?case using r k by (auto simp: sched_inv_def with_heap_def)
next
  case (Create uninit name entry arg prio s p s')
  then show ?case using create_inv by blast
next
  case (Start s s')
  from Start(3) obtain qs zs where ok: "sched_ok s qs zs" by (auto simp: sched_inv_def)
  from start_ok [OF ok Start(1)] Start(2) have "sched_ok s' qs zs" "steady s s'" "dom (procs s') = dom (procs s)" by auto
  with sched_invI [OF Start(3)] show ?case by blast
next
  case (Yield s s')
  from Yield(2) obtain qs zs where ok: "sched_ok s qs zs" by (auto simp: sched_inv_def)
  from yield_total [OF ok] Yield(1) have "sched_ok s' qs zs" "dom (procs s') = dom (procs s)" by auto
  with sched_invI [OF Yield(2) _ steady_yield [OF Yield(1) sched_okD(4) [OF ok]]] show ?case by blast
next
  case (Exit s s')
  from Exit(2) obtain qs zs where ok: "sched_ok s qs zs" by (auto simp: sched_inv_def)
  from exit_current_ok [OF ok] Exit(1) obtain code where "process_exit_current_status code s = Some s'" by auto
  with exit_status_inv [OF Exit(2)] show ?case .
next
  case (Exit_status code s s')
  then show ?case using exit_status_inv by blast
next
  case (Kill k s rc s')
  from Kill(2) obtain qs zs where ok: "sched_ok s qs zs" by (auto simp: sched_inv_def)
  from Kill(1) have k: "scheduler_kill k s = Some (rc, s')" by (simp add: process_kill_def)
  from kill_ok [OF ok, of k] k obtain qs' zs' where "sched_ok s' qs' zs'" "dom (procs s') = dom (procs s)" by auto
  with sched_invI [OF Kill(2) _ steady_kill [OF k ok]] show ?case by blast
next
  case (Tick s)
  then obtain qs zs where ok: "sched_ok s qs zs" by (auto simp: sched_inv_def)
  have "sched_ok (scheduler_tick s) qs zs"
    using ok by (subst sched_ok_frame) (simp_all add: scheduler_tick_def Let_def)
  moreover have "steady s (scheduler_tick s)" "dom (procs (scheduler_tick s)) = dom (procs s)"
    by (simp_all add: steady_def scheduler_tick_def Let_def)
  ultimately show ?case using sched_invI [OF Tick] by blast
qed

lemma reach_inv: "sched_reach kend kas s \<Longrightarrow> sched_inv kend s"
proof (induction rule: sched_reach.induct)
  case (Init s)
  have "sched_ok (scheduler_init s) [] []"
    using Init(1) by (simp add: sched_ok_def queues_def states_ok_def scheduler_init_def pnexts_def)
  moreover have "sched_heap kend (scheduler_init s)" using Init by (simp add: sched_heap_def scheduler_init_def)
  ultimately show ?case using Init(3) by (auto simp: sched_inv_def scheduler_init_def)
next
  case (Step s s')
  then show ?case using step_inv by blast
qed

text \<open>
  C18: in every reachable state the run queue and the zombie list are disjoint NULL-terminated chains
  of live structs, exactly the queued processes are runnable and only the current one is marked
  running, and no scheduler operation follows a dangling pointer or loops for ever.
\<close>

theorem scheduler_invariant:
  assumes "sched_reach kend kas s"
  shows "(\<exists>qs zs. chain (pnexts (procs s)) (runqueue_head s) qs \<and> chain (pnexts (procs s)) (zombie_head s) zs \<and>
      distinct (qs @ zs) \<and>
      (\<forall>p n. procs s p = Some n \<longrightarrow>
         pstate n = (if p \<in> set qs then (if p = current s then PROC_RUNNING else PROC_READY) else PROC_TERMINATED)) \<and>
      (current s = 0 \<or> current s \<in> set (qs @ zs))) \<and>
    scheduler_yield s \<noteq> None \<and> scheduler_find_by_pid k s \<noteq> None \<and> process_kill k s \<noteq> None \<and>
    process_exit_current s \<noteq> None \<and> process_exit_current_status code s \<noteq> None \<and>
    process_create kend kas uninit name entry arg prio s \<noteq> None \<and> (current s = 0 \<longrightarrow> scheduler_start s \<noteq> None)"
proof -
  from reach_inv [OF assms] obtain qs zs where ok: "sched_ok s qs zs" and hp: "sched_heap kend s"
    by (auto simp: sched_inv_def)
  note D = sched_okD [OF ok]
  obtain s1 code' where e: "process_exit_current s = Some s1" "process_exit_current_status code' s = Some s1"
    using exit_current_ok [OF ok] by blast
  have "scheduler_yield s \<noteq> None" using yield_total [OF ok] by auto
  moreover have "scheduler_find_by_pid k s \<noteq> None" using find_by_pid_ok [OF ok, of k] by auto
  moreover have "process_kill k s \<noteq> None" using kill_ok [OF ok, of k] by (auto simp: process_kill_def)
  moreover have "process_exit_current_status code s \<noteq> None"
    using exit_ok [OF ok, of code] by (cases "current s = 0") (auto simp: process_exit_current_status_def)
  moreover have "process_create kend kas uninit name entry arg prio s \<noteq> None"
    using create_ok [OF ok hp, of kas uninit name entry arg prio] by auto
  moreover have "current s = 0 \<longrightarrow> scheduler_start s \<noteq> None" using start_ok [OF ok] by auto
  moreover have "distinct (qs @ zs)" using D by simp
  ultimately show ?thesis using D(1,2,9,10) e(1) by (intro conjI exI [where x = qs] exI [where x = zs]) auto
qed

subsection \<open>A concrete run\<close>

definition demo_blank :: sched where
  "demo_blank = scheduler_init \<lparr>procs = Map.empty, runqueue_head = 0, current = 0, kernel_sp = 0, tick_count = 0,
     need_resched = False, zombie_head = 0, next_pid = 1,
     cpu = \<lparr>regs = replicate 15 0, rip = 0x100000, rsp = 0x90000\<rparr>,
     vm = \<lparr>vm_mem = (\<lambda>_. 0), vm_heap = heap_static, current_as = 0, cpu_cr3 = 0\<rparr>\<rparr>"

definition demo_create :: "u64 \<Rightarrow> sched \<Rightarrow> u64 \<times> sched" where
  "demo_create entry s = (case process_create 0x200000 0 [] (Some ''A'') entry 7 1 s of None \<Rightarrow> (0, s) | Some r \<Rightarrow> r)"

definition demo_yield :: "sched \<Rightarrow> sched" where
  "demo_yield s = (case scheduler_yield s of None \<Rightarrow> s | Some s' \<Rightarrow> s')"

definition demo_one :: sched where "demo_one = snd (demo_create 0x400000 demo_blank)"
definition demo_two :: sched where "demo_two = snd (demo_create 0x500000 demo_one)"
definition demo_running :: sched where "demo_running = demo_yield demo_two"
definition demo_last :: sched where "demo_last = demo_yield demo_running"

lemma demo_blank_reach: "sched_reach 0x200000 0 demo_blank"
  unfolding demo_blank_def by (rule sched_reach.Init) (simp_all add: heap_inv_def heap_static_def kend_ok_def)

lemma demo_create_reach: "sched_reach 0x200000 0 s \<Longrightarrow> sched_reach 0x200000 0 (snd (demo_create entry s))"
  unfolding demo_create_def by (auto split: option.split intro: sched_reach.Step sched_step.Create)

lemma demo_yield_reach: "sched_reach 0x200000 0 s \<Longrightarrow> sched_reach 0x200000 0 (demo_yield s)"
  unfolding demo_yield_def by (auto split: option.split intro: sched_reach.Step sched_step.Yield)

lemma demo_reach:
  "sched_reach 0x200000 0 demo_one" "sched_reach 0x200000 0 demo_two" "sched_reach 0x200000 0 demo_running"
  "sched_reach 0x200000 0 demo_last"
  using demo_blank_reach demo_create_reach demo_yield_reach
  by (simp_all add: demo_one_def demo_two_def demo_running_def demo_last_def)

lemmas demo_eval = process_create_def SIZEOF_PROCESS_def kmalloc_def heap_ensure_init_def heap_static_def
  KERNEL_HEAP_SIZE_def align_up_size_def with_heap_def vmm_create_address_space_def SIZEOF_ADDRESS_SPACE_def
  vmm_alloc_table_def scheduler_add_def scheduler_init_def Let_def upd_proc_def store64_def

lemma demo_one_ptr: "fst (demo_create 0x400000 demo_blank) = 0x200000"
  unfolding demo_create_def demo_blank_def by (simp add: demo_eval)

lemma demo_one_heap:
  "vm_heap (vm demo_one) = \<lparr>heap_base = 0x200000, heap_ptr = 0x205988, heap_limit = 0xA00000\<rparr>"
  unfolding demo_one_def demo_create_def demo_blank_def by (simp add: demo_eval)

lemma demo_create_ok:
  assumes "sched_ok s qs zs" "sched_heap 0x200000 s" "entry \<noteq> 0" "fst (demo_create entry s) = p" "p \<noteq> 0"
  shows "sched_ok (snd (demo_create entry s)) (qs @ [p]) zs" "current (snd (demo_create entry s)) = current s"
  using create_ok [OF assms(1,2), of 0 "[]" "Some ''A''" entry 7 1] assms(3-5)
  by (auto simp: demo_create_def)

lemma demo_blank_ok: "sched_ok demo_blank [] []" "sched_heap 0x200000 demo_blank" "current demo_blank = 0"
  by (simp_all add: demo_blank_def sched_ok_def queues_def states_ok_def scheduler_init_def pnexts_def sched_heap_def
      heap_inv_def heap_static_def kend_ok_def)

lemma demo_one_ok: "sched_ok demo_one [0x200000] []" "sched_heap 0x200000 demo_one" "current demo_one = 0"
  using demo_create_ok [OF demo_blank_ok(1,2) _ demo_one_ptr] demo_blank_ok(3) reach_inv [OF demo_reach(1)]
  by (simp_all add: demo_one_def [symmetric] sched_inv_def)

lemma create_pointer:
  assumes "process_create kend kas uninit name entry arg prio s = Some (q, s')" "entry \<noteq> 0"
    and "kmalloc kend SIZEOF_PROCESS (vm_heap (vm s)) = (p, h1)" "p \<noteq> 0"
    and "kmalloc kend (16 * 1024) h1 = (st, h2)" "st \<noteq> 0"
  shows "q = p"
  using assms by (auto simp: process_create_def with_heap_def Let_def split: prod.splits)

lemma demo_two_ptr: "fst (demo_create 0x500000 demo_one) = 0x205988"
proof -
  obtain q s' where c: "process_create 0x200000 0 [] (Some ''A'') 0x500000 7 1 demo_one = Some (q, s')"
    using create_ok [OF demo_one_ok(1,2), of 0 "[]" "Some ''A''" "0x500000" 7 1] by blast
  have "q = 0x205988"
    by (rule create_pointer [OF c, where st = "0x206300"
          and ?h1.0 = "\<lparr>heap_base = 0x200000, heap_ptr = 0x206300, heap_limit = 0xA00000\<rparr>"
          and ?h2.0 = "\<lparr>heap_base = 0x200000, heap_ptr = 0x20A300, heap_limit = 0xA00000\<rparr>"])
      (simp_all add: Let_def kmalloc_def heap_ensure_init_def demo_one_heap SIZEOF_PROCESS_def align_up_size_def)
  with c show ?thesis by (simp add: demo_create_def)
qed

lemma demo_two_ok: "sched_ok demo_two [0x200000, 0x205988] []" "current demo_two = 0"
  using demo_create_ok [OF demo_one_ok(1,2) _ demo_two_ptr] demo_one_ok(3)
  by (simp_all add: demo_two_def [symmetric])

lemma demo_yield_ok:
  assumes "sched_ok s qs zs" "spec_pick (current s) qs = nx" "nx \<noteq> 0" "nx \<noteq> current s"
  shows "sched_ok (demo_yield s) qs zs" "current (demo_yield s) = nx"
  using yield_ok [OF assms(1)] assms(2-4) by (auto simp: demo_yield_def)

lemma demo_running_ok: "sched_ok demo_running [0x200000, 0x205988] []" "current demo_running = 0x200000"
  using demo_yield_ok [OF demo_two_ok(1)] demo_two_ok(2) by (simp_all add: demo_running_def spec_pick_def)

lemma demo_last_ok: "sched_ok demo_last [0x200000, 0x205988] []" "current demo_last = 0x205988"
  using demo_yield_ok [OF demo_running_ok(1)] demo_running_ok(2) by (simp_all add: demo_last_def spec_pick_def)

lemma scheduler_invariant_witness:
  "(\<exists>qs zs. chain (pnexts (procs demo_running)) (runqueue_head demo_running) qs \<and>
      chain (pnexts (procs demo_running)) (zombie_head demo_running) zs \<and> distinct (qs @ zs) \<and>
      (\<forall>p n. procs demo_running p = Some n \<longrightarrow> pstate n =
         (if p \<in> set qs then (if p = current demo_running then PROC_RUNNING else PROC_READY) else PROC_TERMINATED)) \<and>
      (current demo_running = 0 \<or> current demo_running \<in> set (qs @ zs))) \<and> scheduler_yield demo_running \<noteq> None"
  using scheduler_invariant [OF demo_reach(3)] by blast

lemma queued_state:
  assumes "sched_ok s qs zs" "p \<in> set qs"
  shows "state_of (procs s) p = Some (if p = current s then PROC_RUNNING else PROC_READY)"
proof -
  obtain n where n: "procs s p = Some n" using sched_okD(7) [OF assms] by auto
  with sched_okD(9) [OF assms(1) n] assms(2) show ?thesis by (simp add: state_of_def)
qed

lemma yield_keeps:
  assumes "scheduler_yield s = Some s'" "\<And>n st. f (n\<lparr>pstate := st\<rparr>) = f n" "\<And>n p. f (n\<lparr>stack_ptr := p\<rparr>) = f n"
  shows "map_option f (procs s' p) = map_option f (procs s p)"
proof -
  have u: "map_option f (procs (upd_proc q g t) a) = map_option f (procs t a)" if "\<And>n. f (g n) = f n" for q g t a
    using that by (simp add: procs_upd_proc option.map_comp o_def)
  note upds = u [of "\<lambda>n. n\<lparr>pstate := PROC_READY\<rparr>", OF assms(2)] u [of "\<lambda>n. n\<lparr>pstate := PROC_RUNNING\<rparr>", OF assms(2)]
    u [OF assms(3)]
  show ?thesis using assms(1) unfolding scheduler_yield_def
    by (auto simp: Let_def switch_from_kernel_sel switch_from_process_sel upds split: option.splits if_split_asm)
qed

text \<open>
  C19: a yield picks the successor of the current process in the queue, or the head when the current
  one is not queued (or nothing runs yet); it keeps the queue, marks the picked process running and
  every other queued one ready, saves the context of the caller and loads the address space and the
  context of the picked process. If there is no successor nothing happens.
\<close>

theorem yield_round_robin:
  assumes "sched_reach kend kas s"
  shows "\<exists>qs. chain (pnexts (procs s)) (runqueue_head s) qs \<and>
    (let nx = spec_pick (current s) qs in
     if nx = 0 \<or> nx = current s then scheduler_yield s = Some s
     else \<exists>s' n. scheduler_yield s = Some s' \<and> procs s nx = Some n \<and> current s' = nx \<and>
       chain (pnexts (procs s')) (runqueue_head s') qs \<and>
       (\<forall>p \<in> set qs. state_of (procs s') p = Some (if p = nx then PROC_RUNNING else PROC_READY)) \<and>
       resumed s nx n s')"
proof -
  from reach_inv [OF assms] obtain qs zs where ok: "sched_ok s qs zs" by (auto simp: sched_inv_def)
  let ?nx = "spec_pick (current s) qs"
  show ?thesis
  proof (intro exI conjI)
    show "chain (pnexts (procs s)) (runqueue_head s) qs" by (rule sched_okD(1) [OF ok])
    show "let nx = ?nx in if nx = 0 \<or> nx = current s then scheduler_yield s = Some s
      else \<exists>s' n. scheduler_yield s = Some s' \<and> procs s nx = Some n \<and> current s' = nx \<and>
       chain (pnexts (procs s')) (runqueue_head s') qs \<and>
       (\<forall>p \<in> set qs. state_of (procs s') p = Some (if p = nx then PROC_RUNNING else PROC_READY)) \<and>
       resumed s nx n s'"
    proof (cases "?nx = 0 \<or> ?nx = current s")
      case True
      then show ?thesis using yield_ok [OF ok] unfolding Let_def by meson
    next
      case False
      then obtain s' n where s': "scheduler_yield s = Some s'" "procs s ?nx = Some n" "sched_ok s' qs zs" "current s' = ?nx"
        "resumed s ?nx n s'" using yield_ok [OF ok] by blast
      have "\<forall>p \<in> set qs. state_of (procs s') p = Some (if p = ?nx then PROC_RUNNING else PROC_READY)"
        using queued_state [OF s'(3)] s'(4) by simp
      with s' sched_okD(1) [OF s'(3)] False show ?thesis unfolding Let_def by (subst if_not_P) blast+
    qed
  qed
qed

lemma yield_round_robin_witness:
  "\<exists>qs. chain (pnexts (procs demo_running)) (runqueue_head demo_running) qs \<and>
    (let nx = spec_pick (current demo_running) qs in
     if nx = 0 \<or> nx = current demo_running then scheduler_yield demo_running = Some demo_running
     else \<exists>s' n. scheduler_yield demo_running = Some s' \<and> procs demo_running nx = Some n \<and> current s' = nx \<and>
       chain (pnexts (procs s')) (runqueue_head s') qs \<and>
       (\<forall>p \<in> set qs. state_of (procs s') p = Some (if p = nx then PROC_RUNNING else PROC_READY)) \<and>
       resumed demo_running nx n s')"
  by (rule yield_round_robin [OF demo_reach(3)])

text \<open>
  The search never wraps round: when the process at the end of the queue yields, nothing
  happens, although every other queued process is ready; no number of yields and ticks runs them.
\<close>

theorem yield_never_wraps:
  assumes "sched_reach kend kas s" "chain (pnexts (procs s)) (runqueue_head s) (ps @ [current s])"
  shows "scheduler_yield (((scheduler_tick) ^^ k) s) = Some ((scheduler_tick ^^ k) s) \<and>
    (\<forall>p \<in> set ps. state_of (procs s) p = Some PROC_READY)"
proof -
  from reach_inv [OF assms(1)] obtain qs zs where ok: "sched_ok s qs zs" by (auto simp: sched_inv_def)
  have qs: "qs = ps @ [current s]" by (rule chain_unique [OF sched_okD(1) [OF ok] assms(2)])
  then have nt: "current s \<notin> set ps" using sched_okD(5) [OF ok] by simp
  have "procs ((scheduler_tick ^^ k) s) = procs s \<and> runqueue_head ((scheduler_tick ^^ k) s) = runqueue_head s \<and>
      zombie_head ((scheduler_tick ^^ k) s) = zombie_head s \<and> current ((scheduler_tick ^^ k) s) = current s"
    by (induction k) (simp_all add: scheduler_tick_def Let_def)
  then have k: "sched_ok ((scheduler_tick ^^ k) s) qs zs" "current ((scheduler_tick ^^ k) s) = current s"
    using ok sched_ok_frame by metis+
  have "spec_pick (current s) qs = current s" unfolding qs by (simp add: spec_pick_split [OF nt, of "[]", simplified])
  then have "scheduler_yield ((scheduler_tick ^^ k) s) = Some ((scheduler_tick ^^ k) s)"
    using yield_ok [OF k(1)] k(2) by simp
  moreover have "state_of (procs s) p = Some PROC_READY" if p: "p \<in> set ps" for p
    using queued_state [OF ok, of p] p nt by (auto simp: qs)
  ultimately show ?thesis by blast
qed

lemma yield_never_wraps_witness:
  "scheduler_yield ((scheduler_tick ^^ 100) demo_last) = Some ((scheduler_tick ^^ 100) demo_last) \<and>
   state_of (procs demo_last) 0x200000 = Some PROC_READY"
proof -
  have "scheduler_yield ((scheduler_tick ^^ 100) demo_last) = Some ((scheduler_tick ^^ 100) demo_last) \<and>
     (\<forall>p \<in> set [0x200000]. state_of (procs demo_last) p = Some PROC_READY)"
    by (rule yield_never_wraps [OF demo_reach(4)]) (use sched_okD(1) [OF demo_last_ok(1)] demo_last_ok(2) in simp)
  then show ?thesis by simp
qed



lemma exit_zombie:
  assumes ok: "sched_ok s qs zs" and cur: "current s \<in> set qs"
  shows "\<exists>s' n. process_exit_current_status code s = Some s' \<and>
    chain (pnexts (procs s')) (runqueue_head s') (remove1 (current s) qs) \<and> current s \<notin> set (remove1 (current s) qs) \<and>
    procs s' (current s) = Some n \<and> pstate n = PROC_TERMINATED \<and> exit_code n = code \<and>
    (case remove1 (current s) qs of
       [] \<Rightarrow> current s' = current s \<and> cpu s' = cpu s
     | q # rest \<Rightarrow> current s' = q \<and> state_of (procs s') q = Some PROC_RUNNING)"
proof -
  note D = sched_okD [OF ok]
  let ?c = "current s" and ?rs = "remove1 (current s) qs" and ?f = "\<lambda>n. n\<lparr>exit_code := code, pstate := PROC_TERMINATED\<rparr>"
  have c: "?c \<noteq> 0" "?c \<in> dom (procs s)" using D(7) cur by auto
  then obtain n where n: "procs s ?c = Some n" by blast
  obtain s1 m where s1: "scheduler_remove_current (upd_proc ?c ?f s) = Some s1" "sched_ok s1 ?rs (?c # zs)"
    "current s1 = ?c" "cpu s1 = cpu s" and m: "procs s1 ?c = Some m" "exit_code m = code" "pstate m = PROC_TERMINATED"
    using terminate_current_ok [OF ok c(1), of ?f] n cur by auto
  have nr: "?c \<notin> set ?rs" using D(5) by (simp add: set_remove1_eq)
  have run: "process_exit_current_status code s = scheduler_yield s1"
    using s1(1) c(1) by (simp add: process_exit_current_status_def)
  have pick: "spec_pick (current s1) ?rs = (case ?rs of [] \<Rightarrow> 0 | q # rest \<Rightarrow> q)"
    using nr unfolding s1(3) by (simp add: spec_pick_def)
  show ?thesis
  proof (cases ?rs)
    case Nil
    then have "scheduler_yield s1 = Some s1" using yield_ok [OF s1(2)] pick by simp
    with run m s1 sched_okD(1) [OF s1(2)] Nil show ?thesis by auto
  next
    case (Cons q rest)
    then have q: "spec_pick (current s1) ?rs = q" "q \<noteq> 0" "q \<noteq> current s1"
      using pick sched_okD(7) [OF s1(2), of q] nr s1(3) by auto
    then obtain s' where s': "scheduler_yield s1 = Some s'" "sched_ok s' ?rs (?c # zs)" "current s' = q"
      using yield_ok [OF s1(2)] by auto
    have "map_option exit_code (procs s' ?c) = Some code" using yield_keeps [OF s'(1), of exit_code ?c] m by simp
    then obtain k where k: "procs s' ?c = Some k" "exit_code k = code" by auto
    have "pstate k = PROC_TERMINATED" using sched_okD(9) [OF s'(2) k(1)] nr by simp
    moreover have "state_of (procs s') q = Some PROC_RUNNING" using queued_state [OF s'(2), of q] Cons s'(3) by simp
    ultimately show ?thesis using run s' k nr sched_okD(1) [OF s'(2)] Cons
      by (intro exI [where x = s'] exI [where x = k]) simp
  qed
qed



text \<open>
  C21: a context saved by \<open>context_switch\<close> is resumed exactly: a later switch back to the saved stack
  pointer, from any context, restores all registers, the return address and the stack pointer, as
  long as the sixteen saved words were not overwritten.
\<close>

theorem context_switch_resumes:
  assumes "length (regs c) = 15" "length (regs d) = 15"
    and "context_switch sp c m = (old, c1, m1)"
    and "\<forall>i < 16. m2 (entry_at old i) = m1 (entry_at old i)"
    and "\<forall>i < 16. \<forall>j < 16. entry_at (rsp d - 128) i \<noteq> entry_at old j"
    and "context_switch old d m2 = (old2, c2, m3)"
  shows "c2 = c"
  by (rule context_switch_back [OF assms(1-3) _ _ assms(6)]) (use assms(4,5) in blast)+

lemma stacks_apart:
  assumes "unat a + 128 \<le> unat b" "unat b + 128 < 2 ^ 64"
  shows "\<forall>i < 16. \<forall>j < 16. entry_at a i \<noteq> entry_at b j"
proof (intro allI impI)
  fix i j :: nat assume i: "i < 16" "j < 16"
  have u: "unat (entry_at t k) = unat t + 8 * k" if "k < 16" "unat t + 128 < 2 ^ 64" for t k
    using that unfolding entry_at_def by (subst unat_plus_exact) (simp_all add: unat_word_ariths unat_of_nat)
  have "unat (entry_at a i) < unat (entry_at b j)" using i assms by (simp add: u)
  then show "entry_at a i \<noteq> entry_at b j" by auto
qed

definition demo_cpu :: cpu where
  "demo_cpu = \<lparr>regs = map of_nat [1..<16], rip = 0x400000, rsp = 0x9000\<rparr>"

lemma context_switch_resumes_witness:
  "fst (snd (context_switch (fst (context_switch 0x8000 demo_cpu (\<lambda>_. 0))) \<lparr>regs = replicate 15 0, rip = 0x500000, rsp = 0x8080\<rparr>
     (snd (snd (context_switch 0x8000 demo_cpu (\<lambda>_. 0)))))) = demo_cpu"
proof -
  let ?d = "\<lparr>regs = replicate 15 0, rip = 0x500000, rsp = 0x8080\<rparr>"
  obtain old c1 m1 where out: "context_switch 0x8000 demo_cpu (\<lambda>_. 0) = (old, c1, m1)" by (cases "context_switch 0x8000 demo_cpu (\<lambda>_. 0)")
  obtain old2 c2 m3 where ret: "context_switch old ?d m1 = (old2, c2, m3)" by (cases "context_switch old ?d m1")
  have l: "length (regs demo_cpu) = 15" "length (regs ?d) = 15" by (simp_all add: demo_cpu_def)
  have "old = 0x8F80" using context_switch_spec(1) [OF l(1) out] by (simp add: demo_cpu_def)
  then have "\<forall>i < 16. \<forall>j < 16. entry_at (rsp ?d - 128) i \<noteq> entry_at old j" using stacks_apart [of "0x8000" "0x8F80"] by simp
  with context_switch_resumes [OF l out _ _ ret] out ret show ?thesis by simp
qed


lemma demo_one_stack: "map_option stack_ptr (procs demo_one 0x200000) = Some 0x2048F0"
  unfolding demo_one_def demo_create_def demo_blank_def by (simp add: demo_eval)


end
