(* ===== verification/Elf.thy ===== *)
theory Elf
  imports Vfs Scheduler
begin

text \<open>
  The ELF64 loader (\<open>kernel/exec/elf.c\<close>, \<open>kernel/exec/elf.h\<close>, \<open>kernel/exec/loader.c\<close>) and
  \<open>process_exec\<close> of \<open>kernel/process/process.c\<close>. The file is the list of its bytes; the loaded
  image is the list of the bytes of the heap block it is copied to. Reading outside the file or
  writing outside the block is \<open>None\<close>; the error codes are the left summand.
\<close>

subsection \<open>Headers\<close>

definition u16_at :: "u8 list \<Rightarrow> nat \<Rightarrow> u16" where
  "u16_at d i = le16_of (d ! i) (d ! (i + 1))"

definition u32_at :: "u8 list \<Rightarrow> nat \<Rightarrow> u32" where
  "u32_at d i = le32_of (d ! i) (d ! (i + 1)) (d ! (i + 2)) (d ! (i + 3))"

definition u64_at :: "u8 list \<Rightarrow> nat \<Rightarrow> u64" where
  "u64_at d i = le64_of (d ! i) (d ! (i + 1)) (d ! (i + 2)) (d ! (i + 3))
     (d ! (i + 4)) (d ! (i + 5)) (d ! (i + 6)) (d ! (i + 7))"

definition EI_NIDENT :: nat where "EI_NIDENT = 16"
definition ELFMAG0 :: u8 where "ELFMAG0 = 0x7F"
definition ELFMAG1 :: u8 where "ELFMAG1 = 0x45"
definition ELFMAG2 :: u8 where "ELFMAG2 = 0x4C"
definition ELFMAG3 :: u8 where "ELFMAG3 = 0x46"
definition EI_CLASS :: nat where "EI_CLASS = 4"
definition ELFCLASS64 :: u8 where "ELFCLASS64 = 2"
definition ET_EXEC :: u16 where "ET_EXEC = 2"
definition ET_DYN :: u16 where "ET_DYN = 3"
definition EM_X86_64 :: u16 where "EM_X86_64 = 62"
definition PT_LOAD :: u32 where "PT_LOAD = 1"

record elf64_ehdr =
  e_ident :: "u8 list"
  e_type :: u16
  e_machine :: u16
  e_version :: u32
  e_entry :: u64
  e_phoff :: u64
  e_shoff :: u64
  e_flags :: u32
  e_ehsize :: u16
  e_phentsize :: u16
  e_phnum :: u16
  e_shentsize :: u16
  e_shnum :: u16
  e_shstrndx :: u16

record elf64_phdr =
  p_type :: u32
  p_flags :: u32
  p_offset :: u64
  p_vaddr :: u64
  p_paddr :: u64
  p_filesz :: u64
  p_memsz :: u64
  p_align :: u64

text \<open>The packed structs, read from their bytes.\<close>

definition ehdr_of :: "u8 list \<Rightarrow> elf64_ehdr" where
  "ehdr_of d = \<lparr>e_ident = List.take EI_NIDENT d, e_type = u16_at d 16, e_machine = u16_at d 18, e_version = u32_at d 20,
     e_entry = u64_at d 24, e_phoff = u64_at d 32, e_shoff = u64_at d 40, e_flags = u32_at d 48,
     e_ehsize = u16_at d 52, e_phentsize = u16_at d 54, e_phnum = u16_at d 56, e_shentsize = u16_at d 58,
     e_shnum = u16_at d 60, e_shstrndx = u16_at d 62\<rparr>"

definition phdr_of :: "u8 list \<Rightarrow> nat \<Rightarrow> elf64_phdr" where
  "phdr_of d i = \<lparr>p_type = u32_at d i, p_flags = u32_at d (i + 4), p_offset = u64_at d (i + 8), p_vaddr = u64_at d (i + 16),
     p_paddr = u64_at d (i + 24), p_filesz = u64_at d (i + 32), p_memsz = u64_at d (i + 40), p_align = u64_at d (i + 48)\<rparr>"

abbreviation (input) SIZEOF_EHDR :: nat where "SIZEOF_EHDR \<equiv> 64"
abbreviation (input) SIZEOF_PHDR :: nat where "SIZEOF_PHDR \<equiv> 56"

definition elf_validate :: "u8 list option \<Rightarrow> u64 \<Rightarrow> (int + elf64_ehdr) option" where
  "elf_validate data sz =
     (case data of None \<Rightarrow> Some (Inl (- 1))
      | Some b \<Rightarrow>
        if sz < of_nat SIZEOF_EHDR then Some (Inl (- 1))
        else if length b < SIZEOF_EHDR then None
        else if b ! 0 \<noteq> ELFMAG0 \<or> b ! 1 \<noteq> ELFMAG1 \<or> b ! 2 \<noteq> ELFMAG2 \<or> b ! 3 \<noteq> ELFMAG3 then Some (Inl (- 2))
        else let eh = ehdr_of b
        in if e_ident eh ! EI_CLASS \<noteq> ELFCLASS64 then Some (Inl (- 3))
        else if e_machine eh \<noteq> EM_X86_64 then Some (Inl (- 4))
        else if e_type eh \<noteq> ET_EXEC \<and> e_type eh \<noteq> ET_DYN then Some (Inl (- 5))
        else if e_phoff eh = 0 \<or> e_phnum eh = 0 then Some (Inl (- 6))
        else if e_phoff eh + ucast (e_phnum eh) * ucast (e_phentsize eh) > sz then Some (Inl (- 7))
        else Some (Inr eh))"

definition elf_read_phdr :: "u8 list option \<Rightarrow> u64 \<Rightarrow> elf64_ehdr \<Rightarrow> nat \<Rightarrow> (int + elf64_phdr) option" where
  "elf_read_phdr data sz eh idx =
     (case data of None \<Rightarrow> Some (Inl (- 1))
      | Some d \<Rightarrow>
        if unat (e_phnum eh) \<le> idx then Some (Inl (- 2))
        else let off = e_phoff eh + of_nat idx * ucast (e_phentsize eh)
        in if off + of_nat SIZEOF_PHDR > sz then Some (Inl (- 3))
        else if length d < unat off + SIZEOF_PHDR then None
        else Some (Inr (phdr_of d (unat off))))"

subsection \<open>The loader\<close>

definition loader_align_up :: "u64 \<Rightarrow> u64 \<Rightarrow> u64" where
  "loader_align_up v a = (v + a - 1) AND NOT (a - 1)"

text \<open>The first loop: the least and greatest virtual address of the \<open>PT_LOAD\<close> segments.\<close>

fun segment_bounds ::
  "u8 list \<Rightarrow> u64 \<Rightarrow> elf64_ehdr \<Rightarrow> nat list \<Rightarrow> u64 \<times> u64 \<Rightarrow> (int + u64 \<times> u64) option" where
  "segment_bounds d sz eh [] (lo, hi) = Some (Inr (lo, hi))"
| "segment_bounds d sz eh (i # is) (lo, hi) =
     (case elf_read_phdr (Some d) sz eh i of None \<Rightarrow> None
      | Some (Inl e) \<Rightarrow> Some (Inl (- 3))
      | Some (Inr ph) \<Rightarrow>
        if p_type ph \<noteq> PT_LOAD then segment_bounds d sz eh is (lo, hi)
        else let lo' = (if p_vaddr ph < lo then p_vaddr ph else lo);
                 seg_end = p_vaddr ph + p_memsz ph;
                 hi' = (if seg_end > hi then seg_end else hi)
             in segment_bounds d sz eh is (lo', hi'))"

text \<open>Copying \<open>n\<close> bytes from position \<open>src\<close> of the file to position \<open>dst\<close> of the image.\<close>

definition copy_bytes :: "u8 list \<Rightarrow> nat \<Rightarrow> nat \<Rightarrow> nat \<Rightarrow> u8 list \<Rightarrow> u8 list option" where
  "copy_bytes d src dst n img =
     (if n = 0 then Some img
      else if length img < dst + n \<or> length d < src + n then None
      else Some (List.take dst img @ List.take n (drop src d) @ drop (dst + n) img))"

fun copy_segments ::
  "u8 list \<Rightarrow> u64 \<Rightarrow> elf64_ehdr \<Rightarrow> u64 \<Rightarrow> nat list \<Rightarrow> u8 list \<Rightarrow> (int + u8 list) option" where
  "copy_segments d sz eh lo [] img = Some (Inr img)"
| "copy_segments d sz eh lo (i # is) img =
     (case elf_read_phdr (Some d) sz eh i of None \<Rightarrow> None
      | Some (Inl e) \<Rightarrow> Some (Inl (- 6))
      | Some (Inr ph) \<Rightarrow>
        if p_type ph \<noteq> PT_LOAD then copy_segments d sz eh lo is img
        else if p_offset ph + p_filesz ph > sz then Some (Inl (- 7))
        else case copy_bytes d (unat (p_offset ph)) (unat (p_vaddr ph - lo)) (unat (p_filesz ph)) img of
          None \<Rightarrow> None
        | Some img' \<Rightarrow> copy_segments d sz eh lo is img')"

record image =
  img_base :: u64
  img_bytes :: "u8 list"
  img_size :: u64
  img_entry :: u64

text \<open>
  The result is the heap, the log output and an error code or the image. A block that reaches the
  end of the address space (\<open>kmalloc\<close> wraps for such sizes) cannot be zeroed: \<open>None\<close>.
\<close>

definition elf_load_from_buffer ::
  "u64 \<Rightarrow> u8 list option \<Rightarrow> u64 \<Rightarrow> heap \<Rightarrow> (heap \<times> console_op list \<times> (int + image)) option" where
  "elf_load_from_buffer kend data sz h =
     (case data of None \<Rightarrow> Some (h, [], Inl (- 1))
      | Some d \<Rightarrow>
        if sz = 0 then Some (h, [], Inl (- 1))
        else case elf_validate data sz of None \<Rightarrow> None
        | Some (Inl e) \<Rightarrow> Some (h, log_error ''ELF: validation failed'', Inl (- 2))
        | Some (Inr eh) \<Rightarrow>
          let segs = [0..<unat (e_phnum eh)]
          in case segment_bounds d sz eh segs (- 1, 0) of None \<Rightarrow> None
          | Some (Inl e) \<Rightarrow> Some (h, [], Inl e)
          | Some (Inr (lo, hi)) \<Rightarrow>
            if lo = - 1 \<or> hi = 0 then Some (h, log_error ''ELF: no loadable segments'', Inl (- 4))
            else let total = loader_align_up (hi - lo) 0x1000;
                     (mem, h1) = kmalloc kend total h
            in if mem = 0 then Some (h1, [], Inl (- 5))
            else if 2 ^ 64 \<le> unat mem + unat total then None
            else case copy_segments d sz eh lo segs (replicate (unat total) 0) of None \<Rightarrow> None
              | Some (Inl e) \<Rightarrow> Some (h1, [], Inl e)
              | Some (Inr bytes) \<Rightarrow>
                Some (h1, [], Inr \<lparr>img_base = mem, img_bytes = bytes, img_size = total,
                                   img_entry = mem + (e_entry eh - lo)\<rparr>))"

definition elf_load_from_path ::
  "u64 \<Rightarrow> string option \<Rightarrow> vfs \<Rightarrow> (vfs \<times> console_op list \<times> (int + image)) option" where
  "elf_load_from_path kend path v =
     (case path of None \<Rightarrow> Some (v, [], Inl (- 1))
      | Some p \<Rightarrow>
        case vfs_read_file kend path (vfs_get_root v) v of None \<Rightarrow> None
        | Some ((None, len), v1) \<Rightarrow> Some (v1, [], Inl (- 2))
        | Some ((Some d, len), v1) \<Rightarrow>
          map_option (\<lambda>(h, out, r). (v1\<lparr>vheap := h\<rparr>, out, r))
            (elf_load_from_buffer kend (Some d) (case len of None \<Rightarrow> 0 | Some l \<Rightarrow> l) (vheap v1)))"

subsection \<open>\<open>process_exec\<close>\<close>

text \<open>The last component of a path: what follows its last slash.\<close>

definition path_basename :: "string \<Rightarrow> string" where
  "path_basename p = rev (takeWhile (\<lambda>c. c \<noteq> CHR ''/'') (rev p))"

text \<open>The scheduler and the file system share the kernel heap: it is passed along.\<close>

definition process_exec ::
  "u64 \<Rightarrow> u64 \<Rightarrow> string \<Rightarrow> string option \<Rightarrow> string option \<Rightarrow> int \<Rightarrow> sched \<times> vfs \<Rightarrow>
   (u64 \<times> console_op list \<times> sched \<times> vfs) option" where
  "process_exec kend kas uninit path name prio sv =
     (case path of None \<Rightarrow> Some (0, [], sv)
      | Some pa \<Rightarrow>
        let (s, v) = sv
        in case elf_load_from_path kend path (v\<lparr>vheap := vm_heap (vm s)\<rparr>) of None \<Rightarrow> None
        | Some (v1, out, r) \<Rightarrow>
          let s1 = with_heap (vheap v1) s
          in case r of Inl e \<Rightarrow> Some (0, out, s1, v1)
          | Inr img \<Rightarrow>
            let nm = List.take (PROC_NAME_LEN - 1)
                       (case name of Some n \<Rightarrow> if c_str n \<noteq> [] then c_str n else path_basename (c_str pa)
                        | None \<Rightarrow> path_basename (c_str pa))
            in case process_create kend kas uninit (Some nm) (img_entry img) 0 prio s1 of None \<Rightarrow> None
            | Some (p, s2) \<Rightarrow>
              if p = 0 then Some (0, out, s2, v1\<lparr>vheap := vm_heap (vm s2)\<rparr>)
              else let s3 = upd_proc p (\<lambda>n. n\<lparr>image_base := img_base img, image_size := img_size img, exit_code := 0\<rparr>) s2
                   in Some (p, out, s3, v1\<lparr>vheap := vm_heap (vm s3)\<rparr>))"

subsection \<open>Well-formed files\<close>

definition phdr_pos :: "elf64_ehdr \<Rightarrow> nat \<Rightarrow> nat" where
  "phdr_pos eh i = unat (e_phoff eh) + i * unat (e_phentsize eh)"

definition loads :: "u8 list \<Rightarrow> elf64_ehdr \<Rightarrow> nat list \<Rightarrow> elf64_phdr list" where
  "loads d eh is = filter (\<lambda>p. p_type p = PT_LOAD) (map (\<lambda>i. phdr_of d (phdr_pos eh i)) is)"

definition seg_end :: "elf64_phdr \<Rightarrow> nat" where
  "seg_end p = unat (p_vaddr p) + unat (p_memsz p)"

text \<open>What a loader may rely on: the headers lie in the file, and every segment fits its memory and the file.\<close>

definition seg_ok :: "u8 list \<Rightarrow> elf64_phdr \<Rightarrow> bool" where
  "seg_ok d p \<longleftrightarrow> seg_end p < 2 ^ 64 \<and> p_filesz p \<le> p_memsz p \<and>
     unat (p_offset p) + unat (p_filesz p) \<le> length d"

definition elf_ok :: "u8 list \<Rightarrow> bool" where
  "elf_ok d \<longleftrightarrow> (let eh = ehdr_of d in
     SIZEOF_EHDR \<le> length d \<and> length d < 2 ^ 63 \<and>
     List.take 4 d = [ELFMAG0, ELFMAG1, ELFMAG2, ELFMAG3] \<and> d ! EI_CLASS = ELFCLASS64 \<and>
     e_machine eh = EM_X86_64 \<and> e_type eh \<in> {ET_EXEC, ET_DYN} \<and>
     e_phoff eh \<noteq> 0 \<and> e_phnum eh \<noteq> 0 \<and> SIZEOF_PHDR \<le> unat (e_phentsize eh) \<and>
     phdr_pos eh (unat (e_phnum eh)) \<le> length d \<and>
     (\<forall>p \<in> set (loads d eh [0..<unat (e_phnum eh)]). seg_ok d p))"

text \<open>Byte \<open>k\<close> of the image: from the last segment whose file part covers it, else as before.\<close>

fun seg_byte :: "u8 list \<Rightarrow> u64 \<Rightarrow> elf64_phdr list \<Rightarrow> nat \<Rightarrow> u8 \<Rightarrow> u8" where
  "seg_byte d lo [] k b = b"
| "seg_byte d lo (p # ps) k b = seg_byte d lo ps k
     (let j = k + unat lo in
      if unat (p_vaddr p) \<le> j \<and> j < unat (p_vaddr p) + unat (p_filesz p)
      then d ! (unat (p_offset p) + (j - unat (p_vaddr p))) else b)"

lemma unat_ucast_16: "unat (ucast (w :: u16) :: u64) = unat w"
  by (simp add: unsigned_ucast_eq take_bit_eq_mod less_trans [OF unat_lt_16])

lemma validate_ok:
  assumes "elf_ok d"
  shows "elf_validate (Some d) (of_nat (length d)) = Some (Inr (ehdr_of d))"
proof -
  let ?eh = "ehdr_of d" and ?n = "length d"
  have len: "64 \<le> ?n" "?n < 2 ^ 63" and mag: "List.take 4 d = [ELFMAG0, ELFMAG1, ELFMAG2, ELFMAG3]"
    and pos: "phdr_pos ?eh (unat (e_phnum ?eh)) \<le> ?n"
    using assms by (simp_all add: elf_ok_def Let_def)
  have b: "d ! i = [ELFMAG0, ELFMAG1, ELFMAG2, ELFMAG3] ! i" if "i < 4" for i
    using that mag nth_take [of i 4 d] by simp
  have mags: "d ! 0 = ELFMAG0" "d ! 1 = ELFMAG1" "d ! 2 = ELFMAG2" "d ! 3 = ELFMAG3"
    using b [of 0] b [of 1] b [of 2] b [of 3] by simp_all
  have cls: "e_ident ?eh ! EI_CLASS = ELFCLASS64"
    using assms by (simp add: elf_ok_def Let_def ehdr_of_def EI_CLASS_def EI_NIDENT_def)
  have un: "unat (of_nat ?n :: u64) = ?n" using len by (intro unat_of_nat_small) simp
  have p1: "unat (ucast (e_phnum ?eh) * ucast (e_phentsize ?eh) :: u64) = unat (e_phnum ?eh) * unat (e_phentsize ?eh)"
    using pos len by (subst unat_mult_exact) (simp_all add: phdr_pos_def unat_ucast_16)
  then have "unat (e_phoff ?eh + ucast (e_phnum ?eh) * ucast (e_phentsize ?eh)) = phdr_pos ?eh (unat (e_phnum ?eh))"
    using pos len by (subst unat_plus_exact) (simp_all add: phdr_pos_def)
  then have "\<not> e_phoff ?eh + ucast (e_phnum ?eh) * ucast (e_phentsize ?eh) > of_nat ?n"
    using pos un by (simp add: word_less_nat_alt)
  moreover have "\<not> of_nat ?n < (of_nat 64 :: u64)" using un len by (simp add: word_less_nat_alt)
  ultimately show ?thesis using assms mags cls len
    unfolding elf_validate_def by (simp add: elf_ok_def Let_def)
qed

lemma read_phdr_ok:
  assumes "elf_ok d" "i < unat (e_phnum (ehdr_of d))"
  shows "elf_read_phdr (Some d) (of_nat (length d)) (ehdr_of d) i = Some (Inr (phdr_of d (phdr_pos (ehdr_of d) i)))"
proof -
  let ?eh = "ehdr_of d" and ?n = "length d"
  have len: "?n < 2 ^ 63" and pos: "phdr_pos ?eh (unat (e_phnum ?eh)) \<le> ?n" and ent: "56 \<le> unat (e_phentsize ?eh)"
    using assms by (simp_all add: elf_ok_def Let_def)
  have "Suc i * unat (e_phentsize ?eh) \<le> unat (e_phnum ?eh) * unat (e_phentsize ?eh)"
    using assms(2) by (intro mult_le_mono1) simp
  then have p: "phdr_pos ?eh i + 56 \<le> ?n" using pos ent by (simp add: phdr_pos_def)
  have un: "unat (of_nat ?n :: u64) = ?n" using len by (intro unat_of_nat_small) simp
  have i: "unat (of_nat i :: u64) = i" by (intro unat_of_nat_small) (use less_trans [OF assms(2) unat_lt_16] in simp)
  have "unat (of_nat i * ucast (e_phentsize ?eh) :: u64) = i * unat (e_phentsize ?eh)"
    using p len i by (subst unat_mult_exact) (simp_all add: phdr_pos_def unat_ucast_16)
  then have off: "unat (e_phoff ?eh + of_nat i * ucast (e_phentsize ?eh)) = phdr_pos ?eh i"
    using p len by (subst unat_plus_exact) (simp_all add: phdr_pos_def)
  then have "unat (e_phoff ?eh + of_nat i * ucast (e_phentsize ?eh) + of_nat 56) = phdr_pos ?eh i + 56"
    using p len by (subst unat_plus_exact) simp_all
  then have "\<not> e_phoff ?eh + of_nat i * ucast (e_phentsize ?eh) + of_nat 56 > of_nat ?n"
    using p un by (simp add: word_less_nat_alt)
  with p off assms(2) show ?thesis unfolding elf_read_phdr_def by (simp add: Let_def)
qed

subsection \<open>Loading a well-formed file\<close>

lemma bounds_ok:
  assumes ok: "elf_ok d" and ix: "\<And>i. i \<in> set is \<Longrightarrow> i < unat (e_phnum (ehdr_of d))"
  shows "\<exists>l h. segment_bounds d (of_nat (length d)) (ehdr_of d) is (l0, h0) = Some (Inr (l, h)) \<and>
    l \<le> l0 \<and> h0 \<le> h \<and> (\<forall>p \<in> set (loads d (ehdr_of d) is). l \<le> p_vaddr p \<and> p_vaddr p + p_memsz p \<le> h) \<and>
    (l = l0 \<or> (\<exists>p \<in> set (loads d (ehdr_of d) is). l = p_vaddr p)) \<and>
    (h = h0 \<or> (\<exists>p \<in> set (loads d (ehdr_of d) is). h = p_vaddr p + p_memsz p))"
  using ix
proof (induction "is" arbitrary: l0 h0)
  case Nil
  then show ?case by (simp add: loads_def)
next
  case (Cons i rest)
  let ?eh = "ehdr_of d" and ?p = "phdr_of d (phdr_pos (ehdr_of d) i)"
  have r: "elf_read_phdr (Some d) (of_nat (length d)) ?eh i = Some (Inr ?p)"
    by (rule read_phdr_ok [OF ok]) (simp add: Cons.prems)
  have IH: "\<And>i. i \<in> set rest \<Longrightarrow> i < unat (e_phnum ?eh)" by (simp add: Cons.prems)
  show ?case
  proof (cases "p_type ?p = PT_LOAD")
    case False
    then show ?thesis using Cons.IH [OF IH, of l0 h0] by (simp add: r loads_def)
  next
    case True
    let ?l = "if p_vaddr ?p < l0 then p_vaddr ?p else l0"
    let ?h = "if p_vaddr ?p + p_memsz ?p > h0 then p_vaddr ?p + p_memsz ?p else h0"
    obtain l h where lh: "segment_bounds d (of_nat (length d)) ?eh rest (?l, ?h) = Some (Inr (l, h))"
      "l \<le> ?l" "?h \<le> h" "\<forall>p \<in> set (loads d ?eh rest). l \<le> p_vaddr p \<and> p_vaddr p + p_memsz p \<le> h"
      "l = ?l \<or> (\<exists>p \<in> set (loads d ?eh rest). l = p_vaddr p)"
      "h = ?h \<or> (\<exists>p \<in> set (loads d ?eh rest). h = p_vaddr p + p_memsz p)"
      using Cons.IH [OF IH, of ?l ?h] by blast
    have ls: "loads d ?eh (i # rest) = ?p # loads d ?eh rest" using True by (simp add: loads_def)
    have le: "?l \<le> l0" "?l \<le> p_vaddr ?p" "h0 \<le> ?h" "p_vaddr ?p + p_memsz ?p \<le> ?h" by auto
    have run: "segment_bounds d (of_nat (length d)) ?eh (i # rest) (l0, h0) = Some (Inr (l, h))"
      using True lh(1) by (simp add: r Let_def)
    have "l \<le> l0" "l \<le> p_vaddr ?p" "h0 \<le> h" "p_vaddr ?p + p_memsz ?p \<le> h"
      using le lh(2,3) order_trans by blast+
    moreover have "l = l0 \<or> l = p_vaddr ?p \<or> (\<exists>p \<in> set (loads d ?eh rest). l = p_vaddr p)"
      using lh(5) by (simp split: if_splits) blast+
    moreover have "h = h0 \<or> h = p_vaddr ?p + p_memsz ?p \<or> (\<exists>p \<in> set (loads d ?eh rest). h = p_vaddr p + p_memsz p)"
      using lh(6) by (simp split: if_splits) blast+
    ultimately show ?thesis using run lh(4) unfolding ls by auto
  qed
qed

lemma copy_bytes_ok:
  assumes "dst + n \<le> length img" "src + n \<le> length d"
  shows "\<exists>img'. copy_bytes d src dst n img = Some img' \<and> length img' = length img \<and>
    (\<forall>k < length img. img' ! k = (if dst \<le> k \<and> k < dst + n then d ! (src + (k - dst)) else img ! k))"
proof (cases "n = 0")
  case True
  then show ?thesis by (auto simp: copy_bytes_def)
next
  case False
  let ?i = "List.take dst img @ List.take n (drop src d) @ drop (dst + n) img"
  have "copy_bytes d src dst n img = Some ?i" using False assms by (simp add: copy_bytes_def)
  moreover have "length ?i = length img" using assms by simp
  moreover have "?i ! k = (if dst \<le> k \<and> k < dst + n then d ! (src + (k - dst)) else img ! k)" if "k < length img" for k
  proof -
    have m: "length (List.take n (drop src d)) = n" "length (List.take dst img) = dst" using assms by simp_all
    consider "k < dst" | "dst \<le> k" "k < dst + n" | "dst + n \<le> k" by linarith
    then show ?thesis
    proof cases
      case 1
      then show ?thesis by (simp add: nth_append m(2) del: length_take)
    next
      case 2
      then have "\<not> k < dst" "k - dst < n" by linarith+
      with 2 assms show ?thesis by (simp add: nth_append m del: length_take)
    next
      case 3
      then have "\<not> k < dst" "\<not> k - dst < n" "dst + n + (k - dst - n) = k" by linarith+
      with 3 assms that show ?thesis by (simp add: nth_append m del: length_take)
    qed
  qed
  ultimately show ?thesis by blast
qed

lemma copy_segments_ok:
  assumes ok: "elf_ok d" and ix: "\<And>i. i \<in> set is \<Longrightarrow> i < unat (e_phnum (ehdr_of d))"
    and fit: "\<And>p. p \<in> set (loads d (ehdr_of d) is) \<Longrightarrow> lo \<le> p_vaddr p \<and> seg_end p \<le> unat lo + length img"
  shows "\<exists>img'. copy_segments d (of_nat (length d)) (ehdr_of d) lo is img = Some (Inr img') \<and> length img' = length img \<and>
    (\<forall>k < length img. img' ! k = seg_byte d lo (loads d (ehdr_of d) is) k (img ! k))"
  using ix fit
proof (induction "is" arbitrary: img)
  case Nil
  then show ?case by (simp add: loads_def)
next
  case (Cons i rest)
  let ?eh = "ehdr_of d" and ?p = "phdr_of d (phdr_pos (ehdr_of d) i)"
  have i: "i < unat (e_phnum ?eh)" by (simp add: Cons.prems)
  have r: "elf_read_phdr (Some d) (of_nat (length d)) ?eh i = Some (Inr ?p)" by (rule read_phdr_ok [OF ok i])
  have IH: "\<And>i. i \<in> set rest \<Longrightarrow> i < unat (e_phnum ?eh)" by (simp add: Cons.prems)
  show ?case
  proof (cases "p_type ?p = PT_LOAD")
    case False
    then have "loads d ?eh (i # rest) = loads d ?eh rest" by (simp add: loads_def)
    with False Cons.IH [OF IH, of img] Cons.prems(2) show ?thesis by (simp add: r)
  next
    case True
    then have ls: "loads d ?eh (i # rest) = ?p # loads d ?eh rest" by (simp add: loads_def)
    have "?p \<in> set (loads d ?eh [0..<unat (e_phnum ?eh)])" using True i by (auto simp: loads_def)
    then have "seg_ok d ?p" using ok by (simp add: elf_ok_def Let_def)
    then have so: "seg_end ?p < 2 ^ 64" "unat (p_filesz ?p) \<le> unat (p_memsz ?p)"
      "unat (p_offset ?p) + unat (p_filesz ?p) \<le> length d" by (simp_all add: seg_ok_def word_le_nat_alt)
    have f: "lo \<le> p_vaddr ?p" "seg_end ?p \<le> unat lo + length img" using Cons.prems(2) [of ?p] by (simp_all add: ls)
    have len: "length d < 2 ^ 63" using ok by (simp add: elf_ok_def Let_def)
    have dst: "unat (p_vaddr ?p - lo) = unat (p_vaddr ?p) - unat lo" using f(1) by (simp add: unat_minus_exact)
    have lov: "unat lo \<le> unat (p_vaddr ?p)" using f(1) by (simp add: word_le_nat_alt)
    have "unat (p_offset ?p + p_filesz ?p) = unat (p_offset ?p) + unat (p_filesz ?p)"
      using so(3) len by (subst unat_plus_exact) simp_all
    moreover have "unat (of_nat (length d) :: u64) = length d" using len by (intro unat_of_nat_small) simp
    ultimately have in_file: "\<not> p_offset ?p + p_filesz ?p > of_nat (length d)" using so(3) by (simp add: word_less_nat_alt)
    have "unat (p_vaddr ?p - lo) + unat (p_filesz ?p) \<le> length img"
      using dst lov f(2) so(2) by (simp add: seg_end_def)
    from copy_bytes_ok [OF this so(3)] obtain img1 where i1:
      "copy_bytes d (unat (p_offset ?p)) (unat (p_vaddr ?p - lo)) (unat (p_filesz ?p)) img = Some img1"
      "length img1 = length img"
      "\<And>k. k < length img \<Longrightarrow> img1 ! k =
        (if unat (p_vaddr ?p - lo) \<le> k \<and> k < unat (p_vaddr ?p - lo) + unat (p_filesz ?p)
         then d ! (unat (p_offset ?p) + (k - unat (p_vaddr ?p - lo))) else img ! k)" by blast
    have "\<And>p. p \<in> set (loads d ?eh rest) \<Longrightarrow> lo \<le> p_vaddr p \<and> seg_end p \<le> unat lo + length img1"
      using Cons.prems(2) i1(2) by (simp add: ls)
    from Cons.IH [OF IH this] obtain img' where im: "copy_segments d (of_nat (length d)) ?eh lo rest img1 = Some (Inr img')"
      "length img' = length img1" "\<forall>k < length img1. img' ! k = seg_byte d lo (loads d ?eh rest) k (img1 ! k)" by blast
    have run: "copy_segments d (of_nat (length d)) ?eh lo (i # rest) img = Some (Inr img')"
      using True in_file i1(1) im(1) by (simp add: r)
    have one: "img1 ! k = (let j = k + unat lo in if unat (p_vaddr ?p) \<le> j \<and> j < unat (p_vaddr ?p) + unat (p_filesz ?p)
      then d ! (unat (p_offset ?p) + (j - unat (p_vaddr ?p))) else img ! k)" if "k < length img" for k
    proof -
      have "unat (p_vaddr ?p - lo) \<le> k \<longleftrightarrow> unat (p_vaddr ?p) \<le> k + unat lo"
        "k < unat (p_vaddr ?p - lo) + unat (p_filesz ?p) \<longleftrightarrow> k + unat lo < unat (p_vaddr ?p) + unat (p_filesz ?p)"
        "k - unat (p_vaddr ?p - lo) = k + unat lo - unat (p_vaddr ?p)" using dst lov by linarith+
      then show ?thesis using i1(3) [OF that] by (simp only: Let_def)
    qed
    show ?thesis using run im(2,3) i1(2) one unfolding ls by simp
  qed
qed

lemma unat_page_round:
  assumes "unat v \<le> 2 ^ 63"
  shows "unat (loader_align_up v 0x1000) = (unat v + 4095) div 4096 * 4096"
proof -
  have "unat (v + 4096 - 1) = unat v + 4095"
  proof -
    have "v + 4096 - 1 = v + (4095 :: u64)" by simp
    then show ?thesis using assms by (subst \<open>v + 4096 - 1 = v + 4095\<close>, subst unat_plus_exact) simp_all
  qed
  then show ?thesis using unat_align_down_4096 [of "v + 4096 - 1"] by (simp add: loader_align_up_def)
qed

lemma elf_loads:
  assumes "elf_ok d" and "segs = loads d (ehdr_of d) [0..<unat (e_phnum (ehdr_of d))]"
    and "\<forall>p \<in> set segs. lo \<le> p_vaddr p \<and> seg_end p \<le> hi"
    and "\<exists>p \<in> set segs. p_vaddr p = lo" "\<exists>p \<in> set segs. seg_end p = hi"
    and "unat lo < hi" "len = (hi - unat lo + 4095) div 4096 * 4096"
    and "heap_inv kend h" "heap_brk kend h + len \<le> unat kend + 8388608"
  shows "\<exists>h' img. elf_load_from_buffer kend (Some d) (of_nat (length d)) h = Some (h', [], Inr img) \<and>
    unat (img_base img) = heap_brk kend h \<and> heap_brk kend h' = heap_brk kend h + len \<and>
    unat (img_size img) = len \<and> length (img_bytes img) = len \<and>
    (\<forall>k < len. img_bytes img ! k = seg_byte d lo segs k 0) \<and>
    img_entry img = img_base img + (e_entry (ehdr_of d) - lo)"
proof -
  let ?eh = "ehdr_of d" and ?is = "[0..<unat (e_phnum (ehdr_of d))]"
  have ok: "length d < 2 ^ 63" "64 \<le> length d" using assms(1) by (simp_all add: elf_ok_def Let_def)
  have so: "seg_end p < 2 ^ 64" if "p \<in> set segs" for p
    using assms(1,2) that by (auto simp: elf_ok_def Let_def seg_ok_def)
  have se: "unat (p_vaddr p + p_memsz p) = seg_end p" if "p \<in> set segs" for p
    using so [OF that] by (subst unat_plus_exact) (simp_all add: seg_end_def)
  obtain pl ph where pl: "pl \<in> set segs" "p_vaddr pl = lo" and ph: "ph \<in> set segs" "seg_end ph = hi" using assms(4,5) by blast
  have hi: "hi < 2 ^ 64" using so [OF ph(1)] ph(2) by simp
  then have uh: "unat (of_nat hi :: u64) = hi" by (intro unat_of_nat_small) simp
  obtain l g where b: "segment_bounds d (of_nat (length d)) ?eh ?is (- 1, 0) = Some (Inr (l, g))"
    and lg: "\<forall>p \<in> set segs. l \<le> p_vaddr p \<and> p_vaddr p + p_memsz p \<le> g"
    and l: "l = - 1 \<or> (\<exists>p \<in> set segs. l = p_vaddr p)" and g: "g = 0 \<or> (\<exists>p \<in> set segs. g = p_vaddr p + p_memsz p)"
    using bounds_ok [OF assms(1), of ?is "- 1" 0] unfolding assms(2) by auto
  have lm: "lo \<noteq> - 1"
  proof
    assume "lo = - 1"
    then have "unat lo = 2 ^ 64 - 1" by (simp add: unsigned_minus_1_eq_mask mask_eq_exp_minus_1)
    then show False using assms(6) hi by simp
  qed
  have "l = lo"
  proof (rule antisym)
    show "l \<le> lo" using lg pl by blast
    show "lo \<le> l" using l assms(3) by auto
  qed
  have "unat g = hi"
  proof (rule antisym)
    have "unat (p_vaddr ph + p_memsz ph) \<le> unat g" using lg ph(1) by (simp add: word_le_nat_alt)
    then show "hi \<le> unat g" using se [OF ph(1)] ph(2) by simp
    show "unat g \<le> hi" using g assms(3) se by auto
  qed
  then have gn: "g \<noteq> 0" using assms(6) by auto
  have "unat (g - lo) = hi - unat lo"
    using assms(6) \<open>unat g = hi\<close> by (subst unat_minus_exact) (simp_all add: word_le_nat_alt)
  moreover have small: "hi - unat lo \<le> 8388608"
  proof -
    have "unat kend \<le> heap_brk kend h" using assms(8) by (auto simp: heap_inv_def heap_brk_def word_le_nat_alt)
    moreover have "hi - unat lo \<le> len" unfolding assms(7) by arith
    ultimately show ?thesis using assms(9) by linarith
  qed
  ultimately have total: "unat (loader_align_up (g - lo) 0x1000) = len" using assms(7) by (subst unat_page_round) simp_all
  let ?t = "loader_align_up (g - lo) 0x1000"
  have len: "0 < len" "hi - unat lo \<le> len" "len \<le> 8392704" "8 dvd len" using assms(6,7) small by auto
  obtain p h' where k: "kmalloc kend ?t h = (p, h')" by (cases "kmalloc kend ?t h")
  have "0 < ?t" using total len(1) by (simp add: word_less_nat_alt)
  moreover have "(len + 7) div 8 * 8 = len" using len(4) by auto
  ultimately have p: "p \<noteq> 0" "unat p = heap_brk kend h" "heap_brk kend h' = heap_brk kend h + len"
    using kmalloc_cases [OF assms(8) _ k] total len(3) assms(9) by auto
  have "unat kend + 8388608 < 2 ^ 63" using assms(8) by (simp add: heap_inv_def kend_ok_def)
  then have nw: "\<not> 2 ^ 64 \<le> unat p + unat ?t" using p(2) total assms(9) by simp
  have "\<exists>img'. copy_segments d (of_nat (length d)) ?eh lo ?is (replicate len 0) = Some (Inr img') \<and>
      length img' = length (replicate len (0 :: u8)) \<and>
      (\<forall>k < length (replicate len (0 :: u8)). img' ! k = seg_byte d lo (loads d ?eh ?is) k (replicate len 0 ! k))"
  proof (rule copy_segments_ok [OF assms(1)])
    fix q assume "q \<in> set (loads d ?eh ?is)"
    then show "lo \<le> p_vaddr q \<and> seg_end q \<le> unat lo + length (replicate len (0 :: u8))"
      using assms(2,3,6) len(2) by fastforce
  qed simp
  then obtain bytes where bytes:
    "copy_segments d (of_nat (length d)) ?eh lo ?is (replicate len 0) = Some (Inr bytes)" "length bytes = len"
    "\<forall>k < len. bytes ! k = seg_byte d lo segs k 0" unfolding assms(2) by auto
  have "(of_nat (length d) :: u64) \<noteq> 0" using ok by (subst word_unat_eq_iff) (auto simp: unat_of_nat_small)
  then have "elf_load_from_buffer kend (Some d) (of_nat (length d)) h =
      Some (h', [], Inr \<lparr>img_base = p, img_bytes = bytes, img_size = ?t, img_entry = p + (e_entry ?eh - lo)\<rparr>)"
    using validate_ok [OF assms(1)] b \<open>l = lo\<close> lm gn k p(1) nw bytes(1) total
    unfolding elf_load_from_buffer_def by (simp add: Let_def)
  with p total bytes show ?thesis by auto
qed

text \<open>
  C24: a well-formed ELF file whose image fits the heap is loaded: the call returns 0, the block is
  fresh heap, every byte of it is the file byte of the last segment that covers it and 0 elsewhere
  (the bss), and the entry point is the one of the header moved by the load bias.
\<close>

theorem elf_load_exact:
  assumes "elf_ok d" and "segs = loads d (ehdr_of d) [0..<unat (e_phnum (ehdr_of d))]"
    and "\<forall>p \<in> set segs. lo \<le> p_vaddr p \<and> seg_end p \<le> hi"
    and "\<exists>p \<in> set segs. p_vaddr p = lo" "\<exists>p \<in> set segs. seg_end p = hi"
    and "unat lo < hi" "len = (hi - unat lo + 4095) div 4096 * 4096"
    and "heap_inv kend h" "heap_brk kend h + len \<le> unat kend + 8388608"
  shows "\<exists>h' img. elf_load_from_buffer kend (Some d) (of_nat (length d)) h = Some (h', [], Inr img) \<and>
    unat (img_base img) = heap_brk kend h \<and> heap_brk kend h' = heap_brk kend h + len \<and>
    unat (img_size img) = len \<and> length (img_bytes img) = len \<and>
    (\<forall>k < len. img_bytes img ! k = seg_byte d lo segs k 0) \<and>
    img_entry img = img_base img + (e_entry (ehdr_of d) - lo)"
  by (rule elf_loads) (use assms in blast)+

text \<open>A file with one segment of \<open>n\<close> file bytes and \<open>m\<close> memory bytes.\<close>

definition demo_elf :: "u64 \<Rightarrow> u64 \<Rightarrow> u8 list \<Rightarrow> u8 list" where
  "demo_elf n m payload =
     [0x7F, 0x45, 0x4C, 0x46, 2, 1, 1, 0, 0, 0, 0, 0, 0, 0, 0, 0] @ [2, 0, 62, 0, 1, 0, 0, 0] @
     u64_bytes 0x400008 @ u64_bytes 64 @ u64_bytes 0 @ [0, 0, 0, 0, 64, 0, 56, 0, 1, 0, 64, 0, 0, 0, 0, 0] @
     [1, 0, 0, 0, 5, 0, 0, 0] @ u64_bytes 120 @ u64_bytes 0x400000 @ u64_bytes 0x400000 @
     u64_bytes n @ u64_bytes m @ u64_bytes 0x1000 @ payload"

lemmas elf_eval = demo_elf_def u16_at_def u32_at_def u64_at_def le16_of_def le32_of_def le64_of_def u32_bytes_def u64_bytes_def

lemma demo_ehdr:
  "ehdr_of (demo_elf n m payload) =
   \<lparr>e_ident = [0x7F, 0x45, 0x4C, 0x46, 2, 1, 1, 0, 0, 0, 0, 0, 0, 0, 0, 0], e_type = 2, e_machine = 62, e_version = 1,
    e_entry = 0x400008, e_phoff = 64, e_shoff = 0, e_flags = 0, e_ehsize = 64, e_phentsize = 56, e_phnum = 1,
    e_shentsize = 64, e_shnum = 0, e_shstrndx = 0\<rparr>"
  by (simp add: ehdr_of_def EI_NIDENT_def elf_eval)

lemma u64_at_append: "i = length xs \<Longrightarrow> u64_at (xs @ u64_bytes w @ ys) i = w"
  by (simp add: u64_at_def nth_append u64_bytes_def u32_bytes_def le64_of_def le32_of_u32_bytes le64_of_halves)

lemma demo_phdr:
  "phdr_of (demo_elf n m payload) 64 =
   \<lparr>p_type = 1, p_flags = 5, p_offset = 120, p_vaddr = 0x400000, p_paddr = 0x400000, p_filesz = n, p_memsz = m, p_align = 0x1000\<rparr>"
proof -
  let ?a = "[0x7F, 0x45, 0x4C, 0x46, 2, 1, 1, 0, 0, 0, 0, 0, 0, 0, 0, 0] @ [2, 0, 62, 0, 1, 0, 0, 0] @
     u64_bytes 0x400008 @ u64_bytes 64 @ u64_bytes 0 @ [0, 0, 0, 0, 64, 0, 56, 0, 1, 0, 64, 0, 0, 0, 0, 0] @
     [1, 0, 0, 0, 5, 0, 0, 0 :: u8] @ u64_bytes 120 @ u64_bytes 0x400000 @ u64_bytes 0x400000"
  have "u64_at (?a @ u64_bytes n @ u64_bytes m @ u64_bytes 0x1000 @ payload) 96 = n"
    "u64_at ((?a @ u64_bytes n) @ u64_bytes m @ u64_bytes 0x1000 @ payload) 104 = m"
    by (rule u64_at_append, simp)+
  then have "u64_at (demo_elf n m payload) 96 = n" "u64_at (demo_elf n m payload) 104 = m"
    by (simp_all add: demo_elf_def)
  then show ?thesis by (simp add: phdr_of_def) (simp add: elf_eval)
qed

lemma length_demo_elf [simp]: "length (demo_elf n m payload) = 120 + length payload"
  by (simp add: demo_elf_def)

lemma demo_elf_ok: "elf_ok (demo_elf 4 16 [0x90, 0xC3, 0xAA, 0xBB])"
proof -
  let ?d = "demo_elf 4 16 [0x90, 0xC3, 0xAA, 0xBB]"
  have "List.take 4 ?d = [ELFMAG0, ELFMAG1, ELFMAG2, ELFMAG3]" "?d ! EI_CLASS = ELFCLASS64"
    by (simp_all add: demo_elf_def ELFMAG0_def ELFMAG1_def ELFMAG2_def ELFMAG3_def EI_CLASS_def ELFCLASS64_def)
  moreover have "loads ?d (ehdr_of ?d) [0..<1] = [phdr_of ?d 64]"
    by (simp add: loads_def demo_ehdr phdr_pos_def demo_phdr PT_LOAD_def)
  ultimately show ?thesis
    by (simp add: elf_ok_def demo_ehdr phdr_pos_def EM_X86_64_def ET_EXEC_def demo_phdr seg_ok_def seg_end_def Let_def)
qed

lemma elf_load_exact_witness:
  "\<exists>h' img. elf_load_from_buffer 0x200000 (Some (demo_elf 4 16 [0x90, 0xC3, 0xAA, 0xBB])) 124 heap_static = Some (h', [], Inr img) \<and>
     length (img_bytes img) = 4096 \<and> List.take 6 (img_bytes img) = [0x90, 0xC3, 0xAA, 0xBB, 0, 0] \<and>
     img_entry img = img_base img + 8"
proof -
  let ?d = "demo_elf 4 16 [0x90, 0xC3, 0xAA, 0xBB]"
  let ?p = "phdr_of ?d 64"
  have ls: "loads ?d (ehdr_of ?d) [0..<unat (e_phnum (ehdr_of ?d))] = [?p]"
    by (simp add: loads_def demo_ehdr phdr_pos_def demo_phdr PT_LOAD_def)
  have hs: "heap_inv 0x200000 heap_static" "heap_brk 0x200000 heap_static = 0x200000"
    by (simp_all add: heap_inv_def heap_static_def kend_ok_def heap_brk_def)
  obtain h' img where img: "elf_load_from_buffer 0x200000 (Some ?d) (of_nat (length ?d)) heap_static = Some (h', [], Inr img)"
    "length (img_bytes img) = 4096" "\<And>k. k < 4096 \<Longrightarrow> img_bytes img ! k = seg_byte ?d 0x400000 [?p] k 0"
    "img_entry img = img_base img + (e_entry (ehdr_of ?d) - 0x400000)"
    using elf_load_exact [OF demo_elf_ok refl, of "0x400000" "0x400010" 4096 "0x200000" heap_static, unfolded ls]
    by (auto simp: demo_phdr seg_end_def hs)
  have "List.take 6 (img_bytes img) = map (\<lambda>k. img_bytes img ! k) [0..<6]"
    using img(2) by (simp add: list_eq_iff_nth_eq)
  also have "\<dots> = [0x90, 0xC3, 0xAA, 0xBB, 0, 0]"
    by (simp add: img(3) demo_phdr upt_rec) (simp add: elf_eval)
  finally show ?thesis using img by (auto simp: demo_ehdr)
qed

text \<open>
  The loader never compares a segment's file size with its memory size: a well-formed header
  with one segment whose file part is longer than the page-rounded memory part makes it write past
  the block it allocated.
\<close>

theorem elf_filesz_overflows:
  assumes "m \<noteq> 0" "m \<le> 0x1000" "0x1000 < n" "n < 0x100000" "unat n = length payload"
  shows "elf_load_from_buffer 0x200000 (Some (demo_elf n m payload)) (of_nat (length (demo_elf n m payload))) heap_static = None"
proof -
  let ?d = "demo_elf n m payload"
  have nn: "4096 < unat n" "unat n < 1048576" using assms(3,4) by (simp_all add: word_less_nat_alt)
  have mm: "0 < unat m" "unat m \<le> 4096" using assms(1,2) by (simp_all add: word_le_nat_alt unat_gt_0)
  have sz: "unat (of_nat (length ?d) :: u64) = 120 + unat n"
    using nn assms(5) by (subst unat_of_nat_small) simp_all
  have v: "elf_validate (Some ?d) (of_nat (length ?d)) = Some (Inr (ehdr_of ?d))"
  proof -
    have "?d ! 0 = ELFMAG0" "?d ! 1 = ELFMAG1" "?d ! 2 = ELFMAG2" "?d ! 3 = ELFMAG3"
      by (simp_all add: demo_elf_def ELFMAG0_def ELFMAG1_def ELFMAG2_def ELFMAG3_def)
    moreover have "\<not> (of_nat (length ?d) :: u64) < of_nat 64" "\<not> (120 :: u64) > of_nat (length ?d)"
      using sz by (simp_all add: word_less_nat_alt del: length_demo_elf)
    ultimately show ?thesis
      by (simp add: elf_validate_def demo_ehdr EI_CLASS_def ELFCLASS64_def EM_X86_64_def ET_EXEC_def Let_def)
  qed
  have r: "elf_read_phdr (Some ?d) (of_nat (length ?d)) (ehdr_of ?d) 0 = Some (Inr (phdr_of ?d 64))"
  proof -
    have "\<not> (120 :: u64) > of_nat (length ?d)" using sz by (simp add: word_less_nat_alt del: length_demo_elf)
    then show ?thesis by (simp add: elf_read_phdr_def demo_ehdr)
  qed
  have nz: "(of_nat (length ?d) :: u64) \<noteq> 0" using sz by (metis add_is_0 unat_0 zero_neq_numeral)
  have hi: "unat (0x400000 + m) = 0x400000 + unat m" using mm by (subst unat_plus_exact) simp_all
  have t: "loader_align_up m 0x1000 = 0x1000"
  proof -
    have "(unat m + 4095) div 4096 = 1" using mm by simp
    then have "unat (loader_align_up m 0x1000) = 4096" using mm by (subst unat_page_round) simp_all
    then show ?thesis by (simp add: word_unat_eq_iff)
  qed
  have inside: "\<not> (120 + n > (of_nat (length ?d) :: u64))"
  proof -
    have "unat (120 + n) = 120 + unat n" using nn by (subst unat_plus_exact) simp_all
    then show ?thesis using sz by (simp add: word_less_nat_alt del: length_demo_elf)
  qed
  obtain h where k: "kmalloc 0x200000 0x1000 heap_static = (0x200000, h)"
    by (simp add: kmalloc_def heap_static_def heap_ensure_init_def KERNEL_HEAP_SIZE_def align_up_size_def)
  have above: "0x400000 + m \<noteq> 0" "0x400000 + m > 0" using hi by (auto simp: word_neq_0_conv word_less_nat_alt)
  have bounds: "segment_bounds ?d (of_nat (length ?d)) (ehdr_of ?d) [0] (- 1, 0) = Some (Inr (0x400000, 0x400000 + m))"
    using above by (simp add: r demo_phdr PT_LOAD_def del: length_demo_elf)
  have "n \<noteq> 0" using assms(3) by auto
  then have "copy_bytes ?d 120 0 (unat n) (replicate 4096 0) = None" using nn by (simp add: copy_bytes_def unat_eq_0)
  then have copy: "copy_segments ?d (of_nat (length ?d)) (ehdr_of ?d) 0x400000 [0] (replicate 4096 0) = None"
    using inside by (simp add: r demo_phdr PT_LOAD_def del: length_demo_elf)
  have one: "[0..<unat (e_phnum (ehdr_of ?d))] = [0]" by (simp add: demo_ehdr)
  show ?thesis
    using v nz bounds t k copy above(1) unfolding elf_load_from_buffer_def
    by (simp add: Let_def one del: length_demo_elf)
qed

lemma elf_filesz_overflows_witness:
  "elf_load_from_buffer 0x200000 (Some (demo_elf 0x1001 16 (replicate 4097 0)))
     (of_nat (length (demo_elf 0x1001 16 (replicate 4097 0)))) heap_static = None"
  by (rule elf_filesz_overflows) simp_all

subsection \<open>The loader and the heap\<close>

text \<open>
  The size of an image is a multiple of a page; a block of such a size that does not reach the end of the
  address space is a block of the heap, so it is small.
\<close>

lemma kmalloc_fits:
  assumes "heap_inv kend h" "kmalloc kend n h = (p, h')" "p \<noteq> 0" "unat n mod 8 = 0" "unat p + unat n < 2 ^ 64"
  shows "unat n \<le> 2 ^ 63"
proof -
  let ?h = "heap_ensure_init kend h"
  have p: "n \<noteq> 0" "p = heap_ptr ?h" "\<not> heap_limit ?h < heap_ptr ?h + align_up_size n 8"
    using assms(2,3) by (auto simp: kmalloc_def Let_def split: if_splits)
  have lim: "heap_limit ?h = kend + KERNEL_HEAP_SIZE" "kend_ok kend"
    using ensure_init_inv [OF assms(1)] assms(1) by (simp_all add: heap_inv_def)
  have "unat n < 2 ^ 64" using unat_lt_64 [of n] by simp
  moreover obtain q where "unat n = q * 8" using assms(4) by (metis mod_0_imp_dvd dvd_def mult.commute)
  ultimately have "unat n + 8 \<le> 2 ^ 64" by simp
  then have "unat (n + (8 - 1)) = unat n + 7" by (subst unat_plus_exact) simp_all
  then have "unat (align_up_size n 8) = (unat n + 7) div 8 * 8" unfolding align_up_size_def unat_align_down_8 by simp
  also have "\<dots> = unat n" using assms(4) by presburger
  finally have "align_up_size n 8 = n" by (simp add: word_unat_eq_iff)
  then have "unat (heap_ptr ?h + align_up_size n 8) = unat p + unat n" using assms(5) p(2) by (simp add: unat_plus_exact)
  then have "unat p + unat n \<le> unat kend + 8388608"
    using p(3) unat_kend_limit [OF lim(2)] lim(1) by (simp add: word_less_nat_alt)
  then show ?thesis using lim(2) by (simp add: kend_ok_def)
qed

lemma loader_align_mod: "unat (loader_align_up v 0x1000) mod 8 = 0"
proof -
  have m: "a div 4096 * 4096 mod 8 = 0" for a :: nat
  proof -
    have "a div 4096 * 4096 = a div 4096 * 512 * 8" by simp
    then show ?thesis by (simp only: mod_mult_self2_is_0)
  qed
  have "unat (loader_align_up v 0x1000) = unat (v + 4096 - 1) div 4096 * 4096"
    unfolding loader_align_up_def by (rule unat_align_down_4096)
  then show ?thesis using m by (simp only:)
qed

lemma elf_heap_kept:
  assumes "heap_inv kend h" "elf_load_from_buffer kend data sz h = Some (h', out, Inr img)"
  shows "heap_inv kend h' \<and> heap_brk kend h \<le> heap_brk kend h'"
proof -
  obtain t m where m: "kmalloc kend (loader_align_up t 0x1000) h = (m, h')" "m \<noteq> 0" "unat m + unat (loader_align_up t 0x1000) < 2 ^ 64"
    using assms(2) unfolding elf_load_from_buffer_def
    by (auto simp: Let_def split: option.splits sum.splits if_splits prod.splits)
  have "unat (loader_align_up t 0x1000) \<le> 2 ^ 63" by (rule kmalloc_fits [OF assms(1) m(1,2) loader_align_mod m(3)])
  from kmalloc_heap [OF assms(1) this m(1)] show ?thesis by simp
qed

text \<open>A successful \<open>process_exec\<close> appends a process that is ready to the run queue and touches no other.\<close>

lemma exec_ok:
  assumes "sched_ok s qs zs" "sched_heap kend s" "is_cstr path" "room kend (v\<lparr>vheap := vm_heap (vm s)\<rparr>) (9 * length path)"
    "process_exec kend kas uninit (Some path) nm prio (s, v) = Some (p, ops, s', v')" "p \<noteq> 0"
  shows "sched_ok s' (qs @ [p]) zs \<and> sched_heap kend s' \<and> current s' = current s \<and> p \<in> dom (procs s')"
proof -
  let ?v = "v\<lparr>vheap := vm_heap (vm s)\<rparr>"
  obtain d len v1 h1 img out name s2 where
    rd: "vfs_read_file kend (Some path) (vfs_get_root ?v) ?v = Some ((Some d, len), v1)" and
    ld: "elf_load_from_buffer kend (Some d) (case len of None \<Rightarrow> 0 | Some l \<Rightarrow> l) (vheap v1) = Some (h1, out, Inr img)" and
    cr: "process_create kend kas uninit (Some name) (img_entry img) 0 prio (with_heap h1 s) = Some (p, s2)" and
    s': "s' = upd_proc p (\<lambda>n. n\<lparr>image_base := img_base img, image_size := img_size img, exit_code := 0\<rparr>) s2"
    using assms(5,6) unfolding process_exec_def elf_load_from_path_def
    by (auto simp: Let_def split: option.splits sum.splits if_splits prod.splits)
  obtain h where h: "vfs_resolve kend (Some path) (vfs_get_root ?v) ?v = map_option (\<lambda>r. (r, ?v\<lparr>vheap := h\<rparr>)) (resolve_spec ?v path (vfs_get_root ?v))"
    "heap_inv kend h" "brk kend ?v \<le> heap_brk kend h"
    using vfs_resolve_eq [OF assms(3,4), of "vfs_get_root ?v"] by blast
  have v1: "vheap v1 = h" using rd h(1) unfolding vfs_read_file_def
    by (auto split: option.splits if_splits)
  have h1: "heap_inv kend h1" "heap_brk kend (vm_heap (vm s)) \<le> heap_brk kend h1"
    using elf_heap_kept [OF _ ld] h(2,3) v1 by simp_all
  have ok: "sched_ok (with_heap h1 s) qs zs" using assms(1) by (subst sched_ok_frame) (simp_all add: with_heap_def)
  have hp: "sched_heap kend (with_heap h1 s)" using h1 assms(2) by (force simp: sched_heap_def with_heap_def)
  from create_ok [OF ok hp, of kas uninit "Some name" "img_entry img" 0 prio] cr assms(6)
  have c: "sched_ok s2 (qs @ [p]) zs" "sched_heap kend s2" "current s2 = current s" "p \<in> dom (procs s2)" 
    by (auto simp: with_heap_def)
  have "sched_ok s' (qs @ [p]) zs" using c(1) unfolding s' sched_ok_def
    by (auto simp: states_ok_def procs_upd_proc queues_upd_same split: if_splits)
  then show ?thesis using c s' by (auto simp: sched_heap_def procs_upd_proc dom_upd_proc upd_proc_sel)
qed

end
