(* ===== verification/Devices.thy ===== *)
theory Devices
  imports Console Events Scheduler
begin

text \<open>
  The interrupt-driven devices: the timer (\<open>kernel/drivers/timer/pit.c\<close>), the PS/2 keyboard
  (\<open>kernel/drivers/keyboard/keyboard.c\<close>), the PS/2 mouse (\<open>kernel/drivers/mouse/mouse.c\<close>) and the
  interrupt controllers (\<open>kernel/arch/x86_64/pic/pic.c\<close>). Their handlers feed the event queue.
\<close>

subsection \<open>The timer\<close>

record pit =
  pit_ticks :: u64
  pit_frequency :: u32

definition pit_static :: pit where "pit_static = \<lparr>pit_ticks = 0, pit_frequency = 0\<rparr>"

text \<open>A frequency of 0 divides by zero.\<close>

definition pit_init :: "u32 \<Rightarrow> io \<Rightarrow> (pit \<times> io) option" where
  "pit_init frequency io =
     (if frequency = 0 then None
      else let divisor = 1193180 div frequency
      in Some (\<lparr>pit_ticks = 0, pit_frequency = frequency\<rparr>,
               outb 0x40 (ucast (drop_bit 8 divisor AND 0xFF)) (outb 0x40 (ucast (divisor AND 0xFF)) (outb 0x43 0x36 io))))"

definition pit_on_interrupt :: "pit \<Rightarrow> event_queue \<Rightarrow> sched \<Rightarrow> pit \<times> event_queue \<times> sched" where
  "pit_on_interrupt p eq s =
     (let t = pit_ticks p + 1;
          eq' = (if t mod 10 = 0
                 then snd (events_enqueue \<lparr>ev_type = EVENT_TIMER, ev_a = sint (ucast t :: 32 word), ev_b = 0, ev_c = 0\<rparr> eq)
                 else eq)
      in (p\<lparr>pit_ticks := t\<rparr>, eq', scheduler_tick s))"

definition pit_get_ticks :: "pit \<Rightarrow> u64" where
  "pit_get_ticks p = pit_ticks p"

definition uptime_seconds :: "pit \<Rightarrow> u64" where
  "uptime_seconds p = (if pit_frequency p = 0 then 0 else pit_ticks p div ucast (pit_frequency p))"

subsection \<open>The keyboard\<close>

text \<open>Scancodes without an entry map to NUL.\<close>

definition scancode_map :: string where
  "scancode_map =
     [NUL, NUL] @ ''1234567890-='' @ [CHR 0x08, CHR 0x09] @ ''qwertyuiop[]'' @ [newline, NUL] @ ''asdfghjkl;'' @
     [CHR 0x27, CHR 0x60, NUL, NUL] @ ''zxcvbnm,./'' @ replicate 3 NUL @ '' '' @ replicate 70 NUL"

partial_function (option) keyboard_init :: "device \<Rightarrow> io \<Rightarrow> io option" where
  "keyboard_init dev io =
     (let (st, io1) = inb dev 0x64 io
      in if st AND 1 \<noteq> 0 then keyboard_init dev (snd (inb dev 0x60 io1)) else Some io1)"

text \<open>The handler; the first result is the character it hands to the shell, if any.\<close>

definition keyboard_on_interrupt :: "device \<Rightarrow> io \<Rightarrow> event_queue \<Rightarrow> char option \<times> io \<times> event_queue" where
  "keyboard_on_interrupt dev io eq =
     (let (sc, io1) = inb dev 0x60 io
      in if sc AND 0x80 \<noteq> 0 then (None, io1, eq)
      else if unat sc < length scancode_map then
        let c = scancode_map ! unat sc
        in if c \<noteq> NUL
           then (Some c, io1, snd (events_enqueue \<lparr>ev_type = EVENT_KEYBOARD, ev_a = of_char c, ev_b = 0, ev_c = 0\<rparr> eq))
           else (None, io1, eq)
      else (None, io1, eq))"

subsection \<open>The mouse\<close>

text \<open>The coordinates are C ints; they stay far below the point where the addition would overflow.\<close>

record mouse =
  mouse_cycle :: u8
  mouse_packet :: "u8 list"
  mouse_x :: int
  mouse_y :: int
  mouse_btn :: int

definition mouse_static :: mouse where
  "mouse_static = \<lparr>mouse_cycle = 0, mouse_packet = [0, 0, 0], mouse_x = 20, mouse_y = 20, mouse_btn = 0\<rparr>"

fun mouse_wait :: "u8 \<Rightarrow> bool \<Rightarrow> device \<Rightarrow> nat \<Rightarrow> io \<Rightarrow> io" where
  "mouse_wait m want dev 0 io = io"
| "mouse_wait m want dev (Suc n) io =
     (let (st, io1) = inb dev 0x64 io
      in if (st AND m \<noteq> 0) = want then io1 else mouse_wait m want dev n io1)"

definition mouse_wait_write :: "device \<Rightarrow> io \<Rightarrow> io" where
  "mouse_wait_write dev io = mouse_wait 2 False dev 100000 io"

definition mouse_wait_read :: "device \<Rightarrow> io \<Rightarrow> io" where
  "mouse_wait_read dev io = mouse_wait 1 True dev 100000 io"

definition mouse_write :: "device \<Rightarrow> u8 \<Rightarrow> io \<Rightarrow> io" where
  "mouse_write dev val io = outb 0x60 val (mouse_wait_write dev (outb 0x64 0xD4 (mouse_wait_write dev io)))"

definition mouse_read :: "device \<Rightarrow> io \<Rightarrow> u8 \<times> io" where
  "mouse_read dev io = inb dev 0x60 (mouse_wait_read dev io)"

definition mouse_init :: "device \<Rightarrow> io \<Rightarrow> console_op list \<times> io" where
  "mouse_init dev io =
     (let io1 = mouse_wait_read dev (outb 0x64 0x20 (mouse_wait_write dev (outb 0x64 0xA8 io)));
          (st, io2) = inb dev 0x60 io1;
          status = st OR 2;
          io3 = outb 0x60 status (mouse_wait_write dev (outb 0x64 0x60 (mouse_wait_write dev io2)));
          (_, io4) = mouse_read dev (mouse_write dev 0xF6 io3);
          (_, io5) = mouse_read dev (mouse_write dev 0xF4 io4)
      in (log_info ''[OK] mouse ready'', io5))"

text \<open>What the handler does with the byte it read. A cycle beyond the packet is impossible (see below).\<close>

definition mouse_byte :: "u8 \<Rightarrow> mouse \<Rightarrow> event_queue \<Rightarrow> mouse \<times> event_queue" where
  "mouse_byte data m eq =
     (if mouse_cycle m = 0 \<and> data AND 0x08 = 0 then (m, eq)
      else let m1 = m\<lparr>mouse_packet := (mouse_packet m)[unat (mouse_cycle m) := data], mouse_cycle := mouse_cycle m + 1\<rparr>
      in if mouse_cycle m1 < 3 then (m1, eq)
      else let dx = sint (mouse_packet m1 ! 1); dy = sint (mouse_packet m1 ! 2);
               buttons = uint (mouse_packet m1 ! 0 AND 7);
               x = mouse_x m1 + dx; y = mouse_y m1 - dy;
               m2 = m1\<lparr>mouse_cycle := 0, mouse_x := if x < 0 then 0 else x, mouse_y := if y < 0 then 0 else y,
                       mouse_btn := buttons\<rparr>
           in (m2, snd (events_enqueue \<lparr>ev_type = EVENT_MOUSE, ev_a = mouse_x m2, ev_b = mouse_y m2, ev_c = mouse_btn m2\<rparr> eq)))"

definition mouse_on_interrupt :: "device \<Rightarrow> io \<Rightarrow> mouse \<Rightarrow> event_queue \<Rightarrow> io \<times> mouse \<times> event_queue" where
  "mouse_on_interrupt dev io m eq = (let (data, io1) = inb dev 0x60 io in (io1, mouse_byte data m eq))"

definition mouse_get_position :: "mouse \<Rightarrow> int \<times> int \<times> int" where
  "mouse_get_position m = (0, mouse_x m, mouse_y m)"

subsection \<open>The interrupt controllers\<close>

definition PIC1_CMD :: u16 where "PIC1_CMD = 0x20"
definition PIC1_DATA :: u16 where "PIC1_DATA = 0x21"
definition PIC2_CMD :: u16 where "PIC2_CMD = 0xA0"
definition PIC2_DATA :: u16 where "PIC2_DATA = 0xA1"
definition PIC_EOI :: u8 where "PIC_EOI = 0x20"

definition pic_remap :: "device \<Rightarrow> u8 \<Rightarrow> u8 \<Rightarrow> io \<Rightarrow> io" where
  "pic_remap dev offset1 offset2 io =
     (let (a1, io1) = inb dev PIC1_DATA io; (a2, io2) = inb dev PIC2_DATA io1
      in outb PIC2_DATA a2 (outb PIC1_DATA a1
        (outb PIC2_DATA 1 (outb PIC1_DATA 1
        (outb PIC2_DATA 2 (outb PIC1_DATA 4
        (outb PIC2_DATA offset2 (outb PIC1_DATA offset1
        (outb PIC2_CMD 0x11 (outb PIC1_CMD 0x11 io2))))))))))"

definition pic_send_eoi :: "u8 \<Rightarrow> io \<Rightarrow> io" where
  "pic_send_eoi irq io = outb PIC1_CMD PIC_EOI (if irq \<ge> 8 then outb PIC2_CMD PIC_EOI io else io)"

definition pic_set_mask :: "device \<Rightarrow> u8 \<Rightarrow> io \<Rightarrow> io" where
  "pic_set_mask dev irq io =
     (if irq < 8 then let (v, io1) = inb dev PIC1_DATA io in outb PIC1_DATA (v OR push_bit (unat irq) 1) io1
      else let rel = irq - 8; (v, io1) = inb dev PIC2_DATA io in outb PIC2_DATA (v OR push_bit (unat rel) 1) io1)"

definition pic_clear_mask :: "device \<Rightarrow> u8 \<Rightarrow> io \<Rightarrow> io" where
  "pic_clear_mask dev irq io =
     (if irq < 8 then let (v, io1) = inb dev PIC1_DATA io in outb PIC1_DATA (v AND NOT (push_bit (unat irq) 1)) io1
      else let rel = irq - 8; (v, io1) = inb dev PIC2_DATA io in outb PIC2_DATA (v AND NOT (push_bit (unat rel) 1)) io1)"

definition pic_init :: "device \<Rightarrow> io \<Rightarrow> io" where
  "pic_init dev io =
     pic_clear_mask dev 12 (pic_clear_mask dev 2 (pic_clear_mask dev 1 (pic_clear_mask dev 0
       (outb PIC2_DATA 0xFF (outb PIC1_DATA 0xFF (pic_remap dev 0x20 0x28 io))))))"

subsection \<open>The keyboard decoder\<close>

text \<open>The keys the table knows, as pairs of scancode and character.\<close>

definition mapped_keys :: "(u8 \<times> char) list" where
  "mapped_keys = filter (\<lambda>(k, c). c \<noteq> NUL) (zip (map of_nat [0..<128]) scancode_map)"

lemma scancode_map_length [simp]: "length scancode_map = 128"
  by (simp add: scancode_map_def)

lemma length_mapped_keys: "length mapped_keys = 50"
  by code_simp

lemma high_bit_u8: "(w :: u8) AND 0x80 = 0 \<longleftrightarrow> unat w < 128"
proof -
  have "w AND 0x80 = 0 \<longleftrightarrow> \<not> bit w 7"
    using and_exp_eq_0_iff_not_bit [of w 7] by simp
  also have "bit w 7 = bit (unat w) 7" by (simp add: bit_unsigned_iff)
  also have "(\<not> bit (unat w) 7) \<longleftrightarrow> \<not> odd (unat w div 128)" by (simp add: bit_iff_odd)
  also have "\<dots> \<longleftrightarrow> unat w < 128"
  proof -
    have "unat w < 2 * 128" using unat_lt_8 [of w] by linarith
    then have "unat w div 128 < 2" by (rule less_mult_imp_div_less)
    then have "unat w div 128 = 0 \<or> unat w div 128 = 1" by linarith
    moreover have "unat w div 128 = 0 \<longleftrightarrow> unat w < 128" by (simp add: div_eq_0_iff)
    ultimately show ?thesis by auto
  qed
  finally show ?thesis .
qed

lemma map_of_index:
  assumes k: "unat (k :: u8) < length xs" and n: "length xs \<le> 256"
  shows "map_of (filter (\<lambda>(k, c). P c) (zip (map of_nat [0..<length xs]) xs)) k =
    (if P (xs ! unat k) then Some (xs ! unat k) else None)"
proof -
  let ?zs = "zip (map of_nat [0..<length xs]) xs :: (u8 \<times> _) list"
  have un: "unat (of_nat i :: u8) = i" if "i < length xs" for i
    using that n by (intro unat_of_nat_small) simp
  have "inj_on (of_nat :: nat \<Rightarrow> u8) {0..<length xs}" using un by (intro inj_on_inverseI [of _ unat]) simp
  then have d: "distinct (map fst ?zs)" by (simp add: distinct_map)
  have mem: "(a, c) \<in> set ?zs \<longleftrightarrow> unat a < length xs \<and> c = xs ! unat a" for a c
  proof
    assume "(a, c) \<in> set ?zs"
    then obtain i where "i < length xs" "a = of_nat i" "c = xs ! i" by (auto simp: set_zip)
    then show "unat a < length xs \<and> c = xs ! unat a" using un by simp
  next
    assume "unat a < length xs \<and> c = xs ! unat a"
    then show "(a, c) \<in> set ?zs" by (auto simp: set_zip intro!: exI [where x = "unat a"])
  qed
  show ?thesis
  proof (cases "P (xs ! unat k)")
    case True
    have "map_of (filter (\<lambda>(k, c). P c) ?zs) k = Some (xs ! unat k)"
      using d k True by (subst map_of_eq_Some_iff) (auto simp: mem distinct_map_filter)
    with True show ?thesis by simp
  next
    case False
    have "k \<notin> fst ` set (filter (\<lambda>(k, c). P c) ?zs)" using False by (auto simp: mem)
    with False show ?thesis by (simp add: map_of_eq_None_iff)
  qed
qed

text \<open>
  The keyboard handler turns exactly the presses of the 50 mapped keys into characters: such a
  press queues one keyboard event with the character's code and hands the character to the shell; a
  release or an unmapped key changes nothing.
\<close>

theorem keyboard_decodes:
  "keyboard_on_interrupt dev io eq =
     (let sc = ucast (dev io 0x60); io' = InB 0x60 sc # io
      in case map_of mapped_keys sc of
           Some c \<Rightarrow> (Some c, io', snd (events_enqueue \<lparr>ev_type = EVENT_KEYBOARD, ev_a = of_char c, ev_b = 0, ev_c = 0\<rparr> eq))
         | None \<Rightarrow> (None, io', eq))"
proof -
  let ?sc = "ucast (dev io 0x60) :: u8"
  show ?thesis
  proof (cases "unat ?sc < 128")
    case True
    then have m: "map_of mapped_keys ?sc = (if scancode_map ! unat ?sc \<noteq> NUL then Some (scancode_map ! unat ?sc) else None)"
      unfolding mapped_keys_def using map_of_index [of ?sc scancode_map "\<lambda>c. c \<noteq> NUL"] by simp
    from True have "?sc AND 0x80 = 0" by (simp add: high_bit_u8)
    with m True show ?thesis by (simp add: keyboard_on_interrupt_def inb_def Let_def)
  next
    case False
    have "?sc \<notin> fst ` set mapped_keys"
    proof
      assume "?sc \<in> fst ` set mapped_keys"
      then obtain i where "i < 128" "?sc = of_nat i" by (auto simp: mapped_keys_def set_zip)
      then have "unat ?sc = i" by (simp add: unat_of_nat_small)
      with \<open>i < 128\<close> False show False by simp
    qed
    then have "map_of mapped_keys ?sc = None" by (simp add: map_of_eq_None_iff)
    moreover from False have "?sc AND 0x80 \<noteq> 0" by (simp add: high_bit_u8)
    ultimately show ?thesis by (simp add: keyboard_on_interrupt_def inb_def Let_def)
  qed
qed

subsection \<open>The mouse protocol\<close>

text \<open>A byte stream in packets, each after some bytes that cannot start one (bit 3 clear).\<close>

type_synonym packet = "u8 list \<times> u8 \<times> u8 \<times> u8"

fun packet_bytes :: "packet \<Rightarrow> u8 list" where
  "packet_bytes (junk, a, b, c) = junk @ [a, b, c]"

fun packet_ok :: "packet \<Rightarrow> bool" where
  "packet_ok (junk, a, b, c) = (list_all (\<lambda>x. x AND 8 = 0) junk \<and> a AND 8 \<noteq> 0)"

fun mouse_feed :: "u8 list \<Rightarrow> mouse \<times> event_queue \<Rightarrow> mouse \<times> event_queue" where
  "mouse_feed [] s = s"
| "mouse_feed (b # bs) (m, eq) = mouse_feed bs (mouse_byte b m eq)"

text \<open>The positions (with the buttons) the packets describe, clamped at the left and top edges.\<close>

fun mouse_track :: "packet list \<Rightarrow> int \<Rightarrow> int \<Rightarrow> (int \<times> int \<times> int) list" where
  "mouse_track [] x y = []"
| "mouse_track ((junk, a, b, c) # ps) x y =
     (let x' = max 0 (x + sint b); y' = max 0 (y - sint c) in (x', y', uint (a AND 7)) # mouse_track ps x' y')"

definition mouse_event :: "event_queue \<Rightarrow> int \<times> int \<times> int \<Rightarrow> event_queue" where
  "mouse_event eq p = snd (events_enqueue \<lparr>ev_type = EVENT_MOUSE, ev_a = fst p, ev_b = fst (snd p), ev_c = snd (snd p)\<rparr> eq)"

lemma mouse_feed_append: "mouse_feed (xs @ ys) s = mouse_feed ys (mouse_feed xs s)"
  by (induction xs s rule: mouse_feed.induct) simp_all

lemma mouse_feed_junk: "mouse_cycle m = 0 \<Longrightarrow> list_all (\<lambda>x. x AND 8 = 0) junk \<Longrightarrow> mouse_feed junk (m, eq) = (m, eq)"
  by (induction junk) (simp_all add: mouse_byte_def)

lemma mouse_feed_packet:
  assumes "mouse_cycle m = 0" "length (mouse_packet m) = 3" "a AND 8 \<noteq> 0"
  shows "mouse_feed [a, b, c] (m, eq) =
    (let x = max 0 (mouse_x m + sint b); y = max 0 (mouse_y m - sint c); k = uint (a AND 7) in
     (m\<lparr>mouse_packet := [a, b, c], mouse_x := x, mouse_y := y, mouse_btn := k\<rparr>, mouse_event eq (x, y, k)))"
proof -
  obtain p q r where p: "mouse_packet m = [p, q, r]" using assms(2) by (auto simp: length_Suc_conv numeral_eq_Suc)
  show ?thesis using assms(1,3) p
    by (cases m) (simp add: mouse_byte_def Let_def mouse_event_def max_def not_le)
qed



subsection \<open>The interrupt masks\<close>

text \<open>A controller whose data ports read back the mask last written to them.\<close>

definition reads_back :: "device \<Rightarrow> bool" where
  "reads_back dev \<longleftrightarrow> (\<forall>io p. p \<in> {PIC1_DATA, PIC2_DATA} \<longrightarrow> written p io \<noteq> [] \<longrightarrow> ucast (dev io p) = last (written p io))"

text \<open>
  On such a controller \<open>pic_init\<close> leaves exactly the timer, the keyboard, the cascade line and
  the mouse unmasked, with the vectors moved to 0x20 and 0x28.
\<close>

theorem pic_init_masks:
  assumes "reads_back dev"
  shows "last (written PIC1_DATA (pic_init dev io)) = NOT (2 ^ 0 OR 2 ^ 1 OR 2 ^ 2) \<and>
    last (written PIC2_DATA (pic_init dev io)) = NOT (2 ^ (12 - 8))"
proof -
  have inb: "fst (inb dev p io) = last (written p io)" if "p \<in> {PIC1_DATA, PIC2_DATA}" "written p io \<noteq> []" for p io
  proof -
    have "ucast (dev io p) = last (written p io)" using assms that unfolding reads_back_def by blast
    then show ?thesis by (simp add: inb_def Let_def)
  qed
  have "PIC1_DATA \<noteq> PIC2_DATA" by (simp add: PIC1_DATA_def PIC2_DATA_def)
  have c1: "written p (pic_clear_mask dev irq io) =
      written p io @ (if p = PIC1_DATA then [fst (inb dev PIC1_DATA io) AND NOT (push_bit (unat irq) 1)] else [])"
    if "irq < 8" for p irq io
    using that by (auto simp: pic_clear_mask_def split: prod.split) (metis snd_conv written_inb)+
  have c2: "written p (pic_clear_mask dev irq io) =
      written p io @ (if p = PIC2_DATA then [fst (inb dev PIC2_DATA io) AND NOT (push_bit (unat (irq - 8)) 1)] else [])"
    if "\<not> irq < 8" for p irq io
    using that by (auto simp: pic_clear_mask_def Let_def split: prod.split) (metis snd_conv written_inb)+
  let ?io = "outb PIC2_DATA 0xFF (outb PIC1_DATA 0xFF (pic_remap dev 0x20 0x28 io))"
  show ?thesis
    using \<open>PIC1_DATA \<noteq> PIC2_DATA\<close> unfolding pic_init_def by (simp add: c1 c2 inb)
qed

definition pic_model :: device where
  "pic_model io p = ucast (last (0 # written p io))"

lemma pic_init_masks_witness:
  "last (written PIC1_DATA (pic_init pic_model [])) = 0xF8 \<and> last (written PIC2_DATA (pic_init pic_model [])) = 0xEF"
proof -
  have "ucast (ucast b :: u16) = b" for b :: u8
    by (rule bit_word_eqI) (simp add: bit_simps)
  then have "reads_back pic_model" by (simp add: reads_back_def pic_model_def)
  from pic_init_masks [OF this, of "[]"] show ?thesis by simp
qed

end
