(* ===== verification/Syscall.thy ===== *)
theory Syscall
  imports Elf Devices MemoryMap
begin

text \<open>
  The system calls (\<open>kernel/syscall/syscall.c\<close>): a descriptor table per process (the kernel itself
  has one too), reads through the file system, console writes, and the dispatcher. The caller's
  memory is a function from addresses to bytes. A call that never returns, or follows a dangling
  pointer, is \<open>None\<close>.
\<close>

subsection \<open>State\<close>

text \<open>\<open>kernel_io\<close> is the table of the static \<open>kernel_io_proc\<close>, \<open>None\<close> before its first use.\<close>

record sys =
  sc_sched :: sched
  sc_vfs :: vfs
  sc_pit :: pit
  sc_events :: event_queue
  sc_mem :: memory
  kernel_io :: "process_fd list option"

text \<open>The file system and the scheduler allocate from one heap.\<close>

definition put_vfs :: "vfs \<Rightarrow> sys \<Rightarrow> sys" where
  "put_vfs v s = s\<lparr>sc_vfs := v, sc_sched := with_heap (vheap v) (sc_sched s)\<rparr>"

definition put_sched :: "sched \<Rightarrow> sys \<Rightarrow> sys" where
  "put_sched c s = s\<lparr>sc_sched := c, sc_vfs := (sc_vfs s)\<lparr>vheap := vm_heap (vm c)\<rparr>\<rparr>"

definition neg1 :: u64 where "neg1 = - 1"

text \<open>The bytes at \<open>a\<close>, and a C string in memory.\<close>

definition bytes_at :: "memory \<Rightarrow> u64 \<Rightarrow> nat \<Rightarrow> u8 list" where
  "bytes_at m a n = map (\<lambda>i. m (a + of_nat i)) [0..<n]"

definition byte_char :: "u8 \<Rightarrow> char" where
  "byte_char b = char_of (unat b)"

partial_function (option) cstr_at :: "memory \<Rightarrow> u64 \<Rightarrow> string option" where
  "cstr_at m a = (let c = byte_char (m a) in if c = NUL then Some []
     else Option.bind (cstr_at m (a + 1)) (\<lambda>s. Some (c # s)))"

fun store_bytes :: "u64 \<Rightarrow> u8 list \<Rightarrow> memory \<Rightarrow> memory" where
  "store_bytes a [] m = m"
| "store_bytes a (b # bs) m = store_bytes (a + 1) bs (m(a := b))"

subsection \<open>Descriptor tables\<close>

text \<open>\<open>sys_current_process\<close>: the running process, or the kernel's own table, set up on first use.\<close>

definition sys_current_process :: "sys \<Rightarrow> sys" where
  "sys_current_process s =
     (if process_get_current (sc_sched s) \<noteq> 0 \<or> kernel_io s \<noteq> None then s else s\<lparr>kernel_io := Some process_init_fds\<rparr>)"

definition cur_fds :: "sys \<Rightarrow> process_fd list option" where
  "cur_fds s =
     (let c = process_get_current (sc_sched s)
      in if c = 0 then kernel_io s else map_option fds (procs (sc_sched s) c))"

definition set_fds :: "process_fd list \<Rightarrow> sys \<Rightarrow> sys" where
  "set_fds t s =
     (let c = process_get_current (sc_sched s)
      in if c = 0 then s\<lparr>kernel_io := Some t\<rparr>
         else s\<lparr>sc_sched := upd_proc c (\<lambda>n. n\<lparr>fds := t\<rparr>) (sc_sched s)\<rparr>)"

definition sys_get_fd :: "process_fd list \<Rightarrow> int \<Rightarrow> process_fd option" where
  "sys_get_fd t d =
     (if d < 0 \<or> d \<ge> int PROC_MAX_FDS then None else if \<not> used (t ! nat d) then None else Some (t ! nat d))"

definition int_of :: "u64 \<Rightarrow> int" where
  "int_of a = sint (ucast a :: 32 word)"

type_synonym sysres = "(u64 \<times> console_op list \<times> sys) option"

subsection \<open>The calls\<close>

definition echo_char :: "char \<Rightarrow> console_op list" where
  "echo_char c = (if c = newline then [SerialChar CHR 0x0D] else []) @ [SerialChar c, TermChar c]"

definition sys_write_impl :: "u64 \<Rightarrow> u64 \<Rightarrow> u64 \<Rightarrow> sys \<Rightarrow> sysres" where
  "sys_write_impl d buf len s =
     (if buf = 0 then Some (neg1, [], s)
      else if d = 1 \<or> d = 2
      then Some (len, concat (map (\<lambda>b. echo_char (byte_char b)) (bytes_at (sc_mem s) buf (unat len))), s)
      else Some (neg1, [], s))"

definition sys_read_impl :: "u64 \<Rightarrow> u64 \<Rightarrow> u64 \<Rightarrow> u64 \<Rightarrow> sys \<Rightarrow> sysres" where
  "sys_read_impl kend d buf len s =
     (if buf = 0 \<or> len = 0 then Some (0, [], s)
      else let s1 = sys_current_process s
      in if d = 0 then Some (0, [], s1)
      else case cur_fds s1 of None \<Rightarrow> None
      | Some t \<Rightarrow>
        case sys_get_fd t (int_of d) of None \<Rightarrow> Some (neg1, [], s1)
        | Some f \<Rightarrow>
          case vfs_read_file kend (Some (fpath f)) (vfs_get_root (sc_vfs s1)) (sc_vfs s1) of None \<Rightarrow> None
          | Some ((None, _), v) \<Rightarrow> Some (neg1, [], put_vfs v s1)
          | Some ((Some data, l), v) \<Rightarrow>
            let file_len = (case l of None \<Rightarrow> 0 | Some n \<Rightarrow> n); s2 = put_vfs v s1
            in if offset f \<ge> file_len then Some (0, [], s2)
            else let avail = file_len - offset f; to_read = (if len < avail then len else avail)
            in if length data < unat (offset f) + unat to_read then None
            else Some (to_read, [],
                   set_fds (t[nat (int_of d) := f\<lparr>offset := offset f + to_read\<rparr>])
                     (s2\<lparr>sc_mem := store_bytes buf (List.take (unat to_read) (drop (unat (offset f)) data)) (sc_mem s2)\<rparr>)))"

definition sys_get_ticks_impl :: "sys \<Rightarrow> sysres" where
  "sys_get_ticks_impl s = Some (pit_get_ticks (sc_pit s), [], s)"

definition sys_exit_impl :: "int \<Rightarrow> sys \<Rightarrow> sysres" where
  "sys_exit_impl status s =
     map_option (\<lambda>c. (0, log_info ''[SYS] exit called'', put_sched c s)) (process_exit_current_status status (sc_sched s))"

text \<open>The first free slot from \<open>i\<close> on.\<close>

definition free_slot :: "process_fd list \<Rightarrow> nat option" where
  "free_slot t = find (\<lambda>i. \<not> used (t ! i)) [3..<PROC_MAX_FDS]"

definition sys_open_impl :: "u64 \<Rightarrow> u64 \<Rightarrow> sys \<Rightarrow> sysres" where
  "sys_open_impl kend path s =
     (if path = 0 then Some (neg1, [], s)
      else case cstr_at (sc_mem s) path of None \<Rightarrow> None
      | Some p \<Rightarrow>
        if p = [] then Some (neg1, [], s)
        else let s1 = sys_current_process s
        in case vfs_read_file kend (Some p) (vfs_get_root (sc_vfs s1)) (sc_vfs s1) of None \<Rightarrow> None
        | Some ((None, _), v) \<Rightarrow> Some (neg1, [], put_vfs v s1)
        | Some ((Some data, _), v) \<Rightarrow>
          let s2 = put_vfs v s1
          in case cur_fds s2 of None \<Rightarrow> None
          | Some t \<Rightarrow>
            case free_slot t of None \<Rightarrow> Some (neg1, [], s2)
            | Some i \<Rightarrow> Some (of_nat i, [], set_fds (t[i := (t ! i)\<lparr>used := True, offset := 0, fpath := List.take 127 p\<rparr>]) s2))"

definition sys_close_impl :: "int \<Rightarrow> sys \<Rightarrow> sysres" where
  "sys_close_impl d s =
     (let s1 = sys_current_process s
      in if d < 3 \<or> d \<ge> int PROC_MAX_FDS then Some (neg1, [], s1)
      else case cur_fds s1 of None \<Rightarrow> None
      | Some t \<Rightarrow> Some (0, [], set_fds (t[nat d := (t ! nat d)\<lparr>used := False, offset := 0, fpath := ''''\<rparr>]) s1))"

definition sys_lseek_impl :: "int \<Rightarrow> u64 \<Rightarrow> sys \<Rightarrow> sysres" where
  "sys_lseek_impl d off s =
     (let s1 = sys_current_process s
      in case cur_fds s1 of None \<Rightarrow> None
      | Some t \<Rightarrow>
        case sys_get_fd t d of None \<Rightarrow> Some (neg1, [], s1)
        | Some f \<Rightarrow> Some (off, [], set_fds (t[nat d := f\<lparr>offset := off\<rparr>]) s1))"

text \<open>The kernel's own static process has pid 0.\<close>

definition sys_getpid_impl :: "sys \<Rightarrow> sysres" where
  "sys_getpid_impl s =
     (let s1 = sys_current_process s; c = process_get_current (sc_sched s1)
      in if c = 0 then Some (0, [], s1)
         else map_option (\<lambda>n. (ucast (pid n), [], s1)) (procs (sc_sched s1) c))"

text \<open>
  \<open>hlt\<close> waits for an interrupt: with interrupts disabled it never continues. The interrupt is the
  timer's.
\<close>

definition hlt :: "bool \<Rightarrow> sys \<Rightarrow> sys option" where
  "hlt iflag s =
     (if iflag then let (p, eq, c) = pit_on_interrupt (sc_pit s) (sc_events s) (sc_sched s)
                    in Some (s\<lparr>sc_pit := p, sc_events := eq, sc_sched := c\<rparr>)
      else None)"

partial_function (option) sleep_loop :: "bool \<Rightarrow> u64 \<Rightarrow> u64 \<Rightarrow> sys \<Rightarrow> sys option" where
  "sleep_loop iflag start wait s =
     (if pit_get_ticks (sc_pit s) - start < wait
      then case hlt iflag s of None \<Rightarrow> None | Some s1 \<Rightarrow> sleep_loop iflag start wait s1
      else Some s)"

definition sys_sleep_impl :: "bool \<Rightarrow> u64 \<Rightarrow> sys \<Rightarrow> sysres" where
  "sys_sleep_impl iflag ms s =
     (let start = pit_get_ticks (sc_pit s); hz = 100;
          w = (ms * hz + 999) div 1000; wait_ticks = (if w = 0 then 1 else w)
      in map_option (\<lambda>s1. (0, [], s1)) (sleep_loop iflag start wait_ticks s))"

definition sys_uptime_impl :: "sys \<Rightarrow> sysres" where
  "sys_uptime_impl s = Some (uptime_seconds (sc_pit s), [], s)"

subsection \<open>The dispatcher\<close>

datatype syscall_entry =
    sys_write_entry | sys_read_entry | sys_get_ticks_entry | sys_exit_entry | sys_open_entry | sys_close_entry
  | sys_lseek_entry | sys_getpid_entry | sys_sleep_entry | sys_uptime_entry

definition run_entry :: "u64 \<Rightarrow> bool \<Rightarrow> syscall_entry \<Rightarrow> u64 \<Rightarrow> u64 \<Rightarrow> u64 \<Rightarrow> sys \<Rightarrow> sysres" where
  "run_entry kend iflag e a1 a2 a3 s =
     (case e of
        sys_write_entry \<Rightarrow> sys_write_impl a1 a2 a3 s
      | sys_read_entry \<Rightarrow> sys_read_impl kend a1 a2 a3 s
      | sys_get_ticks_entry \<Rightarrow> sys_get_ticks_impl s
      | sys_exit_entry \<Rightarrow> sys_exit_impl (int_of a1) s
      | sys_open_entry \<Rightarrow> sys_open_impl kend a1 s
      | sys_close_entry \<Rightarrow> sys_close_impl (int_of a1) s
      | sys_lseek_entry \<Rightarrow> sys_lseek_impl (int_of a1) a2 s
      | sys_getpid_entry \<Rightarrow> sys_getpid_impl s
      | sys_sleep_entry \<Rightarrow> sys_sleep_impl iflag a1 s
      | sys_uptime_entry \<Rightarrow> sys_uptime_impl s)"

definition syscall_table :: "syscall_entry option list" where
  "syscall_table = [None, Some sys_write_entry, Some sys_read_entry, Some sys_get_ticks_entry, Some sys_exit_entry,
     Some sys_open_entry, Some sys_close_entry, Some sys_lseek_entry, Some sys_getpid_entry, Some sys_sleep_entry,
     Some sys_uptime_entry]"

text \<open>The arguments beyond the third are ignored by every entry.\<close>

definition syscall_dispatch :: "u64 \<Rightarrow> bool \<Rightarrow> u64 \<Rightarrow> u64 \<Rightarrow> u64 \<Rightarrow> u64 \<Rightarrow> sys \<Rightarrow> sysres" where
  "syscall_dispatch kend iflag num a1 a2 a3 s =
     (if unat num \<ge> length syscall_table then Some (neg1, [], s)
      else case syscall_table ! unat num of None \<Rightarrow> Some (neg1, [], s)
      | Some e \<Rightarrow> run_entry kend iflag e a1 a2 a3 s)"

subsection \<open>Descriptor tables stay well formed\<close>

definition fds_ok :: "process_fd list \<Rightarrow> bool" where
  "fds_ok t \<longleftrightarrow> length t = PROC_MAX_FDS \<and> (\<forall>i < 3. used (t ! i)) \<and> (\<forall>f \<in> set t. length (fpath f) < 128)"

definition tables_ok :: "sys \<Rightarrow> bool" where
  "tables_ok s \<longleftrightarrow> (\<forall>t \<in> ran (\<lambda>p. map_option fds (procs (sc_sched s) p)). fds_ok t) \<and>
     (\<forall>t. kernel_io s = Some t \<longrightarrow> fds_ok t)"

lemma fds_ok_init: "fds_ok process_init_fds"
  by (auto simp: fds_ok_def process_init_fds_def empty_fd_def PROC_MAX_FDS_def)

lemma fds_ok_update:
  assumes "fds_ok t" "i < PROC_MAX_FDS" "length (fpath f) < 128" "i < 3 \<Longrightarrow> used f"
  shows "fds_ok (t[i := f])"
  using assms set_update_subset_insert [of t i f] by (auto simp: fds_ok_def nth_list_update)

lemma fds_ok_path: "fds_ok t \<Longrightarrow> i < PROC_MAX_FDS \<Longrightarrow> length (fpath (t ! i)) < 128"
  by (simp add: fds_ok_def)

lemma cur_fds_ok: "tables_ok s \<Longrightarrow> cur_fds s = Some t \<Longrightarrow> fds_ok t"
  by (auto simp: tables_ok_def cur_fds_def Let_def ran_def split: if_splits)

lemma procs_put_vfs [simp]: "procs (sc_sched (put_vfs v s)) = procs (sc_sched s)"
  "current (sc_sched (put_vfs v s)) = current (sc_sched s)" "kernel_io (put_vfs v s) = kernel_io s"
  "sc_mem (put_vfs v s) = sc_mem s" "sc_vfs (put_vfs v s) = v"
  by (simp_all add: put_vfs_def with_heap_def)

lemma cur_fds_put_vfs [simp]: "cur_fds (put_vfs v s) = cur_fds s"
  by (simp add: cur_fds_def process_get_current_def scheduler_get_current_def Let_def)

lemma tables_put_vfs [simp]: "tables_ok (put_vfs v s) = tables_ok s"
  by (simp add: tables_ok_def)

lemma tables_current [simp]: "tables_ok s \<Longrightarrow> tables_ok (sys_current_process s)"
  by (simp add: tables_ok_def sys_current_process_def fds_ok_init)

lemma tables_set_fds:
  assumes "tables_ok s" "fds_ok t"
  shows "tables_ok (set_fds t s)"
  using assms
  by (auto simp: tables_ok_def set_fds_def Let_def ran_def procs_upd_proc option.map_comp o_def split: if_splits)

lemma tables_frame: "procs (sc_sched s') = procs (sc_sched s) \<Longrightarrow> kernel_io s' = kernel_io s \<Longrightarrow> tables_ok s' = tables_ok s"
  by (simp add: tables_ok_def)

lemma get_fd_ok:
  assumes "sys_get_fd t d = Some f"
  shows "f = t ! nat d" "nat d < PROC_MAX_FDS" "used f"
  using assms by (auto simp: sys_get_fd_def split: if_splits)

lemma exit_keeps_fds:
  assumes "process_exit_current_status code s = Some s'"
  shows "map_option fds (procs s' p) = map_option fds (procs s p)"
proof -
  have u: "map_option fds (procs (upd_proc q g t) a) = map_option fds (procs t a)" if "\<And>n. fds (g n) = fds n" for q g t a
    using that by (simp add: procs_upd_proc option.map_comp o_def)
  have rm: "map_option fds (procs t' a) = map_option fds (procs t a)" if "scheduler_remove_current t = Some t'" for t t' a
    using that unfolding scheduler_remove_current_def unlink_def
    by (auto simp: Let_def u split: option.splits if_split_asm prod.splits)
  show ?thesis
  proof (cases "current s = 0")
    case True
    with assms show ?thesis by (simp add: process_exit_current_status_def)
  next
    case False
    then obtain s1 where s1: "scheduler_remove_current (upd_proc (current s) (\<lambda>n. n\<lparr>exit_code := code, pstate := PROC_TERMINATED\<rparr>) s) = Some s1"
      "scheduler_yield s1 = Some s'" using assms by (auto simp: process_exit_current_status_def split: option.splits)
    have "map_option fds (procs s' p) = map_option fds (procs s1 p)" by (rule yield_keeps [OF s1(2)]) simp_all
    also have "\<dots> = map_option fds (procs s p)" by (simp add: rm [OF s1(1)] u)
    finally show ?thesis .
  qed
qed

lemma hlt_tables: "hlt iflag s = Some s' \<Longrightarrow> procs (sc_sched s') = procs (sc_sched s) \<and> kernel_io s' = kernel_io s"
  by (auto simp: hlt_def pit_on_interrupt_def scheduler_tick_def Let_def split: if_splits)

lemma sleep_tables: "sleep_loop iflag start w s = Some s' \<Longrightarrow> procs (sc_sched s') = procs (sc_sched s) \<and> kernel_io s' = kernel_io s"
proof (induction rule: sleep_loop.raw_induct [rotated, consumes 1])
  case (1 sl iflag start w s s')
  then show ?case by (auto split: if_splits option.splits dest: hlt_tables)
qed

lemma free_slot_Some:
  assumes "free_slot t = Some i"
  shows "3 \<le> i" "i < PROC_MAX_FDS" "\<not> used (t ! i)" "\<And>j. 3 \<le> j \<Longrightarrow> j < i \<Longrightarrow> used (t ! j)"
proof -
  obtain k where k: "k < length [3..<PROC_MAX_FDS]" "\<not> used (t ! ([3..<PROC_MAX_FDS] ! k))" "i = [3..<PROC_MAX_FDS] ! k"
    "\<forall>j < k. \<not> \<not> used (t ! ([3..<PROC_MAX_FDS] ! j))"
    using assms unfolding free_slot_def find_Some_iff by blast
  then have i: "i = 3 + k" by simp
  show "3 \<le> i" "i < PROC_MAX_FDS" "\<not> used (t ! i)" using k i by auto
  show "used (t ! j)" if "3 \<le> j" "j < i" for j
    using k(1,4) that i by (auto dest: spec [where x = "j - 3"])
qed

lemma free_slot_None: "free_slot t = None \<Longrightarrow> 3 \<le> j \<Longrightarrow> j < PROC_MAX_FDS \<Longrightarrow> used (t ! j)"
  by (auto simp: free_slot_def find_None_iff)


subsection \<open>Reading a file through a descriptor\<close>

text \<open>The file of a path reads the same whatever happens to the heap, as long as there is room for the tokens.\<close>

definition file_at :: "vfs \<Rightarrow> string \<Rightarrow> u8 list \<Rightarrow> bool" where
  "file_at v p d \<longleftrightarrow> (\<exists>r n. resolve_spec v p (vfs_get_root v) = Some r \<and> r \<noteq> 0 \<and> nodes v r = Some n \<and>
     vtype n = VFS_FILE \<and> vdata n = Some d \<and> vsize n = of_nat (length d))"

lemma file_at_heap [simp]: "file_at (v\<lparr>vheap := h\<rparr>) p d = file_at v p d"
  by (simp add: file_at_def resolve_spec_def vfs_get_root_def)

lemma read_file_at:
  assumes "file_at v p d" "is_cstr p" "room kend v (9 * length p + k)"
  shows "\<exists>h. vfs_read_file kend (Some p) (vfs_get_root v) v = Some ((Some d, Some (of_nat (length d))), v\<lparr>vheap := h\<rparr>) \<and>
    room kend (v\<lparr>vheap := h\<rparr>) k"
proof -
  have "room kend v (9 * length p)" by (rule room_mono [OF assms(3)]) simp
  from vfs_resolve_eq [OF assms(2) this, of "vfs_get_root v"] obtain h where
    h: "vfs_resolve kend (Some p) (vfs_get_root v) v = map_option (\<lambda>r. (r, v\<lparr>vheap := h\<rparr>)) (resolve_spec v p (vfs_get_root v))"
    "heap_inv kend h" "heap_brk kend h \<le> brk kend v + 9 * length p" by blast
  then show ?thesis using assms(1,3)
    by (intro exI [where x = h]) (auto simp: file_at_def vfs_read_file_def room_def)
qed

lemma store_bytes_other: "(\<And>i. i < length bs \<Longrightarrow> b \<noteq> a + of_nat i) \<Longrightarrow> store_bytes a bs m b = m b"
proof (induction bs arbitrary: a m)
  case Nil
  then show ?case by simp
next
  case (Cons x bs)
  have "b \<noteq> a" using Cons.prems [of 0] by simp
  moreover have "b \<noteq> a + 1 + of_nat i" if "i < length bs" for i
    using Cons.prems [of "Suc i"] that by (simp add: add.assoc)
  ultimately have "store_bytes (a + 1) bs (m(a := x)) b = (m(a := x)) b" by (intro Cons.IH)
  with \<open>b \<noteq> a\<close> show ?case by simp
qed

lemma bytes_at_store: "length bs < 2 ^ 64 \<Longrightarrow> bytes_at (store_bytes a bs m) a (length bs) = bs"
proof (induction bs arbitrary: a m)
  case Nil
  then show ?case by (simp add: bytes_at_def)
next
  case (Cons x bs)
  have IH: "bytes_at (store_bytes (a + 1) bs (m(a := x))) (a + 1) (length bs) = bs" using Cons by simp
  have "a \<noteq> a + 1 + of_nat i" if "i < length bs" for i
  proof
    assume "a = a + 1 + of_nat i"
    then have "(of_nat (Suc i) :: u64) = 0" by (simp add: algebra_simps)
    then have "unat (of_nat (Suc i) :: u64) = 0" by (simp del: of_nat_Suc)
    moreover have "unat (of_nat (Suc i) :: u64) = Suc i" by (rule unat_of_nat_small) (use that Cons.prems in simp)
    ultimately show False by simp
  qed
  then have "store_bytes (a + 1) bs (m(a := x)) a = x" by (subst store_bytes_other) simp_all
  moreover have "bytes_at n a (Suc k) = n a # bytes_at n (a + 1) k" for n k
    by (simp add: bytes_at_def upt_conv_Cons map_Suc_upt [symmetric] add.assoc del: upt_Suc)
  ultimately show ?case using IH by simp
qed

text \<open>Descriptor \<open>i\<close> of the running code is open on \<open>path\<close> at position \<open>k\<close>.\<close>

definition fd_open :: "sys \<Rightarrow> nat \<Rightarrow> string \<Rightarrow> nat \<Rightarrow> bool" where
  "fd_open s i path k \<longleftrightarrow> 3 \<le> i \<and> i < PROC_MAX_FDS \<and>
     (\<exists>t. cur_fds s = Some t \<and> length t = PROC_MAX_FDS \<and> used (t ! i) \<and> fpath (t ! i) = path \<and> offset (t ! i) = of_nat k)"

lemma sys_current_open: "cur_fds s = Some t \<Longrightarrow> sys_current_process s = s"
  by (auto simp: cur_fds_def sys_current_process_def Let_def split: if_splits)

lemma cur_fds_set:
  assumes "cur_fds s = Some t"
  shows "cur_fds (set_fds t' (s\<lparr>sc_mem := m\<rparr>)) = Some t'" "sc_vfs (set_fds t' (s\<lparr>sc_mem := m\<rparr>)) = sc_vfs s"
    "sc_mem (set_fds t' (s\<lparr>sc_mem := m\<rparr>)) = m"
  using assms
  by (auto simp: cur_fds_def set_fds_def Let_def process_get_current_def scheduler_get_current_def procs_upd_proc split: if_splits)

lemma int_of_small: "n < 2 ^ 31 \<Longrightarrow> int_of (of_nat n) = int n"
  by (simp add: int_of_def sint_uint unsigned_ucast_eq unsigned_of_nat take_bit_nat_eq_self signed_take_bit_eq_if_positive
      bit_iff_odd div_eq_0_iff of_nat_take_bit [symmetric])

lemma word_of_unat: "of_nat (unat w) = (w :: u64)"
  by simp

lemma read_step:
  assumes o: "fd_open s i path k" and f: "file_at (sc_vfs s) path d" "is_cstr path" "length d < 2 ^ 64" "k \<le> length d"
    and rm: "room kend (sc_vfs s) (9 * length path + c)" and a: "buf \<noteq> 0" "n \<noteq> 0"
  shows "\<exists>s' h. sys_read_impl kend (of_nat i) buf n s = Some (of_nat (min (unat n) (length d - k)), [], s') \<and>
    bytes_at (sc_mem s') buf (min (unat n) (length d - k)) = List.take (unat n) (drop k d) \<and>
    fd_open s' i path (k + min (unat n) (length d - k)) \<and> sc_vfs s' = (sc_vfs s)\<lparr>vheap := h\<rparr> \<and> room kend (sc_vfs s') c"
proof -
  obtain t where t: "cur_fds s = Some t" "length t = PROC_MAX_FDS" "used (t ! i)" "fpath (t ! i) = path"
    "offset (t ! i) = of_nat k" and i: "3 \<le> i" "i < PROC_MAX_FDS" using o by (auto simp: fd_open_def)
  have i16: "i < 16" using i by (simp add: PROC_MAX_FDS_def)
  then have io: "int_of (of_nat i) = int i" by (intro int_of_small) simp
  have cp: "sys_current_process s = s" by (rule sys_current_open [OF t(1)])
  have gf: "sys_get_fd t (int i) = Some (t ! i)" using i t(3) by (simp add: sys_get_fd_def)
  have nz: "(of_nat i :: u64) \<noteq> 0"
  proof
    assume z: "(of_nat i :: u64) = 0"
    have "unat (of_nat i :: u64) = i" using i16 by (intro unat_of_nat_small) simp
    with z i show False by simp
  qed
  let ?g = "length d"
  have un: "unat (of_nat m :: u64) = m" if "m \<le> ?g" for m using that f(3) by (intro unat_of_nat_small) simp
  obtain h where h: "vfs_read_file kend (Some path) (vfs_get_root (sc_vfs s)) (sc_vfs s)
      = Some ((Some d, Some (of_nat ?g)), (sc_vfs s)\<lparr>vheap := h\<rparr>)" "room kend ((sc_vfs s)\<lparr>vheap := h\<rparr>) c"
    using read_file_at [OF f(1,2) rm] by blast
  let ?v = "(sc_vfs s)\<lparr>vheap := h\<rparr>" and ?r = "min (unat n) (?g - k)"
  show ?thesis
  proof (cases "k = ?g")
    case True
    then have "sys_read_impl kend (of_nat i) buf n s = Some (0, [], put_vfs ?v s)"
      using a nz cp t io gf h(1) by (simp add: sys_read_impl_def Let_def)
    with True h(2) o show ?thesis
      by (intro exI [where x = "put_vfs ?v s"] exI [where x = h]) (simp add: fd_open_def bytes_at_def)
  next
    case False
    then have k: "k < ?g" using f(4) by simp
    then have lt: "(of_nat k :: u64) < of_nat ?g" using un by (simp add: word_less_nat_alt)
    have av: "unat (of_nat ?g - of_nat k :: u64) = ?g - k"
      using lt un k by (subst unat_minus_exact) (simp_all add: word_le_nat_alt)
    let ?tr = "if n < of_nat ?g - of_nat k then n else of_nat ?g - of_nat k"
    have tr: "unat ?tr = ?r" using av by (simp add: word_less_nat_alt min_def)
    have tre: "?tr = of_nat ?r" using word_of_unat [of ?tr] unfolding tr by (rule sym)
    have off: "(of_nat k :: u64) + of_nat ?r = of_nat (k + ?r)" by simp
    let ?s = "set_fds (t[i := (t ! i)\<lparr>offset := of_nat (k + ?r)\<rparr>])
        ((put_vfs ?v s)\<lparr>sc_mem := store_bytes buf (List.take ?r (drop k d)) (sc_mem s)\<rparr>)"
    have ct: "cur_fds (put_vfs ?v s) = Some t" using t(1) by simp
    have "sys_read_impl kend (of_nat i) buf n s = Some (of_nat ?r, [], ?s)"
    proof -
      have "\<not> of_nat ?g \<le> (of_nat k :: u64)" using lt by simp
      moreover have "\<not> ?g < unat (of_nat k :: u64) + unat ?tr" using tr un k by simp
      ultimately show ?thesis
        using a nz cp t(1,4,5) io gf h(1) tr un [of k] k
        unfolding sys_read_impl_def by (simp only: Let_def option.case prod.case if_False procs_put_vfs tre off de_Morgan_disj
            nat_int simp_thms if_not_P order.strict_implies_order)
    qed
    moreover have "fd_open ?s i path (k + ?r)"
      using cur_fds_set(1) [OF ct] i t by (simp add: fd_open_def)
    moreover have "sc_vfs ?s = ?v" using cur_fds_set(2) [OF ct] by simp
    moreover have "bytes_at (sc_mem ?s) buf ?r = List.take (unat n) (drop k d)"
    proof -
      have l: "length (List.take ?r (drop k d)) = ?r" by simp
      have "bytes_at (sc_mem ?s) buf ?r = List.take ?r (drop k d)"
        using bytes_at_store [of "List.take ?r (drop k d)" buf "sc_mem s"] f(3) k unfolding l cur_fds_set(3) [OF ct] by simp
      also have "\<dots> = List.take (unat n) (drop k d)" by (simp add: min_def)
      finally show ?thesis .
    qed
    ultimately show ?thesis using h(2) by (intro exI [where x = ?s] exI [where x = h]) simp
  qed
qed

text \<open>Successive reads into one buffer; the result is what each of them left in the buffer.\<close>

fun read_all :: "u64 \<Rightarrow> bool \<Rightarrow> u64 \<Rightarrow> u64 \<Rightarrow> u64 list \<Rightarrow> sys \<Rightarrow> (u8 list \<times> sys) option" where
  "read_all kend iflag d buf [] s = Some ([], s)"
| "read_all kend iflag d buf (n # ns) s =
     (case syscall_dispatch kend iflag 2 d buf n s of None \<Rightarrow> None
      | Some (r, out, s1) \<Rightarrow>
        map_option (\<lambda>(bs, s2). (bytes_at (sc_mem s1) buf (unat r) @ bs, s2)) (read_all kend iflag d buf ns s1))"

lemma dispatch_read: "syscall_dispatch kend iflag 2 d buf n s = sys_read_impl kend d buf n s"
  by (simp add: syscall_dispatch_def syscall_table_def run_entry_def)


lemma cur_fds_replaced: "cur_fds s = Some t \<Longrightarrow> cur_fds (set_fds t' s) = Some t'"
  using cur_fds_set(1) [of s t t' "sc_mem s"] by simp

text \<open>The effect of opening a file that exists.\<close>

lemma open_call:
  assumes "cur_fds (sys_current_process s) = Some t" and "a \<noteq> 0" "cstr_at (sc_mem s) a = Some p" "p \<noteq> []" "is_cstr p"
    and "file_at (sc_vfs s) p d" "room kend (sc_vfs s) (9 * length p + k)"
  shows "\<exists>s2 h. cur_fds s2 = Some t \<and> sc_vfs s2 = (sc_vfs s)\<lparr>vheap := h\<rparr> \<and> room kend (sc_vfs s2) k \<and>
    syscall_dispatch kend iflag 5 a flags x s =
      (case free_slot t of None \<Rightarrow> Some (neg1, [], s2)
       | Some i \<Rightarrow> Some (of_nat i, [], set_fds (t[i := (t ! i)\<lparr>used := True, offset := 0, fpath := List.take 127 p\<rparr>]) s2))"
proof -
  let ?c = "sys_current_process s"
  have v: "sc_vfs ?c = sc_vfs s" "sc_mem ?c = sc_mem s" by (simp_all add: sys_current_process_def)
  from read_file_at [OF assms(6,5,7)] obtain h where
    h: "vfs_read_file kend (Some p) (vfs_get_root (sc_vfs s)) (sc_vfs s) = Some ((Some d, Some (of_nat (length d))), (sc_vfs s)\<lparr>vheap := h\<rparr>)"
      "room kend ((sc_vfs s)\<lparr>vheap := h\<rparr>) k" by blast
  let ?s2 = "put_vfs ((sc_vfs s)\<lparr>vheap := h\<rparr>) ?c"
  have t2: "cur_fds ?s2 = Some t" using assms(1) by simp
  have "syscall_dispatch kend iflag 5 a flags x s =
      (case free_slot t of None \<Rightarrow> Some (neg1, [], ?s2)
       | Some i \<Rightarrow> Some (of_nat i, [], set_fds (t[i := (t ! i)\<lparr>used := True, offset := 0, fpath := List.take 127 p\<rparr>]) ?s2))"
    using assms(2-4) h(1) v t2
    by (simp add: syscall_dispatch_def syscall_table_def run_entry_def sys_open_impl_def Let_def)
  then show ?thesis using t2 h(2) by (intro exI [of _ ?s2] exI [of _ h]) (simp add: put_vfs_def)
qed

text \<open>
  Opening a file takes the lowest free descriptor from 3 up, at position 0 with the path cut to
  127 characters, and changes no other slot; when all are taken it returns -1 and changes nothing.
\<close>

theorem sys_open_lowest:
  assumes "cur_fds (sys_current_process s) = Some t" and "a \<noteq> 0" "cstr_at (sc_mem s) a = Some p" "p \<noteq> []" "is_cstr p"
    and "file_at (sc_vfs s) p d" "room kend (sc_vfs s) (9 * length p)"
  shows "\<exists>r s'. syscall_dispatch kend iflag 5 a flags x s = Some (r, [], s') \<and>
    (if \<forall>j. 3 \<le> j \<and> j < PROC_MAX_FDS \<longrightarrow> used (t ! j) then r = neg1 \<and> cur_fds s' = Some t
     else \<exists>i. r = of_nat i \<and> 3 \<le> i \<and> i < PROC_MAX_FDS \<and> \<not> used (t ! i) \<and>
       (\<forall>j. 3 \<le> j \<and> j < i \<longrightarrow> used (t ! j)) \<and>
       cur_fds s' = Some (t[i := (t ! i)\<lparr>used := True, offset := 0, fpath := List.take 127 p\<rparr>]))"
proof -
  have "room kend (sc_vfs s) (9 * length p + 0)" using assms(7) by simp
  from open_call [OF assms(1-6) this, of iflag flags x] obtain s2 where t2: "cur_fds s2 = Some t"
    and run: "syscall_dispatch kend iflag 5 a flags x s =
      (case free_slot t of None \<Rightarrow> Some (neg1, [], s2)
       | Some i \<Rightarrow> Some (of_nat i, [], set_fds (t[i := (t ! i)\<lparr>used := True, offset := 0, fpath := List.take 127 p\<rparr>]) s2))" by blast
  show ?thesis
  proof (cases "free_slot t")
    case None
    then show ?thesis using run t2 free_slot_None [OF None] by auto
  next
    case (Some i)
    note i = free_slot_Some [OF Some]
    have "cur_fds (set_fds (t[i := (t ! i)\<lparr>used := True, offset := 0, fpath := List.take 127 p\<rparr>]) s2) =
        Some (t[i := (t ! i)\<lparr>used := True, offset := 0, fpath := List.take 127 p\<rparr>])"
      by (rule cur_fds_replaced [OF t2])
    moreover have "\<not> (\<forall>j. 3 \<le> j \<and> j < PROC_MAX_FDS \<longrightarrow> used (t ! j))" using i(1-3) by blast
    ultimately show ?thesis using run Some i by (simp only: if_False option.case) blast
  qed
qed

text \<open>The ticks a sleep of \<open>ms\<close> milliseconds waits for, at the fixed rate of 100 per second.\<close>

definition sleep_ticks :: "u64 \<Rightarrow> nat" where
  "sleep_ticks ms = max 1 ((unat ms * 100 + 999) div 1000)"

lemma sleep_loop_runs:
  assumes "unat (pit_ticks (sc_pit s) - start) + n = unat w"
  shows "\<exists>s'. sleep_loop True start w s = Some s' \<and> pit_ticks (sc_pit s') = pit_ticks (sc_pit s) + of_nat n"
  using assms
proof (induction n arbitrary: s)
  case 0
  then have "\<not> pit_ticks (sc_pit s) - start < w" by (simp add: word_less_nat_alt)
  then show ?case by (subst sleep_loop.simps) (simp add: pit_get_ticks_def)
next
  case (Suc n)
  then have lt: "pit_ticks (sc_pit s) - start < w" by (simp add: word_less_nat_alt)
  obtain s1 where s1: "hlt True s = Some s1" "pit_ticks (sc_pit s1) = pit_ticks (sc_pit s) + 1"
    by (simp add: hlt_def pit_on_interrupt_def Let_def)
  have "pit_ticks (sc_pit s1) - start = (pit_ticks (sc_pit s) - start) + 1" using s1(2) by (simp add: algebra_simps)
  moreover have "unat ((pit_ticks (sc_pit s) - start) + 1) = unat (pit_ticks (sc_pit s) - start) + 1"
    using Suc.prems unat_lt_64 [of w] by (subst unat_plus_exact) (simp_all del: unat_lt_64)
  ultimately have "unat (pit_ticks (sc_pit s1) - start) = unat (pit_ticks (sc_pit s) - start) + 1" by (simp only:)
  then have "unat (pit_ticks (sc_pit s1) - start) + n = unat w" using Suc.prems by linarith
  from Suc.IH [OF this] obtain s' where "sleep_loop True start w s1 = Some s'"
    "pit_ticks (sc_pit s') = pit_ticks (sc_pit s1) + of_nat n" by blast
  then show ?case using lt s1 by (subst sleep_loop.simps) (simp add: pit_get_ticks_def algebra_simps)
qed

text \<open>
  A sleep returns 0 after exactly the ticks the rounded-up duration needs (at least one) when
  the timer can interrupt; called with interrupts disabled, as the \<open>int 0x80\<close> interrupt gate and the
  keyboard handler do, it never returns.
\<close>

theorem sys_sleep_waits:
  assumes "unat ms < 2 ^ 50"
  shows "(\<exists>s'. syscall_dispatch kend True 9 ms y z s = Some (0, [], s') \<and>
      pit_ticks (sc_pit s') = pit_ticks (sc_pit s) + of_nat (sleep_ticks ms)) \<and>
    syscall_dispatch kend False 9 ms y z s = None"
proof -
  let ?w = "(ms * 100 + 999) div 1000" and ?start = "pit_ticks (sc_pit s)"
  let ?t = "if ?w = 0 then 1 else ?w"
  have "unat (ms * 100) = unat ms * 100" using assms by (subst unat_mult_exact) simp_all
  then have "unat (ms * 100 + 999) = unat ms * 100 + 999" using assms by (subst unat_plus_exact) simp_all
  then have w: "unat ?w = (unat ms * 100 + 999) div 1000" by (simp add: unat_div_distrib)
  have t: "unat ?t = sleep_ticks ms"
    unfolding sleep_ticks_def w [symmetric] by (auto simp: unat_gt_0 [symmetric] max_def simp del: unat_gt_0)
  have run: "syscall_dispatch kend b 9 ms y z s = map_option (\<lambda>s1. (0, [], s1)) (sleep_loop b ?start ?t s)" for b
    by (simp add: syscall_dispatch_def syscall_table_def run_entry_def sys_sleep_impl_def Let_def pit_get_ticks_def)
  obtain s' where "sleep_loop True ?start ?t s = Some s'" "pit_ticks (sc_pit s') = ?start + of_nat (sleep_ticks ms)"
    using sleep_loop_runs [of s ?start "sleep_ticks ms" ?t] t by auto
  moreover have "?t > 0" using t by (simp add: word_less_nat_alt sleep_ticks_def)
  then have "sleep_loop False ?start ?t s = None" by (subst sleep_loop.simps) (simp add: pit_get_ticks_def hlt_def)
  ultimately show ?thesis using run by simp
qed

subsection \<open>A concrete state\<close>

text \<open>The kernel's own table, with \<open>/a\<close> open as descriptor 3.\<close>

definition demo_files :: vfs where
  "demo_files = \<lparr>nodes = [0x200000 \<mapsto> \<lparr>vname = Some '''', vtype = VFS_DIR, vparent = 0, vchildren = 0x200040,
        vnext = 0, vdata = None, vsize = 0\<rparr>,
      0x200040 \<mapsto> \<lparr>vname = Some ''a'', vtype = VFS_FILE, vparent = 0x200000, vchildren = 0,
        vnext = 0, vdata = Some [104, 105, 106, 107, 108], vsize = 5\<rparr>],
     vfs_root = 0x200000, vheap = \<lparr>heap_base = 0x200000, heap_ptr = 0x200080, heap_limit = 0xA00000\<rparr>\<rparr>"

definition demo_table :: "process_fd list" where
  "demo_table = process_init_fds[3 := \<lparr>used = True, fd = 3, offset = 0, fpath = ''/a''\<rparr>]"

definition demo_sys :: sys where
  "demo_sys = \<lparr>sc_sched = demo_blank, sc_vfs = demo_files, sc_pit = \<lparr>pit_ticks = 7, pit_frequency = 100\<rparr>,
     sc_events = events_static, sc_mem = (\<lambda>a. if a = 0x1000 then 47 else if a = 0x1001 then 97 else 0),
     kernel_io = Some demo_table\<rparr>"

lemma demo_file: "file_at demo_files ''/a'' [104, 105, 106, 107, 108]"
proof -
  have "strcmp ''a'' ''..'' \<noteq> 0" "strcmp ''a'' ''.'' \<noteq> 0" "strcmp ''a'' ''a'' = 0" by code_simp+
  then have "resolve_spec demo_files ''/a'' (vfs_get_root demo_files) = Some 0x200040"
    by (simp add: resolve_spec_def path_tokens_def MAX_TOKENS_def demo_files_def vfs_get_root_def vfs_find_child_def
        find_sibling.simps)
  then show ?thesis by (simp add: file_at_def demo_files_def)
qed

lemma demo_files_room: "n \<le> 8000000 \<Longrightarrow> room 0x200000 demo_files n"
  by (simp add: room_def demo_files_def heap_inv_def heap_brk_def kend_ok_def KERNEL_HEAP_SIZE_def)

lemma demo_sys_tables: "tables_ok demo_sys"
proof -
  have "fds_ok demo_table"
    unfolding demo_table_def by (rule fds_ok_update [OF fds_ok_init]) (simp_all add: PROC_MAX_FDS_def)
  then show ?thesis by (simp add: tables_ok_def demo_sys_def demo_blank_def scheduler_init_def)
qed

lemma demo_table_facts: "length demo_table = PROC_MAX_FDS" "used (demo_table ! 3)" "\<not> used (demo_table ! 4)"
  "fpath (demo_table ! 3) = ''/a''" "offset (demo_table ! 3) = 0"
  by (simp_all add: demo_table_def process_init_fds_def empty_fd_def PROC_MAX_FDS_def)

lemma demo_cur_fds: "cur_fds demo_sys = Some demo_table" "sys_current_process demo_sys = demo_sys"
  by (simp_all add: cur_fds_def sys_current_process_def demo_sys_def demo_blank_def scheduler_init_def
      process_get_current_def scheduler_get_current_def)

lemma demo_open: "fd_open demo_sys 3 ''/a'' 0"
  using demo_table_facts by (simp add: fd_open_def demo_cur_fds) (simp add: PROC_MAX_FDS_def)



lemma sys_open_lowest_witness:
  "\<exists>s'. syscall_dispatch 0x200000 True 5 0x1000 0 0 demo_sys = Some (4, [], s')"
proof -
  let ?t = demo_table
  have t: "cur_fds (sys_current_process demo_sys) = Some ?t" by (simp add: demo_cur_fds)
  have "byte_char 47 = CHR ''/''" "byte_char 97 = CHR ''a''" "byte_char 0 = NUL" unfolding byte_char_def by code_simp+
  then have p: "cstr_at (sc_mem demo_sys) 0x1000 = Some ''/a''"
    by (simp add: demo_sys_def cstr_at.simps)
  have u: "used (?t ! 3)" "\<not> used (?t ! 4)" by (rule demo_table_facts)+
  then have n: "\<not> (\<forall>j. 3 \<le> j \<and> j < PROC_MAX_FDS \<longrightarrow> used (?t ! j))" by (auto simp: PROC_MAX_FDS_def intro!: exI [where x = 4])
  obtain r s' where r: "syscall_dispatch 0x200000 True 5 0x1000 0 0 demo_sys = Some (r, [], s')"
    and i: "\<exists>i. r = of_nat i \<and> 3 \<le> i \<and> i < PROC_MAX_FDS \<and> \<not> used (?t ! i) \<and> (\<forall>j. 3 \<le> j \<and> j < i \<longrightarrow> used (?t ! j))"
    using sys_open_lowest [OF t _ p, of "[104, 105, 106, 107, 108]" "0x200000" True 0 0] n demo_file demo_files_room
    by (auto simp: demo_sys_def)
  then obtain i where i: "r = of_nat i" "3 \<le> i" "\<not> used (?t ! i)" "\<forall>j. 3 \<le> j \<and> j < i \<longrightarrow> used (?t ! j)" by blast
  have "i \<noteq> 3" using i(3) u(1) by auto
  moreover have "\<not> 4 < i" using i(4) u(2) by auto
  ultimately have "i = 4" using i(2) by linarith
  then show ?thesis using r i(1) by auto
qed

lemma sys_sleep_waits_witness:
  "\<exists>s'. syscall_dispatch 0x200000 True 9 25 0 0 demo_sys = Some (0, [], s') \<and> pit_ticks (sc_pit s') = 10"
proof -
  have "sleep_ticks 25 = 3" by (simp add: sleep_ticks_def)
  with sys_sleep_waits [of 25 "0x200000" 0 0 demo_sys] show ?thesis by (auto simp: demo_sys_def)
qed

end
