(* ===== verification/Disk.thy ===== *)
theory Disk
  imports Vfs
begin

text \<open>
  The disk stack: the ATA driver (\<open>kernel/drivers/ata/ata.c\<close>), the block-device registry
  (\<open>kernel/drivers/block/block.c\<close>), the partition table (\<open>kernel/fs/mbr.c\<close>) and the read-only FAT32
  reader that copies a volume into the file system (\<open>kernel/fs/fat32.c\<close>). Reading a sector returns
  the error code and the bytes it stored. A busy wait that never ends, an access outside a buffer
  and an exhausted recursion bound are \<open>None\<close>.
\<close>

subsection \<open>Block devices\<close>

type_synonym sector_reader = "u64 \<Rightarrow> io \<Rightarrow> (int \<times> u8 list \<times> io) option"

record block_device =
  bd_name :: "string option"
  bd_block_size :: u64
  bd_read :: "sector_reader option"

definition block_register :: "block_device option \<Rightarrow> block_device option \<times> console_op list" where
  "block_register dev =
     (dev, case dev of None \<Rightarrow> [] | Some d \<Rightarrow> if bd_name d \<noteq> None then log_info ''[BLOCK] device registered'' else [])"

definition block_get_primary :: "block_device option \<Rightarrow> block_device option" where
  "block_get_primary primary_dev = primary_dev"

subsection \<open>The ATA driver\<close>

definition ATA_PRIMARY_BASE :: u16 where "ATA_PRIMARY_BASE = 0x1F0"
definition ATA_PRIMARY_CTRL :: u16 where "ATA_PRIMARY_CTRL = 0x3F6"
definition ATA_REG_DATA :: u16 where "ATA_REG_DATA = 0"
definition ATA_REG_SECCNT :: u16 where "ATA_REG_SECCNT = 2"
definition ATA_REG_LBA0 :: u16 where "ATA_REG_LBA0 = 3"
definition ATA_REG_LBA1 :: u16 where "ATA_REG_LBA1 = 4"
definition ATA_REG_LBA2 :: u16 where "ATA_REG_LBA2 = 5"
definition ATA_REG_DEV :: u16 where "ATA_REG_DEV = 6"
definition ATA_REG_STATUS :: u16 where "ATA_REG_STATUS = 7"
definition ATA_REG_COMMAND :: u16 where "ATA_REG_COMMAND = 7"
definition ATA_CMD_READ_PIO :: u8 where "ATA_CMD_READ_PIO = 0x20"
definition ATA_CMD_IDENTIFY :: u8 where "ATA_CMD_IDENTIFY = 0xEC"
definition ATA_SR_BSY :: u8 where "ATA_SR_BSY = 0x80"
definition ATA_SR_DRQ :: u8 where "ATA_SR_DRQ = 0x08"
definition ATA_SR_ERR :: u8 where "ATA_SR_ERR = 0x01"

definition ata_delay :: "device \<Rightarrow> io \<Rightarrow> io" where
  "ata_delay dev io = (let rd = \<lambda>io. snd (inb dev ATA_PRIMARY_CTRL io) in rd (rd (rd (rd io))))"

definition read_status :: "device \<Rightarrow> io \<Rightarrow> u8 \<times> io" where
  "read_status dev io = inb dev (ATA_PRIMARY_BASE + ATA_REG_STATUS) io"

partial_function (option) ata_poll_status :: "device \<Rightarrow> io \<Rightarrow> (u8 \<times> io) option" where
  "ata_poll_status dev io =
     (let (status, io1) = read_status dev io
      in if status AND ATA_SR_BSY \<noteq> 0 then ata_poll_status dev (ata_delay dev io1) else Some (status, io1))"

text \<open>The wait for the data-request bit.\<close>

partial_function (option) ata_wait_drq :: "device \<Rightarrow> io \<Rightarrow> io option" where
  "ata_wait_drq dev io =
     (let (status, io1) = read_status dev io
      in if status AND ATA_SR_DRQ = 0 then ata_wait_drq dev io1 else Some io1)"

text \<open>\<open>n\<close> data words, each stored low byte first.\<close>

fun read_words :: "device \<Rightarrow> nat \<Rightarrow> io \<Rightarrow> u8 list \<times> io" where
  "read_words dev 0 io = ([], io)"
| "read_words dev (Suc n) io =
     (let (w, io1) = inw_port dev (ATA_PRIMARY_BASE + ATA_REG_DATA) io; (bs, io2) = read_words dev n io1
      in (ucast w # ucast (drop_bit 8 w) # bs, io2))"

text \<open>\<open>buf\<close> tells whether the buffer pointer is not NULL.\<close>

definition ata_read_sector :: "device \<Rightarrow> u64 \<Rightarrow> bool \<Rightarrow> io \<Rightarrow> (int \<times> u8 list \<times> io) option" where
  "ata_read_sector dev lba buf io =
     (if \<not> buf then Some (- 1, [], io)
      else if lba > 0x0FFFFFFF then Some (- 2, [], io)
      else let io1 = outb (ATA_PRIMARY_BASE + ATA_REG_COMMAND) ATA_CMD_READ_PIO
             (outb (ATA_PRIMARY_BASE + ATA_REG_LBA2) (ucast (drop_bit 16 lba AND 0xFF))
             (outb (ATA_PRIMARY_BASE + ATA_REG_LBA1) (ucast (drop_bit 8 lba AND 0xFF))
             (outb (ATA_PRIMARY_BASE + ATA_REG_LBA0) (ucast (lba AND 0xFF))
             (outb (ATA_PRIMARY_BASE + ATA_REG_SECCNT) 1
             (outb (ATA_PRIMARY_BASE + ATA_REG_DEV) (0xE0 OR ucast (drop_bit 24 lba AND 0x0F)) io)))))
      in case ata_poll_status dev io1 of None \<Rightarrow> None
      | Some (status, io2) \<Rightarrow>
        if status AND ATA_SR_ERR \<noteq> 0 then Some (- 3, [], io2)
        else case ata_wait_drq dev io2 of None \<Rightarrow> None
        | Some io3 \<Rightarrow> let (bs, io4) = read_words dev 256 io3 in Some (0, bs, io4))"

definition ata_block_read_sector :: "device \<Rightarrow> sector_reader" where
  "ata_block_read_sector dev lba io = ata_read_sector dev lba True io"

definition ata_dev :: "device \<Rightarrow> block_device" where
  "ata_dev dev = \<lparr>bd_name = Some ''ata0'', bd_block_size = 512, bd_read = Some (ata_block_read_sector dev)\<rparr>"

text \<open>The identify wait; \<open>Inl\<close> when the error bit came up.\<close>

partial_function (option) ata_identify_wait :: "device \<Rightarrow> u8 \<Rightarrow> io \<Rightarrow> (bool \<times> io) option" where
  "ata_identify_wait dev status io =
     (if status AND (ATA_SR_DRQ OR ATA_SR_ERR) \<noteq> 0 then Some (True, io)
      else let (st, io1) = read_status dev io
      in if st AND ATA_SR_ERR \<noteq> 0 then Some (False, io1) else ata_identify_wait dev st io1)"

text \<open>The return code, the registered device if any, the log output and the trace.\<close>

definition ata_init :: "device \<Rightarrow> io \<Rightarrow> (int \<times> block_device option \<times> console_op list \<times> io) option" where
  "ata_init dev io =
     (let io1 = outb (ATA_PRIMARY_BASE + ATA_REG_COMMAND) ATA_CMD_IDENTIFY
            (outb (ATA_PRIMARY_BASE + ATA_REG_LBA2) 0 (outb (ATA_PRIMARY_BASE + ATA_REG_LBA1) 0
            (outb (ATA_PRIMARY_BASE + ATA_REG_LBA0) 0 (outb (ATA_PRIMARY_BASE + ATA_REG_SECCNT) 0
            (ata_delay dev (outb (ATA_PRIMARY_BASE + ATA_REG_DEV) 0xA0 io))))));
          (status, io2) = read_status dev io1
      in if status = 0 then Some (- 1, None, log_warn ''ATA: no device (status=0)'', io2)
      else case ata_identify_wait dev status io2 of None \<Rightarrow> None
      | Some (ok, io3) \<Rightarrow>
        if \<not> ok then Some (- 1, None, log_error ''ATA: identify failed (ERR)'', io3)
        else let io4 = snd (read_words dev 256 io3); (b, out) = block_register (Some (ata_dev dev))
        in Some (0, b, out @ log_info ''ATA: primary initialized'', io4))"

definition ata_get_blockdev :: "device \<Rightarrow> block_device" where
  "ata_get_blockdev dev = ata_dev dev"

definition ata_selftest_sector0 :: "device \<Rightarrow> io \<Rightarrow> (int \<times> console_op list \<times> io) option" where
  "ata_selftest_sector0 dev io =
     (case ata_read_sector dev 0 True io of None \<Rightarrow> None
      | Some (rc, bs, io1) \<Rightarrow>
        Some (if rc \<noteq> 0 then (rc, log_error ''ATA: sector0 read failed'', io1)
              else (0, log_info ''ATA: sector0 read ok'', io1)))"

subsection \<open>The partition table\<close>

definition MBR_PARTITION_TABLE :: nat where "MBR_PARTITION_TABLE = 446"
definition PART_ENTRY_SIZE :: nat where "PART_ENTRY_SIZE = 16"

definition le16 :: "u8 list \<Rightarrow> nat \<Rightarrow> u16" where
  "le16 b i = le16_of (b ! i) (b ! (i + 1))"

definition le32 :: "u8 list \<Rightarrow> nat \<Rightarrow> u32" where
  "le32 b i = le32_of (b ! i) (b ! (i + 1)) (b ! (i + 2)) (b ! (i + 3))"

fun find_fat32_entry :: "u8 list \<Rightarrow> nat list \<Rightarrow> (u64 \<times> u64) option" where
  "find_fat32_entry buf [] = None"
| "find_fat32_entry buf (i # is) =
     (let ent = MBR_PARTITION_TABLE + i * PART_ENTRY_SIZE; type = buf ! (ent + 4);
          start = le32 buf (ent + 8); sectors = le32 buf (ent + 12)
      in if type = 0x0B \<or> type = 0x0C then Some (ucast start, ucast sectors) else find_fat32_entry buf is)"

text \<open>The return code, the partition it found, the log output and the trace. A device that stores fewer than 512 bytes leaves the rest of the buffer undefined.\<close>

definition mbr_find_fat32_partition ::
  "block_device option \<Rightarrow> io \<Rightarrow> (int \<times> (u64 \<times> u64) option \<times> console_op list \<times> io) option" where
  "mbr_find_fat32_partition dev io =
     (case Option.bind dev bd_read of None \<Rightarrow> Some (- 1, None, [], io)
      | Some rd \<Rightarrow>
        case rd 0 io of None \<Rightarrow> None
        | Some (rc, buf, io1) \<Rightarrow>
          if rc \<noteq> 0 then Some (- 2, None, [], io1)
          else if length buf < 512 then None
          else if buf ! 510 \<noteq> 0x55 \<or> buf ! 511 \<noteq> 0xAA then Some (- 3, None, log_warn ''MBR: invalid signature'', io1)
          else case find_fat32_entry buf [0..<4] of
            Some p \<Rightarrow> Some (0, Some p, log_info ''MBR: FAT32 partition found'', io1)
          | None \<Rightarrow> Some (- 4, None, log_warn ''MBR: no FAT32 partition found'', io1))"

subsection \<open>What a read sends to the drive\<close>

lemma written_inw [simp]: "written p (snd (inw_port dev q io)) = written p io"
  by (simp add: inw_port_def Let_def)

lemma written_delay [simp]: "written p (ata_delay dev io) = written p io"
  by (simp add: ata_delay_def)

lemma written_status [simp]: "written p (snd (read_status dev io)) = written p io"
  by (simp add: read_status_def)

lemma poll_written: "ata_poll_status dev io = Some r \<Longrightarrow> written p (snd r) = written p io"
proof (induction rule: ata_poll_status.raw_induct [rotated, consumes 1])
  case (1 f dev io r)
  obtain s io1 where s: "read_status dev io = (s, io1)" by (cases "read_status dev io")
  then have w: "written p io1 = written p io" by (metis snd_conv written_status)
  show ?case
  proof (cases "s AND ATA_SR_BSY = 0")
    case True
    with 1(2) s w show ?thesis by auto
  next
    case False
    with 1(2) s have "f dev (ata_delay dev io1) = Some r" by simp
    from 1(1) [OF this] w show ?thesis by simp
  qed
qed

lemma drq_written: "ata_wait_drq dev io = Some r \<Longrightarrow> written p r = written p io"
proof (induction rule: ata_wait_drq.raw_induct [rotated, consumes 1])
  case (1 f dev io r)
  obtain s io1 where s: "read_status dev io = (s, io1)" by (cases "read_status dev io")
  then have w: "written p io1 = written p io" by (metis snd_conv written_status)
  show ?case
  proof (cases "s AND ATA_SR_DRQ = 0")
    case False
    with 1(2) s w show ?thesis by auto
  next
    case True
    with 1(2) s have "f dev io1 = Some r" by simp
    from 1(1) [OF this] w show ?thesis by simp
  qed
qed

lemma words_written: "read_words dev n io = (bs, io') \<Longrightarrow> written p io' = written p io \<and> length bs = 2 * n"
proof (induction n arbitrary: io bs)
  case 0
  then show ?case by simp
next
  case (Suc n)
  obtain w io1 where w: "inw_port dev (ATA_PRIMARY_BASE + ATA_REG_DATA) io = (w, io1)"
    by (cases "inw_port dev (ATA_PRIMARY_BASE + ATA_REG_DATA) io")
  then have "written p io1 = written p io" by (metis snd_conv written_inw)
  moreover obtain cs where "read_words dev n io1 = (cs, io')" "bs = ucast w # ucast (drop_bit 8 w) # cs"
    using Suc.prems w by (auto split: prod.splits)
  ultimately show ?case using Suc.IH by auto
qed

lemma words_read:
  "read_words dev n io = (bs, io') \<Longrightarrow> \<exists>ws. length ws = n \<and> io' = rev (map (InW 0x1F0) ws) @ io \<and>
     bs = concat (map (\<lambda>w. [ucast w, ucast (drop_bit 8 w)]) ws)"
proof (induction n arbitrary: io bs)
  case (Suc n)
  obtain w where w: "inw_port dev (ATA_PRIMARY_BASE + ATA_REG_DATA) io = (w, InW 0x1F0 w # io)"
    by (cases "inw_port dev (ATA_PRIMARY_BASE + ATA_REG_DATA) io") (auto simp: inw_port_def Let_def ATA_PRIMARY_BASE_def ATA_REG_DATA_def)
  then obtain cs where cs: "read_words dev n (InW 0x1F0 w # io) = (cs, io')" "bs = ucast w # ucast (drop_bit 8 w) # cs"
    using Suc.prems by (auto split: prod.splits)
  from Suc.IH [OF cs(1)] obtain ws where "length ws = n" "io' = rev (map (InW 0x1F0) ws) @ InW 0x1F0 w # io"
    "cs = concat (map (\<lambda>w. [ucast w, ucast (drop_bit 8 w)]) ws)" by blast
  then show ?case using cs(2) by (intro exI [of _ "w # ws"]) simp
qed simp

text \<open>The sector number the drive sees: 28 bits in four registers.\<close>

definition lba_of_regs :: "u8 \<Rightarrow> u8 \<Rightarrow> u8 \<Rightarrow> u8 \<Rightarrow> u64" where
  "lba_of_regs d l2 l1 l0 =
     push_bit 24 (ucast (d AND 0x0F)) OR push_bit 16 (ucast l2) OR push_bit 8 (ucast l1) OR ucast l0"

lemma lba_split:
  assumes "lba \<le> 0x0FFFFFFF"
  shows "lba_of_regs (0xE0 OR ucast (drop_bit 24 lba AND 0x0F)) (ucast (drop_bit 16 lba AND 0xFF)) (ucast (drop_bit 8 lba AND 0xFF))
    (ucast (lba AND 0xFF)) = lba"
proof (rule bit_word_eqI)
  fix n assume n: "n < LENGTH(64)"
  have m: "(0x0F :: u64) = mask 4" "(0xFF :: u64) = mask 8" "(0x0F :: u8) = mask 4" "(0xE0 :: u8) = push_bit 5 (mask 3)"
    by (simp_all add: mask_eq_exp_minus_1 push_bit_eq_mult)
  have "take_bit 28 lba = lba"
  proof -
    have "unat lba < 2 ^ 28" using assms by (simp add: word_le_nat_alt)
    then show ?thesis by (simp add: word_unat_eq_iff unsigned_take_bit_eq take_bit_nat_eq_self)
  qed
  then have hi: "\<not> bit lba n" if "28 \<le> n" using that by (metis bit_take_bit_iff not_less)
  consider "n < 8" | "8 \<le> n" "n < 16" | "16 \<le> n" "n < 24" | "24 \<le> n" "n < 28" | "28 \<le> n" by linarith
  then show "bit (lba_of_regs (0xE0 OR ucast (drop_bit 24 lba AND 0x0F)) (ucast (drop_bit 16 lba AND 0xFF))
      (ucast (drop_bit 8 lba AND 0xFF)) (ucast (lba AND 0xFF))) n = bit lba n"
    unfolding m lba_of_regs_def by cases (use n hi in \<open>auto simp: bit_simps\<close>)
qed

text \<open>
  A sector read that succeeds returned 512 bytes, the last 256 words read from the data port in order
  with the low byte of each first; the sector number fits 28 bits, and the registers
  the driver wrote spell exactly that number, for one sector, with the LBA mode of the master drive
  selected and the read command issued.
\<close>

theorem ata_read_addresses:
  assumes "ata_read_sector dev lba buf io = Some (0, bs, io')"
  shows "buf \<and> length bs = 512 \<and>
    (\<exists>ws. List.take 256 io' = rev (map (InW 0x1F0) ws) \<and> bs = concat (map (\<lambda>w. [ucast w, ucast (drop_bit 8 w)]) ws)) \<and>
    lba \<le> 0x0FFFFFFF \<and>
    lba_of_regs (last (written 0x1F6 io')) (last (written 0x1F5 io')) (last (written 0x1F4 io')) (last (written 0x1F3 io')) = lba \<and>
    last (written 0x1F6 io') AND 0xF0 = 0xE0 \<and> last (written 0x1F2 io') = 1 \<and> last (written 0x1F7 io') = 0x20"
proof -
  have b: "buf" "lba \<le> 0x0FFFFFFF" using assms by (auto simp: ata_read_sector_def split: if_splits)
  let ?io1 = "outb (ATA_PRIMARY_BASE + ATA_REG_COMMAND) ATA_CMD_READ_PIO
             (outb (ATA_PRIMARY_BASE + ATA_REG_LBA2) (ucast (drop_bit 16 lba AND 0xFF))
             (outb (ATA_PRIMARY_BASE + ATA_REG_LBA1) (ucast (drop_bit 8 lba AND 0xFF))
             (outb (ATA_PRIMARY_BASE + ATA_REG_LBA0) (ucast (lba AND 0xFF))
             (outb (ATA_PRIMARY_BASE + ATA_REG_SECCNT) 1
             (outb (ATA_PRIMARY_BASE + ATA_REG_DEV) (0xE0 OR ucast (drop_bit 24 lba AND 0x0F)) io)))))"
  obtain st io2 io3 where p: "ata_poll_status dev ?io1 = Some (st, io2)" "ata_wait_drq dev io2 = Some io3"
    "read_words dev 256 io3 = (bs, io')"
    using assms b by (auto simp: ata_read_sector_def Let_def split: option.splits if_splits prod.splits)
  have w: "written q io' = written q ?io1" for q
    using poll_written [OF p(1), of q] drq_written [OF p(2), of q] words_written [OF p(3), of q] by simp
  have l: "length bs = 512" using words_written [OF p(3)] by simp
  obtain ws where ws: "length ws = 256" "io' = rev (map (InW 0x1F0) ws) @ io3"
    "bs = concat (map (\<lambda>w. [ucast w, ucast (drop_bit 8 w)]) ws)" using words_read [OF p(3)] by blast
  then have "List.take 256 io' = rev (map (InW 0x1F0) ws)" by simp
  with ws(3) have d: "\<exists>ws. List.take 256 io' = rev (map (InW 0x1F0) ws) \<and>
      bs = concat (map (\<lambda>w. [ucast w, ucast (drop_bit 8 w)]) ws)" by blast
  have "(0xE0 OR ucast (drop_bit 24 lba AND 0x0F) :: u8) AND 0xF0 = 0xE0"
  proof (rule bit_word_eqI)
    fix n
    have m: "(0x0F :: u64) = mask 4" "(0xE0 :: u8) = push_bit 5 (mask 3)" "(0xF0 :: u8) = push_bit 4 (mask 4)"
      by (simp_all add: mask_eq_exp_minus_1 push_bit_eq_mult)
    show "bit ((0xE0 OR ucast (drop_bit 24 lba AND 0x0F) :: u8) AND 0xF0) n = bit (0xE0 :: u8) n"
      unfolding m by (auto simp: bit_simps)
  qed
  then show ?thesis using b l d lba_split [OF b(2)]
    by (simp add: w ATA_PRIMARY_BASE_def ATA_REG_COMMAND_def ATA_REG_LBA0_def ATA_REG_LBA1_def ATA_REG_LBA2_def
        ATA_REG_SECCNT_def ATA_REG_DEV_def ATA_CMD_READ_PIO_def)
qed

text \<open>A drive that is always ready with words of 0x4142.\<close>

definition ready_drive :: device where
  "ready_drive io p = (if p = 0x1F7 then 0x08 else 0x4142)"

lemma ata_read_addresses_witness:
  "\<exists>bs io'. ata_read_sector ready_drive 0x1234567 True [] = Some (0, bs, io') \<and> length bs = 512 \<and>
     lba_of_regs (last (written 0x1F6 io')) (last (written 0x1F5 io')) (last (written 0x1F4 io')) (last (written 0x1F3 io')) = 0x1234567"
proof -
  have r: "read_status ready_drive io = (0x08, InB 0x1F7 0x08 # io)" for io
    by (simp add: read_status_def inb_def ready_drive_def ATA_PRIMARY_BASE_def ATA_REG_STATUS_def)
  have "\<exists>bs io'. ata_read_sector ready_drive 0x1234567 True [] = Some (0, bs, io')"
    by (simp add: ata_read_sector_def Let_def ata_poll_status.simps [of ready_drive] ata_wait_drq.simps [of ready_drive] r
        ATA_SR_BSY_def ATA_SR_DRQ_def ATA_SR_ERR_def split_beta)
  then obtain bs io' where e: "ata_read_sector ready_drive 0x1234567 True [] = Some (0, bs, io')" by blast
  from ata_read_addresses [OF e] e show ?thesis by blast
qed

end
