(* ===== verification/Fat32.thy ===== *)
theory Fat32
  imports Disk MemoryMap
begin

text \<open>
  The FAT32 reader (\<open>kernel/fs/fat32.c\<close>): it loads the allocation table, follows cluster chains and
  copies every directory and file of a volume into the file system. The disk is a parameter, and so
  is what freshly allocated heap memory holds (\<open>env_mem\<close>). The walk over directories is bounded by
  a number of steps; running out of it is \<open>None\<close>, as is any access outside a buffer.
\<close>

subsection \<open>The volume\<close>

record fat32 =
  bytes_per_sector :: u16
  sectors_per_cluster :: u8
  reserved_sectors :: u16
  num_fats :: u8
  fat_size :: u32
  root_cluster :: u32
  partition_lba :: u64
  first_data_sector :: u64
  sector_size :: u64
  fat :: "u8 list"

text \<open>What stays fixed during a mount: the end of the kernel, fresh memory, the device's read operation.\<close>

record fat_env =
  env_kend :: u64
  env_mem :: memory
  env_read :: sector_reader

definition read_sector :: "fat_env \<Rightarrow> u64 \<Rightarrow> io \<Rightarrow> (int \<times> u8 list \<times> io) option" where
  "read_sector e lba io = env_read e lba io"

text \<open>A new heap block, and storing bytes into a buffer.\<close>

definition raw_block :: "memory \<Rightarrow> u64 \<Rightarrow> nat \<Rightarrow> u8 list" where
  "raw_block m p n = map (\<lambda>i. m (p + of_nat i)) [0..<n]"

definition write_at :: "nat \<Rightarrow> u8 list \<Rightarrow> u8 list \<Rightarrow> u8 list option" where
  "write_at pos bs buf =
     (if length buf < pos + length bs then None else Some (List.take pos buf @ bs @ drop (pos + length bs) buf))"

definition first_sector_of_cluster :: "fat32 \<Rightarrow> u32 \<Rightarrow> u64" where
  "first_sector_of_cluster fs c = partition_lba fs + first_data_sector fs + ucast (c - 2) * ucast (sectors_per_cluster fs)"

text \<open>Reading the sectors \<open>lba + i\<close>, for the listed \<open>i\<close>, one after the other from \<open>pos\<close> on, \<open>stride\<close> bytes apart.\<close>

fun read_sectors ::
  "fat_env \<Rightarrow> u64 \<Rightarrow> nat \<Rightarrow> nat list \<Rightarrow> nat \<Rightarrow> u8 list \<Rightarrow> io \<Rightarrow> (int \<times> u8 list \<times> io) option" where
  "read_sectors e lba stride [] pos buf io = Some (0, buf, io)"
| "read_sectors e lba stride (i # is) pos buf io =
     (case read_sector e (lba + of_nat i) io of None \<Rightarrow> None
      | Some (rc, bs, io1) \<Rightarrow>
        case write_at pos bs buf of None \<Rightarrow> None
        | Some buf1 \<Rightarrow> if rc \<noteq> 0 then Some (- 2, buf1, io1) else read_sectors e lba stride is (pos + stride) buf1 io1)"

text \<open>The product of sizes is a 32-bit one.\<close>

definition fat_load_fat :: "fat_env \<Rightarrow> fat32 \<Rightarrow> vfs \<Rightarrow> io \<Rightarrow> (int \<times> fat32 \<times> vfs \<times> io) option" where
  "fat_load_fat e fs v io =
     (let fat_bytes = (ucast (fat_size fs * ucast (bytes_per_sector fs)) :: u64);
          (p, v1) = vfs_kmalloc (env_kend e) fat_bytes v
      in if p = 0 then Some (- 1, fs, v1, io)
      else case read_sectors e (partition_lba fs + ucast (reserved_sectors fs)) (unat (bytes_per_sector fs))
                  [0..<unat (fat_size fs)] 0 (raw_block (env_mem e) p (unat fat_bytes)) io of None \<Rightarrow> None
        | Some (rc, buf, io1) \<Rightarrow> Some (rc, fs\<lparr>fat := buf\<rparr>, v1, io1))"

definition fat_get_next :: "fat32 \<Rightarrow> u32 \<Rightarrow> u32 option" where
  "fat_get_next fs c =
     (let off = unat (c * 4) in if length (fat fs) < off + 4 then None else Some (le32 (fat fs) off AND 0x0FFFFFFF))"

text \<open>At most \<open>n\<close> clusters of the chain from \<open>c\<close>, stored from position \<open>dst\<close> of the buffer on.\<close>

fun fat_read_file_clusters ::
  "fat_env \<Rightarrow> fat32 \<Rightarrow> u32 \<Rightarrow> nat \<Rightarrow> nat \<Rightarrow> u8 list \<Rightarrow> io \<Rightarrow> (int \<times> u8 list \<times> io) option" where
  "fat_read_file_clusters e fs c 0 dst buf io = Some (0, buf, io)"
| "fat_read_file_clusters e fs c (Suc n) dst buf io =
     (case read_sectors e (first_sector_of_cluster fs c) (unat (bytes_per_sector fs))
             [0..<unat (sectors_per_cluster fs)] dst buf io of None \<Rightarrow> None
      | Some (rc, buf1, io1) \<Rightarrow>
        if rc \<noteq> 0 then Some (- 2, buf1, io1)
        else case fat_get_next fs c of None \<Rightarrow> None
        | Some next \<Rightarrow>
          if next \<ge> 0x0FFFFFF8 then Some (0, buf1, io1)
          else fat_read_file_clusters e fs next n
                 (dst + unat (sectors_per_cluster fs) * unat (bytes_per_sector fs)) buf1 io1)"

definition fat_char :: "u8 \<Rightarrow> char" where
  "fat_char b = char_of (unat b)"

definition decode_83_name :: "u8 list \<Rightarrow> string" where
  "decode_83_name ent =
     (let part = \<lambda>bs. filter (\<lambda>c. c \<noteq> CHR '' '') (map fat_char bs)
      in part (List.take 8 ent) @
         (if fat_char (ent ! 8) \<noteq> CHR '' '' then ''.'' @ part (List.take 3 (drop 8 ent)) else []))"

text \<open>The 256-byte buffer for the full path of an entry.\<close>

definition entry_path :: "string \<Rightarrow> string \<Rightarrow> string option" where
  "entry_path path name =
     (let p = path @ (if path \<noteq> [] \<and> last path \<noteq> CHR ''/'' then ''/'' else []) @ takeWhile (\<lambda>c. c \<noteq> NUL) name
      in if length p < 256 then Some p else None)"

definition cluster_bytes :: "fat32 \<Rightarrow> nat" where
  "cluster_bytes fs = unat (sectors_per_cluster fs) * unat (bytes_per_sector fs)"

text \<open>A regular file: its clusters are read into a block and stored under the path.\<close>

definition fat_copy_file ::
  "fat_env \<Rightarrow> fat32 \<Rightarrow> string \<Rightarrow> u32 \<Rightarrow> u32 \<Rightarrow> vfs \<times> io \<Rightarrow> (vfs \<times> io) option" where
  "fat_copy_file e fs fullpath first_cluster filesize st =
     (let (v, io) = st; write = \<lambda>data len v io.
        map_option (\<lambda>(rc, v'). (v', io)) (vfs_write_file (env_kend e) (Some fullpath) data len (vfs_get_root v) v)
      in if filesize = 0 then write [] 0 v io
      else let bytes_per_cluster = (ucast (sectors_per_cluster fs) * ucast (bytes_per_sector fs) :: u32);
               clusters_needed = (filesize + bytes_per_cluster - 1) div bytes_per_cluster;
               need = (ucast clusters_needed * ucast bytes_per_cluster + 1 :: u64);
               (p, v1) = vfs_kmalloc (env_kend e) need v
           in if p = 0 then Some (v1, io)
           else case fat_read_file_clusters e fs first_cluster (unat clusters_needed) 0 (raw_block (env_mem e) p (unat need)) io of
             None \<Rightarrow> None
           | Some (rc, buf, io1) \<Rightarrow> write buf (ucast filesize) v1 io1)"

text \<open>
  The entries of one cluster; \<open>sub\<close> processes a subdirectory. The loop stops at an entry that
  starts with 0.
\<close>

type_synonym sub_walk = "u32 \<Rightarrow> string \<Rightarrow> vfs \<times> io \<Rightarrow> (int \<times> vfs \<times> io) option"

definition fat_process_entry ::
  "fat_env \<Rightarrow> fat32 \<Rightarrow> sub_walk \<Rightarrow> u8 list \<Rightarrow> string \<Rightarrow> vfs \<times> io \<Rightarrow> (vfs \<times> io) option" where
  "fat_process_entry e fs sub ent path st =
     (let attr = ent ! 11; name = decode_83_name ent;
          first_cluster = push_bit 16 (ucast (le16 ent 20)) OR ucast (le16 ent 26); filesize = le32 ent 28
      in case entry_path path name of None \<Rightarrow> None
      | Some fullpath \<Rightarrow>
        if attr AND 0x10 \<noteq> 0
        then (case vfs_create (env_kend e) (Some fullpath) True (vfs_get_root (fst st)) (fst st) of None \<Rightarrow> None
              | Some (nd, v1) \<Rightarrow>
                if first_cluster \<noteq> 0 then map_option snd (sub first_cluster fullpath (v1, snd st)) else Some (v1, snd st))
        else fat_copy_file e fs fullpath first_cluster filesize st)"

fun fat_process_entries ::
  "fat_env \<Rightarrow> fat32 \<Rightarrow> sub_walk \<Rightarrow> nat list \<Rightarrow> string \<Rightarrow> u8 list \<Rightarrow> vfs \<times> io \<Rightarrow> (vfs \<times> io) option" where
  "fat_process_entries e fs sub [] path buf st = Some st"
| "fat_process_entries e fs sub (i # is) path buf st =
     (let ent = drop (32 * i) buf
      in if ent ! 0 = 0 then Some st
      else if ent ! 0 = 0xE5 \<or> ent ! 11 = 0x0F then fat_process_entries e fs sub is path buf st
      else case fat_process_entry e fs sub ent path st of None \<Rightarrow> None
           | Some st2 \<Rightarrow> fat_process_entries e fs sub is path buf st2)"

text \<open>The clusters of one directory, at most \<open>n\<close> of them.\<close>

fun fat_process_clusters ::
  "nat \<Rightarrow> fat_env \<Rightarrow> fat32 \<Rightarrow> sub_walk \<Rightarrow> u32 \<Rightarrow> string \<Rightarrow> u8 list \<Rightarrow> vfs \<times> io \<Rightarrow> (int \<times> vfs \<times> io) option" where
  "fat_process_clusters 0 e fs sub c path buf st = None"
| "fat_process_clusters (Suc n) e fs sub c path buf st =
     (case fat_read_file_clusters e fs c 1 0 buf (snd st) of None \<Rightarrow> None
      | Some (rc, buf1, io1) \<Rightarrow>
        if rc \<noteq> 0 then Some (rc, fst st, io1)
        else case fat_process_entries e fs sub [0..<cluster_bytes fs div 32] path buf1 (fst st, io1) of None \<Rightarrow> None
        | Some st1 \<Rightarrow>
          case fat_get_next fs c of None \<Rightarrow> None
          | Some next \<Rightarrow>
            if next \<ge> 0x0FFFFFF8 then Some (0, st1) else fat_process_clusters n e fs sub next path buf1 st1)"

primrec fat_process_directory :: "nat \<Rightarrow> fat_env \<Rightarrow> fat32 \<Rightarrow> u32 \<Rightarrow> string \<Rightarrow> vfs \<times> io \<Rightarrow> (int \<times> vfs \<times> io) option" where
  "fat_process_directory 0 e fs c path st = None"
| "fat_process_directory (Suc n) e fs c path st =
     (let (p, v1) = vfs_kmalloc (env_kend e) (of_nat (cluster_bytes fs)) (fst st)
      in if p = 0 then Some (- 1, v1, snd st)
         else fat_process_clusters n e fs (fat_process_directory n e fs) c path
                (raw_block (env_mem e) p (cluster_bytes fs)) (v1, snd st))"

text \<open>The BIOS parameter block.\<close>

definition parse_bpb :: "u8 list \<Rightarrow> u64 \<Rightarrow> fat32" where
  "parse_bpb buf lba =
     (let bps = le16 buf 11; fat16sz = le16 buf 22; sz = (if fat16sz \<noteq> 0 then ucast fat16sz else le32 buf 36);
          res = le16 buf 14; nf = buf ! 16
      in \<lparr>bytes_per_sector = bps, sectors_per_cluster = buf ! 13, reserved_sectors = res, num_fats = nf, fat_size = sz,
          root_cluster = le32 buf 44, partition_lba = lba, first_data_sector = ucast res + ucast nf * ucast sz,
          sector_size = ucast bps, fat = []\<rparr>)"

definition fat32_mount_partition ::
  "nat \<Rightarrow> u64 \<Rightarrow> memory \<Rightarrow> block_device option \<Rightarrow> u64 \<Rightarrow> string option \<Rightarrow> vfs \<times> io \<Rightarrow>
   (int \<times> console_op list \<times> vfs \<times> io) option" where
  "fat32_mount_partition fuel kend mem dev lba mountpoint st =
     (case (Option.bind dev bd_read, mountpoint) of
        (Some rd, Some mp) \<Rightarrow>
          let e = \<lparr>env_kend = kend, env_mem = mem, env_read = rd\<rparr>; (v, io) = st
          in (case read_sector e lba io of None \<Rightarrow> None
          | Some (rc, buf, io1) \<Rightarrow>
            if rc \<noteq> 0 then Some (- 2, [], v, io1)
            else if length buf < 512 then None
            else let fs = parse_bpb buf lba
            in if bytes_per_sector fs = 0 \<or> sectors_per_cluster fs = 0 then Some (- 3, log_error ''FAT32: invalid BPB'', v, io1)
            else case fat_load_fat e fs v io1 of None \<Rightarrow> None
            | Some (rc2, fs2, v2, io2) \<Rightarrow>
              if rc2 \<noteq> 0 then Some (- 4, log_error ''FAT32: failed to load FAT'', v2, io2)
              else case vfs_create kend (Some mp) True (vfs_get_root v2) v2 of None \<Rightarrow> None
              | Some (nd, v3) \<Rightarrow>
                let root = (if root_cluster fs2 = 0 then 2 else root_cluster fs2)
                in case fat_process_directory fuel e (fs2\<lparr>root_cluster := root\<rparr>) root mp (v3, io2) of None \<Rightarrow> None
                | Some (rc3, v4, io4) \<Rightarrow>
                  if rc3 \<noteq> 0 then Some (- 5, log_error ''FAT32: failed to process root dir'', v4, io4)
                  else Some (0, log_info ''FAT32: mounted partition'', v4, io4))
      | _ \<Rightarrow> Some (- 1, [], st))"

subsection \<open>Reading a chain\<close>

text \<open>A disk that always answers: \<open>img lba\<close> is the content of a sector of \<open>n\<close> bytes.\<close>

definition serves :: "fat_env \<Rightarrow> (u64 \<Rightarrow> u8 list) \<Rightarrow> nat \<Rightarrow> bool" where
  "serves e img n \<longleftrightarrow> (\<forall>lba io. (\<exists>io'. env_read e lba io = Some (0, img lba, io')) \<and> length (img lba) = n)"

text \<open>The specification: the clusters the table links, at most \<open>n\<close>, and what they hold.\<close>

fun fat_chain :: "fat32 \<Rightarrow> nat \<Rightarrow> u32 \<Rightarrow> u32 list" where
  "fat_chain fs 0 c = []"
| "fat_chain fs (Suc n) c =
     c # (case fat_get_next fs c of None \<Rightarrow> [] | Some next \<Rightarrow> if next \<ge> 0x0FFFFFF8 then [] else fat_chain fs n next)"

definition cluster_data :: "(u64 \<Rightarrow> u8 list) \<Rightarrow> fat32 \<Rightarrow> u32 \<Rightarrow> u8 list" where
  "cluster_data img fs c =
     concat (map (\<lambda>i. img (first_sector_of_cluster fs c + of_nat i)) [0..<unat (sectors_per_cluster fs)])"

definition patch :: "nat \<Rightarrow> u8 list \<Rightarrow> u8 list \<Rightarrow> u8 list" where
  "patch pos bs buf = List.take pos buf @ bs @ drop (pos + length bs) buf"

lemma write_at_patch: "pos + length bs \<le> length buf \<Longrightarrow> write_at pos bs buf = Some (patch pos bs buf)"
  by (simp add: write_at_def patch_def)

lemma length_patch [simp]: "pos + length bs \<le> length buf \<Longrightarrow> length (patch pos bs buf) = length buf"
  by (simp add: patch_def)

lemma patch_Nil [simp]: "patch pos [] buf = buf"
  by (simp add: patch_def)

lemma patch_patch:
  assumes "pos + length xs + length ys \<le> length buf"
  shows "patch (pos + length xs) ys (patch pos xs buf) = patch pos (xs @ ys) buf"
proof -
  have "length (List.take pos buf) = pos" using assms by simp
  then show ?thesis using assms by (simp add: patch_def ac_simps)
qed

lemma read_sectors_ok:
  assumes "serves e img n" "pos + length is * n \<le> length buf"
  shows "\<exists>io'. read_sectors e lba n is pos buf io =
    Some (0, patch pos (concat (map (\<lambda>i. img (lba + of_nat i)) is)) buf, io')"
  using assms(2)
proof (induction "is" arbitrary: pos buf io)
  case Nil
  then show ?case by simp
next
  case (Cons i rest)
  let ?d = "img (lba + of_nat i)"
  have l: "length (img a) = n" for a using assms(1) by (simp add: serves_def)
  obtain io1 where r: "read_sector e (lba + of_nat i) io = Some (0, ?d, io1)"
    using assms(1) by (auto simp: serves_def read_sector_def)
  have w: "write_at pos ?d buf = Some (patch pos ?d buf)" using Cons.prems by (intro write_at_patch) (simp add: l)
  have "pos + n + length rest * n \<le> length (patch pos ?d buf)" using Cons.prems by (simp add: l)
  from Cons.IH [OF this, of io1] obtain io' where
    "read_sectors e lba n rest (pos + n) (patch pos ?d buf) io1 =
      Some (0, patch (pos + n) (concat (map (\<lambda>i. img (lba + of_nat i)) rest)) (patch pos ?d buf), io')" by blast
  moreover have "patch (pos + n) (concat (map (\<lambda>i. img (lba + of_nat i)) rest)) (patch pos ?d buf) =
      patch pos (?d @ concat (map (\<lambda>i. img (lba + of_nat i)) rest)) buf"
  proof -
    have "length (concat (map (\<lambda>i. img (lba + of_nat i)) rest)) = length rest * n"
      by (induction rest) (simp_all add: l)
    then show ?thesis using patch_patch [of pos ?d "concat (map (\<lambda>i. img (lba + of_nat i)) rest)" buf] Cons.prems
      by (simp add: l)
  qed
  ultimately show ?case using r w by simp
qed

lemma length_cluster_data: "serves e img (unat (bytes_per_sector fs)) \<Longrightarrow> length (cluster_data img fs c) = cluster_bytes fs"
proof -
  assume "serves e img (unat (bytes_per_sector fs))"
  then have l: "length (img a) = unat (bytes_per_sector fs)" for a by (simp add: serves_def)
  have "length (concat (map (\<lambda>i. img (f i)) xs)) = length xs * unat (bytes_per_sector fs)" for f and xs :: "nat list"
    by (induction xs) (simp_all add: l)
  then show ?thesis by (simp add: cluster_data_def cluster_bytes_def)
qed

text \<open>
  C34: on a disk that answers, reading a file follows the allocation table: the clusters of its chain
  are stored one after the other and nothing else of the buffer is touched, whatever the order of the
  clusters on the disk.
\<close>

theorem fat_read_follows_chain:
  assumes "serves e img (unat (bytes_per_sector fs))" "cs = fat_chain fs n c"
    and "\<forall>k \<in> set cs. fat_get_next fs k \<noteq> None" "dst + n * cluster_bytes fs \<le> length buf"
  shows "\<exists>io'. fat_read_file_clusters e fs c n dst buf io =
    Some (0, List.take dst buf @ concat (map (cluster_data img fs) cs) @ drop (dst + length cs * cluster_bytes fs) buf, io')"
proof -
  note l = length_cluster_data [OF assms(1)]
  have lc: "length (concat (map (cluster_data img fs) xs)) = length xs * cluster_bytes fs" for xs
    by (induction xs) (simp_all add: l)
  have "\<exists>io'. fat_read_file_clusters e fs c n dst buf io =
      Some (0, patch dst (concat (map (cluster_data img fs) (fat_chain fs n c))) buf, io')"
    if "\<forall>k \<in> set (fat_chain fs n c). fat_get_next fs k \<noteq> None" "dst + n * cluster_bytes fs \<le> length buf" for n c dst buf io
    using that
  proof (induction n arbitrary: c dst buf io)
    case 0
    then show ?case by simp
  next
    case (Suc n)
    obtain w where nx: "fat_get_next fs c = Some w" using Suc.prems(1) by auto
    have "dst + length [0..<unat (sectors_per_cluster fs)] * unat (bytes_per_sector fs) \<le> length buf"
      using Suc.prems(2) by (simp add: cluster_bytes_def)
    from read_sectors_ok [OF assms(1) this, of "first_sector_of_cluster fs c" io] obtain io1 where
      r: "read_sectors e (first_sector_of_cluster fs c) (unat (bytes_per_sector fs)) [0..<unat (sectors_per_cluster fs)] dst buf io
        = Some (0, patch dst (cluster_data img fs c) buf, io1)" by (auto simp: cluster_data_def)
    show ?case
    proof (cases "w \<ge> 0x0FFFFFF8")
      case True
      with r nx show ?thesis by simp
    next
      case False
      then have ch: "fat_chain fs (Suc n) c = c # fat_chain fs n w" using nx by simp
      let ?b = "patch dst (cluster_data img fs c) buf"
      have fit: "dst + cluster_bytes fs + n * cluster_bytes fs \<le> length ?b" using Suc.prems(2) by (simp add: l)
      have "\<forall>k \<in> set (fat_chain fs n w). fat_get_next fs k \<noteq> None" using Suc.prems(1) unfolding ch by simp
      from Suc.IH [OF this fit, of io1] obtain io' where
        "fat_read_file_clusters e fs w n (dst + cluster_bytes fs) ?b io1 =
          Some (0, patch (dst + cluster_bytes fs) (concat (map (cluster_data img fs) (fat_chain fs n w))) ?b, io')" by blast
      moreover have "length (fat_chain fs n w) \<le> n" for w
        by (induction n arbitrary: w) (auto split: option.split)
      then have "length (fat_chain fs n w) * cluster_bytes fs \<le> n * cluster_bytes fs" by (rule mult_le_mono1)
      then have "dst + cluster_bytes fs + length (fat_chain fs n w) * cluster_bytes fs \<le> length buf"
        using Suc.prems(2) unfolding mult_Suc by linarith
      then have "patch (dst + cluster_bytes fs) (concat (map (cluster_data img fs) (fat_chain fs n w))) ?b =
          patch dst (concat (map (cluster_data img fs) (fat_chain fs (Suc n) c))) buf"
        using patch_patch [of dst "cluster_data img fs c" "concat (map (cluster_data img fs) (fat_chain fs n w))" buf]
        unfolding ch by (simp add: l lc)
      ultimately show ?thesis using r nx False by (simp add: cluster_bytes_def del: fat_chain.simps)
    qed
  qed
  from this [of n c dst buf io] assms(2-4) show ?thesis by (simp add: patch_def lc)
qed

text \<open>A volume with sectors of 4 bytes and clusters of 2 sectors, whose chain 2, 5, 3 is out of order.\<close>

definition demo_fat :: fat32 where
  "demo_fat = \<lparr>bytes_per_sector = 4, sectors_per_cluster = 2, reserved_sectors = 0, num_fats = 1, fat_size = 6, root_cluster = 2,
     partition_lba = 100, first_data_sector = 10, sector_size = 4,
     fat = concat (map u32_bytes [0, 0, 5, 0x0FFFFFFF, 0, 3])\<rparr>"

definition demo_env :: fat_env where
  "demo_env = \<lparr>env_kend = 0x200000, env_mem = (\<lambda>_. 0), env_read = (\<lambda>lba io. Some (0, replicate 4 (ucast lba), io))\<rparr>"

lemma fat_read_follows_chain_witness:
  "\<exists>io'. fat_read_file_clusters demo_env demo_fat 2 3 0 (replicate 24 0) [] =
     Some (0, concat (map (replicate 4) [110, 111, 116, 117, 112, 113]), io')"
proof -
  have nx: "fat_get_next demo_fat 2 = Some 5" "fat_get_next demo_fat 5 = Some 3" "fat_get_next demo_fat 3 = Some 0x0FFFFFFF"
    by (simp_all add: fat_get_next_def demo_fat_def le32_def u32_bytes_def le32_of_def)
  have cs: "fat_chain demo_fat 3 2 = [2, 5, 3]" by (simp add: numeral_3_eq_3 nx)
  have sv: "serves demo_env (\<lambda>lba. replicate 4 (ucast lba)) (unat (bytes_per_sector demo_fat))"
    by (simp add: serves_def demo_env_def demo_fat_def)
  have cd: "cluster_data (\<lambda>lba. replicate 4 (ucast lba)) demo_fat c = replicate 4 (ucast (first_sector_of_cluster demo_fat c)) @
      replicate 4 (ucast (first_sector_of_cluster demo_fat c + 1))" for c
    by (simp add: cluster_data_def demo_fat_def upt_rec)
  have fsc: "first_sector_of_cluster demo_fat 2 = 110" "first_sector_of_cluster demo_fat 5 = 116"
    "first_sector_of_cluster demo_fat 3 = 112"
    by (simp_all add: first_sector_of_cluster_def demo_fat_def)
  have "cluster_bytes demo_fat = 8" by (simp add: cluster_bytes_def demo_fat_def)
  with fat_read_follows_chain [OF sv cs [symmetric], of 0 "replicate 24 0" "[]"]
  show ?thesis by (simp add: nx cd fsc)
qed

subsection \<open>Self references\<close>

text \<open>The entry every subdirectory starts with: the name \<open>.\<close>, the directory bit, its own cluster.\<close>

definition dot_entry :: "u32 \<Rightarrow> u8 list \<Rightarrow> bool" where
  "dot_entry c d \<longleftrightarrow> 32 \<le> length d \<and> List.take 12 d = 0x2E # replicate 10 0x20 @ [0x10] \<and>
     push_bit 16 (ucast (le16 d 20)) OR ucast (le16 d 26) = c"

lemma dot_entry_name:
  assumes "dot_entry c d"
  shows "d ! 0 = 0x2E" "d ! 11 = 0x10" "decode_83_name d = ''.''"
proof -
  have t: "List.take 12 d = 0x2E # replicate 10 0x20 @ [0x10]" and l: "32 \<le> length d" using assms by (simp_all add: dot_entry_def)
  have nth: "d ! i = (0x2E # replicate 10 0x20 @ [0x10]) ! i" if "i < 12" for i
    using nth_take [OF that, of d] t by simp
  have r: "replicate 10 (0x20 :: u8) = [0x20, 0x20, 0x20, 0x20, 0x20, 0x20, 0x20, 0x20, 0x20, 0x20]"
    by (simp add: numeral_eq_Suc)
  show "d ! 0 = 0x2E" "d ! 11 = 0x10" using nth [of 0] nth [of 11] by (simp_all add: r)
  have "List.take 8 d = List.take 8 (List.take 12 d)" by (simp add: min_def)
  then have t8: "List.take 8 d = [0x2E, 0x20, 0x20, 0x20, 0x20, 0x20, 0x20, 0x20]" by (simp add: t r)
  have c: "fat_char 0x2E = CHR ''.''" "fat_char 0x20 = CHR '' ''" unfolding fat_char_def by code_simp+
  have "d ! 8 = 0x20" using nth [of 8] by (simp add: r)
  then show "decode_83_name d = ''.''" by (simp add: decode_83_name_def t8 c)
qed

definition walk_cost :: "fat32 \<Rightarrow> string \<Rightarrow> nat" where
  "walk_cost fs path = (256 - length path) * (cluster_bytes fs + 2700)"

lemma walk_stuck:
  assumes sv: "serves e img (unat (bytes_per_sector fs))" and d: "dot_entry c (cluster_data img fs c)" and c: "c \<noteq> 0"
  shows "is_cstr path \<Longrightarrow> path \<noteq> [] \<Longrightarrow> length path < 256 \<Longrightarrow> vfs_inv (env_kend e) v \<Longrightarrow>
    room (env_kend e) v (walk_cost fs path) \<Longrightarrow> fat_process_directory n e fs c path (v, io) = None"
proof (induction n arbitrary: path v io)
  case 0
  then show ?case by simp
next
  case (Suc n)
  let ?k = "env_kend e" and ?cb = "cluster_bytes fs" and ?d = "cluster_data img fs c"
  have ld: "length ?d = ?cb" by (rule length_cluster_data [OF sv])
  have cb: "32 \<le> ?cb" using d ld by (simp add: dot_entry_def)
  note nm = dot_entry_name [OF d]
  have cost: "?cb + 2700 \<le> walk_cost fs path" using Suc.prems(3) by (simp add: walk_cost_def)
  have "room ?k v (?cb + 7)" by (rule room_mono [OF Suc.prems(5)]) (use cost in simp)
  then obtain a h where a: "vfs_kmalloc ?k (of_nat ?cb) v = (a, v\<lparr>vheap := h\<rparr>)" "a \<noteq> 0" "heap_inv ?k h"
    "brk ?k v < heap_brk ?k h" "heap_brk ?k h \<le> brk ?k v + ?cb + 7"
    using vfs_kmalloc_room [of ?k v ?cb] cb by (metis less_le_trans zero_less_numeral)
  let ?v = "v\<lparr>vheap := h\<rparr>" and ?sub = "fat_process_directory n e fs"
  have inv: "vfs_inv ?k ?v" using Suc.prems(4) a(3) less_trans [OF _ a(4)] unfolding vfs_inv_def by simp
  have entry: "fat_process_entry e fs ?sub (drop 0 buf) path (?v, io1) = None" if "buf = ?d" for buf io1
  proof (cases "entry_path path ''.''")
    case None
    then show ?thesis using that nm by (simp add: fat_process_entry_def)
  next
    case (Some q)
    then have q: "q = path @ (if last path \<noteq> CHR ''/'' then ''/'' else []) @ ''.''" "length q < 256"
      using Suc.prems(2) by (auto simp: entry_path_def Let_def split: if_splits)
    have qc: "is_cstr q" "q \<noteq> []" "length path < length q" using Suc.prems(1) by (simp_all add: q(1) is_cstr_def)
    have fc: "push_bit 16 (ucast (le16 ?d 20)) OR ucast (le16 ?d 26) = c" using d by (simp add: dot_entry_def)
    show ?thesis
    proof (cases "vfs_create ?k (Some q) True (vfs_get_root ?v) ?v")
      case None
      then show ?thesis using that nm fc Some by (simp add: fat_process_entry_def)
    next
      case (Some r)
      obtain nd v1 where r: "vfs_create ?k (Some q) True (vfs_get_root ?v) ?v = Some (nd, v1)" using Some by (cases r) simp
      have "(256 - length q) * (?cb + 2700) + (?cb + 2700) = (256 - length q + 1) * (?cb + 2700)" by simp
      also have "\<dots> \<le> walk_cost fs path" unfolding walk_cost_def by (rule mult_le_mono1) (use qc(3) q(2) in linarith)
      finally have less: "walk_cost fs q + (?cb + 2700) \<le> walk_cost fs path" by (simp add: walk_cost_def)
      have rm: "room ?k ?v (10 * length q + 100)"
        using Suc.prems(5) a(3,5) cost q(2) by (simp add: room_def)
      have st: "vfs_get_root ?v = 0 \<or> vfs_get_root ?v \<in> dom (nodes ?v)"
        using Suc.prems(4) by (auto simp: vfs_inv_def tree_ok_def vfs_get_root_def)
      from vfs_create_inv [OF inv qc(1) st rm r] have v1: "vfs_inv ?k v1" "brk ?k v1 \<le> heap_brk ?k h + 10 * length q + 100"
        by auto
      then have "room ?k v1 (walk_cost fs q)"
        using Suc.prems(5) a(5) less q(2) by (simp add: room_def vfs_inv_def)
      from Suc.IH [OF qc(1,2) q(2) v1(1) this] have "?sub c q (v1, io1) = None" .
      then show ?thesis using that nm fc r c \<open>entry_path path ''.'' = Some q\<close> by (simp add: fat_process_entry_def)
    qed
  qed
  have "fat_process_clusters n e fs ?sub c path (raw_block (env_mem e) a ?cb) (?v, io) = None"
  proof (cases n)
    case 0
    then show ?thesis by simp
  next
    case (Suc m)
    let ?b = "raw_block (env_mem e) a ?cb"
    have lb: "length ?b = ?cb" by (simp add: raw_block_def)
    have "0 + length [0..<unat (sectors_per_cluster fs)] * unat (bytes_per_sector fs) \<le> length ?b"
      unfolding lb by (simp add: cluster_bytes_def)
    from read_sectors_ok [OF sv this, of "first_sector_of_cluster fs c" io] obtain io1 where
      r: "read_sectors e (first_sector_of_cluster fs c) (unat (bytes_per_sector fs)) [0..<unat (sectors_per_cluster fs)] 0 ?b io
        = Some (0, patch 0 ?d ?b, io1)" by (auto simp: cluster_data_def)
    have p: "patch 0 ?d ?b = ?d" using ld lb by (simp add: patch_def)
    have "fat_process_entries e fs ?sub [0..<?cb div 32] path ?d (?v, io1) = None"
    proof -
      have "[0..<?cb div 32] = 0 # [1..<?cb div 32]" using cb by (simp add: upt_conv_Cons)
      then show ?thesis using entry [of ?d io1] nm by simp
    qed
    then show ?thesis using r p by (simp add: Suc split: option.split)
  qed
  then show ?case using a by simp
qed

text \<open>
  The reader does not skip the \<open>.\<close> entry: a directory whose first entry is the usual reference to
  itself is entered again and again under a longer path until the path leaves its 256-byte buffer.
  However many steps it is given, it does not return.
\<close>

theorem fat_dot_entry_overflows:
  assumes "serves e img (unat (bytes_per_sector fs))" "dot_entry c (cluster_data img fs c)" "c \<noteq> 0"
    and "is_cstr path" "path \<noteq> []" "length path < 256"
    and "vfs_inv (env_kend e) v" "room (env_kend e) v (256 * (cluster_bytes fs + 2700))"
  shows "fat_process_directory n e fs c path (v, io) = None"
proof -
  have "walk_cost fs path \<le> 256 * (cluster_bytes fs + 2700)" unfolding walk_cost_def by (rule mult_le_mono1) simp
  from room_mono [OF assms(8) this] show ?thesis by (rule walk_stuck [OF assms(1-7)])
qed

definition demo_dir :: "u8 list" where
  "demo_dir = 0x2E # replicate 10 0x20 @ [0x10] @ replicate 14 0 @ [3, 0, 0, 0, 0, 0]"

lemma fat_dot_entry_overflows_witness:
  "fat_process_directory 1000 (demo_env\<lparr>env_read := \<lambda>lba io. Some (0, demo_dir, io)\<rparr>)
     (demo_fat\<lparr>bytes_per_sector := 32, sectors_per_cluster := 1\<rparr>) 3 ''/disk/SUB'' (demo_vfs, []) = None"
proof (rule fat_dot_entry_overflows [where img = "\<lambda>_. demo_dir"])
  let ?fs = "demo_fat\<lparr>bytes_per_sector := 32, sectors_per_cluster := 1\<rparr>"
  have cd: "cluster_data (\<lambda>_. demo_dir) ?fs 3 = demo_dir" by (simp add: cluster_data_def)
  show "serves (demo_env\<lparr>env_read := \<lambda>lba io. Some (0, demo_dir, io)\<rparr>) (\<lambda>_. demo_dir) (unat (bytes_per_sector ?fs))"
    by (simp add: serves_def demo_dir_def)
  have dd: "demo_dir = [0x2E, 0x20, 0x20, 0x20, 0x20, 0x20, 0x20, 0x20, 0x20, 0x20, 0x20, 0x10, 0, 0, 0, 0, 0, 0, 0, 0, 0, 0,
      0, 0, 0, 0, 3, 0, 0, 0, 0, 0]" by (simp add: demo_dir_def numeral_eq_Suc)
  have "push_bit 16 (ucast (le16 demo_dir 20)) OR ucast (le16 demo_dir 26) = (3 :: u32)"
    by (simp add: le16_def le16_of_def dd)
  then show "dot_entry 3 (cluster_data (\<lambda>_. demo_dir) ?fs 3)"
    unfolding cd dot_entry_def by (simp add: demo_dir_def numeral_eq_Suc)
  show "room (env_kend (demo_env\<lparr>env_read := \<lambda>lba io. Some (0, demo_dir, io)\<rparr>)) demo_vfs (256 * (cluster_bytes ?fs + 2700))"
    using demo_room [of "256 * (32 + 2700)"] by (simp add: demo_env_def cluster_bytes_def)
qed (use demo_inv in \<open>simp_all add: demo_env_def\<close>)

end
