(* ===== verification/Descriptors.thy ===== *)
theory Descriptors
  imports Prelude
begin

text \<open>
  The segment and interrupt tables (\<open>kernel/arch/x86_64/gdt/gdt.c\<close>,
  \<open>kernel/arch/x86_64/idt/idt.c\<close>): packed descriptors whose fields split a base, limit or handler
  address over several words. The addresses of the tables and of the assembly stubs are parameters.
  Loading a table register records its content.
\<close>

subsection \<open>Segments\<close>

record gdt_entry =
  limit_low :: u16
  base_low :: u16
  base_mid :: u8
  access :: u8
  flags_lim :: u8
  base_high :: u8

record table_register =
  tr_limit :: u16
  tr_base :: u64

record tss64 =
  tss_reserved0 :: u32
  rsp0 :: u64
  rsp1 :: u64
  rsp2 :: u64
  tss_reserved1 :: u64
  tss_ist :: "u64 list"
  tss_reserved2 :: u64
  tss_reserved3 :: u16
  iopb_offset :: u16

record segments =
  gdt :: "gdt_entry list"
  gdtr :: table_register
  tss :: tss64
  task_register :: u16

definition SIZEOF_TSS :: nat where "SIZEOF_TSS = 104"
definition SIZEOF_GDT :: nat where "SIZEOF_GDT = 56"

definition zero_entry :: gdt_entry where
  "zero_entry = \<lparr>limit_low = 0, base_low = 0, base_mid = 0, access = 0, flags_lim = 0, base_high = 0\<rparr>"

definition zero_tss :: tss64 where
  "zero_tss = \<lparr>tss_reserved0 = 0, rsp0 = 0, rsp1 = 0, rsp2 = 0, tss_reserved1 = 0, tss_ist = replicate 7 0, tss_reserved2 = 0,
     tss_reserved3 = 0, iopb_offset = 0\<rparr>"

definition segments_static :: segments where
  "segments_static = \<lparr>gdt = replicate 7 zero_entry, gdtr = \<lparr>tr_limit = 0, tr_base = 0\<rparr>, tss = zero_tss, task_register = 0\<rparr>"

definition set_entry :: "nat \<Rightarrow> u32 \<Rightarrow> u32 \<Rightarrow> u8 \<Rightarrow> u8 \<Rightarrow> gdt_entry list \<Rightarrow> gdt_entry list" where
  "set_entry i base limit acc flags g =
     g[i := \<lparr>limit_low = ucast (limit AND 0xFFFF), base_low = ucast (base AND 0xFFFF),
             base_mid = ucast (drop_bit 16 base AND 0xFF), access = acc,
             flags_lim = ucast (drop_bit 16 limit AND 0x0F) OR (flags AND 0xF0),
             base_high = ucast (drop_bit 24 base AND 0xFF)\<rparr>]"

definition set_tss_entry :: "nat \<Rightarrow> u64 \<Rightarrow> u32 \<Rightarrow> gdt_entry list \<Rightarrow> gdt_entry list" where
  "set_tss_entry i base limit g =
     (let g1 = set_entry i (ucast (base AND 0xFFFFFFFF)) limit 0x89 0x00 g; base_hi = drop_bit 32 base
      in g1[i + 1 := \<lparr>limit_low = ucast (base_hi AND 0xFFFF), base_low = ucast (drop_bit 16 base_hi AND 0xFFFF),
                       base_mid = 0, access = 0, flags_lim = 0, base_high = 0\<rparr>])"

definition gdt_set_kernel_rsp0 :: "u64 \<Rightarrow> segments \<Rightarrow> segments" where
  "gdt_set_kernel_rsp0 r s = s\<lparr>tss := (tss s)\<lparr>rsp0 := r\<rparr>\<rparr>"

definition gdt_init :: "u64 \<Rightarrow> u64 \<Rightarrow> segments \<Rightarrow> segments" where
  "gdt_init gdt_addr tss_addr s =
     (let g = set_entry 4 0 0xFFFFF 0xF2 0xA0 (set_entry 3 0 0xFFFFF 0xFA 0xA0
                (set_entry 2 0 0xFFFFF 0x92 0xA0 (set_entry 1 0 0xFFFFF 0x9A 0xA0 (set_entry 0 0 0 0 0 (gdt s)))))
      in s\<lparr>gdtr := \<lparr>tr_limit = of_nat SIZEOF_GDT - 1, tr_base = gdt_addr\<rparr>,
           tss := zero_tss\<lparr>iopb_offset := of_nat SIZEOF_TSS\<rparr>,
           gdt := set_tss_entry 5 tss_addr (of_nat SIZEOF_TSS - 1) g,
           task_register := 0x28\<rparr>)"

subsection \<open>Interrupt gates\<close>

record idt_entry =
  offset_low :: u16
  selector :: u16
  ist :: u8
  type_attr :: u8
  offset_mid :: u16
  offset_high :: u32
  zero :: u32

record interrupts =
  idt :: "idt_entry list"
  idtr :: table_register

definition idt_set_gate :: "u8 \<Rightarrow> u64 \<Rightarrow> u16 \<Rightarrow> u8 \<Rightarrow> idt_entry list \<Rightarrow> idt_entry list" where
  "idt_set_gate v handler sel flags t =
     t[unat v := \<lparr>offset_low = ucast (handler AND 0xFFFF), selector = sel, ist = 0, type_attr = flags,
                  offset_mid = ucast (drop_bit 16 handler AND 0xFFFF),
                  offset_high = ucast (drop_bit 32 handler AND 0xFFFFFFFF), zero = 0\<rparr>]"

text \<open>\<open>isr v\<close> and \<open>isr_default\<close> are the addresses of the stubs in \<open>interrupt_stubs.S\<close>.\<close>

definition idt_init :: "u64 \<Rightarrow> (nat \<Rightarrow> u64) \<Rightarrow> u64 \<Rightarrow> interrupts \<Rightarrow> interrupts" where
  "idt_init idt_addr isr isr_default s =
     (let t0 = foldl (\<lambda>t i. idt_set_gate (of_nat i) isr_default 0x08 0x8E t) (idt s) [0..<256];
          t1 = foldl (\<lambda>t i. idt_set_gate (of_nat i) (isr i) 0x08 0x8E t) t0 [0, 6, 8, 13, 14];
          t2 = foldl (\<lambda>t i. idt_set_gate (of_nat i) (isr i) 0x08 0x8E t) t1 [32..<48]
      in s\<lparr>idt := idt_set_gate 128 (isr 128) 0x08 0xEE t2, idtr := \<lparr>tr_limit = 256 * 16 - 1, tr_base = idt_addr\<rparr>\<rparr>)"

subsection \<open>How the processor reads the tables\<close>

definition segment_base :: "gdt_entry \<Rightarrow> u32" where
  "segment_base e = ucast (base_low e) OR push_bit 16 (ucast (base_mid e)) OR push_bit 24 (ucast (base_high e))"

definition segment_limit :: "gdt_entry \<Rightarrow> u32" where
  "segment_limit e = ucast (limit_low e) OR push_bit 16 (ucast (flags_lim e AND 0x0F))"

text \<open>A system descriptor takes two entries; the second holds the upper half of the base.\<close>

definition system_base :: "gdt_entry \<Rightarrow> gdt_entry \<Rightarrow> u64" where
  "system_base lo hi = ucast (segment_base lo) OR push_bit 32 (ucast (limit_low hi)) OR push_bit 48 (ucast (base_low hi))"

definition gate_handler :: "idt_entry \<Rightarrow> u64" where
  "gate_handler e = ucast (offset_low e) OR push_bit 16 (ucast (offset_mid e)) OR push_bit 32 (ucast (offset_high e))"

definition gate_present :: "idt_entry \<Rightarrow> bool" where
  "gate_present e \<longleftrightarrow> bit (type_attr e) 7"

definition gate_dpl :: "idt_entry \<Rightarrow> u8" where
  "gate_dpl e = drop_bit 5 (type_attr e) AND 3"

text \<open>Type 14 is an interrupt gate: entering through it clears the interrupt flag.\<close>

definition clears_iflag :: "idt_entry \<Rightarrow> bool" where
  "clears_iflag e \<longleftrightarrow> type_attr e AND 0x0F = 0x0E"

lemma masks: "(0xFFFF :: u32) = mask 16" "(0xFF :: u32) = mask 8" "(0x0F :: u32) = mask 4" "(0xFFFF :: u64) = mask 16"
  "(0xFFFFFFFF :: u64) = mask 32" "(0x0F :: u8) = mask 4" "(0xF0 :: u8) = push_bit 4 (mask 4)"
  by (simp_all add: mask_eq_exp_minus_1 push_bit_eq_mult)

lemma gate_handler_split:
  "ucast (ucast (h AND 0xFFFF) :: u16) OR push_bit 16 (ucast (ucast (drop_bit 16 h AND 0xFFFF) :: u16)) OR
     push_bit 32 (ucast (ucast (drop_bit 32 h AND 0xFFFFFFFF) :: u32)) = (h :: u64)"
proof (rule bit_word_eqI)
  fix n assume n: "n < LENGTH(64)"
  consider "n < 16" | "16 \<le> n" "n < 32" | "32 \<le> n" by linarith
  then show "bit (ucast (ucast (h AND 0xFFFF) :: u16) OR push_bit 16 (ucast (ucast (drop_bit 16 h AND 0xFFFF) :: u16)) OR
      push_bit 32 (ucast (ucast (drop_bit 32 h AND 0xFFFFFFFF) :: u32)) :: u64) n = bit h n"
    unfolding masks by cases (use n in \<open>auto simp: bit_simps\<close>)
qed

lemma idt_set_gate_nth:
  "v < length t \<Longrightarrow> idt_set_gate w h sel flags t ! v =
     (if v = unat w then \<lparr>offset_low = ucast (h AND 0xFFFF), selector = sel, ist = 0, type_attr = flags,
        offset_mid = ucast (drop_bit 16 h AND 0xFFFF), offset_high = ucast (drop_bit 32 h AND 0xFFFFFFFF), zero = 0\<rparr> else t ! v)"
  by (simp add: idt_set_gate_def nth_list_update)

lemma length_idt_set_gate [simp]: "length (idt_set_gate w h sel flags t) = length t"
  by (simp add: idt_set_gate_def)

text \<open>What the processor reads of a gate: its handler, selector, type byte.\<close>

definition gate :: "u64 \<Rightarrow> u16 \<Rightarrow> u8 \<Rightarrow> idt_entry" where
  "gate h sel flags = \<lparr>offset_low = ucast (h AND 0xFFFF), selector = sel, ist = 0, type_attr = flags,
     offset_mid = ucast (drop_bit 16 h AND 0xFFFF), offset_high = ucast (drop_bit 32 h AND 0xFFFFFFFF), zero = 0\<rparr>"

lemma gate_simps [simp]: "gate_handler (gate h sel flags) = h" "selector (gate h sel flags) = sel" "type_attr (gate h sel flags) = flags"
  unfolding gate_def by (simp_all add: gate_handler_def gate_handler_split)

lemma set_gates_nth:
  "length t = 256 \<Longrightarrow> v < 256 \<Longrightarrow> \<forall>i \<in> List.set is'. i < 256 \<Longrightarrow>
     foldl (\<lambda>t i. idt_set_gate (of_nat i) (h i) sel flags t) t is' ! v = (if v \<in> List.set is' then gate (h v) sel flags else t ! v)"
proof (induction is' arbitrary: t)
  case (Cons i is')
  have "unat (of_nat i :: u8) = i" using Cons.prems by (simp add: unat_of_nat)
  then show ?case using Cons.prems by (simp add: Cons.IH idt_set_gate_nth gate_def)
qed simp

lemma length_set_gates [simp]: "length (foldl (\<lambda>t i. idt_set_gate (f i) (h i) sel flags t) t xs) = length t"
  by (induction xs arbitrary: t) simp_all

text \<open>C38: After \<open>idt_init\<close> each of the 256 vectors has a present interrupt gate of the kernel code segment. The five exceptions,
  the sixteen hardware interrupts and the system call have their own stub and every other vector the default one; only the
  system call may be raised from ring 3; and every gate, the system call's too, clears the interrupt flag.\<close>
theorem idt_gates:
  assumes "length (idt s) = 256" and "v < 256"
  shows "let e = idt (idt_init a isr d s) ! v
    in gate_handler e = (if v \<in> {0, 6, 8, 13, 14} \<union> {32..<48} \<union> {128} then isr v else d) \<and> selector e = 0x08 \<and>
       gate_present e \<and> clears_iflag e \<and> gate_dpl e = (if v = 128 then 3 else 0)"
proof -
  have e: "idt (idt_init a isr d s) ! v = (if v = 128 then gate (isr v) 0x08 0xEE
      else gate (if v \<in> {32..<48} \<or> v \<in> {0, 6, 8, 13, 14} then isr v else d) 0x08 0x8E)"
    using assms by (simp add: idt_init_def Let_def idt_set_gate_nth set_gates_nth del: upt_rec_numeral flip: gate_def)
  show ?thesis unfolding e Let_def gate_present_def clears_iflag_def gate_dpl_def by (simp add: bit_simps)
qed

theorem idt_gates_witness:
  "gate_handler (idt (idt_init 0 (\<lambda>v. 0x100000 + of_nat v) 0x200000
     \<lparr>idt = replicate 256 (gate 0 0 0), idtr = \<lparr>tr_limit = 0, tr_base = 0\<rparr>\<rparr>) ! 128) = 0x100080"
  using idt_gates [of "\<lparr>idt = replicate 256 (gate 0 0 0), idtr = \<lparr>tr_limit = 0, tr_base = 0\<rparr>\<rparr>" 128 0 "\<lambda>v. 0x100000 + of_nat v" "0x200000"]
  by (simp add: Let_def)

lemma segment_base_split:
  "ucast (ucast (b AND 0xFFFF) :: u16) OR push_bit 16 (ucast (ucast (drop_bit 16 b AND 0xFF) :: u8)) OR
     push_bit 24 (ucast (ucast (drop_bit 24 b AND 0xFF) :: u8)) = (b :: u32)"
proof (rule bit_word_eqI)
  fix n assume n: "n < LENGTH(32)"
  consider "n < 16" | "16 \<le> n" "n < 24" | "24 \<le> n" by linarith
  then show "bit (ucast (ucast (b AND 0xFFFF) :: u16) OR push_bit 16 (ucast (ucast (drop_bit 16 b AND 0xFF) :: u8)) OR
      push_bit 24 (ucast (ucast (drop_bit 24 b AND 0xFF) :: u8)) :: u32) n = bit b n"
    unfolding masks by cases (use n in \<open>auto simp: bit_simps\<close>)
qed

lemma tss_base_split:
  "ucast (ucast (b AND 0xFFFFFFFF) :: u32) OR push_bit 32 (ucast (ucast (drop_bit 32 b AND 0xFFFF) :: u16)) OR
     push_bit 48 (ucast (ucast (drop_bit 48 b AND 0xFFFF) :: u16)) = (b :: u64)"
proof (rule bit_word_eqI)
  fix n assume n: "n < LENGTH(64)"
  consider "n < 32" | "32 \<le> n" "n < 48" | "48 \<le> n" by linarith
  then show "bit (ucast (ucast (b AND 0xFFFFFFFF) :: u32) OR push_bit 32 (ucast (ucast (drop_bit 32 b AND 0xFFFF) :: u16)) OR
      push_bit 48 (ucast (ucast (drop_bit 48 b AND 0xFFFF) :: u16)) :: u64) n = bit b n"
    unfolding masks by cases (use n in \<open>auto simp: bit_simps\<close>)
qed

text \<open>A segment as the processor reads it: base, limit, access byte and flags nibble.\<close>

definition segment :: "gdt_entry \<Rightarrow> u32 \<times> u32 \<times> u8 \<times> u8" where
  "segment e = (segment_base e, segment_limit e, access e, flags_lim e AND 0xF0)"

lemma segment_limit_split:
  "l \<le> 0xFFFFF \<Longrightarrow> ucast (ucast (l AND 0xFFFF) :: u16) OR
     push_bit 16 (ucast ((ucast (drop_bit 16 l AND 0x0F) OR (fl AND 0xF0 :: u8)) AND 0x0F)) = (l :: u32)"
proof (rule bit_word_eqI)
  fix n assume n: "n < LENGTH(32)" and l: "l \<le> 0xFFFFF"
  have "l AND mask 20 = l" using l by (subst less_mask_eq) (simp_all add: word_le_nat_alt word_less_nat_alt)
  then have l20: "bit l n \<Longrightarrow> n < 20" by (metis bit_and_iff bit_mask_iff)
  consider "n < 16" | "16 \<le> n" "n < 20" | "20 \<le> n" by linarith
  then show "bit (ucast (ucast (l AND 0xFFFF) :: u16) OR
      push_bit 16 (ucast ((ucast (drop_bit 16 l AND 0x0F) OR (fl AND 0xF0 :: u8)) AND 0x0F)) :: u32) n = bit l n"
    unfolding masks by cases (use n l20 in \<open>auto simp: bit_simps\<close>)
qed

lemma segment_flags_split: "(ucast (drop_bit 16 (l :: u32) AND 0x0F) OR (fl AND 0xF0)) AND 0xF0 = (fl :: u8) AND 0xF0"
  unfolding masks by (rule bit_word_eqI) (auto simp: bit_simps)

lemma segment_set_entry:
  "i < length g \<Longrightarrow> l \<le> 0xFFFFF \<Longrightarrow> segment (set_entry i b l a fl g ! i) = (b, l, a, fl AND 0xF0)"
  by (simp add: segment_def segment_base_def segment_limit_def set_entry_def segment_base_split segment_limit_split segment_flags_split)

lemma set_entry_other: "i \<noteq> j \<Longrightarrow> set_entry i b l a fl g ! j = g ! j"
  by (simp add: set_entry_def)

lemma length_set_entry [simp]: "length (set_entry i b l a fl g) = length g"
  by (simp add: set_entry_def)

lemma system_base_set_tss:
  "Suc i < length g \<Longrightarrow> system_base (set_tss_entry i b l g ! i) (set_tss_entry i b l g ! Suc i) = b"
proof -
  assume i: "Suc i < length g"
  have "segment_base (set_entry i (ucast (b AND 0xFFFFFFFF)) l 0x89 0 g ! i) = ucast (b AND 0xFFFFFFFF)"
    using i by (simp add: set_entry_def segment_base_def segment_base_split)
  then show ?thesis using i by (simp add: set_tss_entry_def Let_def system_base_def tss_base_split)
qed

text \<open>After \<open>gdt_init\<close> the null entry is followed by flat ring 0 and ring 3 code and data segments, and the task register
  selects a descriptor that decodes to the address and the size of the task state segment.\<close>
theorem gdt_segments:
  assumes "length (gdt s) = 7"
  shows "let s' = gdt_init a t s; g = gdt s'
    in map segment (List.take 5 g) = [(0, 0, 0, 0), (0, 0xFFFFF, 0x9A, 0xA0), (0, 0xFFFFF, 0x92, 0xA0), (0, 0xFFFFF, 0xFA, 0xA0),
         (0, 0xFFFFF, 0xF2, 0xA0)] \<and>
       system_base (g ! unat (drop_bit 3 (task_register s'))) (g ! Suc (unat (drop_bit 3 (task_register s')))) = t \<and>
       segment_limit (g ! 5) = 103 \<and> access (g ! 5) = 0x89 \<and> tr_limit (gdtr s') = 55 \<and> tr_base (gdtr s') = a"
proof -
  define g0 where "g0 = set_entry 4 0 0xFFFFF 0xF2 0xA0 (set_entry 3 0 0xFFFFF 0xFA 0xA0
    (set_entry 2 0 0xFFFFF 0x92 0xA0 (set_entry 1 0 0xFFFFF 0x9A 0xA0 (set_entry 0 0 0 0 0 (gdt s)))))"
  have len: "length g0 = 7" by (simp add: g0_def assms)
  have g: "gdt (gdt_init a t s) = set_tss_entry 5 t 103 g0" by (simp add: gdt_init_def g0_def Let_def SIZEOF_TSS_def)
  have low: "set_tss_entry 5 t 103 g0 ! j = g0 ! j" if "j < 5" for j
    using that by (simp add: set_tss_entry_def Let_def set_entry_other)
  have five: "set_tss_entry 5 t 103 g0 ! 5 = set_entry 5 (ucast (t AND 0xFFFFFFFF)) 103 0x89 0 g0 ! 5"
    by (simp add: set_tss_entry_def Let_def)
  have seg5: "segment_limit (set_tss_entry 5 t 103 g0 ! 5) = 103" "access (set_tss_entry 5 t 103 g0 ! 5) = 0x89"
    using segment_set_entry [of 5 g0 103 "ucast (t AND 0xFFFFFFFF)" "0x89" 0] len unfolding five by (simp_all add: segment_def)
  have take5: "List.take 5 xs = [xs ! 0, xs ! 1, xs ! 2, xs ! 3, xs ! 4]" if "length xs = 7" for xs :: "gdt_entry list"
    using that by (auto simp: numeral_eq_Suc length_Suc_conv)
  have len': "length (set_tss_entry 5 t 103 g0) = 7" by (simp add: set_tss_entry_def Let_def len)
  have segs: "map segment (List.take 5 (set_tss_entry 5 t 103 g0)) = [(0, 0, 0, 0), (0, 0xFFFFF, 0x9A, 0xA0), (0, 0xFFFFF, 0x92, 0xA0),
      (0, 0xFFFFF, 0xFA, 0xA0), (0, 0xFFFFF, 0xF2, 0xA0)]"
    unfolding take5 [OF len'] by (simp add: low) (simp add: g0_def set_entry_other segment_set_entry assms)
  have "task_register (gdt_init a t s) = 0x28" "tr_limit (gdtr (gdt_init a t s)) = 55" "tr_base (gdtr (gdt_init a t s)) = a"
    by (simp_all add: gdt_init_def Let_def SIZEOF_GDT_def)
  moreover have "unat (drop_bit 3 (0x28 :: u16)) = 5" by simp
  ultimately show ?thesis unfolding Let_def g using segs seg5 system_base_set_tss [of 5 g0 t 103] len by simp
qed

theorem gdt_segments_witness:
  "segment_limit (gdt (gdt_init 0x1000 0x123456789ABC segments_static) ! 5) = 103"
  using gdt_segments [of segments_static "0x1000" "0x123456789ABC"] by (simp add: Let_def segments_static_def)

end
