(* ===== verification/Draw.thy ===== *)
theory Draw
  imports CString
begin

text \<open>
  What the pixel code of the kernel shares: counted loops, colour interpolation and the contract
  of a surface that pixels are written to. The framebuffer driver and the window manager's back
  buffer are two such surfaces; the lemmas about what a drawing routine paints are proved once, in
  the locale \<open>canvas\<close>.
\<close>

subsection \<open>Loops\<close>

text \<open>\<open>for (uint32_t i = 0; i < n; ++i)\<close> and \<open>for (int i = 0; i < n; ++i)\<close>.\<close>

definition for_u32 :: "u32 \<Rightarrow> (u32 \<Rightarrow> 's \<Rightarrow> 's) \<Rightarrow> 's \<Rightarrow> 's" where
  "for_u32 n body s = fold (\<lambda>i. body (of_nat i)) [0..<unat n] s"

definition for_int :: "int \<Rightarrow> (int \<Rightarrow> 's \<Rightarrow> 's) \<Rightarrow> 's \<Rightarrow> 's" where
  "for_int n body s = fold (\<lambda>i. body (int i)) [0..<nat n] s"

lemma of_nat_less_u32: "i < unat n \<Longrightarrow> (of_nat i :: u32) < n"
  by (simp add: word_less_nat_alt unat_of_nat)

lemma fold_induct: "P s \<Longrightarrow> (\<And>x s. x \<in> set xs \<Longrightarrow> P s \<Longrightarrow> P (f x s)) \<Longrightarrow> P (fold f xs s)"
  by (induction xs arbitrary: s) auto

lemma for_u32_induct:
  assumes "P s" "\<And>i s. i < n \<Longrightarrow> P s \<Longrightarrow> P (body i s)"
  shows "P (for_u32 n body s)"
  unfolding for_u32_def by (rule fold_induct) (auto intro: assms of_nat_less_u32)

lemma for_int_induct:
  assumes "P s" "\<And>i s. 0 \<le> i \<Longrightarrow> i < n \<Longrightarrow> P s \<Longrightarrow> P (body i s)"
  shows "P (for_int n body s)"
  unfolding for_int_def by (rule fold_induct) (auto intro: assms)

lemma of_nat_below_u32: "of_nat ` {0..<unat n} = {i :: u32. i < n}"
proof (intro set_eqI iffI)
  fix i :: u32 assume "i \<in> {i. i < n}"
  then have "i = of_nat (unat i)" "unat i < unat n" by (simp_all add: word_less_nat_alt)
  then show "i \<in> of_nat ` {0..<unat n}" by (metis atLeastLessThan_iff image_eqI zero_le)
qed (auto intro: of_nat_less_u32)

lemma fold_cong_inv:
  assumes "I s" "\<And>x s. x \<in> set xs \<Longrightarrow> I s \<Longrightarrow> f x s = g x s \<and> I (g x s)"
  shows "fold f xs s = fold g xs s \<and> I (fold g xs s)"
  using assms by (induction xs arbitrary: s) auto

text \<open>Two bodies that agree on an invariant give the same loop.\<close>

lemma for_u32_cong:
  assumes "I s" "\<And>i s. i < n \<Longrightarrow> I s \<Longrightarrow> f i s = g i s \<and> I (g i s)"
  shows "for_u32 n f s = for_u32 n g s \<and> I (for_u32 n g s)"
  unfolding for_u32_def by (rule fold_cong_inv) (simp_all add: assms of_nat_less_u32)

lemma int_below: "int ` {0..<nat n} = {i. 0 \<le> i \<and> i < n}"
proof (intro set_eqI iffI)
  fix i assume "i \<in> {i. 0 \<le> i \<and> i < n}"
  then have "i = int (nat i)" "nat i < nat n" by auto
  then show "i \<in> int ` {0..<nat n}" by (metis atLeastLessThan_iff image_eqI zero_le)
qed auto

subsection \<open>Colours\<close>

definition lerp_u8 :: "u32 \<Rightarrow> u32 \<Rightarrow> u32 \<Rightarrow> u32 \<Rightarrow> u32" where
  "lerp_u8 a b t denom = (a * (denom - t) + b * t) div denom"

definition lerp_rgb :: "u32 \<Rightarrow> u32 \<Rightarrow> u32 \<Rightarrow> u32 \<Rightarrow> u32" where
  "lerp_rgb c1 c2 t denom =
     (let r1 = drop_bit 16 c1 AND 0xFF; g1 = drop_bit 8 c1 AND 0xFF; b1 = c1 AND 0xFF;
          r2 = drop_bit 16 c2 AND 0xFF; g2 = drop_bit 8 c2 AND 0xFF; b2 = c2 AND 0xFF;
          r = lerp_u8 r1 r2 t denom; g = lerp_u8 g1 g2 t denom; b = lerp_u8 b1 b2 t denom
      in 0xFF000000 OR push_bit 16 r OR push_bit 8 g OR b)"

subsection \<open>Surfaces\<close>

text \<open>
  A layer says which points a routine paints, and in which colour; a later layer covers an earlier
  one. \<open>ink c S\<close> paints the points of \<open>S\<close> in colour \<open>c\<close>.
\<close>

type_synonym 'p layer = "'p \<Rightarrow> u32 option"

definition ink :: "u32 \<Rightarrow> 'p set \<Rightarrow> 'p layer" where
  "ink c S p = (if p \<in> S then Some c else None)"

lemma ink_empty [simp]: "ink c {} = Map.empty"
  by (simp add: ink_def fun_eq_iff)

lemma ink_add: "ink c S ++ ink c T = ink c (S \<union> T)"
  by (auto simp: ink_def fun_eq_iff map_add_def)

lemma ink_single: "ink c {p} = [p \<mapsto> c]"
  by (auto simp: ink_def fun_eq_iff)

definition layers :: "'p layer list \<Rightarrow> 'p layer" where
  "layers Ls = foldl (++) Map.empty Ls"

lemma layers_Nil [simp]: "layers [] = Map.empty"
  by (simp add: layers_def)

lemma layers_snoc [simp]: "layers (Ls @ [L]) = layers Ls ++ L"
  by (simp add: layers_def)

lemma layers_append [simp]: "layers (Ls @ Ms) = layers Ls ++ layers Ms"
  by (induction Ms rule: rev_induct) (simp_all flip: append_assoc)

lemma layers_Cons [simp]: "layers (L # Ls) = L ++ layers Ls"
  using layers_append [of "[L]" Ls] by (simp add: layers_def)

lemma layers_ink: "layers (map (\<lambda>i. ink c (S i)) xs) = ink c (\<Union>i \<in> set xs. S i)"
  by (induction xs rule: rev_induct) (simp_all add: ink_add Un_commute)

lemma layers_select:
  assumes "\<And>i. i < n \<Longrightarrow> L i z \<noteq> None \<Longrightarrow> k = i"
  shows "layers (map L [0..<n]) z = (if k < n then L k z else None)"
  using assms
proof (induction n)
  case (Suc n)
  then have IH: "layers (map L [0..<n]) z = (if k < n then L k z else None)" by simp
  show ?case
  proof (cases "k = n")
    case True
    then show ?thesis using IH by (simp add: map_add_def split: option.splits)
  next
    case False
    then have "L n z = None" using Suc.prems [of n] by (cases "L n z") auto
    then show ?thesis using IH False by (auto simp: map_add_def)
  qed
qed simp

lemma layers_const:
  assumes "\<And>L. L \<in> set Ls \<Longrightarrow> L z \<noteq> None \<Longrightarrow> L z = Some c"
  shows "layers Ls z = (if \<exists>L \<in> set Ls. L z \<noteq> None then Some c else None)"
  using assms
proof (induction Ls rule: rev_induct)
  case (snoc L Ls)
  then have IH: "layers Ls z = (if \<exists>L \<in> set Ls. L z \<noteq> None then Some c else None)" by simp
  show ?case using IH snoc.prems [of L] by (cases "L z") (auto simp: map_add_def)
qed simp

text \<open>
  \<open>put p c\<close> writes a pixel, \<open>get s p\<close> reads what the surface shows at a visible point, \<open>view\<close> is what
  is left of a colour, and \<open>rest\<close> is the part of the state that drawing does not touch.
\<close>

locale canvas =
  fixes put :: "'p \<Rightarrow> u32 \<Rightarrow> 's \<Rightarrow> 's"
    and get :: "'s \<Rightarrow> 'p \<Rightarrow> u32"
    and vis :: "'s \<Rightarrow> 'p \<Rightarrow> bool"
    and view :: "u32 \<Rightarrow> u32"
    and rest :: "'s \<Rightarrow> 'r"
    and inv :: "'s \<Rightarrow> bool"
  assumes put_inv: "inv s \<Longrightarrow> inv (put p c s)"
    and put_vis: "inv s \<Longrightarrow> vis (put p c s) q = vis s q"
    and put_rest: "inv s \<Longrightarrow> rest (put p c s) = rest s"
    and get_put: "inv s \<Longrightarrow> vis s q \<Longrightarrow> get (put p c s) q = (if q = p then view c else get s q)"
begin

text \<open>From every state whose untouched part is \<open>r\<close>, the routine paints the layer and nothing else.\<close>

definition paints :: "'r \<Rightarrow> ('s \<Rightarrow> 's) \<Rightarrow> 'p layer \<Rightarrow> bool" where
  "paints r f L \<longleftrightarrow> (\<forall>s. inv s \<longrightarrow> rest s = r \<longrightarrow>
     inv (f s) \<and> rest (f s) = r \<and> (\<forall>q. vis (f s) q = vis s q) \<and>
     (\<forall>q. vis s q \<longrightarrow> get (f s) q = (case L q of None \<Rightarrow> get s q | Some c \<Rightarrow> view c)))"

lemma paintsD:
  assumes "paints r f L" "inv s" "rest s = r"
  shows "inv (f s)" "rest (f s) = r" "vis (f s) q = vis s q"
    "vis s q \<Longrightarrow> get (f s) q = (case L q of None \<Rightarrow> get s q | Some c \<Rightarrow> view c)"
  using assms by (auto simp: paints_def)

lemma paints_cong: "paints r f L \<Longrightarrow> (\<And>s. inv s \<Longrightarrow> rest s = r \<Longrightarrow> g s = f s) \<Longrightarrow> L = M \<Longrightarrow> paints r g M"
  by (auto simp: paints_def)

lemma paints_id: "paints r (\<lambda>s. s) Map.empty"
  by (simp add: paints_def)

lemma paints_put: "paints r (put p c) [p \<mapsto> c]"
  by (auto simp: paints_def put_inv put_vis put_rest get_put)

lemma paints_seq: "paints r f L \<Longrightarrow> paints r g M \<Longrightarrow> paints r (\<lambda>s. g (f s)) (L ++ M)"
  by (auto simp: paints_def map_add_def split: option.splits)

lemma paints_fold:
  assumes "\<And>i. i \<in> set xs \<Longrightarrow> paints r (f i) (L i)"
  shows "paints r (fold f xs) (layers (map L xs))"
  using assms
proof (induction xs)
  case Nil
  then show ?case using paints_id by (simp add: id_def)
next
  case (Cons x xs)
  then have "paints r (\<lambda>s. fold f xs (f x s)) (L x ++ layers (map L xs))" by (intro paints_seq) auto
  then show ?case by (simp add: comp_def)
qed

lemma paints_put_ink: "paints r (put p c) (ink c {p})"
  by (simp add: ink_single paints_put)

lemma paints_when: "paints r f (ink c S) \<Longrightarrow> paints r (\<lambda>s. if b then f s else s) (ink c (if b then S else {}))"
  by (auto simp: paints_id)

lemma paints_seq_ink: "paints r f (ink c S) \<Longrightarrow> paints r g (ink c T) \<Longrightarrow> paints r (\<lambda>s. g (f s)) (ink c (S \<union> T))"
  using paints_seq [of r f "ink c S" g "ink c T"] by (simp add: ink_add)

lemma paints_for_u32:
  assumes "\<And>i. i < n \<Longrightarrow> paints r (f i) (ink c (S i))"
  shows "paints r (for_u32 n f) (ink c (\<Union>i \<in> {i. i < n}. S i))"
proof -
  have "paints r (fold (\<lambda>i. f (of_nat i)) [0..<unat n]) (layers (map (\<lambda>i. ink c (S (of_nat i))) [0..<unat n]))"
    by (rule paints_fold) (auto intro: assms of_nat_less_u32)
  also have "layers (map (\<lambda>i. ink c (S (of_nat i))) [0..<unat n]) = ink c (\<Union>i \<in> {i. i < n}. S i)"
    by (simp add: layers_ink flip: of_nat_below_u32)
  finally show ?thesis by (rule paints_cong) (simp_all add: for_u32_def)
qed

lemma paints_for_int:
  assumes "\<And>i. 0 \<le> i \<Longrightarrow> i < n \<Longrightarrow> paints r (f i) (ink c (S i))"
  shows "paints r (for_int n f) (ink c (\<Union>i \<in> {i. 0 \<le> i \<and> i < n}. S i))"
proof -
  have "paints r (fold (\<lambda>i. f (int i)) [0..<nat n]) (layers (map (\<lambda>i. ink c (S (int i))) [0..<nat n]))"
    by (rule paints_fold) (use assms in auto)
  also have "layers (map (\<lambda>i. ink c (S (int i))) [0..<nat n]) = ink c (\<Union>i \<in> {i. 0 \<le> i \<and> i < n}. S i)"
    by (simp add: layers_ink flip: int_below)
  finally show ?thesis by (rule paints_cong) (simp_all add: for_int_def)
qed

lemma paints_for_int_layers:
  assumes "\<And>i. 0 \<le> i \<Longrightarrow> i < n \<Longrightarrow> paints r (f i) (L i)"
  shows "paints r (for_int n f) (layers (map (\<lambda>i. L (int i)) [0..<nat n]))"
  using paints_fold [of "[0..<nat n]" r "\<lambda>i. f (int i)" "\<lambda>i. L (int i)"] assms
  by (auto simp: for_int_def [abs_def])

lemma paints_for_u32_layers:
  assumes "\<And>i. i < n \<Longrightarrow> paints r (f i) (L i)"
  shows "paints r (for_u32 n f) (layers (map (\<lambda>i. L (of_nat i)) [0..<unat n]))"
proof -
  have "paints r (fold (\<lambda>i. f (of_nat i)) [0..<unat n]) (layers (map (\<lambda>i. L (of_nat i)) [0..<unat n]))"
    by (rule paints_fold) (auto intro: assms of_nat_less_u32)
  then show ?thesis by (rule paints_cong) (simp_all add: for_u32_def)
qed

end

end
