(* ===== verification/Framebuffer.thy ===== *)
theory Framebuffer
  imports Draw MemoryMap
begin

text \<open>
  The linear framebuffer (\<open>kernel/drivers/framebuffer/fb.c\<close>). The screen is a range of bytes of
  memory; \<open>vmem\<close> is the whole memory, so what a routine must not touch can be said too.
\<close>

record framebuffer =
  fb_addr :: u64
  fb_width :: u32
  fb_height :: u32
  fb_pitch :: u32
  fb_bpp :: u8
  fb_enabled :: bool

record video =
  g_fb :: framebuffer
  vmem :: memory

definition fb_static :: framebuffer where
  "fb_static = \<lparr>fb_addr = 0, fb_width = 0, fb_height = 0, fb_pitch = 0, fb_bpp = 0, fb_enabled = False\<rparr>"

definition fb_get :: "'a video_scheme \<Rightarrow> framebuffer" where
  "fb_get v = g_fb v"

definition fb_is_enabled :: "'a video_scheme \<Rightarrow> bool" where
  "fb_is_enabled v = fb_enabled (g_fb v)"

subsection \<open>Finding the framebuffer\<close>

definition MB2_TAG_TYPE_FB :: u32 where "MB2_TAG_TYPE_FB = 8"

text \<open>The fields of \<open>struct mb2_tag_framebuffer\<close> at their offsets.\<close>

definition fb_of_tag :: "memory \<Rightarrow> u64 \<Rightarrow> framebuffer" where
  "fb_of_tag m p =
     \<lparr>fb_addr = load64 m (p + 8), fb_width = load32 m (p + 20), fb_height = load32 m (p + 24), fb_pitch = load32 m (p + 16),
      fb_bpp = m (p + 28), fb_enabled = load64 m (p + 8) \<noteq> 0 \<and> m (p + 28) \<ge> 24\<rparr>"

text \<open>The walk over the tags; \<open>None\<close> is a walk that never ends.\<close>

partial_function (option) fb_find :: "memory \<Rightarrow> u64 \<Rightarrow> u64 \<Rightarrow> framebuffer \<Rightarrow> framebuffer option" where
  "fb_find m ptr lim fb =
     (if ptr < lim then
        if load32 m ptr = 0 \<and> load32 m (ptr + 4) = 8 then Some fb
        else if load32 m ptr = MB2_TAG_TYPE_FB then Some (fb_of_tag m ptr)
        else fb_find m (ptr + ucast ((load32 m (ptr + 4) + 7) AND NOT 7)) lim fb
      else Some fb)"

definition fb_init :: "u64 \<Rightarrow> 'a video_scheme \<Rightarrow> (int \<times> console_op list \<times> 'a video_scheme) option" where
  "fb_init info v =
     (let fb0 = (g_fb v)\<lparr>fb_enabled := False\<rparr>
      in if info = 0 then Some (- 1, [], v\<lparr>g_fb := fb0\<rparr>)
      else case fb_find (vmem v) (info + 8) (info + ucast (load32 (vmem v) info)) fb0 of None \<Rightarrow> None
      | Some fb \<Rightarrow>
        Some (if fb_enabled fb then 0 else - 1,
              if fb_enabled fb then log_info ''[OK] framebuffer ready'' else log_info ''[OK] framebuffer fallback VGA'',
              v\<lparr>g_fb := fb\<rparr>))"

subsection \<open>Drawing\<close>

text \<open>Offsets are 32-bit products; each is added to the pointer on its own.\<close>

definition fb_pos :: "framebuffer \<Rightarrow> u32 \<Rightarrow> u32 \<Rightarrow> u64" where
  "fb_pos fb x y = fb_addr fb + ucast (y * fb_pitch fb) + ucast (x * ucast (fb_bpp fb div 8))"

definition fb_put_pixel :: "u32 \<Rightarrow> u32 \<Rightarrow> u32 \<Rightarrow> 'a video_scheme \<Rightarrow> 'a video_scheme" where
  "fb_put_pixel x y color v =
     (let fb = g_fb v
      in if \<not> fb_enabled fb \<or> x \<ge> fb_width fb \<or> y \<ge> fb_height fb then v
      else let p = fb_pos fb x y;
               m = (vmem v)(p := ucast (color AND 0xFF), p + 1 := ucast (drop_bit 8 color AND 0xFF),
                            p + 2 := ucast (drop_bit 16 color AND 0xFF))
      in v\<lparr>vmem := if fb_bpp fb = 32 then m(p + 3 := 0) else m\<rparr>)"

definition fb_clear :: "u32 \<Rightarrow> 'a video_scheme \<Rightarrow> 'a video_scheme" where
  "fb_clear color v =
     (if \<not> fb_enabled (g_fb v) then v
      else for_u32 (fb_height (g_fb v)) (\<lambda>y. for_u32 (fb_width (g_fb v)) (\<lambda>x. fb_put_pixel x y color)) v)"

definition fb_draw_rect :: "u32 \<Rightarrow> u32 \<Rightarrow> u32 \<Rightarrow> u32 \<Rightarrow> u32 \<Rightarrow> 'a video_scheme \<Rightarrow> 'a video_scheme" where
  "fb_draw_rect x y w h color v =
     (if \<not> fb_enabled (g_fb v) \<or> w = 0 \<or> h = 0 then v
      else for_u32 h (\<lambda>i v. fb_put_pixel (x + w - 1) (y + i) color (fb_put_pixel x (y + i) color v))
             (for_u32 w (\<lambda>i v. fb_put_pixel (x + i) (y + h - 1) color (fb_put_pixel (x + i) y color v)) v))"

definition fb_fill_rect :: "u32 \<Rightarrow> u32 \<Rightarrow> u32 \<Rightarrow> u32 \<Rightarrow> u32 \<Rightarrow> 'a video_scheme \<Rightarrow> 'a video_scheme" where
  "fb_fill_rect x y w h color v =
     (if \<not> fb_enabled (g_fb v) then v
      else for_u32 h (\<lambda>yy. for_u32 w (\<lambda>xx. fb_put_pixel (x + xx) (y + yy) color)) v)"

text \<open>The font of the driver: seven rows of five columns for these letters, a box for the others.\<close>

definition fb_font :: "(string \<times> u8 list) list" where
  "fb_font =
    [(''aA'', [0x0E,0x11,0x11,0x1F,0x11,0x11,0x11]),
     (''eE'', [0x1F,0x10,0x10,0x1E,0x10,0x10,0x1F]),
     (''gG'', [0x0E,0x11,0x10,0x13,0x11,0x11,0x0E]),
     (''hH'', [0x11,0x11,0x11,0x1F,0x11,0x11,0x11]),
     (''iI'', [0x1F,0x04,0x04,0x04,0x04,0x04,0x1F]),
     (''lL'', [0x10,0x10,0x10,0x10,0x10,0x10,0x1F]),
     (''nN'', [0x11,0x19,0x15,0x13,0x11,0x11,0x11]),
     (''oO'', [0x0E,0x11,0x11,0x11,0x11,0x11,0x0E]),
     (''pP'', [0x1E,0x11,0x11,0x1E,0x10,0x10,0x10]),
     (''rR'', [0x1E,0x11,0x11,0x1E,0x14,0x12,0x11]),
     (''sS'', [0x0F,0x10,0x10,0x0E,0x01,0x01,0x1E]),
     (''tT'', [0x1F,0x04,0x04,0x04,0x04,0x04,0x04]),
     (''zZ'', [0x1F,0x01,0x02,0x04,0x08,0x10,0x1F]),
     ('' '', [0,0,0,0,0,0,0])]"

definition default_glyph :: "u8 list" where
  "default_glyph = [0x1F,0x11,0x02,0x04,0x08,0x11,0x1F]"

definition glyph_row :: "(string \<times> u8 list) list \<Rightarrow> char \<Rightarrow> nat \<Rightarrow> u8" where
  "glyph_row font c row = (case find (\<lambda>(cs, r). c \<in> set cs) font of Some (cs, r) \<Rightarrow> r ! row | None \<Rightarrow> default_glyph ! row)"

definition fb_draw_char :: "u32 \<Rightarrow> u32 \<Rightarrow> char \<Rightarrow> u32 \<Rightarrow> 'a video_scheme \<Rightarrow> 'a video_scheme" where
  "fb_draw_char x y c color v =
     (if \<not> fb_enabled (g_fb v) then v
      else for_int 7 (\<lambda>row. for_int 5 (\<lambda>col v.
             if glyph_row fb_font c (nat row) AND push_bit (nat (4 - col)) 1 \<noteq> 0
             then fb_put_pixel (x + of_int col) (y + of_int row) color v else v)) v)"

fun fb_draw_chars :: "u32 \<Rightarrow> u32 \<Rightarrow> string \<Rightarrow> u32 \<Rightarrow> 'a video_scheme \<Rightarrow> 'a video_scheme" where
  "fb_draw_chars cx y [] color v = v"
| "fb_draw_chars cx y (c # s) color v = fb_draw_chars (cx + 6) y s color (fb_draw_char cx y c color v)"

definition fb_draw_string :: "u32 \<Rightarrow> u32 \<Rightarrow> string option \<Rightarrow> u32 \<Rightarrow> 'a video_scheme \<Rightarrow> 'a video_scheme" where
  "fb_draw_string x y s color v = (case s of None \<Rightarrow> v | Some s \<Rightarrow> fb_draw_chars x y s color v)"

subsection \<open>The screen as a surface\<close>

definition fb_stride :: "framebuffer \<Rightarrow> nat" where
  "fb_stride fb = unat (fb_bpp fb) div 8"

definition fb_size :: "framebuffer \<Rightarrow> nat" where
  "fb_size fb = unat (fb_height fb) * unat (fb_pitch fb)"

text \<open>A mode the boot loader may set: rows fit the pitch, and the screen fits 32-bit offsets and memory.\<close>

definition fb_ok :: "framebuffer \<Rightarrow> bool" where
  "fb_ok fb \<longleftrightarrow> (fb_enabled fb \<longrightarrow> 24 \<le> fb_bpp fb \<and> unat (fb_width fb) * fb_stride fb \<le> unat (fb_pitch fb) \<and>
     fb_size fb < 2 ^ 32 \<and> unat (fb_addr fb) + fb_size fb \<le> 2 ^ 64)"

definition fb_region :: "framebuffer \<Rightarrow> u64 set" where
  "fb_region fb = {p. unat (fb_addr fb) \<le> unat p \<and> unat p < unat (fb_addr fb) + fb_size fb}"

definition fb_pixel :: "'a video_scheme \<Rightarrow> u32 \<times> u32 \<Rightarrow> u32" where
  "fb_pixel v q = (let p = fb_pos (g_fb v) (fst q) (snd q) in le32_of (vmem v p) (vmem v (p + 1)) (vmem v (p + 2)) 0)"

definition fb_visible :: "'a video_scheme \<Rightarrow> u32 \<times> u32 \<Rightarrow> bool" where
  "fb_visible v q \<longleftrightarrow> fb_enabled (g_fb v) \<and> fst q < fb_width (g_fb v) \<and> snd q < fb_height (g_fb v)"

definition rgb24 :: "u32 \<Rightarrow> u32" where
  "rgb24 c = c AND 0xFFFFFF"

text \<open>What drawing leaves alone: the mode, the other variables and every byte outside the screen.\<close>

definition fb_rest :: "'a video_scheme \<Rightarrow> framebuffer \<times> memory \<times> 'a" where
  "fb_rest v = (g_fb v, \<lambda>p. if p \<in> fb_region (g_fb v) then 0 else vmem v p, video.more v)"

definition fb_put :: "u32 \<times> u32 \<Rightarrow> u32 \<Rightarrow> 'a video_scheme \<Rightarrow> 'a video_scheme" where
  "fb_put q c v = fb_put_pixel (fst q) (snd q) c v"

subsection \<open>A pixel and its bytes\<close>

lemma offset_bound:
  assumes "x < w" "y < h" "k < n" "w * n \<le> (p :: nat)"
  shows "x * n + k < p" "y * p + (x * n + k) < h * p"
proof -
  have "(x + 1) * n \<le> w * n" using assms(1) by (intro mult_right_mono) auto
  then show r: "x * n + k < p" using assms(3,4) by simp
  have "(y + 1) * p \<le> h * p" using assms(2) by (intro mult_right_mono) auto
  with r show "y * p + (x * n + k) < h * p" by simp
qed

lemma offset_unique:
  assumes "y * p + (x * n + k) = y' * p + (x' * n + (k' :: nat))" "x * n + k < p" "x' * n + k' < p" "k < n" "k' < n"
  shows "x = x'" "y = y'" "k = k'"
proof -
  have "(x * n + k + y * p) div p = y" "(x' * n + k' + y' * p) div p = y'" using assms(2,3) by auto
  with assms(1) show y: "y = y'" by (metis add.commute)
  with assms(1) have xk: "k + x * n = k' + x' * n" by simp
  have "(k + x * n) div n = x" "(k' + x' * n) div n = x'" using assms(4,5) by auto
  with xk show "x = x'" by metis
  with xk show "k = k'" by simp
qed

lemma fb_stride_ok: "fb_ok fb \<Longrightarrow> fb_enabled fb \<Longrightarrow> 3 \<le> fb_stride fb \<and> (fb_bpp fb = 32 \<longrightarrow> fb_stride fb = 4)"
proof -
  assume "fb_ok fb" "fb_enabled fb"
  then have "24 \<le> unat (fb_bpp fb)" by (simp add: fb_ok_def word_le_nat_alt)
  then have "24 div 8 \<le> unat (fb_bpp fb) div 8" by (rule div_le_mono)
  then show ?thesis by (auto simp: fb_stride_def)
qed

text \<open>The address of byte \<open>k\<close> of a visible pixel.\<close>

lemma unat_fb_pos:
  assumes ok: "fb_ok fb" "fb_enabled fb" and xy: "x < fb_width fb" "y < fb_height fb" and k: "k < fb_stride fb"
  shows "unat (fb_pos fb x y + of_nat k) =
      unat (fb_addr fb) + (unat y * unat (fb_pitch fb) + (unat x * fb_stride fb + k))" (is "_ = _ + ?o")
    and "unat x * fb_stride fb + k < unat (fb_pitch fb)"
    and "unat y * unat (fb_pitch fb) + (unat x * fb_stride fb + k) < fb_size fb"
proof -
  have w: "unat (fb_width fb) * fb_stride fb \<le> unat (fb_pitch fb)" and sz: "fb_size fb < 2 ^ 32"
    and a: "unat (fb_addr fb) + fb_size fb \<le> 2 ^ 64" using ok by (simp_all add: fb_ok_def)
  have x: "unat x < unat (fb_width fb)" and y: "unat y < unat (fb_height fb)" using xy by (simp_all add: word_less_nat_alt)
  show r: "unat x * fb_stride fb + k < unat (fb_pitch fb)" and o: "?o < fb_size fb"
    using offset_bound [OF x y k w] by (simp_all add: fb_size_def)
  have "unat (fb_bpp fb) div 8 < 2 ^ 32" by (rule le_less_trans [OF div_le_dividend]) (rule less_trans [OF unat_lt_8], simp)
  then have st: "unat (ucast (fb_bpp fb div 8) :: u32) = fb_stride fb"
    by (simp add: fb_stride_def unat_div unsigned_ucast_eq take_bit_nat_eq_self)
  have "unat (y * fb_pitch fb) = unat y * unat (fb_pitch fb)" using o sz by (subst unat_mult_exact) auto
  moreover have "unat (x * ucast (fb_bpp fb div 8)) = unat x * fb_stride fb" using o sz by (subst unat_mult_exact) (auto simp: st)
  moreover have "unat (of_nat k :: u64) = k" using o sz by (simp add: unat_of_nat)
  ultimately show "unat (fb_pos fb x y + of_nat k) = unat (fb_addr fb) + ?o"
    using o a by (simp add: fb_pos_def unat_plus_exact unsigned_ucast_eq take_bit_nat_eq_self)
qed

lemma fb_pos_region:
  assumes "fb_ok fb" "fb_enabled fb" "x < fb_width fb" "y < fb_height fb" "k < fb_stride fb"
  shows "fb_pos fb x y + of_nat k \<in> fb_region fb"
  using unat_fb_pos [OF assms] by (simp add: fb_region_def)

lemma fb_pos_eq:
  assumes "fb_ok fb" "fb_enabled fb" "x < fb_width fb" "y < fb_height fb" "k < fb_stride fb"
    "x' < fb_width fb" "y' < fb_height fb" "k' < fb_stride fb"
  shows "fb_pos fb x y + of_nat k = fb_pos fb x' y' + of_nat k' \<longleftrightarrow> x = x' \<and> y = y' \<and> k = k'"
proof
  assume "fb_pos fb x y + of_nat k = fb_pos fb x' y' + of_nat k'"
  then have e: "unat y * unat (fb_pitch fb) + (unat x * fb_stride fb + k) = unat y' * unat (fb_pitch fb) + (unat x' * fb_stride fb + k')"
    using unat_fb_pos(1) [OF assms(1-5)] unat_fb_pos(1) [OF assms(1,2,6-8)] by simp
  show "x = x' \<and> y = y' \<and> k = k'"
    using offset_unique [OF e unat_fb_pos(2) [OF assms(1-5)] unat_fb_pos(2) [OF assms(1,2,6-8)] assms(5,8)]
    by (simp add: word_unat_eq_iff)
qed simp

text \<open>A pixel write as single byte writes.\<close>

lemma vmem_put:
  assumes "fb_enabled (g_fb v)" "x < fb_width (g_fb v)" "y < fb_height (g_fb v)"
  shows "fb_put_pixel x y c v = v\<lparr>vmem := vmem (fb_put_pixel x y c v)\<rparr>"
    "vmem (fb_put_pixel x y c v) p =
       (if fb_bpp (g_fb v) = 32 \<and> p = fb_pos (g_fb v) x y + of_nat 3 then 0
        else if p = fb_pos (g_fb v) x y + of_nat 2 then ucast (drop_bit 16 c AND 0xFF)
        else if p = fb_pos (g_fb v) x y + of_nat 1 then ucast (drop_bit 8 c AND 0xFF)
        else if p = fb_pos (g_fb v) x y + of_nat 0 then ucast (c AND 0xFF) else vmem v p)"
proof -
  have "\<not> fb_width (g_fb v) \<le> x" "\<not> fb_height (g_fb v) \<le> y" using assms by (simp_all add: not_le)
  then show "fb_put_pixel x y c v = v\<lparr>vmem := vmem (fb_put_pixel x y c v)\<rparr>"
    "vmem (fb_put_pixel x y c v) p =
       (if fb_bpp (g_fb v) = 32 \<and> p = fb_pos (g_fb v) x y + of_nat 3 then 0
        else if p = fb_pos (g_fb v) x y + of_nat 2 then ucast (drop_bit 16 c AND 0xFF)
        else if p = fb_pos (g_fb v) x y + of_nat 1 then ucast (drop_bit 8 c AND 0xFF)
        else if p = fb_pos (g_fb v) x y + of_nat 0 then ucast (c AND 0xFF) else vmem v p)"
    using assms(1) by (simp_all add: fb_put_pixel_def Let_def)
qed

lemma put_hidden: "\<not> fb_visible v (x, y) \<Longrightarrow> fb_put_pixel x y c v = v"
  by (auto simp: fb_put_pixel_def fb_visible_def not_less)

lemma rgb_bytes: "le32_of (ucast (c AND 0xFF)) (ucast (drop_bit 8 c AND 0xFF)) (ucast (drop_bit 16 c AND 0xFF)) 0 = rgb24 c"
proof (rule bit_word_eqI)
  fix n assume n: "n < LENGTH(32)"
  have m: "(0xFF :: u32) = mask 8" "(0xFFFFFF :: u32) = mask 24" by (simp_all add: mask_eq_exp_minus_1)
  consider "n < 8" | "8 \<le> n" "n < 16" | "16 \<le> n" "n < 24" | "24 \<le> n" by linarith
  then show "bit (le32_of (ucast (c AND 0xFF)) (ucast (drop_bit 8 c AND 0xFF)) (ucast (drop_bit 16 c AND 0xFF)) 0) n = bit (rgb24 c) n"
    unfolding m rgb24_def le32_of_def by cases (use n in \<open>auto simp: bit_simps\<close>)
qed

lemma fb_pixel_bytes:
  "fb_pixel v (x, y) = le32_of (vmem v (fb_pos (g_fb v) x y + of_nat 0)) (vmem v (fb_pos (g_fb v) x y + of_nat 1))
     (vmem v (fb_pos (g_fb v) x y + of_nat 2)) 0"
  by (simp add: fb_pixel_def Let_def)

lemma g_fb_put [simp]: "g_fb (fb_put_pixel x y c v) = g_fb v" "video.more (fb_put_pixel x y c v) = video.more v"
  by (simp_all add: fb_put_pixel_def Let_def)

lemma get_put_pixel:
  assumes ok: "fb_ok (g_fb v)" and q: "fb_visible v (x', y')"
  shows "fb_pixel (fb_put_pixel x y c v) (x', y') = (if (x', y') = (x, y) then rgb24 c else fb_pixel v (x', y'))"
proof (cases "fb_visible v (x, y)")
  case False
  then show ?thesis using q by (auto simp: put_hidden)
next
  case True
  then have en: "fb_enabled (g_fb v)" and xy: "x < fb_width (g_fb v)" "y < fb_height (g_fb v)" by (simp_all add: fb_visible_def)
  have xy': "x' < fb_width (g_fb v)" "y' < fb_height (g_fb v)" using q by (simp_all add: fb_visible_def)
  note st = fb_stride_ok [OF ok en]
  have e: "fb_pos (g_fb v) x' y' + of_nat k' = fb_pos (g_fb v) x y + of_nat k \<longleftrightarrow> x' = x \<and> y' = y \<and> k' = k"
    if "k < 3 \<or> k = 3 \<and> fb_bpp (g_fb v) = 32" "k' < 3" for k k'
    using that st by (intro fb_pos_eq [OF ok en xy' _ xy]) auto
  have b: "vmem (fb_put_pixel x y c v) (fb_pos (g_fb v) x' y' + of_nat k') =
      (if (x', y') = (x, y) then (if k' = 0 then ucast (c AND 0xFF) else if k' = 1 then ucast (drop_bit 8 c AND 0xFF)
         else ucast (drop_bit 16 c AND 0xFF)) else vmem v (fb_pos (g_fb v) x' y' + of_nat k'))" if "k' < 3" for k'
  proof -
    have n3: "(fb_bpp (g_fb v) = 32 \<and> fb_pos (g_fb v) x' y' + of_nat k' = fb_pos (g_fb v) x y + of_nat 3) = False"
      using e [of 3 k'] that by auto
    have ek: "(fb_pos (g_fb v) x' y' + of_nat k' = fb_pos (g_fb v) x y + of_nat k) = (x' = x \<and> y' = y \<and> k' = k)" if "k < 3" for k
      using e [of k k'] that \<open>k' < 3\<close> by blast
    have "k' = 0 \<or> k' = 1 \<or> k' = 2" using that by auto
    then show ?thesis unfolding vmem_put(2) [OF en xy] n3 if_False
      by (simp only: ek [of 2] ek [of 1] ek [of 0] prod.inject) (cases "x' = x \<and> y' = y"; auto)
  qed
  show ?thesis unfolding fb_pixel_bytes g_fb_put using b [of 0] b [of 1] b [of 2] by (simp del: of_nat_0 of_nat_1 of_nat_numeral add: rgb_bytes)
qed

lemma put_keeps_rest:
  assumes "fb_ok (g_fb v)"
  shows "fb_rest (fb_put_pixel x y c v) = fb_rest v"
proof (cases "fb_visible v (x, y)")
  case True
  then have en: "fb_enabled (g_fb v)" and xy: "x < fb_width (g_fb v)" "y < fb_height (g_fb v)" by (simp_all add: fb_visible_def)
  have "vmem (fb_put_pixel x y c v) p = vmem v p" if p: "p \<notin> fb_region (g_fb v)" for p
  proof -
    have n: "(p = fb_pos (g_fb v) x y + of_nat k) = False" if "k < 3 \<or> k = 3 \<and> fb_bpp (g_fb v) = 32" for k
      using fb_pos_region [OF assms en xy, of k] fb_stride_ok [OF assms en] p that by auto
    then have n3: "(fb_bpp (g_fb v) = 32 \<and> p = fb_pos (g_fb v) x y + of_nat 3) = False" by blast
    have n2: "(p = fb_pos (g_fb v) x y + of_nat 2) = False" and n1: "(p = fb_pos (g_fb v) x y + of_nat 1) = False"
      and n0: "(p = fb_pos (g_fb v) x y + of_nat 0) = False" by (rule n; simp)+
    show ?thesis unfolding vmem_put(2) [OF en xy] n3 n2 n1 n0 by simp
  qed
  then show ?thesis by (auto simp: fb_rest_def fun_eq_iff)
qed (simp add: put_hidden)

interpretation fbc: canvas fb_put fb_pixel fb_visible rgb24 fb_rest "\<lambda>v. fb_ok (g_fb v)"
proof unfold_locales
  fix v :: "'a video_scheme" and p q :: "u32 \<times> u32" and c
  assume ok: "fb_ok (g_fb v)"
  show "fb_ok (g_fb (fb_put p c v))" "fb_visible (fb_put p c v) q = fb_visible v q" "fb_rest (fb_put p c v) = fb_rest v"
    using ok by (simp_all add: fb_put_def fb_visible_def put_keeps_rest)
  assume "fb_visible v q"
  then show "fb_pixel (fb_put p c v) q = (if q = p then rgb24 c else fb_pixel v q)"
    using get_put_pixel [OF ok, of "fst q" "snd q" "fst p" "snd p" c] by (simp add: fb_put_def)
qed

lemma paints_disabled: "\<not> fb_enabled (fst r) \<Longrightarrow> fbc.paints r (\<lambda>v. v) L"
  by (auto simp: fbc.paints_def fb_visible_def fb_rest_def)

lemma paints_pixel: "fbc.paints r (fb_put_pixel x y c) (ink c {(x, y)})"
  using fbc.paints_put_ink [of r "(x, y)" c] by (simp add: fb_put_def [abs_def])

lemma rest_fb: "fb_rest v = r \<Longrightarrow> g_fb v = fst r"
  by (auto simp: fb_rest_def)

lemma paints_if_enabled:
  assumes "fbc.paints r f L"
  shows "fbc.paints r (\<lambda>v. if \<not> fb_enabled (g_fb v) then v else f v) L"
proof (cases "fb_enabled (fst r)")
  case True
  show ?thesis by (rule fbc.paints_cong [OF assms]) (use True in \<open>simp_all add: rest_fb\<close>)
next
  case False
  show ?thesis by (rule fbc.paints_cong [OF paints_disabled [OF False]]) (use False in \<open>simp_all add: rest_fb\<close>)
qed

subsection \<open>What each routine paints\<close>

definition fb_rect :: "u32 \<Rightarrow> u32 \<Rightarrow> u32 \<Rightarrow> u32 \<Rightarrow> (u32 \<times> u32) set" where
  "fb_rect x y w h = {(px, py). px - x < w \<and> py - y < h}"

definition fb_frame :: "u32 \<Rightarrow> u32 \<Rightarrow> u32 \<Rightarrow> u32 \<Rightarrow> (u32 \<times> u32) set" where
  "fb_frame x y w h = (if w = 0 \<or> h = 0 then {}
     else {(px, py). px - x < w \<and> (py = y \<or> py = y + h - 1) \<or> py - y < h \<and> (px = x \<or> px = x + w - 1)})"

definition fb_glyph :: "u32 \<Rightarrow> u32 \<Rightarrow> char \<Rightarrow> (u32 \<times> u32) set" where
  "fb_glyph x y c = {(px, py). px - x < 5 \<and> py - y < 7 \<and> bit (glyph_row fb_font c (unat (py - y))) (4 - unat (px - x))}"

fun fb_text :: "u32 \<Rightarrow> u32 \<Rightarrow> string \<Rightarrow> (u32 \<times> u32) set" where
  "fb_text x y [] = {}"
| "fb_text x y (c # s) = fb_glyph x y c \<union> fb_text (x + 6) y s"

lemma word_below: "(\<exists>i < n. p = a + i) \<longleftrightarrow> p - a < n" for p a n :: u32
  by (auto intro: exI [of _ "p - a"])

lemma UN_rect: "(\<Union>yy \<in> {yy. yy < h}. \<Union>xx \<in> {xx. xx < w}. {(x + xx, y + yy)}) = fb_rect x y w h"
proof (rule set_eqI, clarify)
  fix px py
  have "(px, py) \<in> (\<Union>yy \<in> {yy. yy < h}. \<Union>xx \<in> {xx. xx < w}. {(x + xx, y + yy)}) \<longleftrightarrow>
      (\<exists>xx < w. px = x + xx) \<and> (\<exists>yy < h. py = y + yy)" by blast
  then show "((px, py) \<in> (\<Union>yy \<in> {yy. yy < h}. \<Union>xx \<in> {xx. xx < w}. {(x + xx, y + yy)})) = ((px, py) \<in> fb_rect x y w h)"
    unfolding word_below by (simp add: fb_rect_def)
qed

lemma paints_fill: "fbc.paints r (fb_fill_rect x y w h c) (ink c (fb_rect x y w h))"
proof -
  have "fbc.paints r (for_u32 h (\<lambda>yy. for_u32 w (\<lambda>xx. fb_put_pixel (x + xx) (y + yy) c))) (ink c (fb_rect x y w h))"
    unfolding UN_rect [symmetric] by (intro fbc.paints_for_u32 paints_pixel)
  from paints_if_enabled [OF this] show ?thesis by (simp add: fb_fill_rect_def [abs_def])
qed

lemma UN_frame:
  "(\<Union>i \<in> {i. i < w}. {(x + i, y)} \<union> {(x + i, y + h - 1)}) \<union> (\<Union>i \<in> {i. i < h}. {(x, y + i)} \<union> {(x + w - 1, y + i)}) =
     {(px, py). px - x < w \<and> (py = y \<or> py = y + h - 1) \<or> py - y < h \<and> (px = x \<or> px = x + w - 1)}" for x y :: u32
proof (rule set_eqI, clarify)
  fix px py
  have "(px, py) \<in> (\<Union>i \<in> {i. i < w}. {(x + i, y)} \<union> {(x + i, y + h - 1)}) \<union>
        (\<Union>i \<in> {i. i < h}. {(x, y + i)} \<union> {(x + w - 1, y + i)}) \<longleftrightarrow>
      (\<exists>i < w. px = x + i) \<and> (py = y \<or> py = y + h - 1) \<or> (\<exists>i < h. py = y + i) \<and> (px = x \<or> px = x + w - 1)" by blast
  then show "((px, py) \<in> (\<Union>i \<in> {i. i < w}. {(x + i, y)} \<union> {(x + i, y + h - 1)}) \<union>
        (\<Union>i \<in> {i. i < h}. {(x, y + i)} \<union> {(x + w - 1, y + i)})) =
      ((px, py) \<in> {(px, py). px - x < w \<and> (py = y \<or> py = y + h - 1) \<or> py - y < h \<and> (px = x \<or> px = x + w - 1)})"
    unfolding word_below by simp
qed

lemma paints_frame: "fbc.paints r (fb_draw_rect x y w h c) (ink c (fb_frame x y w h))"
proof (cases "w = 0 \<or> h = 0")
  case True
  show ?thesis by (rule fbc.paints_cong [OF fbc.paints_id]) (use True in \<open>auto simp: fb_draw_rect_def fb_frame_def\<close>)
next
  case False
  have "fbc.paints r (\<lambda>v. for_u32 h (\<lambda>i v. fb_put_pixel (x + w - 1) (y + i) c (fb_put_pixel x (y + i) c v))
      (for_u32 w (\<lambda>i v. fb_put_pixel (x + i) (y + h - 1) c (fb_put_pixel (x + i) y c v)) v)) (ink c (fb_frame x y w h))"
    unfolding fb_frame_def if_not_P [OF False] UN_frame [symmetric]
    by (intro fbc.paints_seq_ink fbc.paints_for_u32 paints_pixel)
  from paints_if_enabled [OF this] show ?thesis by (rule fbc.paints_cong) (use False in \<open>auto simp: fb_draw_rect_def\<close>)
qed

lemma paints_clear: "fbc.paints r (fb_clear c) (ink c UNIV)"
proof -
  let ?fb = "fst r"
  have "fbc.paints r (for_u32 (fb_height ?fb) (\<lambda>y. for_u32 (fb_width ?fb) (\<lambda>x. fb_put_pixel x y c)))
      (ink c (\<Union>y \<in> {y. y < fb_height ?fb}. \<Union>x \<in> {x. x < fb_width ?fb}. {(x, y)}))"
    by (intro fbc.paints_for_u32 paints_pixel)
  from paints_if_enabled [OF this] have p: "fbc.paints r (fb_clear c) (ink c {(x, y). x < fb_width ?fb \<and> y < fb_height ?fb})"
    by (rule fbc.paints_cong) (auto simp: fb_clear_def fb_rest_def intro!: arg_cong2 [of _ _ _ _ ink])
  show ?thesis unfolding fbc.paints_def
  proof (intro allI impI)
    fix v :: "'a video_scheme" assume v: "fb_ok (g_fb v)" "fb_rest v = r"
    then have "fst r = g_fb v" by (auto simp: fb_rest_def)
    then have "fb_visible v q \<Longrightarrow> ink c {(x, y). x < fb_width ?fb \<and> y < fb_height ?fb} q = ink c UNIV q" for q
      by (cases q) (simp add: fb_visible_def ink_def)
    then show "fb_ok (g_fb (fb_clear c v)) \<and> fb_rest (fb_clear c v) = r \<and> (\<forall>q. fb_visible (fb_clear c v) q = fb_visible v q) \<and>
        (\<forall>q. fb_visible v q \<longrightarrow> fb_pixel (fb_clear c v) q = (case ink c UNIV q of None \<Rightarrow> fb_pixel v q | Some c \<Rightarrow> rgb24 c))"
      using fbc.paintsD [OF p v] by metis
  qed
qed

lemma word_below_int:
  fixes p a :: u32
  assumes "0 \<le> n" "n < 2 ^ 32"
  shows "(\<exists>i. 0 \<le> i \<and> i < n \<and> p = a + of_int i \<and> P i) \<longleftrightarrow> p - a < of_int n \<and> P (uint (p - a))"
proof
  assume "\<exists>i. 0 \<le> i \<and> i < n \<and> p = a + of_int i \<and> P i"
  then obtain i where i: "0 \<le> i" "i < n" "p = a + of_int i" "P i" by blast
  then have "uint (p - a) = i" using assms by (simp add: uint_word_of_int_eq take_bit_int_eq_self)
  then show "p - a < of_int n \<and> P (uint (p - a))" using i assms
    by (simp add: word_less_def uint_word_of_int_eq take_bit_int_eq_self)
next
  assume "p - a < of_int n \<and> P (uint (p - a))"
  then have "uint (p - a) < n" "P (uint (p - a))" using assms
    by (simp_all add: word_less_def uint_word_of_int_eq take_bit_int_eq_self)
  then show "\<exists>i. 0 \<le> i \<and> i < n \<and> p = a + of_int i \<and> P i" by (intro exI [of _ "uint (p - a)"]) simp
qed

lemma UN_glyph:
  "(\<Union>row \<in> {row. 0 \<le> row \<and> row < 7}. \<Union>col \<in> {col. 0 \<le> col \<and> col < 5}.
      if bit (glyph_row fb_font c (nat row)) (nat (4 - col)) then {(x + of_int col, y + of_int row)} else {}) = fb_glyph x y c"
  (is "?U = _") for x y :: u32
proof (rule set_eqI, clarify)
  fix px py
  have "(px, py) \<in> ?U \<longleftrightarrow> (\<exists>row. 0 \<le> row \<and> row < 7 \<and> py = y + of_int row \<and>
      (\<exists>col. 0 \<le> col \<and> col < 5 \<and> px = x + of_int col \<and> bit (glyph_row fb_font c (nat row)) (nat (4 - col))))"
    by (auto split: if_splits)
  also have "\<dots> \<longleftrightarrow> py - y < of_int 7 \<and> px - x < of_int 5 \<and> bit (glyph_row fb_font c (nat (uint (py - y)))) (nat (4 - uint (px - x)))"
    by (subst word_below_int, simp, simp, subst word_below_int, simp, simp, rule refl)
  also have "\<dots> \<longleftrightarrow> (px, py) \<in> fb_glyph x y c"
    by (auto simp: fb_glyph_def nat_diff_distrib' unat_eq_nat_uint [symmetric])
  finally show "(px, py) \<in> ?U \<longleftrightarrow> (px, py) \<in> fb_glyph x y c" .
qed

lemma paints_char: "fbc.paints r (fb_draw_char x y c col) (ink col (fb_glyph x y c))"
proof -
  have "fbc.paints r (for_int 7 (\<lambda>row. for_int 5 (\<lambda>cl v.
      if bit (glyph_row fb_font c (nat row)) (nat (4 - cl)) then fb_put_pixel (x + of_int cl) (y + of_int row) col v else v)))
      (ink col (fb_glyph x y c))"
    unfolding UN_glyph [symmetric] by (intro fbc.paints_for_int fbc.paints_when paints_pixel)
  from paints_if_enabled [OF this] show ?thesis
    unfolding fb_draw_char_def [abs_def] bit_iff_and_push_bit_not_eq_0 [symmetric] .
qed

lemma paints_chars: "fbc.paints r (fb_draw_chars x y s col) (ink col (fb_text x y s))"
proof (induction s arbitrary: x)
  case Nil
  then show ?case by (simp add: fbc.paints_id)
next
  case (Cons c s)
  from fbc.paints_seq_ink [OF paints_char [of r x y c col] Cons.IH] show ?case by simp
qed

text \<open>The drawing operations of the driver, and the layer each one paints.\<close>

datatype fb_op = Clear u32 | Fill u32 u32 u32 u32 u32 | Frame u32 u32 u32 u32 u32 | Text u32 u32 string u32

fun fb_exec :: "fb_op \<Rightarrow> 'a video_scheme \<Rightarrow> 'a video_scheme" where
  "fb_exec (Clear c) v = fb_clear c v"
| "fb_exec (Fill x y w h c) v = fb_fill_rect x y w h c v"
| "fb_exec (Frame x y w h c) v = fb_draw_rect x y w h c v"
| "fb_exec (Text x y s c) v = fb_draw_string x y (Some s) c v"

fun fb_layer :: "fb_op \<Rightarrow> (u32 \<times> u32) layer" where
  "fb_layer (Clear c) = ink c UNIV"
| "fb_layer (Fill x y w h c) = ink c (fb_rect x y w h)"
| "fb_layer (Frame x y w h c) = ink c (fb_frame x y w h)"
| "fb_layer (Text x y s c) = ink c (fb_text x y s)"

lemma paints_op: "fbc.paints r (fb_exec d) (fb_layer d)"
proof (cases d)
  case (Clear c)
  show ?thesis by (rule fbc.paints_cong [OF paints_clear]) (simp_all add: Clear)
next
  case (Fill x y w h c)
  show ?thesis by (rule fbc.paints_cong [OF paints_fill]) (simp_all add: Fill)
next
  case (Frame x y w h c)
  show ?thesis by (rule fbc.paints_cong [OF paints_frame]) (simp_all add: Frame)
next
  case (Text x y s c)
  show ?thesis by (rule fbc.paints_cong [OF paints_chars]) (simp_all add: Text fb_draw_string_def)
qed

lemma of_nat_below: "i < unat (w :: u32) \<Longrightarrow> (x :: u32) = of_nat i \<Longrightarrow> unat x = i"
  using unat_lt_32 [of w] by (simp add: unat_of_nat del: unat_lt_32)

lemma screen_layer:
  assumes "x < w" "y < h"
  shows "layers (map (\<lambda>j. layers (map (\<lambda>i. ink (f (of_nat i :: u32) (of_nat j :: u32)) {(of_nat i, of_nat j)}) [0..<unat w]))
      [0..<unat h]) (x :: u32, y :: u32) = Some (f x y)"
proof -
  let ?r = "\<lambda>j. layers (map (\<lambda>i. ink (f (of_nat i :: u32) (of_nat j :: u32)) {(of_nat i, of_nat j)}) [0..<unat w])"
  have r: "?r j (x, y) = (if unat x < unat w then ink (f x (of_nat j :: u32)) {(x, of_nat j)} (x, y) else None)" if "j < unat h" for j
  proof -
    have "?r j (x, y) = (if unat x < unat w then ink (f (of_nat (unat x)) (of_nat j :: u32)) {(of_nat (unat x), of_nat j)} (x, y) else None)"
    proof (rule layers_select)
      fix i assume i: "i < unat w" "ink (f (of_nat i :: u32) (of_nat j :: u32)) {(of_nat i, of_nat j)} (x, y) \<noteq> None"
      then have "x = of_nat i" by (simp add: ink_def split: if_splits)
      then show "unat x = i" by (rule of_nat_below [OF i(1)])
    qed
    then show ?thesis by simp
  qed
  have "layers (map ?r [0..<unat h]) (x, y) = (if unat y < unat h then ?r (unat y) (x, y) else None)"
  proof (rule layers_select)
    fix j assume j: "j < unat h" "?r j (x, y) \<noteq> None"
    then have "y = of_nat j" unfolding r [OF j(1)] by (simp add: ink_def split: if_splits)
    then show "unat y = j" by (rule of_nat_below [OF j(1)])
  qed
  then show ?thesis using r [of "unat y"] assms by (simp add: word_less_nat_alt ink_def)
qed

text \<open>
  C12: drawing refines painting on a picture. After any sequence of drawing operations every visible
  pixel shows the last layer that covers it, and no byte outside the screen, no variable and no mode
  field changed, however far the coordinates reach or wrap.
\<close>

theorem fb_paints_layers:
  assumes "fb_ok (g_fb v)"
  shows "let v' = fold fb_exec ds v
    in (\<forall>q. fb_visible v q \<longrightarrow>
          fb_pixel v' q = (case layers (map fb_layer ds) q of None \<Rightarrow> fb_pixel v q | Some c \<Rightarrow> rgb24 c)) \<and>
       g_fb v' = g_fb v \<and> video.more v' = video.more v \<and> (\<forall>p. p \<notin> fb_region (g_fb v) \<longrightarrow> vmem v' p = vmem v p)"
proof -
  have p: "fbc.paints (fb_rest v) (fold fb_exec ds) (layers (map fb_layer ds))"
    by (rule fbc.paints_fold) (rule paints_op)
  let ?v = "fold fb_exec ds v"
  have r: "fb_rest ?v = fb_rest v" using fbc.paintsD(2) [OF p assms] by simp
  then have g: "g_fb ?v = g_fb v" "video.more ?v = video.more v" by (simp_all add: fb_rest_def)
  from r have "(if p \<in> fb_region (g_fb v) then 0 else vmem ?v p) = (if p \<in> fb_region (g_fb v) then 0 else vmem v p)" for p
    by (simp add: fb_rest_def g fun_eq_iff)
  then have "p \<notin> fb_region (g_fb v) \<Longrightarrow> vmem ?v p = vmem v p" for p by (metis (full_types))
  with fbc.paintsD(4) [OF p assms] g show ?thesis by (simp add: Let_def)
qed

definition demo_video :: video where
  "demo_video = \<lparr>g_fb = \<lparr>fb_addr = 0xFD000000, fb_width = 640, fb_height = 480, fb_pitch = 2560, fb_bpp = 32, fb_enabled = True\<rparr>,
     vmem = \<lambda>_. 0\<rparr>"

lemma demo_video_ok: "fb_ok (g_fb demo_video)"
  by (simp add: demo_video_def fb_ok_def fb_stride_def fb_size_def)

theorem fb_paints_layers_witness:
  "fb_pixel (fold fb_exec [Clear 0xFF0B1220, Fill 10 10 (- 1) 20 0xFF151F2B, Frame 0 0 640 480 0xFF6CA8FF] demo_video) (30, 20) = 0x151F2B"
  using fb_paints_layers [OF demo_video_ok, of "[Clear 0xFF0B1220, Fill 10 10 (- 1) 20 0xFF151F2B, Frame 0 0 640 480 0xFF6CA8FF]"]
  by (simp add: Let_def fb_visible_def demo_video_def ink_def map_add_def fb_rect_def fb_frame_def rgb24_def)

end
