(* ===== verification/Windows.thy ===== *)
theory Windows
  imports Framebuffer Devices "HOL-Library.Signed_Division"
begin

text \<open>
  The window manager (\<open>kernel/ui/nanawm/wm.c\<close>): eight window slots, focus and dragging, and the
  compositor, which paints a back buffer and copies it to the framebuffer. The back buffer and the
  windows' buffers are blocks of the kernel heap, so all pixels are bytes of one memory.
\<close>

definition WM_MAX_WINDOWS :: nat where "WM_MAX_WINDOWS = 8"
definition WM_TITLEBAR_H :: int where "WM_TITLEBAR_H = 18"
definition WM_WIN_MOVABLE :: u32 where "WM_WIN_MOVABLE = 1"

record wm_window =
  wused :: bool
  wx :: int
  wy :: int
  ww :: int
  wh :: int
  wactive :: bool
  wflags :: u32
  wtitle :: string
  wbuffer :: u64

text \<open>\<open>g_active\<close> is an index of \<open>g_windows\<close>. The heap is the kernel's, the mouse the driver's.\<close>

record wm = video +
  wm_heap :: heap
  wm_mouse :: mouse
  g_windows :: "wm_window list"
  g_active :: "nat option"
  g_backbuf :: u64
  g_bw :: u32
  g_bh :: u32
  g_dragging :: bool
  g_drag_offx :: int
  g_drag_offy :: int
  g_prev_btn :: bool

definition window_zero :: wm_window where
  "window_zero = \<lparr>wused = False, wx = 0, wy = 0, ww = 0, wh = 0, wactive = False, wflags = 0, wtitle = '''', wbuffer = 0\<rparr>"

subsection \<open>The back buffer\<close>

definition store32 :: "u64 \<Rightarrow> u32 \<Rightarrow> memory \<Rightarrow> memory" where
  "store32 p c m = m(p := ucast c, p + 1 := ucast (drop_bit 8 c), p + 2 := ucast (drop_bit 16 c), p + 3 := ucast (drop_bit 24 c))"

text \<open>Entry \<open>i\<close> of an array of 32-bit words.\<close>

definition word_at :: "u64 \<Rightarrow> u64 \<Rightarrow> u64" where
  "word_at buf i = buf + 4 * i"

text \<open>For a nonnegative int the comparison as \<open>uint32_t\<close> is the comparison of the values.\<close>

definition buf_put_pixel :: "u64 \<Rightarrow> u32 \<Rightarrow> int \<Rightarrow> int \<Rightarrow> u32 \<Rightarrow> 'a wm_scheme \<Rightarrow> 'a wm_scheme" where
  "buf_put_pixel buf pitch_px x y c s =
     (if buf = 0 then s
      else if x < 0 \<or> y < 0 then s
      else if x \<ge> uint (g_bw s) \<or> y \<ge> uint (g_bh s) then s
      else s\<lparr>vmem := store32 (word_at buf (ucast (of_int y * pitch_px + of_int x :: u32))) c (vmem s)\<rparr>)"

definition buf_fill_gradient :: "u64 \<Rightarrow> u32 \<Rightarrow> int \<Rightarrow> int \<Rightarrow> u32 \<Rightarrow> u32 \<Rightarrow> 'a wm_scheme \<Rightarrow> 'a wm_scheme" where
  "buf_fill_gradient buf pitch_px w h c_top c_bottom s =
     (if buf = 0 \<or> w \<le> 0 \<or> h \<le> 0 then s
      else let denom = (if h > 1 then of_int (h - 1) else 1)
      in for_int h (\<lambda>y. let c = lerp_rgb c_top c_bottom (of_int y) denom
           in for_int w (\<lambda>x s. s\<lparr>vmem := store32 (word_at buf (ucast (of_int y * pitch_px + of_int x :: u32))) c (vmem s)\<rparr>)) s)"

definition buf_fill_rect :: "u64 \<Rightarrow> u32 \<Rightarrow> int \<Rightarrow> int \<Rightarrow> int \<Rightarrow> int \<Rightarrow> u32 \<Rightarrow> 'a wm_scheme \<Rightarrow> 'a wm_scheme" where
  "buf_fill_rect buf pitch_px x y w h c s =
     (if buf = 0 \<or> w \<le> 0 \<or> h \<le> 0 then s
      else for_int h (\<lambda>yy. for_int w (\<lambda>xx. buf_put_pixel buf pitch_px (x + xx) (y + yy) c)) s)"

definition buf_draw_rect :: "u64 \<Rightarrow> u32 \<Rightarrow> int \<Rightarrow> int \<Rightarrow> int \<Rightarrow> int \<Rightarrow> u32 \<Rightarrow> 'a wm_scheme \<Rightarrow> 'a wm_scheme" where
  "buf_draw_rect buf pitch_px x y w h c s =
     (if buf = 0 \<or> w \<le> 0 \<or> h \<le> 0 then s
      else for_int h (\<lambda>yy s. buf_put_pixel buf pitch_px (x + w - 1) (y + yy) c (buf_put_pixel buf pitch_px x (y + yy) c s))
             (for_int w (\<lambda>xx s. buf_put_pixel buf pitch_px (x + xx) (y + h - 1) c (buf_put_pixel buf pitch_px (x + xx) y c s)) s))"

definition wm_font :: "(string \<times> u8 list) list" where
  "wm_font =
    [(''aA'', [0x0E,0x11,0x11,0x1F,0x11,0x11,0x11]),
     (''bB'', [0x1E,0x11,0x11,0x1E,0x11,0x11,0x1E]),
     (''cC'', [0x0E,0x11,0x10,0x10,0x10,0x11,0x0E]),
     (''dD'', [0x1C,0x12,0x11,0x11,0x11,0x12,0x1C]),
     (''eE'', [0x1F,0x10,0x10,0x1E,0x10,0x10,0x1F]),
     (''fF'', [0x1F,0x10,0x10,0x1E,0x10,0x10,0x10]),
     (''gG'', [0x0E,0x11,0x10,0x13,0x11,0x11,0x0E]),
     (''hH'', [0x11,0x11,0x11,0x1F,0x11,0x11,0x11]),
     (''iI'', [0x1F,0x04,0x04,0x04,0x04,0x04,0x1F]),
     (''kK'', [0x11,0x12,0x14,0x18,0x14,0x12,0x11]),
     (''lL'', [0x10,0x10,0x10,0x10,0x10,0x10,0x1F]),
     (''mM'', [0x11,0x1B,0x15,0x11,0x11,0x11,0x11]),
     (''nN'', [0x11,0x19,0x15,0x13,0x11,0x11,0x11]),
     (''oO'', [0x0E,0x11,0x11,0x11,0x11,0x11,0x0E]),
     (''pP'', [0x1E,0x11,0x11,0x1E,0x10,0x10,0x10]),
     (''rR'', [0x1E,0x11,0x11,0x1E,0x14,0x12,0x11]),
     (''sS'', [0x0F,0x10,0x10,0x0E,0x01,0x01,0x1E]),
     (''tT'', [0x1F,0x04,0x04,0x04,0x04,0x04,0x04]),
     (''uU'', [0x11,0x11,0x11,0x11,0x11,0x11,0x0E]),
     (''wW'', [0x11,0x11,0x11,0x11,0x15,0x1B,0x11]),
     (''xX'', [0x11,0x11,0x0A,0x04,0x0A,0x11,0x11]),
     (''yY'', [0x11,0x11,0x0A,0x04,0x04,0x04,0x04]),
     (''zZ'', [0x1F,0x01,0x02,0x04,0x08,0x10,0x1F]),
     ('':'', [0x00,0x04,0x00,0x00,0x04,0x00,0x00]),
     (''-'', [0x00,0x00,0x00,0x1F,0x00,0x00,0x00]),
     ('' '', [0,0,0,0,0,0,0])]"

definition buf_draw_char :: "u64 \<Rightarrow> u32 \<Rightarrow> int \<Rightarrow> int \<Rightarrow> char \<Rightarrow> u32 \<Rightarrow> 'a wm_scheme \<Rightarrow> 'a wm_scheme" where
  "buf_draw_char buf pitch_px x y c color s =
     for_int 7 (\<lambda>row. for_int 5 (\<lambda>col s.
       if glyph_row wm_font c (nat row) AND push_bit (nat (4 - col)) 1 \<noteq> 0
       then buf_put_pixel buf pitch_px (x + col) (y + row) color s else s)) s"

fun buf_draw_chars :: "u64 \<Rightarrow> u32 \<Rightarrow> int \<Rightarrow> int \<Rightarrow> string \<Rightarrow> u32 \<Rightarrow> 'a wm_scheme \<Rightarrow> 'a wm_scheme" where
  "buf_draw_chars buf pitch_px cx y [] color s = s"
| "buf_draw_chars buf pitch_px cx y (c # cs) color s =
     buf_draw_chars buf pitch_px (cx + 6) y cs color (buf_draw_char buf pitch_px cx y c color s)"

definition buf_draw_string :: "u64 \<Rightarrow> u32 \<Rightarrow> int \<Rightarrow> int \<Rightarrow> string option \<Rightarrow> u32 \<Rightarrow> 'a wm_scheme \<Rightarrow> 'a wm_scheme" where
  "buf_draw_string buf pitch_px x y str color s =
     (case str of None \<Rightarrow> s | Some cs \<Rightarrow> buf_draw_chars buf pitch_px x y cs color s)"

text \<open>Four bytes per pixel, whatever the depth of the framebuffer.\<close>

definition copy_to_fb :: "'a wm_scheme \<Rightarrow> 'a wm_scheme" where
  "copy_to_fb s =
     (let fb = g_fb s
      in if \<not> fb_enabled fb \<or> g_backbuf s = 0 then s
      else for_u32 (fb_height fb) (\<lambda>y. for_u32 (fb_width fb) (\<lambda>x s.
             let row = word_at (g_backbuf s) (ucast (y * g_bw s));
                 drow = fb_addr fb + ucast (y * fb_pitch fb);
                 c = load32 (vmem s) (word_at row (ucast x));
                 m0 = (vmem s)(drow + ucast (x * 4) := ucast (c AND 0xFF));
                 m1 = m0(drow + ucast (x * 4 + 1) := ucast (drop_bit 8 c AND 0xFF));
                 m2 = m1(drow + ucast (x * 4 + 2) := ucast (drop_bit 16 c AND 0xFF))
             in s\<lparr>vmem := m2(drow + ucast (x * 4 + 3) := 0)\<rparr>)) s)"

subsection \<open>Windows\<close>

definition wm_init :: "u64 \<Rightarrow> 'a wm_scheme \<Rightarrow> int \<times> console_op list \<times> 'a wm_scheme" where
  "wm_init kend s =
     (if \<not> fb_is_enabled s then (- 1, [], s)
      else let fb = fb_get s;
               (p, h) = kmalloc kend (ucast (fb_width fb) * ucast (fb_height fb) * 4) (wm_heap s);
               s1 = s\<lparr>g_bw := fb_width fb, g_bh := fb_height fb, g_backbuf := p, wm_heap := h\<rparr>
      in if p = 0 then (- 2, [], s1)
         else (0, log_info ''[OK] nanawm ready'',
               s1\<lparr>g_windows := map (\<lambda>w. w\<lparr>wused := False\<rparr>) (g_windows s1), g_active := None\<rparr>))"

definition win_fill_default :: "wm_window \<Rightarrow> u32 \<Rightarrow> 'a wm_scheme \<Rightarrow> 'a wm_scheme" where
  "win_fill_default w c s =
     (if wbuffer w = 0 then s
      else for_int (wh w) (\<lambda>y. for_int (ww w) (\<lambda>x s.
             s\<lparr>vmem := store32 (word_at (wbuffer w) (of_int (y * ww w + x))) c (vmem s)\<rparr>)) s)"

definition upd_window :: "nat \<Rightarrow> (wm_window \<Rightarrow> wm_window) \<Rightarrow> 'a wm_scheme \<Rightarrow> 'a wm_scheme" where
  "upd_window i f s = s\<lparr>g_windows := (g_windows s)[i := f (g_windows s ! i)]\<rparr>"

definition wm_focus_window :: "nat option \<Rightarrow> 'a wm_scheme \<Rightarrow> 'a wm_scheme" where
  "wm_focus_window win s =
     (case win of None \<Rightarrow> s
      | Some i \<Rightarrow> (upd_window i (\<lambda>w. w\<lparr>wactive := True\<rparr>)
          (s\<lparr>g_windows := map (\<lambda>w. w\<lparr>wactive := False\<rparr>) (g_windows s)\<rparr>))\<lparr>g_active := Some i\<rparr>)"

definition wm_close_window :: "nat option \<Rightarrow> 'a wm_scheme \<Rightarrow> 'a wm_scheme" where
  "wm_close_window win s =
     (case win of None \<Rightarrow> s
      | Some i \<Rightarrow> let s1 = upd_window i (\<lambda>w. w\<lparr>wused := False\<rparr>) s
                 in if g_active s1 = Some i then s1\<lparr>g_active := None\<rparr> else s1)"

text \<open>The value of the title array after the copy: at most 31 characters.\<close>

definition title_of :: "string option \<Rightarrow> string" where
  "title_of title = (case title of None \<Rightarrow> ''win'' | Some t \<Rightarrow> List.take 31 t)"

definition wm_create_window ::
  "u64 \<Rightarrow> int \<Rightarrow> int \<Rightarrow> int \<Rightarrow> int \<Rightarrow> string option \<Rightarrow> u32 \<Rightarrow> 'a wm_scheme \<Rightarrow> nat option \<times> 'a wm_scheme" where
  "wm_create_window kend x y w h title flags s =
     (case find (\<lambda>i. \<not> wused (g_windows s ! i)) [0..<WM_MAX_WINDOWS] of
        None \<Rightarrow> (None, s)
      | Some i \<Rightarrow>
        let (p, hp) = kmalloc kend (of_int w * of_int h * 4) (wm_heap s);
            s1 = upd_window i (\<lambda>win. win\<lparr>wused := True, wx := x, wy := y, ww := w, wh := h, wactive := False, wflags := flags,
                                       wbuffer := p\<rparr>) (s\<lparr>wm_heap := hp\<rparr>)
        in if p = 0 then (None, upd_window i (\<lambda>win. win\<lparr>wused := False\<rparr>) s1)
        else let s2 = upd_window i (\<lambda>win. win\<lparr>wtitle := title_of title\<rparr>) s1;
                 s3 = win_fill_default (g_windows s2 ! i) 0xFF202830 s2
        in (Some i, wm_focus_window (Some i) s3))"

subsection \<open>The mouse\<close>

definition point_in :: "int \<Rightarrow> int \<Rightarrow> int \<Rightarrow> int \<Rightarrow> int \<Rightarrow> int \<Rightarrow> bool" where
  "point_in px py x y w h \<longleftrightarrow> px \<ge> x \<and> py \<ge> y \<and> px < x + w \<and> py < y + h"

definition hit :: "int \<Rightarrow> int \<Rightarrow> wm_window \<Rightarrow> bool" where
  "hit x y w \<longleftrightarrow> wused w \<and> point_in x y (wx w) (wy w) (ww w) (wh w)"

definition pick_window_at :: "int \<Rightarrow> int \<Rightarrow> 'a wm_scheme \<Rightarrow> nat option" where
  "pick_window_at x y s =
     (case g_active s of
        Some a \<Rightarrow> if hit x y (g_windows s ! a) then Some a
                  else find (\<lambda>i. hit x y (g_windows s ! i)) (rev [0..<WM_MAX_WINDOWS])
      | None \<Rightarrow> find (\<lambda>i. hit x y (g_windows s ! i)) (rev [0..<WM_MAX_WINDOWS]))"

definition clamp_x :: "framebuffer \<Rightarrow> int \<Rightarrow> int" where
  "clamp_x fb x = (let x = (if x < 0 then 0 else x); m = sint (fb_width fb) - 1 in if x > m then m else x)"

definition clamp_y :: "framebuffer \<Rightarrow> int \<Rightarrow> int" where
  "clamp_y fb y = (let y = (if y < 0 then 0 else y); m = sint (fb_height fb) - 1 in if y > m then m else y)"

definition wm_press :: "int \<Rightarrow> int \<Rightarrow> 'a wm_scheme \<Rightarrow> 'a wm_scheme" where
  "wm_press x y s =
     (case pick_window_at x y s of None \<Rightarrow> s
      | Some i \<Rightarrow>
        let s1 = wm_focus_window (Some i) s; w = g_windows s1 ! i; cx = wx w + ww w - 18; cy = wy w + 2
        in if point_in x y cx cy 14 14 then wm_close_window (Some i) s1
           else if wflags w AND WM_WIN_MOVABLE \<noteq> 0 \<and> point_in x y (wx w) (wy w) (ww w) WM_TITLEBAR_H
           then s1\<lparr>g_dragging := True, g_drag_offx := x - wx w, g_drag_offy := y - wy w\<rparr>
           else s1)"

definition wm_drag :: "int \<Rightarrow> int \<Rightarrow> bool \<Rightarrow> 'a wm_scheme \<Rightarrow> 'a wm_scheme" where
  "wm_drag x y left s =
     (case g_active s of None \<Rightarrow> s
      | Some a \<Rightarrow>
        if g_dragging s \<and> wused (g_windows s ! a) \<and> left
        then upd_window a (\<lambda>w. w\<lparr>wx := if x - g_drag_offx s < 0 then 0 else x - g_drag_offx s,
                                 wy := if y - g_drag_offy s < 0 then 0 else y - g_drag_offy s\<rparr>) s
        else s)"

text \<open>\<open>buttons & 1\<close> of an int is its lowest bit.\<close>

definition wm_handle_mouse :: "int \<Rightarrow> int \<Rightarrow> int \<Rightarrow> 'a wm_scheme \<Rightarrow> 'a wm_scheme" where
  "wm_handle_mouse x0 y0 buttons s =
     (if \<not> fb_is_enabled s then s
      else let fb = fb_get s; x = clamp_x fb x0; y = clamp_y fb y0; left = odd buttons;
               left_down_edge = (left \<and> \<not> g_prev_btn s); left_up_edge = (\<not> left \<and> g_prev_btn s);
               s1 = (if left_down_edge then wm_press x y s else s);
               s2 = wm_drag x y left s1;
               s3 = (if left_up_edge then s2\<lparr>g_dragging := False\<rparr> else s2)
      in s3\<lparr>g_prev_btn := left\<rparr>)"

definition wm_handle_key :: "int \<Rightarrow> 'a wm_scheme \<Rightarrow> 'a wm_scheme" where
  "wm_handle_key keycode s = s"

subsection \<open>The compositor\<close>

definition blit_content :: "wm_window \<Rightarrow> 'a wm_scheme \<Rightarrow> 'a wm_scheme" where
  "blit_content w s =
     (let content_y = wy w + WM_TITLEBAR_H; content_h = wh w - WM_TITLEBAR_H
      in for_int content_h (\<lambda>yy. for_int (ww w) (\<lambda>xx s.
           buf_put_pixel (g_backbuf s) (g_bw s) (wx w + xx) (content_y + yy)
             (load32 (vmem s) (word_at (wbuffer w) (of_int ((yy + 0) * ww w + xx)))) s)) s)"

definition composite_window :: "wm_window \<Rightarrow> 'a wm_scheme \<Rightarrow> 'a wm_scheme" where
  "composite_window w s =
     (if \<not> wused w then s
      else let border = (if wactive w then 0xFF6CA8FF else 0xFF2C3440); title_bg = (if wactive w then 0xFF1D2A3A else 0xFF151C26);
               title_fg = 0xFFEAF2FF; close_bg = 0xFFCC4444; b = g_backbuf s; p = g_bw s;
               s1 = buf_fill_rect b p (wx w + 4) (wy w + 6) (ww w) (wh w) 0xFF0A0F16 s;
               s2 = buf_fill_rect b p (wx w) (wy w) (ww w) (wh w) 0xFF10161F s1;
               s3 = buf_draw_rect b p (wx w) (wy w) (ww w) (wh w) border s2;
               s4 = buf_fill_rect b p (wx w + 1) (wy w + 1) (ww w - 2) (WM_TITLEBAR_H - 2) title_bg s3;
               s5 = buf_draw_string b p (wx w + 8) (wy w + 6) (Some (wtitle w)) title_fg s4;
               s6 = buf_fill_rect b p (wx w + ww w - 18) (wy w + 2) 14 14 close_bg s5;
               s7 = buf_draw_char b p (wx w + ww w - 14) (wy w + 6) CHR ''x'' 0xFFFFFFFF s6
           in blit_content w s7)"

definition cursor_shape :: "u16 list" where
  "cursor_shape = [0b100000000000, 0b110000000000, 0b111000000000, 0b111100000000, 0b111110000000, 0b111111000000,
     0b111111100000, 0b111111110000, 0b111100000000, 0b110110000000, 0b100011000000, 0b000011000000, 0b000001100000,
     0b000001100000, 0b000000110000, 0b000000110000]"

definition composite_cursor :: "'a wm_scheme \<Rightarrow> 'a wm_scheme" where
  "composite_cursor s =
     (let (_, mx, my) = mouse_get_position (wm_mouse s); b = g_backbuf s; p = g_bw s
      in for_int 16 (\<lambda>y. for_int 12 (\<lambda>x s.
           if cursor_shape ! nat y AND push_bit (nat (11 - x)) 1 \<noteq> 0
           then let s1 = buf_put_pixel b p (mx + x) (my + y) 0xFFFFFFFF s
                in if x = 0 \<or> y = 0 then buf_put_pixel b p (mx + x - 1) (my + y - 1) 0xFF000000 s1 else s1
           else s)) s)"

definition draw_dock_icon :: "u64 \<Rightarrow> u32 \<Rightarrow> int \<Rightarrow> int \<Rightarrow> int \<Rightarrow> 'a wm_scheme \<Rightarrow> 'a wm_scheme" where
  "draw_dock_icon b p dock_x dock_y i s =
     (let ix = dock_x + 16 + i * 72; iy = dock_y + 10;
          s1 = buf_fill_rect b p (ix + 1) (iy + 2) 32 32 0xFF0B0F16 s;
          s2 = buf_fill_rect b p ix iy 32 32 0xFF223145 s1;
          s3 = buf_draw_rect b p ix iy 32 32 0xFF6CA8FF s2
      in buf_draw_char b p (ix + 13) (iy + 12) (if i = 0 then CHR ''t'' else if i = 1 then CHR ''f'' else CHR ''s'') 0xFFEAF2FF s3)"

text \<open>The three parts of \<open>wm_composite\<close>: background, bar and dock; the windows, the active one last; cursor and copy.\<close>

definition composite_desktop :: "'a wm_scheme \<Rightarrow> 'a wm_scheme" where
  "composite_desktop s =
     (let b = g_backbuf s; p = g_bw s; bw = sint (g_bw s); bh = sint (g_bh s);
          s1 = buf_fill_gradient b p bw bh 0xFF0B1220 0xFF0E2336 s;
          s2 = buf_fill_rect b p 0 0 bw 26 0xFF111827 s1;
          s3 = buf_draw_string b p 12 9 (Some ''nanaos'') 0xFFEAF2FF s2;
          s4 = buf_draw_string b p (bw - 58) 9 (Some ''12:00'') 0xFFBFD0E6 s3;
          dock_w = 240; dock_h = 52; dock_x = (bw - dock_w) sdiv 2; dock_y = bh - dock_h - 10;
          s5 = buf_fill_rect b p (dock_x + 2) (dock_y + 3) dock_w dock_h 0xFF0A0F16 s4;
          s6 = buf_fill_rect b p dock_x dock_y dock_w dock_h 0xFF151F2B s5;
          s7 = buf_draw_rect b p dock_x dock_y dock_w dock_h 0xFF2A3A4F s6
      in for_int 3 (draw_dock_icon b p dock_x dock_y) s7)"

definition composite_others :: "'a wm_scheme \<Rightarrow> 'a wm_scheme" where
  "composite_others s =
     fold (\<lambda>i s. if wused (g_windows s ! i) \<and> g_active s \<noteq> Some i then composite_window (g_windows s ! i) s else s)
       [0..<WM_MAX_WINDOWS] s"

definition composite_active :: "'a wm_scheme \<Rightarrow> 'a wm_scheme" where
  "composite_active s =
     (case g_active s of None \<Rightarrow> s
      | Some a \<Rightarrow> if wused (g_windows s ! a) then composite_window (g_windows s ! a) s else s)"

definition wm_composite :: "'a wm_scheme \<Rightarrow> 'a wm_scheme" where
  "wm_composite s =
     (if g_backbuf s = 0 then s
      else copy_to_fb (composite_cursor (composite_active (composite_others (composite_desktop s)))))"

subsection \<open>Arrays of pixels in memory\<close>

lemma unat_word_at:
  assumes "unat i < n" "unat buf + 4 * n \<le> 2 ^ 64" "k < 4"
  shows "unat (word_at buf i + of_nat k) = unat buf + 4 * unat i + k"
proof -
  have b: "4 * unat i + k < 4 * n" using assms by auto
  have "unat (4 * i) = 4 * unat i" using b assms(2) by (subst unat_mult_exact) auto
  moreover have "unat (of_nat k :: u64) = k" using assms(3) by (simp add: unat_of_nat)
  ultimately show ?thesis using b assms(2) by (simp add: word_at_def unat_plus_exact)
qed

lemma word_at_eq:
  assumes "unat i < n" "unat j < n" "unat buf + 4 * n \<le> 2 ^ 64" "k < 4" "l < 4"
  shows "word_at buf i + of_nat k = word_at buf j + of_nat l \<longleftrightarrow> i = j \<and> k = l"
proof
  assume "word_at buf i + of_nat k = word_at buf j + of_nat l"
  then have "4 * unat i + k = 4 * unat j + l"
    using unat_word_at [OF assms(1,3,4)] unat_word_at [OF assms(2,3,5)] by simp
  then have "unat i = unat j" "k = l" using assms(4,5) by presburger+
  then show "i = j \<and> k = l" by (simp add: word_unat_eq_iff)
qed simp

lemma store32_byte:
  "store32 p c m z = (if z = p + of_nat 3 then ucast (drop_bit 24 c) else if z = p + of_nat 2 then ucast (drop_bit 16 c)
     else if z = p + of_nat 1 then ucast (drop_bit 8 c) else if z = p + of_nat 0 then ucast c else m z)"
  by (simp add: store32_def)

lemma load32_bytes: "load32 m p = le32_of (m (p + of_nat 0)) (m (p + of_nat 1)) (m (p + of_nat 2)) (m (p + of_nat 3))"
  by (simp add: load32_def)

lemma store32_same:
  assumes "unat i < n" "unat j < n" "unat buf + 4 * n \<le> 2 ^ 64" "k < 4"
  shows "store32 (word_at buf i) c m (word_at buf j + of_nat k) =
     (if j = i then (if k = 0 then ucast c else if k = 1 then ucast (drop_bit 8 c) else if k = 2 then ucast (drop_bit 16 c)
        else ucast (drop_bit 24 c)) else m (word_at buf j + of_nat k))"
proof -
  have e: "(word_at buf j + of_nat k = word_at buf i + of_nat l) = (j = i \<and> k = l)" if "l < 4" for l
    using word_at_eq [OF assms(2,1,3,4) that] by blast
  have "k = 0 \<or> k = 1 \<or> k = 2 \<or> k = 3" using assms(4) by auto
  then show ?thesis unfolding store32_byte by (simp only: e [of 3] e [of 2] e [of 1] e [of 0]) (cases "j = i"; auto)
qed

lemma load32_store32:
  assumes "unat i < n" "unat j < n" "unat buf + 4 * n \<le> 2 ^ 64"
  shows "load32 (store32 (word_at buf i) c m) (word_at buf j) = (if j = i then c else load32 m (word_at buf j))"
  unfolding load32_bytes using store32_same [OF assms, of 0] store32_same [OF assms, of 1] store32_same [OF assms, of 2]
    store32_same [OF assms, of 3]
  by (simp del: of_nat_0 of_nat_1 of_nat_numeral add: le32_of_u32_bytes)

lemma store32_outside:
  assumes "unat i < n" "unat buf + 4 * n \<le> 2 ^ 64" "\<not> (unat buf \<le> unat z \<and> unat z < unat buf + 4 * n)"
  shows "store32 (word_at buf i) c m z = m z"
proof -
  have "(z = word_at buf i + of_nat k) = False" if "k < 4" for k
    using unat_word_at [OF assms(1,2) that] assms that by auto
  from this [of 3] this [of 2] this [of 1] this [of 0] show ?thesis unfolding store32_byte by simp
qed

subsection \<open>The back buffer as a surface\<close>

definition bb_count :: "'a wm_scheme \<Rightarrow> nat" where
  "bb_count s = unat (g_bw s) * unat (g_bh s)"

definition bb_region :: "'a wm_scheme \<Rightarrow> u64 set" where
  "bb_region s = {p. unat (g_backbuf s) \<le> unat p \<and> unat p < unat (g_backbuf s) + 4 * bb_count s}"

definition bb_ok :: "'a wm_scheme \<Rightarrow> bool" where
  "bb_ok s \<longleftrightarrow> g_backbuf s \<noteq> 0 \<and> unat (g_bw s) < 2 ^ 31 \<and> unat (g_bh s) < 2 ^ 31 \<and> bb_count s < 2 ^ 32 \<and>
     unat (g_backbuf s) + 4 * bb_count s \<le> 2 ^ 64"

definition bb_index :: "'a wm_scheme \<Rightarrow> int \<times> int \<Rightarrow> u64" where
  "bb_index s z = ucast (of_int (snd z) * g_bw s + of_int (fst z) :: u32)"

definition bb_pixel :: "'a wm_scheme \<Rightarrow> int \<times> int \<Rightarrow> u32" where
  "bb_pixel s z = load32 (vmem s) (word_at (g_backbuf s) (bb_index s z))"

definition bb_visible :: "'a wm_scheme \<Rightarrow> int \<times> int \<Rightarrow> bool" where
  "bb_visible s z \<longleftrightarrow> 0 \<le> fst z \<and> fst z < uint (g_bw s) \<and> 0 \<le> snd z \<and> snd z < uint (g_bh s)"

text \<open>What drawing leaves alone: everything but the bytes of the back buffer.\<close>

definition bb_rest :: "'a wm_scheme \<Rightarrow> 'a wm_scheme" where
  "bb_rest s = s\<lparr>vmem := \<lambda>p. if p \<in> bb_region s then 0 else vmem s p\<rparr>"

definition bb_put :: "int \<times> int \<Rightarrow> u32 \<Rightarrow> 'a wm_scheme \<Rightarrow> 'a wm_scheme" where
  "bb_put z c s = buf_put_pixel (g_backbuf s) (g_bw s) (fst z) (snd z) c s"

lemma nat_less_unat: "0 \<le> x \<Longrightarrow> nat x < unat w \<longleftrightarrow> x < uint w"
  by (metis nat_less_eq_zless unat_eq_nat_uint)

lemma unat_of_int_small: "0 \<le> x \<Longrightarrow> x < 2 ^ LENGTH('a) \<Longrightarrow> unat (of_int x :: 'a::len word) = nat x"
  by (metis nat_less_eq_zless nat_power_eq of_int_of_nat_eq of_nat_nat unat_of_nat_small zero_le_numeral nat_numeral)

lemma unat_bb_index:
  assumes "bb_ok s" "bb_visible s (x, y)"
  shows "unat (bb_index s (x, y)) = nat y * unat (g_bw s) + nat x" "unat (bb_index s (x, y)) < bb_count s"
proof -
  have x: "nat x < unat (g_bw s)" "0 \<le> x" and y: "nat y < unat (g_bh s)" "0 \<le> y"
    using assms(2) by (simp_all add: bb_visible_def nat_less_unat)
  have o: "nat y * unat (g_bw s) + nat x < bb_count s" using offset_bound(2) [of "nat x" "unat (g_bw s)" "nat y" "unat (g_bh s)" 0 1 "unat (g_bw s)"] x y
    by (simp add: bb_count_def mult.commute)
  then have lt: "nat y * unat (g_bw s) + nat x < 2 ^ 32" using assms(1) by (simp add: bb_ok_def)
  have ux: "unat (of_int x :: u32) = nat x" and uy: "unat (of_int y :: u32) = nat y"
    using x y less_trans [OF x(1) unat_lt_32] less_trans [OF y(1) unat_lt_32] by (simp_all add: unat_of_int_small)
  have m: "unat (of_int y * g_bw s) = nat y * unat (g_bw s)"
    using le_less_trans [OF le_add1 lt] by (subst unat_mult_exact) (simp_all add: uy)
  have "unat (of_int y * g_bw s + of_int x :: u32) = nat y * unat (g_bw s) + nat x"
    using lt by (subst unat_plus_exact) (simp_all add: ux m)
  then show "unat (bb_index s (x, y)) = nat y * unat (g_bw s) + nat x"
    using lt by (simp add: bb_index_def unsigned_ucast_eq take_bit_nat_eq_self)
  with o show "unat (bb_index s (x, y)) < bb_count s" by simp
qed

lemma bb_index_eq:
  assumes "bb_ok s" "bb_visible s (x, y)" "bb_visible s (x', y')"
  shows "bb_index s (x, y) = bb_index s (x', y') \<longleftrightarrow> (x, y) = (x', y')"
proof
  assume "bb_index s (x, y) = bb_index s (x', y')"
  then have e: "nat y * unat (g_bw s) + (nat x * 1 + 0) = nat y' * unat (g_bw s) + (nat x' * 1 + 0)"
    using unat_bb_index(1) [OF assms(1,2)] unat_bb_index(1) [OF assms(1,3)] by simp
  have "nat x * 1 + 0 < unat (g_bw s)" "nat x' * 1 + 0 < unat (g_bw s)"
    using assms(2,3) by (simp_all add: bb_visible_def nat_less_unat)
  from offset_unique(1,2) [OF e this] show "(x, y) = (x', y')" using assms(2,3) by (auto simp: bb_visible_def)
qed simp

lemma bb_geometry [simp]:
  "bb_ok (s\<lparr>vmem := m\<rparr>) = bb_ok s" "bb_region (s\<lparr>vmem := m\<rparr>) = bb_region s"
  "bb_visible (s\<lparr>vmem := m\<rparr>) = bb_visible s" "bb_index (s\<lparr>vmem := m\<rparr>) = bb_index s"
  by (simp_all add: bb_ok_def bb_count_def bb_region_def bb_visible_def [abs_def] bb_index_def [abs_def])

lemma buf_put_vmem: "\<exists>m. buf_put_pixel b p x y c s = s\<lparr>vmem := m\<rparr>"
proof -
  have "s = s\<lparr>vmem := vmem s\<rparr>" by simp
  then show ?thesis unfolding buf_put_pixel_def by metis
qed

lemma bb_put_frame [simp]:
  "bb_ok (bb_put z c s) = bb_ok s" "bb_visible (bb_put z c s) = bb_visible s"
  "g_backbuf (bb_put z c s) = g_backbuf s" "g_bw (bb_put z c s) = g_bw s"
  using buf_put_vmem [of "g_backbuf s" "g_bw s" "fst z" "snd z" c s] by (auto simp: bb_put_def)

lemma bb_put_hidden: "\<not> bb_visible s z \<Longrightarrow> bb_put z c s = s"
  by (auto simp: bb_put_def buf_put_pixel_def bb_visible_def)

lemma bb_put_visible:
  "bb_ok s \<Longrightarrow> bb_visible s z \<Longrightarrow> bb_put z c s = s\<lparr>vmem := store32 (word_at (g_backbuf s) (bb_index s z)) c (vmem s)\<rparr>"
  by (auto simp: bb_put_def buf_put_pixel_def bb_visible_def bb_ok_def bb_index_def)

interpretation bbc: canvas bb_put bb_pixel bb_visible "\<lambda>c. c" bb_rest bb_ok
proof unfold_locales
  fix s :: "'a wm_scheme" and p z :: "int \<times> int" and c
  assume ok: "bb_ok s"
  then have lim: "unat (g_backbuf s) + 4 * bb_count s \<le> 2 ^ 64" by (simp add: bb_ok_def)
  show "bb_ok (bb_put p c s)" "bb_visible (bb_put p c s) z = bb_visible s z" using ok by simp_all
  show "bb_rest (bb_put p c s) = bb_rest s"
  proof (cases "bb_visible s p")
    case True
    then have "unat (bb_index s p) < bb_count s" using unat_bb_index(2) [OF ok, of "fst p" "snd p"] by simp
    then have "store32 (word_at (g_backbuf s) (bb_index s p)) c (vmem s) a = vmem s a" if "a \<notin> bb_region s" for a
      using that lim by (simp add: store32_outside bb_region_def)
    then have "(\<lambda>a. if a \<in> bb_region s then 0 else store32 (word_at (g_backbuf s) (bb_index s p)) c (vmem s) a) =
        (\<lambda>a. if a \<in> bb_region s then 0 else vmem s a)" by auto
    then show ?thesis by (simp add: bb_rest_def bb_put_visible [OF ok True] cong: if_cong)
  qed (simp add: bb_put_hidden)
  assume z: "bb_visible s z"
  show "bb_pixel (bb_put p c s) z = (if z = p then c else bb_pixel s z)"
  proof (cases "bb_visible s p")
    case True
    have i: "unat (bb_index s p) < bb_count s" "unat (bb_index s z) < bb_count s"
      using unat_bb_index(2) [OF ok, of "fst p" "snd p"] unat_bb_index(2) [OF ok, of "fst z" "snd z"] True z by simp_all
    have "bb_index s z = bb_index s p \<longleftrightarrow> z = p" using bb_index_eq [OF ok, of "fst z" "snd z" "fst p" "snd p"] z True by simp
    then show ?thesis using load32_store32 [OF i lim] by (simp add: bb_put_visible [OF ok True] bb_pixel_def bb_index_def)
  next
    case False
    then show ?thesis using z by (auto simp: bb_put_hidden)
  qed
qed

subsection \<open>What the drawing routines paint\<close>

definition rect :: "int \<Rightarrow> int \<Rightarrow> int \<Rightarrow> int \<Rightarrow> (int \<times> int) set" where
  "rect x y w h = {(px, py). x \<le> px \<and> px < x + w \<and> y \<le> py \<and> py < y + h}"

definition outline :: "int \<Rightarrow> int \<Rightarrow> int \<Rightarrow> int \<Rightarrow> (int \<times> int) set" where
  "outline x y w h = {(px, py) \<in> rect x y w h. px = x \<or> px = x + w - 1 \<or> py = y \<or> py = y + h - 1}"

definition glyph :: "int \<Rightarrow> int \<Rightarrow> char \<Rightarrow> (int \<times> int) set" where
  "glyph x y c = {(px, py) \<in> rect x y 5 7. bit (glyph_row wm_font c (nat (py - y))) (nat (4 - (px - x)))}"

fun text_at :: "int \<Rightarrow> int \<Rightarrow> string \<Rightarrow> (int \<times> int) set" where
  "text_at x y [] = {}"
| "text_at x y (c # cs) = glyph x y c \<union> text_at (x + 6) y cs"

definition gradient :: "int \<Rightarrow> int \<Rightarrow> u32 \<Rightarrow> u32 \<Rightarrow> (int \<times> int) layer" where
  "gradient w h c1 c2 = (\<lambda>(px, py). if (px, py) \<in> rect 0 0 w h
     then Some (lerp_rgb c1 c2 (of_int py) (if h > 1 then of_int (h - 1) else 1)) else None)"

lemma bb_rest_simps [simp]:
  "g_backbuf (bb_rest s) = g_backbuf s" "g_bw (bb_rest s) = g_bw s" "g_bh (bb_rest s) = g_bh s"
  "g_windows (bb_rest s) = g_windows s" "g_active (bb_rest s) = g_active s" "wm_mouse (bb_rest s) = wm_mouse s"
  "g_fb (bb_rest s) = g_fb s" "bb_region (bb_rest s) = bb_region s" "bb_count (bb_rest s) = bb_count s" "bb_ok (bb_rest s) = bb_ok s"
  by (simp_all add: bb_rest_def bb_count_def)

lemma bb_restD:
  assumes "bb_rest s = r"
  shows "g_backbuf s = g_backbuf r" "g_bw s = g_bw r" "g_bh s = g_bh r" "g_windows s = g_windows r" "g_active s = g_active r"
    "wm_mouse s = wm_mouse r" "g_fb s = g_fb r" "bb_region s = bb_region r" "bb_count s = bb_count r"
    "p \<notin> bb_region r \<Longrightarrow> vmem s p = vmem r p"
  using assms by (auto simp: bb_rest_def bb_region_def bb_count_def)

lemma bb_ok_rest: "bb_ok s \<Longrightarrow> bb_rest s = r \<Longrightarrow> bb_ok r"
  by (auto simp: bb_rest_def)

lemma paints_buf: "bbc.paints r (buf_put_pixel (g_backbuf r) (g_bw r) x y c) (ink c {(x, y)})"
  by (rule bbc.paints_cong [OF bbc.paints_put_ink]) (auto simp: bb_put_def dest: bb_restD)

lemma int_below_ex: "(\<exists>i. 0 \<le> i \<and> i < n \<and> p = a + i \<and> P i) \<longleftrightarrow> a \<le> p \<and> p < a + n \<and> P (p - a)" for a p n :: int
  by (auto intro: exI [of _ "p - a"])

lemma paints_rect: "bbc.paints r (buf_fill_rect (g_backbuf r) (g_bw r) x y w h c) (ink c (rect x y w h))"
proof (cases "w \<le> 0 \<or> h \<le> 0")
  case True
  show ?thesis by (rule bbc.paints_cong [OF bbc.paints_id]) (use True in \<open>auto simp: buf_fill_rect_def rect_def ink_def fun_eq_iff\<close>)
next
  case False
  have u: "(\<Union>yy \<in> {yy. 0 \<le> yy \<and> yy < h}. \<Union>xx \<in> {xx. 0 \<le> xx \<and> xx < w}. {(x + xx, y + yy)}) = rect x y w h" (is "?U = _")
  proof (rule set_eqI, clarify)
    fix px py
    have "(px, py) \<in> ?U \<longleftrightarrow> (\<exists>xx. 0 \<le> xx \<and> xx < w \<and> px = x + xx \<and> True) \<and> (\<exists>yy. 0 \<le> yy \<and> yy < h \<and> py = y + yy \<and> True)" by blast
    then show "(px, py) \<in> ?U \<longleftrightarrow> (px, py) \<in> rect x y w h" unfolding int_below_ex by (auto simp: rect_def)
  qed
  have "bbc.paints r (for_int h (\<lambda>yy. for_int w (\<lambda>xx. buf_put_pixel (g_backbuf r) (g_bw r) (x + xx) (y + yy) c))) (ink c (rect x y w h))"
    unfolding u [symmetric] by (intro bbc.paints_for_int paints_buf)
  then show ?thesis by (rule bbc.paints_cong) (use False in \<open>auto simp: buf_fill_rect_def bb_ok_def dest: bb_restD\<close>)
qed

lemma paints_outline: "bbc.paints r (buf_draw_rect (g_backbuf r) (g_bw r) x y w h c) (ink c (outline x y w h))"
proof (cases "w \<le> 0 \<or> h \<le> 0")
  case True
  show ?thesis by (rule bbc.paints_cong [OF bbc.paints_id])
      (use True in \<open>auto simp: buf_draw_rect_def outline_def rect_def ink_def fun_eq_iff\<close>)
next
  case False
  let ?P = "buf_put_pixel (g_backbuf r) (g_bw r)"
  have u: "(\<Union>i \<in> {i. 0 \<le> i \<and> i < w}. {(x + i, y)} \<union> {(x + i, y + h - 1)}) \<union>
      (\<Union>i \<in> {i. 0 \<le> i \<and> i < h}. {(x, y + i)} \<union> {(x + w - 1, y + i)}) = outline x y w h" (is "?U = _")
  proof (rule set_eqI, clarify)
    fix px py
    have "(px, py) \<in> ?U \<longleftrightarrow> (\<exists>i. 0 \<le> i \<and> i < w \<and> px = x + i \<and> True) \<and> (py = y \<or> py = y + h - 1) \<or>
        (\<exists>i. 0 \<le> i \<and> i < h \<and> py = y + i \<and> True) \<and> (px = x \<or> px = x + w - 1)" by blast
    then show "(px, py) \<in> ?U \<longleftrightarrow> (px, py) \<in> outline x y w h" unfolding int_below_ex using False by (auto simp: outline_def rect_def)
  qed
  have "bbc.paints r (\<lambda>s. for_int h (\<lambda>yy s. ?P (x + w - 1) (y + yy) c (?P x (y + yy) c s))
      (for_int w (\<lambda>xx s. ?P (x + xx) (y + h - 1) c (?P (x + xx) y c s)) s)) (ink c (outline x y w h))"
    unfolding u [symmetric] by (intro bbc.paints_seq_ink bbc.paints_for_int paints_buf)
  then show ?thesis by (rule bbc.paints_cong) (use False in \<open>auto simp: buf_draw_rect_def bb_ok_def dest: bb_restD\<close>)
qed

lemma paints_glyph: "bbc.paints r (buf_draw_char (g_backbuf r) (g_bw r) x y c col) (ink col (glyph x y c))"
proof -
  have u: "(\<Union>row \<in> {row. 0 \<le> row \<and> row < 7}. \<Union>cl \<in> {cl. 0 \<le> cl \<and> cl < 5}.
      if bit (glyph_row wm_font c (nat row)) (nat (4 - cl)) then {(x + cl, y + row)} else {}) = glyph x y c" (is "?U = _")
  proof (rule set_eqI, clarify)
    fix px py
    have "(px, py) \<in> ?U \<longleftrightarrow> (\<exists>row. 0 \<le> row \<and> row < 7 \<and> py = y + row \<and>
        (\<exists>cl. 0 \<le> cl \<and> cl < 5 \<and> px = x + cl \<and> bit (glyph_row wm_font c (nat row)) (nat (4 - cl))))"
      by (auto split: if_splits)
    also have "\<dots> \<longleftrightarrow> (px, py) \<in> glyph x y c" unfolding int_below_ex by (auto simp: glyph_def rect_def)
    finally show "(px, py) \<in> ?U \<longleftrightarrow> (px, py) \<in> glyph x y c" .
  qed
  have "bbc.paints r (for_int 7 (\<lambda>row. for_int 5 (\<lambda>cl s. if bit (glyph_row wm_font c (nat row)) (nat (4 - cl))
      then buf_put_pixel (g_backbuf r) (g_bw r) (x + cl) (y + row) col s else s))) (ink col (glyph x y c))"
    unfolding u [symmetric] by (intro bbc.paints_for_int bbc.paints_when paints_buf)
  then show ?thesis unfolding buf_draw_char_def [abs_def] bit_iff_and_push_bit_not_eq_0 [symmetric] .
qed

lemma paints_text: "bbc.paints r (buf_draw_chars (g_backbuf r) (g_bw r) x y cs col) (ink col (text_at x y cs))"
proof (induction cs arbitrary: x)
  case Nil
  then show ?case by (simp add: bbc.paints_id)
next
  case (Cons c cs)
  from bbc.paints_seq_ink [OF paints_glyph [of r x y c col] Cons.IH] show ?case by simp
qed

lemma paints_string: "bbc.paints r (buf_draw_string (g_backbuf r) (g_bw r) x y (Some cs) col) (ink col (text_at x y cs))"
  by (rule bbc.paints_cong [OF paints_text]) (simp_all add: buf_draw_string_def)

text \<open>A pixel loop whose colours come from the untouched part of the state.\<close>

lemma paints_pixels:
  assumes "\<And>i j s. bb_ok s \<Longrightarrow> bb_rest s = r \<Longrightarrow> 0 \<le> i \<Longrightarrow> i < w \<Longrightarrow> 0 \<le> j \<Longrightarrow> j < h \<Longrightarrow>
      f j i s = buf_put_pixel (g_backbuf r) (g_bw r) (x + i) (y + j) (col i j) s"
  shows "bbc.paints r (for_int h (\<lambda>j. for_int w (\<lambda>i. f j i)))
    (\<lambda>(px, py). if (px, py) \<in> rect x y w h then Some (col (px - x) (py - y)) else None)"
proof -
  have c: "bbc.paints r (f j i) (ink (col i j) {(x + i, y + j)})" if "0 \<le> i" "i < w" "0 \<le> j" "j < h" for i j
    by (rule bbc.paints_cong [OF paints_buf]) (use assms that in auto)
  have "bbc.paints r (for_int h (\<lambda>j. for_int w (\<lambda>i. f j i)))
      (layers (map (\<lambda>j. layers (map (\<lambda>i. ink (col (int i) (int j)) {(x + int i, y + int j)}) [0..<nat w])) [0..<nat h]))"
    by (intro bbc.paints_for_int_layers [where L = "\<lambda>j. layers (map (\<lambda>i. ink (col (int i) j) {(x + int i, y + j)}) [0..<nat w])"]
        bbc.paints_for_int_layers [where L = "\<lambda>i. ink (col i _) {(x + i, y + _)}"] c)
  moreover have "layers (map (\<lambda>j. layers (map (\<lambda>i. ink (col (int i) (int j)) {(x + int i, y + int j)}) [0..<nat w])) [0..<nat h]) =
      (\<lambda>(px, py). if (px, py) \<in> rect x y w h then Some (col (px - x) (py - y)) else None)"
  proof (rule ext, clarify)
    fix px py
    have row: "layers (map (\<lambda>i. ink (col (int i) (int j)) {(x + int i, y + int j)}) [0..<nat w]) (px, py) =
        (if nat (px - x) < nat w then ink (col (int (nat (px - x))) (int j)) {(x + int (nat (px - x)), y + int j)} (px, py) else None)" for j
      by (rule layers_select) (auto simp: ink_def split: if_splits)
    have "layers (map (\<lambda>j. layers (map (\<lambda>i. ink (col (int i) (int j)) {(x + int i, y + int j)}) [0..<nat w])) [0..<nat h]) (px, py) =
        (if nat (py - y) < nat h then layers (map (\<lambda>i. ink (col (int i) (int (nat (py - y)))) {(x + int i, y + int (nat (py - y)))}) [0..<nat w]) (px, py)
         else None)"
      by (rule layers_select) (auto simp: row ink_def split: if_splits)
    then show "layers (map (\<lambda>j. layers (map (\<lambda>i. ink (col (int i) (int j)) {(x + int i, y + int j)}) [0..<nat w])) [0..<nat h]) (px, py) =
        (if (px, py) \<in> rect x y w h then Some (col (px - x) (py - y)) else None)"
      unfolding row by (auto simp: ink_def rect_def)
  qed
  ultimately show ?thesis by simp
qed

subsection \<open>The picture\<close>

lemma sint_small:
  assumes "unat w < 2 ^ 31"
  shows "sint (w :: u32) = uint w"
proof -
  have "uint w < 2 ^ 31" using assms by (simp add: unat_eq_nat_uint nat_less_iff del: nat_uint_eq)
  then have "signed_take_bit 31 (uint w) = uint w"
    using uint_ge_0 [of w] by (intro signed_take_bit_int_eq_self) linarith+
  then show ?thesis by (simp add: sint_uint)
qed

lemma paints_gradient:
  "bbc.paints r (buf_fill_gradient (g_backbuf r) (g_bw r) (sint (g_bw r)) (sint (g_bh r)) c1 c2) (gradient (sint (g_bw r)) (sint (g_bh r)) c1 c2)"
proof (cases "bb_ok r \<and> 0 < sint (g_bw r) \<and> 0 < sint (g_bh r)")
  case False
  show ?thesis
  proof (cases "bb_ok r")
    case True
    show ?thesis by (rule bbc.paints_cong [OF bbc.paints_id])
        (use False True in \<open>auto simp: buf_fill_gradient_def gradient_def rect_def fun_eq_iff\<close>)
  next
    case False
    then show ?thesis by (auto simp: bbc.paints_def)
  qed
next
  case True
  let ?h = "sint (g_bh r)" and ?b = "g_backbuf r" and ?p = "g_bw r"
  let ?d = "if ?h > 1 then of_int (?h - 1) else 1"
  have u: "sint (g_bw r) = uint (g_bw r)" "sint (g_bh r) = uint (g_bh r)" using True by (simp_all add: bb_ok_def sint_small)
  have "bbc.paints r (for_int ?h (\<lambda>y. for_int (sint (g_bw r)) (\<lambda>x s.
        s\<lparr>vmem := store32 (word_at ?b (ucast (of_int y * ?p + of_int x :: u32))) (lerp_rgb c1 c2 (of_int y) ?d) (vmem s)\<rparr>)))
      (\<lambda>(px, py). if (px, py) \<in> rect 0 0 (sint (g_bw r)) ?h then Some (lerp_rgb c1 c2 (of_int (py - 0)) ?d) else None)"
    by (rule paints_pixels [where col = "\<lambda>i j. lerp_rgb c1 c2 (of_int j) ?d"])
      (use True u in \<open>auto simp: buf_put_pixel_def bb_ok_def dest: bb_restD\<close>)
  then show ?thesis by (rule bbc.paints_cong) (use True in \<open>auto simp: buf_fill_gradient_def Let_def gradient_def fun_eq_iff bb_ok_def\<close>)
qed

text \<open>The buffer of a window lies outside the back buffer.\<close>

definition buf_apart :: "'a wm_scheme \<Rightarrow> wm_window \<Rightarrow> bool" where
  "buf_apart s w \<longleftrightarrow> (\<forall>i j. 0 \<le> i \<and> i < ww w \<and> 0 \<le> j \<and> j < wh w \<longrightarrow>
     (\<forall>k < 4. word_at (wbuffer w) (of_int (j * ww w + i)) + of_nat k \<notin> bb_region s))"

definition window_content :: "memory \<Rightarrow> wm_window \<Rightarrow> (int \<times> int) layer" where
  "window_content m w = (\<lambda>(px, py). if (px, py) \<in> rect (wx w) (wy w + WM_TITLEBAR_H) (ww w) (wh w - WM_TITLEBAR_H)
     then Some (load32 m (word_at (wbuffer w) (of_int ((py - (wy w + WM_TITLEBAR_H)) * ww w + (px - wx w))))) else None)"

lemma paints_content:
  assumes "buf_apart r w"
  shows "bbc.paints r (blit_content w) (window_content (vmem r) w)"
proof -
  have "bbc.paints r (for_int (wh w - WM_TITLEBAR_H) (\<lambda>yy. for_int (ww w) (\<lambda>xx s.
        buf_put_pixel (g_backbuf s) (g_bw s) (wx w + xx) (wy w + WM_TITLEBAR_H + yy)
          (load32 (vmem s) (word_at (wbuffer w) (of_int ((yy + 0) * ww w + xx)))) s)))
      (\<lambda>(px, py). if (px, py) \<in> rect (wx w) (wy w + WM_TITLEBAR_H) (ww w) (wh w - WM_TITLEBAR_H)
        then Some (load32 (vmem r) (word_at (wbuffer w) (of_int ((py - (wy w + WM_TITLEBAR_H)) * ww w + (px - wx w))))) else None)"
  proof (rule paints_pixels [where col = "\<lambda>i j. load32 (vmem r) (word_at (wbuffer w) (of_int (j * ww w + i)))"])
    fix i j :: int and s assume s: "bb_ok s" "bb_rest s = r" and i: "0 \<le> i" "i < ww w" "0 \<le> j" "j < wh w - WM_TITLEBAR_H"
    have "word_at (wbuffer w) (of_int (j * ww w + i)) + of_nat k \<notin> bb_region r" if "k < 4" for k
      using assms i that by (auto simp: buf_apart_def WM_TITLEBAR_H_def)
    from this [of 0] this [of 1] this [of 2] this [of 3] bb_restD(10) [OF s(2)]
    have "load32 (vmem s) (word_at (wbuffer w) (of_int (j * ww w + i))) = load32 (vmem r) (word_at (wbuffer w) (of_int (j * ww w + i)))"
      by (simp add: load32_def)
    then show "buf_put_pixel (g_backbuf s) (g_bw s) (wx w + i) (wy w + WM_TITLEBAR_H + j)
          (load32 (vmem s) (word_at (wbuffer w) (of_int ((j + 0) * ww w + i)))) s =
        buf_put_pixel (g_backbuf r) (g_bw r) (wx w + i) (wy w + WM_TITLEBAR_H + j)
          (load32 (vmem r) (word_at (wbuffer w) (of_int (j * ww w + i)))) s"
      using bb_restD(1,2) [OF s(2)] by simp
  qed
  then show ?thesis by (rule bbc.paints_cong) (simp_all add: blit_content_def Let_def window_content_def)
qed

text \<open>A window from back to front: shadow, body, border, title bar, title, close button, content.\<close>

definition window_layer :: "memory \<Rightarrow> wm_window \<Rightarrow> (int \<times> int) layer" where
  "window_layer m w = layers
     [ink 0xFF0A0F16 (rect (wx w + 4) (wy w + 6) (ww w) (wh w)),
      ink 0xFF10161F (rect (wx w) (wy w) (ww w) (wh w)),
      ink (if wactive w then 0xFF6CA8FF else 0xFF2C3440) (outline (wx w) (wy w) (ww w) (wh w)),
      ink (if wactive w then 0xFF1D2A3A else 0xFF151C26) (rect (wx w + 1) (wy w + 1) (ww w - 2) (WM_TITLEBAR_H - 2)),
      ink 0xFFEAF2FF (text_at (wx w + 8) (wy w + 6) (wtitle w)),
      ink 0xFFCC4444 (rect (wx w + ww w - 18) (wy w + 2) 14 14),
      ink 0xFFFFFFFF (glyph (wx w + ww w - 14) (wy w + 6) CHR ''x''),
      window_content m w]"

lemma paints_window:
  assumes "wused w" "buf_apart r w"
  shows "bbc.paints r (composite_window w) (window_layer (vmem r) w)"
proof -
  let ?b = "g_backbuf r" and ?p = "g_bw r"
  have "bbc.paints r (\<lambda>s. blit_content w (buf_draw_char ?b ?p (wx w + ww w - 14) (wy w + 6) CHR ''x'' 0xFFFFFFFF
      (buf_fill_rect ?b ?p (wx w + ww w - 18) (wy w + 2) 14 14 0xFFCC4444
      (buf_draw_string ?b ?p (wx w + 8) (wy w + 6) (Some (wtitle w)) 0xFFEAF2FF
      (buf_fill_rect ?b ?p (wx w + 1) (wy w + 1) (ww w - 2) (WM_TITLEBAR_H - 2) (if wactive w then 0xFF1D2A3A else 0xFF151C26)
      (buf_draw_rect ?b ?p (wx w) (wy w) (ww w) (wh w) (if wactive w then 0xFF6CA8FF else 0xFF2C3440)
      (buf_fill_rect ?b ?p (wx w) (wy w) (ww w) (wh w) 0xFF10161F
      (buf_fill_rect ?b ?p (wx w + 4) (wy w + 6) (ww w) (wh w) 0xFF0A0F16 s))))))))
    (((((((ink 0xFF0A0F16 (rect (wx w + 4) (wy w + 6) (ww w) (wh w)) ++
      ink 0xFF10161F (rect (wx w) (wy w) (ww w) (wh w))) ++
      ink (if wactive w then 0xFF6CA8FF else 0xFF2C3440) (outline (wx w) (wy w) (ww w) (wh w))) ++
      ink (if wactive w then 0xFF1D2A3A else 0xFF151C26) (rect (wx w + 1) (wy w + 1) (ww w - 2) (WM_TITLEBAR_H - 2))) ++
      ink 0xFFEAF2FF (text_at (wx w + 8) (wy w + 6) (wtitle w))) ++
      ink 0xFFCC4444 (rect (wx w + ww w - 18) (wy w + 2) 14 14)) ++
      ink 0xFFFFFFFF (glyph (wx w + ww w - 14) (wy w + 6) CHR ''x'')) ++
      window_content (vmem r) w)"
    by (intro bbc.paints_seq paints_rect paints_outline paints_string paints_glyph paints_content assms(2))
  then show ?thesis by (rule bbc.paints_cong) (use assms(1) in \<open>auto simp: composite_window_def Let_def window_layer_def\<close>)
qed

definition cursor_layer :: "int \<Rightarrow> int \<Rightarrow> (int \<times> int) layer" where
  "cursor_layer mx my = (\<lambda>(px, py).
     if (px, py) \<in> rect mx my 12 16 \<and> bit (cursor_shape ! nat (py - my)) (nat (11 - (px - mx))) then Some 0xFFFFFFFF
     else if px = mx - 1 \<and> my - 1 \<le> py \<and> py < my + 15 \<and> bit (cursor_shape ! nat (py - my + 1)) 11 then Some 0xFF000000
     else None)"

text \<open>One cell of the cursor's loop.\<close>

definition cursor_cell :: "int \<Rightarrow> int \<Rightarrow> nat \<Rightarrow> nat \<Rightarrow> (int \<times> int) layer" where
  "cursor_cell mx my y x =
     (if bit (cursor_shape ! y) (11 - x)
      then ink 0xFFFFFFFF {(mx + int x, my + int y)} ++
           (if x = 0 \<or> y = 0 then ink 0xFF000000 {(mx + int x - 1, my + int y - 1)} else Map.empty)
      else Map.empty)"

lemma cursor_first_row:
  assumes "0 < x" "x < 12"
  shows "\<not> bit (cursor_shape ! 0) (11 - x)"
proof -
  have e: "cursor_shape ! 0 = push_bit 11 1" by (simp add: cursor_shape_def)
  show ?thesis using assms unfolding e by (subst bit_push_bit_iff) simp
qed

lemma cursor_cell_right:
  "x < 12 \<Longrightarrow> mx \<le> px \<Longrightarrow> cursor_cell mx my y x (px, py) =
     (if bit (cursor_shape ! y) (11 - x) \<and> px = mx + int x \<and> py = my + int y then Some 0xFFFFFFFF else None)"
  using cursor_first_row [of x] by (auto simp: cursor_cell_def ink_def map_add_def)

lemma cursor_cell_left:
  "x < 12 \<Longrightarrow> px < mx \<Longrightarrow> cursor_cell mx my y x (px, py) =
     (if x = 0 \<and> bit (cursor_shape ! y) 11 \<and> px = mx - 1 \<and> py = my + int y - 1 then Some 0xFF000000 else None)"
  using cursor_first_row [of x] by (auto simp: cursor_cell_def ink_def map_add_def)

lemma cursor_cells: "layers (map (\<lambda>y. layers (map (cursor_cell mx my y) [0..<12])) [0..<16]) (px, py) = cursor_layer mx my (px, py)"
proof (cases "mx \<le> px")
  case True
  have row: "layers (map (cursor_cell mx my y) [0..<12]) (px, py) =
      (if nat (px - mx) < 12 then cursor_cell mx my y (nat (px - mx)) (px, py) else None)" for y
    by (rule layers_select) (use True in \<open>auto simp: cursor_cell_right split: if_splits\<close>)
  have "layers (map (\<lambda>y. layers (map (cursor_cell mx my y) [0..<12])) [0..<16]) (px, py) =
      (if nat (py - my) < 16 then layers (map (cursor_cell mx my (nat (py - my))) [0..<12]) (px, py) else None)"
    by (rule layers_select) (use True in \<open>auto simp: row cursor_cell_right split: if_splits\<close>)
  then show ?thesis unfolding row using True by (auto simp: cursor_cell_right cursor_layer_def rect_def nat_diff_distrib')
next
  case False
  have row: "layers (map (cursor_cell mx my y) [0..<12]) (px, py) = (if 0 < (12 :: nat) then cursor_cell mx my y 0 (px, py) else None)" for y
    by (rule layers_select) (use False in \<open>auto simp: cursor_cell_left split: if_splits\<close>)
  have "layers (map (\<lambda>y. layers (map (cursor_cell mx my y) [0..<12])) [0..<16]) (px, py) =
      (if nat (py - my + 1) < 16 then layers (map (cursor_cell mx my (nat (py - my + 1))) [0..<12]) (px, py) else None)"
    by (rule layers_select) (use False in \<open>auto simp: row cursor_cell_left split: if_splits\<close>)
  then show ?thesis unfolding row using False by (auto simp: cursor_cell_left cursor_layer_def rect_def)
qed

lemma paints_cursor: "bbc.paints r composite_cursor (cursor_layer (mouse_x (wm_mouse r)) (mouse_y (wm_mouse r)))"
proof -
  let ?P = "buf_put_pixel (g_backbuf r) (g_bw r)" and ?mx = "mouse_x (wm_mouse r)" and ?my = "mouse_y (wm_mouse r)"
  let ?f = "\<lambda>y x s. if bit (cursor_shape ! nat y) (nat (11 - x)) then (let s1 = ?P (?mx + x) (?my + y) 0xFFFFFFFF s
      in if x = 0 \<or> y = 0 then ?P (?mx + x - 1) (?my + y - 1) 0xFF000000 s1 else s1) else s"
  have cell: "bbc.paints r (?f y x) (cursor_cell ?mx ?my (nat y) (nat x))" if "0 \<le> y" "0 \<le> x" for x y
    using bbc.paints_seq [OF paints_buf [of r "?mx + x" "?my + y" "0xFFFFFFFF"] paints_buf [of r "?mx + x - 1" "?my + y - 1" "0xFF000000"]]
      paints_buf [of r "?mx + x" "?my + y" "0xFFFFFFFF"] bbc.paints_id that
    by (auto simp: Let_def cursor_cell_def nat_diff_distrib')
  have "bbc.paints r (for_int 16 (\<lambda>y. for_int 12 (?f y)))
      (layers (map (\<lambda>y. layers (map (\<lambda>x. cursor_cell ?mx ?my (nat (int y)) (nat (int x))) [0..<nat 12])) [0..<nat 16]))"
    by (intro bbc.paints_for_int_layers [where L = "\<lambda>y. layers (map (\<lambda>x. cursor_cell ?mx ?my (nat y) (nat (int x))) [0..<nat 12])"]
        bbc.paints_for_int_layers [where L = "\<lambda>x. cursor_cell ?mx ?my _ (nat x)"] cell)
  then show ?thesis
  proof (rule bbc.paints_cong)
    show "layers (map (\<lambda>y. layers (map (\<lambda>x. cursor_cell ?mx ?my (nat (int y)) (nat (int x))) [0..<nat 12])) [0..<nat 16]) = cursor_layer ?mx ?my"
      using cursor_cells [of ?mx ?my] by (simp add: fun_eq_iff split_paired_all)
  next
    fix s assume e: "bb_rest s = r"
    then show "composite_cursor s = for_int 16 (\<lambda>y. for_int 12 (?f y)) s"
      unfolding composite_cursor_def mouse_get_position_def bit_iff_and_push_bit_not_eq_0 Let_def bb_restD(1,2,6) [OF e] by simp
  qed
qed

definition icon_layer :: "int \<Rightarrow> int \<Rightarrow> int \<Rightarrow> (int \<times> int) layer" where
  "icon_layer dx dy i = (let ix = dx + 16 + i * 72; iy = dy + 10 in layers
     [ink 0xFF0B0F16 (rect (ix + 1) (iy + 2) 32 32), ink 0xFF223145 (rect ix iy 32 32), ink 0xFF6CA8FF (outline ix iy 32 32),
      ink 0xFFEAF2FF (glyph (ix + 13) (iy + 12) (if i = 0 then CHR ''t'' else if i = 1 then CHR ''f'' else CHR ''s''))])"

text \<open>The desktop without windows: gradient, top bar with its texts, dock with its icons.\<close>

definition desktop_layer :: "int \<Rightarrow> int \<Rightarrow> (int \<times> int) layer" where
  "desktop_layer bw bh = (let dx = (bw - 240) sdiv 2; dy = bh - 52 - 10 in layers
     [gradient bw bh 0xFF0B1220 0xFF0E2336, ink 0xFF111827 (rect 0 0 bw 26), ink 0xFFEAF2FF (text_at 12 9 ''nanaos''),
      ink 0xFFBFD0E6 (text_at (bw - 58) 9 ''12:00''), ink 0xFF0A0F16 (rect (dx + 2) (dy + 3) 240 52), ink 0xFF151F2B (rect dx dy 240 52),
      ink 0xFF2A3A4F (outline dx dy 240 52), icon_layer dx dy 0, icon_layer dx dy 1, icon_layer dx dy 2])"

text \<open>The whole picture: the desktop, the other windows in slot order, the active window, the cursor.\<close>

definition picture :: "'a wm_scheme \<Rightarrow> (int \<times> int) layer" where
  "picture s = desktop_layer (sint (g_bw s)) (sint (g_bh s)) ++
     layers (map (\<lambda>i. window_layer (vmem s) (g_windows s ! i))
       (filter (\<lambda>i. wused (g_windows s ! i) \<and> g_active s \<noteq> Some i) [0..<WM_MAX_WINDOWS])) ++
     (case g_active s of Some a \<Rightarrow> if wused (g_windows s ! a) then window_layer (vmem s) (g_windows s ! a) else Map.empty
      | None \<Rightarrow> Map.empty) ++
     cursor_layer (mouse_x (wm_mouse s)) (mouse_y (wm_mouse s))"

lemma paints_icon: "bbc.paints r (draw_dock_icon (g_backbuf r) (g_bw r) dx dy i) (icon_layer dx dy i)"
proof -
  let ?ix = "dx + 16 + i * 72" and ?iy = "dy + 10" and ?b = "g_backbuf r" and ?p = "g_bw r"
  let ?c = "if i = 0 then CHR ''t'' else if i = 1 then CHR ''f'' else CHR ''s''"
  have "bbc.paints r (\<lambda>s. buf_draw_char ?b ?p (?ix + 13) (?iy + 12) ?c 0xFFEAF2FF
      (buf_draw_rect ?b ?p ?ix ?iy 32 32 0xFF6CA8FF (buf_fill_rect ?b ?p ?ix ?iy 32 32 0xFF223145
      (buf_fill_rect ?b ?p (?ix + 1) (?iy + 2) 32 32 0xFF0B0F16 s))))
    (((ink 0xFF0B0F16 (rect (?ix + 1) (?iy + 2) 32 32) ++ ink 0xFF223145 (rect ?ix ?iy 32 32)) ++ ink 0xFF6CA8FF (outline ?ix ?iy 32 32)) ++
      ink 0xFFEAF2FF (glyph (?ix + 13) (?iy + 12) ?c))"
    by (intro bbc.paints_seq paints_rect paints_outline paints_glyph)
  then show ?thesis by (rule bbc.paints_cong) (simp_all add: draw_dock_icon_def icon_layer_def Let_def)
qed

lemma layers_filter: "layers (map (\<lambda>i. if P i then L i else Map.empty) xs) = layers (map L (filter P xs))"
  by (induction xs rule: rev_induct) simp_all

lemma paints_desktop: "bbc.paints r composite_desktop (desktop_layer (sint (g_bw r)) (sint (g_bh r)))"
proof -
  let ?b = "g_backbuf r" and ?p = "g_bw r" and ?w = "sint (g_bw r)" and ?h = "sint (g_bh r)"
  define dx where "dx = (?w - 240) sdiv 2"
  define dy where "dy = ?h - 52 - 10"
  have "bbc.paints r (\<lambda>s. for_int 3 (draw_dock_icon ?b ?p dx dy) (buf_draw_rect ?b ?p dx dy 240 52 0xFF2A3A4F (buf_fill_rect ?b ?p dx dy 240 52 0xFF151F2B
      (buf_fill_rect ?b ?p (dx + 2) (dy + 3) 240 52 0xFF0A0F16 (buf_draw_string ?b ?p (?w - 58) 9 (Some ''12:00'') 0xFFBFD0E6
      (buf_draw_string ?b ?p 12 9 (Some ''nanaos'') 0xFFEAF2FF (buf_fill_rect ?b ?p 0 0 ?w 26 0xFF111827
      (buf_fill_gradient ?b ?p ?w ?h 0xFF0B1220 0xFF0E2336 s))))))))
    (((((((gradient ?w ?h 0xFF0B1220 0xFF0E2336 ++ ink 0xFF111827 (rect 0 0 ?w 26)) ++ ink 0xFFEAF2FF (text_at 12 9 ''nanaos'')) ++
      ink 0xFFBFD0E6 (text_at (?w - 58) 9 ''12:00'')) ++ ink 0xFF0A0F16 (rect (dx + 2) (dy + 3) 240 52)) ++
      ink 0xFF151F2B (rect dx dy 240 52)) ++ ink 0xFF2A3A4F (outline dx dy 240 52)) ++
      layers (map (\<lambda>i. icon_layer dx dy (int i)) [0..<nat 3]))"
    by (intro bbc.paints_seq paints_gradient paints_rect paints_outline paints_string bbc.paints_for_int_layers paints_icon)
  then show ?thesis
  proof (rule bbc.paints_cong)
    fix s :: "'a wm_scheme" assume e: "bb_rest s = r"
    show "composite_desktop s = for_int 3 (draw_dock_icon ?b ?p dx dy) (buf_draw_rect ?b ?p dx dy 240 52 0xFF2A3A4F (buf_fill_rect ?b ?p dx dy 240 52 0xFF151F2B
      (buf_fill_rect ?b ?p (dx + 2) (dy + 3) 240 52 0xFF0A0F16 (buf_draw_string ?b ?p (?w - 58) 9 (Some ''12:00'') 0xFFBFD0E6
      (buf_draw_string ?b ?p 12 9 (Some ''nanaos'') 0xFFEAF2FF (buf_fill_rect ?b ?p 0 0 ?w 26 0xFF111827
      (buf_fill_gradient ?b ?p ?w ?h 0xFF0B1220 0xFF0E2336 s)))))))"
      unfolding composite_desktop_def Let_def bb_restD(1-3) [OF e] dx_def dy_def ..
  next
    have "map (\<lambda>i. icon_layer dx dy (int i)) [0..<nat 3] = [icon_layer dx dy 0, icon_layer dx dy 1, icon_layer dx dy 2]"
      by (simp add: numeral_eq_Suc)
    then show "(((((((gradient ?w ?h 0xFF0B1220 0xFF0E2336 ++ ink 0xFF111827 (rect 0 0 ?w 26)) ++ ink 0xFFEAF2FF (text_at 12 9 ''nanaos'')) ++
      ink 0xFFBFD0E6 (text_at (?w - 58) 9 ''12:00'')) ++ ink 0xFF0A0F16 (rect (dx + 2) (dy + 3) 240 52)) ++
      ink 0xFF151F2B (rect dx dy 240 52)) ++ ink 0xFF2A3A4F (outline dx dy 240 52)) ++
      layers (map (\<lambda>i. icon_layer dx dy (int i)) [0..<nat 3])) = desktop_layer ?w ?h"
      unfolding desktop_layer_def Let_def dx_def [symmetric] dy_def [symmetric] by simp
  qed
qed

lemma paints_others:
  assumes "\<forall>w \<in> set (g_windows r). wused w \<longrightarrow> buf_apart r w" "length (g_windows r) = WM_MAX_WINDOWS"
  shows "bbc.paints r composite_others
    (layers (map (\<lambda>i. window_layer (vmem r) (g_windows r ! i)) (filter (\<lambda>i. wused (g_windows r ! i) \<and> g_active r \<noteq> Some i) [0..<WM_MAX_WINDOWS])))"
  unfolding layers_filter [symmetric] composite_others_def [abs_def]
proof (rule bbc.paints_fold)
  fix i assume i: "i \<in> set [0..<WM_MAX_WINDOWS]"
  show "bbc.paints r (\<lambda>s. if wused (g_windows s ! i) \<and> g_active s \<noteq> Some i then composite_window (g_windows s ! i) s else s)
      (if wused (g_windows r ! i) \<and> g_active r \<noteq> Some i then window_layer (vmem r) (g_windows r ! i) else Map.empty)"
  proof (cases "wused (g_windows r ! i) \<and> g_active r \<noteq> Some i")
    case True
    show ?thesis by (rule bbc.paints_cong [OF paints_window [of "g_windows r ! i"]])
        (use True assms i in \<open>auto dest: bb_restD\<close>)
  next
    case False
    show ?thesis by (rule bbc.paints_cong [OF bbc.paints_id]) (use False in \<open>auto dest: bb_restD\<close>)
  qed
qed

lemma paints_active:
  assumes "\<forall>w \<in> set (g_windows r). wused w \<longrightarrow> buf_apart r w" "length (g_windows r) = WM_MAX_WINDOWS"
    "\<And>a. g_active r = Some a \<Longrightarrow> a < WM_MAX_WINDOWS"
  shows "bbc.paints r composite_active
    (case g_active r of Some a \<Rightarrow> if wused (g_windows r ! a) then window_layer (vmem r) (g_windows r ! a) else Map.empty | None \<Rightarrow> Map.empty)"
proof (cases "\<exists>a. g_active r = Some a \<and> wused (g_windows r ! a)")
  case True
  then obtain a where a: "g_active r = Some a" "wused (g_windows r ! a)" by blast
  show ?thesis by (rule bbc.paints_cong [OF paints_window [of "g_windows r ! a"]])
      (use a assms in \<open>auto simp: composite_active_def dest: bb_restD\<close>)
next
  case False
  show ?thesis by (rule bbc.paints_cong [OF bbc.paints_id]) (use False in \<open>auto simp: composite_active_def dest: bb_restD split: option.splits\<close>)
qed

lemma paints_picture:
  assumes "\<forall>w \<in> set (g_windows r). wused w \<longrightarrow> buf_apart r w" "length (g_windows r) = WM_MAX_WINDOWS"
    "\<And>a. g_active r = Some a \<Longrightarrow> a < WM_MAX_WINDOWS"
  shows "bbc.paints r (\<lambda>s. composite_cursor (composite_active (composite_others (composite_desktop s)))) (picture r)"
  unfolding picture_def
  by (intro bbc.paints_seq paints_desktop paints_others paints_active paints_cursor assms)

subsection \<open>The copy to the screen\<close>

text \<open>The back buffer has the size of the screen and does not overlap it; a screen of 32 bits per pixel.\<close>

definition copy_ok :: "'a wm_scheme \<Rightarrow> bool" where
  "copy_ok s \<longleftrightarrow> fb_enabled (g_fb s) \<and> fb_bpp (g_fb s) = 32 \<and> fb_ok (g_fb s) \<and> bb_ok s \<and>
     g_bw s = fb_width (g_fb s) \<and> g_bh s = fb_height (g_fb s) \<and> bb_region s \<inter> fb_region (g_fb s) = {}"

lemma of_int_uint [simp]: "of_int (uint (w :: 'a::len word)) = w"
  by simp

lemma copy_source:
  assumes "bb_ok s" "x < g_bw s" "y < g_bh s"
  shows "word_at (word_at (g_backbuf s) (ucast (y * g_bw s))) (ucast x) = word_at (g_backbuf s) (bb_index s (uint x, uint y))"
proof -
  have v: "bb_visible s (uint x, uint y)" using assms(2,3) by (simp add: bb_visible_def word_less_def)
  have o: "unat y * unat (g_bw s) + unat x < 2 ^ 32"
    using unat_bb_index [OF assms(1) v] assms(1) by (simp add: bb_ok_def unat_eq_nat_uint [symmetric])
  have m: "unat (y * g_bw s) = unat y * unat (g_bw s)" using le_less_trans [OF le_add1 o] by (subst unat_mult_exact) simp_all
  have "unat (bb_index s (uint x, uint y)) = unat (ucast (y * g_bw s) + ucast x :: u64)"
    using unat_bb_index(1) [OF assms(1) v] o m
    by (subst unat_plus_exact) (simp_all add: unsigned_ucast_eq take_bit_nat_eq_self unat_eq_nat_uint [symmetric])
  then have "bb_index s (uint x, uint y) = ucast (y * g_bw s) + ucast x" by (simp add: word_unat_eq_iff)
  then show ?thesis by (simp add: word_at_def algebra_simps)
qed

lemma copy_target:
  assumes "fb_ok fb" "fb_enabled fb" "fb_bpp fb = 32" "x < fb_width fb" "y < fb_height fb" "k < 4"
  shows "fb_addr fb + ucast (y * fb_pitch fb) + ucast (x * 4 + of_nat k) = fb_pos fb x y + of_nat k"
proof -
  have st: "fb_stride fb = 4" using fb_stride_ok [OF assms(1,2)] assms(3) by simp
  have "unat x * 4 + k < 2 ^ 32" using unat_fb_pos(2) [OF assms(1,2,4,5), of k] assms(6) st
    using less_trans [OF _ unat_lt_32 [of "fb_pitch fb"]] by simp
  then have m: "unat x * 4 + k < 4294967296" by simp
  have "unat (x * 4) = unat x * 4" using m by (subst unat_mult_exact) simp_all
  then have "unat (x * 4 + of_nat k) = unat x * 4 + k" using m assms(6) by (subst unat_plus_exact) (simp_all add: unat_of_nat)
  moreover have "unat (ucast (x * 4) + of_nat k :: u64) = unat x * 4 + k"
    using m \<open>unat (x * 4) = unat x * 4\<close> assms(6)
    by (subst unat_plus_exact) (simp_all add: unat_of_nat unsigned_ucast_eq take_bit_nat_eq_self)
  ultimately have "(ucast (x * 4 + of_nat k) :: u64) = ucast (x * 4) + of_nat k"
    using m by (simp add: word_unat_eq_iff unsigned_ucast_eq take_bit_nat_eq_self)
  then show ?thesis using assms(3) by (simp add: fb_pos_def)
qed

lemma copy_pixel:
  assumes "fb_ok fb" "fb_enabled fb" "fb_bpp fb = 32" "x < fb_width fb" "y < fb_height fb" "g_fb s = fb"
  shows "s\<lparr>vmem := (vmem s)(fb_addr fb + ucast (y * fb_pitch fb) + ucast (x * 4) := ucast (c AND 0xFF),
      fb_addr fb + ucast (y * fb_pitch fb) + ucast (x * 4 + 1) := ucast (drop_bit 8 c AND 0xFF),
      fb_addr fb + ucast (y * fb_pitch fb) + ucast (x * 4 + 2) := ucast (drop_bit 16 c AND 0xFF),
      fb_addr fb + ucast (y * fb_pitch fb) + ucast (x * 4 + 3) := 0)\<rparr> = fb_put_pixel x y c s"
proof -
  have t: "fb_addr fb + ucast (y * fb_pitch fb) + ucast (x * 4) = fb_pos fb x y"
    "fb_addr fb + ucast (y * fb_pitch fb) + ucast (x * 4 + 1) = fb_pos fb x y + 1"
    "fb_addr fb + ucast (y * fb_pitch fb) + ucast (x * 4 + 2) = fb_pos fb x y + 2"
    "fb_addr fb + ucast (y * fb_pitch fb) + ucast (x * 4 + 3) = fb_pos fb x y + 3"
    using copy_target [OF assms(1-5), of 0] copy_target [OF assms(1-5), of 1] copy_target [OF assms(1-5), of 2]
      copy_target [OF assms(1-5), of 3] by simp_all
  show ?thesis unfolding t using assms by (simp add: fb_put_pixel_def Let_def not_le)
qed

lemma more_wm:
  assumes "video.more s = video.more (t :: 'a wm_scheme)"
  shows "g_backbuf s = g_backbuf t" "g_bw s = g_bw t" "g_bh s = g_bh t" "g_windows s = g_windows t" "g_active s = g_active t"
    "wm_heap s = wm_heap t"
  using assms by (cases s; cases t; simp)+

lemma bb_pixel_outside:
  assumes "bb_ok t" "bb_visible t z" "bb_region t \<inter> fb_region (g_fb t) = {}" "fb_rest s = fb_rest t"
  shows "bb_pixel s z = bb_pixel t z"
proof -
  have m: "video.more s = video.more t" and g: "g_fb s = g_fb t" using assms(4) by (simp_all add: fb_rest_def)
  have v: "vmem s p = vmem t p" if "p \<in> bb_region t" for p
  proof -
    have "p \<notin> fb_region (g_fb t)" using assms(3) that by blast
    moreover have "(if p \<in> fb_region (g_fb t) then 0 else vmem s p) = (if p \<in> fb_region (g_fb t) then 0 else vmem t p)"
      using assms(4) by (simp add: fb_rest_def g fun_eq_iff)
    ultimately show ?thesis by simp
  qed
  have "word_at (g_backbuf t) (bb_index t z) + of_nat k \<in> bb_region t" if "k < 4" for k
    using unat_word_at [of "bb_index t z" "bb_count t" "g_backbuf t" k] unat_bb_index(2) [OF assms(1), of "fst z" "snd z"] assms(1,2) that
    by (simp add: bb_region_def bb_ok_def)
  from v [OF this [of 0]] v [OF this [of 1]] v [OF this [of 2]] v [OF this [of 3]] show ?thesis
    by (simp add: bb_pixel_def load32_def bb_index_def more_wm(1,2) [OF m])
qed

lemma paints_copy:
  assumes ok: "copy_ok t"
  shows "fbc.paints (fb_rest t) copy_to_fb
    (layers (map (\<lambda>y. layers (map (\<lambda>x. ink (bb_pixel t (uint (of_nat x :: u32), uint (of_nat y :: u32))) {(of_nat x, of_nat y)})
       [0..<unat (fb_width (g_fb t))])) [0..<unat (fb_height (g_fb t))]))"
proof -
  let ?fb = "g_fb t"
  let ?f = "\<lambda>y x s. fb_put_pixel x y (load32 (vmem s) (word_at (word_at (g_backbuf t) (ucast (y * g_bw t))) (ucast x))) s"
  have cell: "fbc.paints (fb_rest t) (?f y x) (ink (bb_pixel t (uint x, uint y)) {(x, y)})"
    if "x < fb_width ?fb" "y < fb_height ?fb" for x y
  proof (rule fbc.paints_cong [OF paints_pixel])
    fix s :: "'a wm_scheme" assume e: "fb_rest s = fb_rest t"
    have xy: "x < g_bw t" "y < g_bh t" using that ok by (simp_all add: copy_ok_def)
    then have vis: "bb_visible t (uint x, uint y)" by (simp add: bb_visible_def word_less_def)
    have "video.more s = video.more t" using e by (simp add: fb_rest_def)
    note m = more_wm(1,2) [OF this]
    have "bb_pixel s (uint x, uint y) = bb_pixel t (uint x, uint y)" using bb_pixel_outside [OF _ vis _ e] ok by (simp add: copy_ok_def)
    then show "?f y x s = fb_put_pixel x y (bb_pixel t (uint x, uint y)) s"
      using copy_source [OF _ xy] ok by (simp add: copy_ok_def bb_pixel_def bb_index_def m)
  qed simp
  have "fbc.paints (fb_rest t) (for_u32 (fb_height ?fb) (\<lambda>y. for_u32 (fb_width ?fb) (?f y)))
    (layers (map (\<lambda>y. layers (map (\<lambda>x. ink (bb_pixel t (uint (of_nat x :: u32), uint (of_nat y :: u32))) {(of_nat x, of_nat y)})
       [0..<unat (fb_width (g_fb t))])) [0..<unat (fb_height (g_fb t))]))"
    by (intro fbc.paints_for_u32_layers [where L = "\<lambda>y. layers (map (\<lambda>x. ink (bb_pixel t (uint (of_nat x :: u32), uint y)) {(of_nat x, y)})
          [0..<unat (fb_width (g_fb t))])"] fbc.paints_for_u32_layers [where L = "\<lambda>x. ink (bb_pixel t (uint x, uint _)) {(x, _)}"] cell)
  then show ?thesis
  proof (rule fbc.paints_cong)
    fix s :: "'a wm_scheme" assume e: "fb_rest s = fb_rest t"
    have g: "g_fb s = ?fb" and m: "video.more s = video.more t" using e by (simp_all add: fb_rest_def)
    let ?body = "\<lambda>y x s. let row = word_at (g_backbuf s) (ucast (y * g_bw s)); drow = fb_addr ?fb + ucast (y * fb_pitch ?fb);
        c = load32 (vmem s) (word_at row (ucast x)); m0 = (vmem s)(drow + ucast (x * 4) := ucast (c AND 0xFF));
        m1 = m0(drow + ucast (x * 4 + 1) := ucast (drop_bit 8 c AND 0xFF));
        m2 = m1(drow + ucast (x * 4 + 2) := ucast (drop_bit 16 c AND 0xFF))
        in s\<lparr>vmem := m2(drow + ucast (x * 4 + 3) := 0)\<rparr>"
    have b: "?body y x s = ?f y x s" if "x < fb_width ?fb" "y < fb_height ?fb" "video.more s = video.more t" "g_fb s = ?fb"
      for x y and s :: "'a wm_scheme"
      using copy_pixel [of ?fb x y s] that ok more_wm(1,2) [OF that(3)] by (simp add: copy_ok_def Let_def)
    have keep: "video.more (?f y x s) = video.more s" "g_fb (?f y x s) = g_fb s" for x y and s :: "'a wm_scheme" by simp_all
    have inner: "for_u32 (fb_width ?fb) (?body y) s = for_u32 (fb_width ?fb) (?f y) s \<and>
        video.more (for_u32 (fb_width ?fb) (?f y) s) = video.more t \<and> g_fb (for_u32 (fb_width ?fb) (?f y) s) = ?fb"
      if "y < fb_height ?fb" "video.more s = video.more t" "g_fb s = ?fb" for y and s :: "'a wm_scheme"
    proof (rule for_u32_cong [where I = "\<lambda>s. video.more s = video.more t \<and> g_fb s = ?fb"])
      fix x and s :: "'a wm_scheme" assume a: "x < fb_width ?fb" "video.more s = video.more t \<and> g_fb s = ?fb"
      show "?body y x s = ?f y x s \<and> (video.more (?f y x s) = video.more t \<and> g_fb (?f y x s) = ?fb)"
        unfolding b [OF a(1) that(1) a(2) [THEN conjunct1] a(2) [THEN conjunct2]] using a by simp
    qed (use that in simp)
    have "for_u32 (fb_height ?fb) (\<lambda>y. for_u32 (fb_width ?fb) (?body y)) s = for_u32 (fb_height ?fb) (\<lambda>y. for_u32 (fb_width ?fb) (?f y)) s \<and>
        (video.more (for_u32 (fb_height ?fb) (\<lambda>y. for_u32 (fb_width ?fb) (?f y)) s) = video.more t \<and>
         g_fb (for_u32 (fb_height ?fb) (\<lambda>y. for_u32 (fb_width ?fb) (?f y)) s) = ?fb)"
    proof (rule for_u32_cong [where I = "\<lambda>s. video.more s = video.more t \<and> g_fb s = ?fb"])
      fix y and s :: "'a wm_scheme" assume a: "y < fb_height ?fb" "video.more s = video.more t \<and> g_fb s = ?fb"
      show "for_u32 (fb_width ?fb) (?body y) s = for_u32 (fb_width ?fb) (?f y) s \<and>
          (video.more (for_u32 (fb_width ?fb) (?f y) s) = video.more t \<and> g_fb (for_u32 (fb_width ?fb) (?f y) s) = ?fb)"
        by (rule inner [OF a(1) a(2) [THEN conjunct1] a(2) [THEN conjunct2]])
    qed (use m g in simp)
    then show "copy_to_fb s = for_u32 (fb_height ?fb) (\<lambda>y. for_u32 (fb_width ?fb) (?f y)) s"
      using ok g more_wm(1) [OF m] unfolding copy_to_fb_def by (simp add: copy_ok_def bb_ok_def Let_def)
  qed simp
qed

subsection \<open>Every reachable state\<close>

text \<open>
  A run of the window manager on a screen \<open>fb\<close>: it starts with a successful \<open>wm_init\<close> and goes on with
  calls of its interface and of the mouse driver, in any order. Windows may be created anywhere on the
  plane, but not with a negative or absurd size (the size is not checked by the code).
\<close>

inductive wm_reach :: "u64 \<Rightarrow> framebuffer \<Rightarrow> wm \<Rightarrow> bool" for kend fb where
  wr_init: "g_fb s = fb \<Longrightarrow> heap_inv kend (wm_heap s) \<Longrightarrow> length (g_windows s) = WM_MAX_WINDOWS \<Longrightarrow>
     wm_init kend s = (0, ops, s') \<Longrightarrow> wm_reach kend fb s'"
| wr_create: "wm_reach kend fb s \<Longrightarrow> 0 \<le> w \<Longrightarrow> 0 \<le> h \<Longrightarrow> w * h * 4 \<le> 2 ^ 63 \<Longrightarrow>
     wm_create_window kend x y w h title flags s = (win, s') \<Longrightarrow> wm_reach kend fb s'"
| wr_close: "wm_reach kend fb s \<Longrightarrow> pred_option (\<lambda>i. i < WM_MAX_WINDOWS) win \<Longrightarrow> wm_reach kend fb (wm_close_window win s)"
| wr_focus: "wm_reach kend fb s \<Longrightarrow> pred_option (\<lambda>i. i < WM_MAX_WINDOWS) win \<Longrightarrow> wm_reach kend fb (wm_focus_window win s)"
| wr_mouse: "wm_reach kend fb s \<Longrightarrow> wm_reach kend fb (wm_handle_mouse x y buttons s)"
| wr_key: "wm_reach kend fb s \<Longrightarrow> wm_reach kend fb (wm_handle_key k s)"
| wr_moved: "wm_reach kend fb s \<Longrightarrow> wm_reach kend fb (s\<lparr>wm_mouse := m\<rparr>)"
| wr_composite: "wm_reach kend fb s \<Longrightarrow> wm_reach kend fb (wm_composite s)"

text \<open>The screen the boot loader sets for the window manager: 32 bits per pixel, outside the kernel heap.\<close>

definition screen_ok :: "u64 \<Rightarrow> framebuffer \<Rightarrow> bool" where
  "screen_ok kend fb \<longleftrightarrow> fb_enabled fb \<and> fb_bpp fb = 32 \<and> fb_ok fb \<and> 
     (\<forall>p \<in> fb_region fb. unat p < unat kend \<or> unat kend + 8388608 \<le> unat p)"

text \<open>A window's buffer is a block of the heap above the back buffer.\<close>

definition window_ok :: "u64 \<Rightarrow> wm \<Rightarrow> wm_window \<Rightarrow> bool" where
  "window_ok kend s w \<longleftrightarrow> 0 < ww w \<and> 0 < wh w \<and> unat (g_backbuf s) + 4 * bb_count s \<le> unat (wbuffer w) \<and>
     unat (wbuffer w) + 4 * nat (ww w * wh w) \<le> heap_brk kend (wm_heap s)"

definition wm_inv :: "u64 \<Rightarrow> framebuffer \<Rightarrow> wm \<Rightarrow> bool" where
  "wm_inv kend fb s \<longleftrightarrow> g_fb s = fb \<and> heap_inv kend (wm_heap s) \<and> g_bw s = fb_width fb \<and> g_bh s = fb_height fb \<and>
     g_backbuf s \<noteq> 0 \<and> 0 < bb_count s \<and> unat kend \<le> unat (g_backbuf s) \<and>
     unat (g_backbuf s) + 4 * bb_count s \<le> heap_brk kend (wm_heap s) \<and>
     length (g_windows s) = WM_MAX_WINDOWS \<and> pred_option (\<lambda>i. i < WM_MAX_WINDOWS) (g_active s) \<and>
     (\<forall>i < WM_MAX_WINDOWS. wused (g_windows s ! i) \<longrightarrow> window_ok kend s (g_windows s ! i) \<and>
        (wactive (g_windows s ! i) \<longleftrightarrow> g_active s = Some i))"
lemma wm_invD:
  assumes "wm_inv kend fb s"
  shows "g_fb s = fb" "heap_inv kend (wm_heap s)" "g_bw s = fb_width fb" "g_bh s = fb_height fb" "g_backbuf s \<noteq> 0"
    "0 < bb_count s" "unat kend \<le> unat (g_backbuf s)" "unat (g_backbuf s) + 4 * bb_count s \<le> heap_brk kend (wm_heap s)"
    "length (g_windows s) = WM_MAX_WINDOWS" "g_active s = Some a \<Longrightarrow> a < WM_MAX_WINDOWS"
    "i < WM_MAX_WINDOWS \<Longrightarrow> wused (g_windows s ! i) \<Longrightarrow> window_ok kend s (g_windows s ! i)"
    "i < WM_MAX_WINDOWS \<Longrightarrow> wused (g_windows s ! i) \<Longrightarrow> wactive (g_windows s ! i) \<longleftrightarrow> g_active s = Some i"
  using assms by (auto simp: wm_inv_def)

lemma wm_brk_limit: "heap_inv kend h \<Longrightarrow> heap_brk kend h \<le> unat kend + 8388608"
  using kheap.ok_brk by blast

lemma wm_inv_bb_ok:
  assumes "wm_inv kend fb s"
  shows "bb_ok s" "bb_region s \<subseteq> {p. unat kend \<le> unat p \<and> unat p < unat kend + 8388608}"
proof -
  note i = wm_invD [OF assms] wm_brk_limit [OF wm_invD(2) [OF assms]]
  have k: "unat kend + 8388608 < 2 ^ 63" using i(2) by (simp add: heap_inv_def kend_ok_def)
  have c: "bb_count s \<le> 2097152" using i(7,8,13) by linarith
  have p: "0 < unat (g_bw s)" "0 < unat (g_bh s)" using i(6) by (simp_all add: bb_count_def)
  have "unat (g_bw s) * 1 \<le> unat (g_bw s) * unat (g_bh s)" "1 * unat (g_bh s) \<le> unat (g_bw s) * unat (g_bh s)"
    using p by (intro mult_le_mono; simp)+
  then have "unat (g_bw s) \<le> bb_count s" "unat (g_bh s) \<le> bb_count s" by (simp_all add: bb_count_def)
  with c i k show "bb_ok s" by (simp add: bb_ok_def)
  show "bb_region s \<subseteq> {p. unat kend \<le> unat p \<and> unat p < unat kend + 8388608}"
    using i(7,8,13) by (auto simp: bb_region_def)
qed

lemma wm_inv_copy_ok:
  assumes "wm_inv kend fb s" "screen_ok kend fb"
  shows "copy_ok s"
  using wm_inv_bb_ok [OF assms(1)] wm_invD(1,3,4) [OF assms(1)] assms(2) by (fastforce simp: copy_ok_def screen_ok_def)

lemma cell_index:
  assumes "0 \<le> i" "i < w" "0 \<le> j" "j < h"
  shows "0 \<le> j * w + i" "j * w + i < w * (h :: int)"
proof -
  show "0 \<le> j * w + i" using assms by simp
  have "j * w + i < (j + 1) * w" using assms by (simp add: algebra_simps)
  also have "\<dots> \<le> h * w" using assms by (intro mult_right_mono) auto
  finally show "j * w + i < w * h" by (simp add: mult.commute)
qed

lemma window_cell:
  assumes "wm_inv kend fb s" "window_ok kend s w" "0 \<le> i" "i < ww w" "0 \<le> j" "j < wh w" "k < 4"
  shows "unat (word_at (wbuffer w) (of_int (j * ww w + i)) + of_nat k) = unat (wbuffer w) + 4 * nat (j * ww w + i) + k"
proof -
  note c = cell_index [OF assms(3-6)]
  have b: "unat (wbuffer w) + 4 * nat (ww w * wh w) < 2 ^ 63"
    using assms(2) wm_brk_limit [OF wm_invD(2) [OF assms(1)]] wm_invD(2) [OF assms(1)]
    by (simp add: window_ok_def heap_inv_def kend_ok_def)
  then have "nat (ww w * wh w) < 2 ^ 63" by simp
  then have "ww w * wh w < 2 ^ 63" using c by (simp add: nat_less_iff)
  then have n: "unat (of_int (j * ww w + i) :: u64) = nat (j * ww w + i)" using c by (intro unat_of_int_small) auto
  show ?thesis unfolding n [symmetric]
    by (rule unat_word_at [where n = "nat (ww w * wh w)"]) (use n b c assms(7) in auto)
qed

lemma window_apart:
  assumes "wm_inv kend fb s" "window_ok kend s w"
  shows "buf_apart s w"
  unfolding buf_apart_def bb_region_def mem_Collect_eq
proof (intro allI impI)
  fix i j and k :: nat assume a: "0 \<le> i \<and> i < ww w \<and> 0 \<le> j \<and> j < wh w" "k < 4"
  show "\<not> (unat (g_backbuf s) \<le> unat (word_at (wbuffer w) (of_int (j * ww w + i)) + of_nat k) \<and>
      unat (word_at (wbuffer w) (of_int (j * ww w + i)) + of_nat k) < unat (g_backbuf s) + 4 * bb_count s)"
    unfolding window_cell [OF assms a(1) [THEN conjunct1] a(1) [THEN conjunct2, THEN conjunct1]
      a(1) [THEN conjunct2, THEN conjunct2, THEN conjunct1] a(1) [THEN conjunct2, THEN conjunct2, THEN conjunct2] a(2)]
    using assms(2) unfolding window_ok_def by linarith
qed

lemma wm_inv_cong:
  assumes "g_fb t = g_fb s" "wm_heap t = wm_heap s" "g_bw t = g_bw s" "g_bh t = g_bh s" "g_backbuf t = g_backbuf s"
    "g_windows t = g_windows s" "g_active t = g_active s"
  shows "wm_inv kend fb t = wm_inv kend fb s"
  using assms by (simp add: wm_inv_def window_ok_def bb_count_def)

subsubsection \<open>What the operations keep\<close>

lemma bb_rest_more: "bb_rest s = bb_rest t \<Longrightarrow> g_fb s = g_fb t \<and> video.more s = video.more t"
  by (cases s; cases t) (simp add: bb_rest_def)

lemma copy_more: "video.more (copy_to_fb s) = video.more s \<and> g_fb (copy_to_fb s) = g_fb s"
proof -
  let ?I = "\<lambda>t. video.more t = video.more s \<and> g_fb t = g_fb s"
  have row: "?I t \<Longrightarrow> ?I (for_u32 n f t)" if "\<And>i t. ?I t \<Longrightarrow> ?I (f i t)"
    for n t and f :: "u32 \<Rightarrow> 'a wm_scheme \<Rightarrow> 'a wm_scheme"
    by (rule for_u32_induct) (use that in auto)
  show ?thesis unfolding copy_to_fb_def Let_def by (auto intro!: row)
qed


lemma content_rest:
  assumes "buf_apart s w"
  shows "window_content (vmem (bb_rest s)) w = window_content (vmem s) w"
proof
  fix z :: "int \<times> int"
  obtain px py where z: "z = (px, py)" by (cases z)
  show "window_content (vmem (bb_rest s)) w z = window_content (vmem s) w z"
  proof (cases "z \<in> rect (wx w) (wy w + WM_TITLEBAR_H) (ww w) (wh w - WM_TITLEBAR_H)")
    case True
    define i j where "i = px - wx w" and "j = py - (wy w + WM_TITLEBAR_H)"
    have b: "0 \<le> i" "i < ww w" "0 \<le> j" "j < wh w" using True by (auto simp: z i_def j_def rect_def WM_TITLEBAR_H_def)
    have "word_at (wbuffer w) (of_int (j * ww w + i)) + of_nat k \<notin> bb_region s" if "k < 4" for k
      using assms b that unfolding buf_apart_def by blast
    from this [of 0] this [of 1] this [of 2] this [of 3]
    have "load32 (vmem (bb_rest s)) (word_at (wbuffer w) (of_int (j * ww w + i))) = load32 (vmem s) (word_at (wbuffer w) (of_int (j * ww w + i)))"
      by (simp add: load32_def bb_rest_def)
    then show ?thesis by (simp add: window_content_def z i_def j_def)
  qed (simp add: window_content_def z)
qed

lemma window_rest: "buf_apart s w \<Longrightarrow> window_layer (vmem (bb_rest s)) w = window_layer (vmem s) w"
  unfolding window_layer_def content_rest ..

lemma wm_inv_windows:
  assumes "wm_inv kend fb s"
  shows "\<forall>w \<in> set (g_windows s). wused w \<longrightarrow> buf_apart s w"
  using window_apart [OF assms wm_invD(11) [OF assms]] wm_invD(9) [OF assms] by (fastforce simp: in_set_conv_nth)

lemma picture_rest:
  assumes "wm_inv kend fb s"
  shows "picture (bb_rest s) = picture s"
proof -
  have f: "g_bw (bb_rest s) = g_bw s" "g_bh (bb_rest s) = g_bh s" "g_windows (bb_rest s) = g_windows s" "g_active (bb_rest s) = g_active s"
    "wm_mouse (bb_rest s) = wm_mouse s" by (simp_all add: bb_rest_def)
  have w: "window_layer (vmem (bb_rest s)) (g_windows s ! i) = window_layer (vmem s) (g_windows s ! i)"
    if "i < WM_MAX_WINDOWS" "wused (g_windows s ! i)" for i
    using that wm_inv_windows [OF assms] wm_invD(9) [OF assms] by (intro window_rest) auto
  have m: "map (\<lambda>i. window_layer (vmem (bb_rest s)) (g_windows s ! i)) (filter (\<lambda>i. wused (g_windows s ! i) \<and> g_active s \<noteq> Some i) [0..<WM_MAX_WINDOWS]) =
      map (\<lambda>i. window_layer (vmem s) (g_windows s ! i)) (filter (\<lambda>i. wused (g_windows s ! i) \<and> g_active s \<noteq> Some i) [0..<WM_MAX_WINDOWS])"
    by (rule map_cong) (auto simp: w)
  show ?thesis unfolding picture_def f m using w wm_invD(10) [OF assms] by (auto split: option.splits)
qed

lemma picture_covers:
  assumes "0 \<le> x" "x < sint (g_bw s)" "0 \<le> y" "y < sint (g_bh s)"
  shows "picture s (x, y) \<noteq> None"
proof -
  have "gradient (sint (g_bw s)) (sint (g_bh s)) 0xFF0B1220 0xFF0E2336 (x, y) \<noteq> None"
    using assms by (simp add: gradient_def rect_def)
  then show ?thesis unfolding picture_def desktop_layer_def Let_def layers_Cons by simp
qed

lemma composite_painted:
  assumes "wm_inv kend fb s" 
  defines "t \<equiv> composite_cursor (composite_active (composite_others (composite_desktop s)))"
  shows "bb_rest t = bb_rest s \<and> (\<forall>z. bb_visible s z \<longrightarrow> bb_pixel t z = (case picture s z of None \<Rightarrow> bb_pixel s z | Some c \<Rightarrow> c))"
proof -
  have "bbc.paints (bb_rest s) (\<lambda>s. composite_cursor (composite_active (composite_others (composite_desktop s)))) (picture (bb_rest s))"
    by (rule paints_picture)
      (use wm_inv_windows [OF assms(1)] wm_invD(9,10) [OF assms(1)] in \<open>simp_all add: bb_rest_def buf_apart_def\<close>)
  from bbc.paintsD(2,4) [OF this wm_inv_bb_ok(1) [OF assms(1)]] show ?thesis
    unfolding picture_rest [OF assms(1)] t_def by blast
qed

lemma composite_frame:
  assumes "wm_inv kend fb s"
  shows "video.more (wm_composite s) = video.more s \<and> g_fb (wm_composite s) = g_fb s"
  using composite_painted [OF assms] bb_rest_more copy_more by (metis wm_composite_def)

lemma fb_vis_bb:
  assumes "wm_inv kend fb s" "fb_visible s (x, y)"
  shows "bb_visible s (uint x, uint y)" "sint (g_bw s) = uint (g_bw s)" "sint (g_bh s) = uint (g_bh s)"
    "unat x < unat (fb_width (g_fb s))" "unat y < unat (fb_height (g_fb s))"
  using assms wm_invD(1,3,4) [OF assms(1)] wm_inv_bb_ok(1) [OF assms(1)]
  by (simp_all add: fb_visible_def bb_visible_def word_less_def sint_small bb_ok_def unat_mono)

lemma composite_shows:
  assumes "wm_inv kend fb s" "screen_ok kend fb" "fb_visible s (x, y)"
  shows "fb_pixel (wm_composite s) (x, y) = rgb24 (the (picture s (uint x, uint y)))"
proof -
  define t where "t = composite_cursor (composite_active (composite_others (composite_desktop s)))"
  have p: "bb_rest t = bb_rest s" "bb_pixel t (uint x, uint y) = (case picture s (uint x, uint y) of None \<Rightarrow> bb_pixel s (uint x, uint y) | Some c \<Rightarrow> c)"
    using composite_painted [OF assms(1)] fb_vis_bb(1) [OF assms(1,3)] by (auto simp: t_def)
  have g: "g_fb t = g_fb s" "video.more t = video.more s" using bb_rest_more [OF p(1)] by auto
  then have inv: "wm_inv kend fb t" using assms(1) more_wm [OF g(2)] by (subst wm_inv_cong [of t s]) simp_all
  have ok: "copy_ok t" by (rule wm_inv_copy_ok [OF inv assms(2)])
  have vis: "fb_visible t (x, y)" using assms(3) g by (simp add: fb_visible_def)
  have xy: "x < fb_width (g_fb t)" "y < fb_height (g_fb t)" using vis by (simp_all add: fb_visible_def)
  have "fb_pixel (copy_to_fb t) (x, y) = rgb24 (bb_pixel t (uint x, uint y))"
    using fbc.paintsD(4) [OF paints_copy [OF ok] _ refl vis] ok screen_layer [OF xy, of "\<lambda>x y. bb_pixel t (uint x, uint y)"] by (simp add: copy_ok_def)
  moreover have "picture s (uint x, uint y) \<noteq> None"
    using fb_vis_bb [OF assms(1,3)] by (intro picture_covers) (simp_all add: bb_visible_def)
  moreover have "wm_composite s = copy_to_fb t" using wm_invD(5) [OF assms(1)] by (simp add: wm_composite_def t_def)
  ultimately show ?thesis using p(2) by auto
qed
subsubsection \<open>The operations keep the invariant\<close>

lemma round_up_8: "(k :: nat) \<le> (k + 7) div 8 * 8"
  by presburger

lemma wm_inv_init:
  assumes "screen_ok kend (g_fb s)" "heap_inv kend (wm_heap s)" "length (g_windows s) = WM_MAX_WINDOWS" "wm_init kend s = (0, ops, s')"
  shows "wm_inv kend (g_fb s) s'"
proof -
  let ?fb = "g_fb s"
  have en: "fb_enabled ?fb" and ok: "fb_ok ?fb" and bpp: "fb_bpp ?fb = 32" using assms(1) by (simp_all add: screen_ok_def)
  have pl: "unat (fb_width ?fb) * 4 \<le> unat (fb_pitch ?fb)" "unat (fb_height ?fb) * unat (fb_pitch ?fb) < 2 ^ 32"
    using ok en bpp by (simp_all add: fb_ok_def fb_stride_def fb_size_def)
  have lt: "unat (fb_width ?fb) * unat (fb_height ?fb) * 4 < 2 ^ 32"
    using le_less_trans [OF mult_le_mono2 [OF pl(1), of "unat (fb_height ?fb)"] pl(2)] by (simp add: mult_ac)
  obtain p h where k: "kmalloc kend (ucast (fb_width ?fb) * ucast (fb_height ?fb) * 4) (wm_heap s) = (p, h)" by fastforce
  let ?n = "ucast (fb_width ?fb) * ucast (fb_height ?fb) * 4 :: u64"
  have up: "unat (ucast w :: u64) = unat w" for w :: u32
    using less_trans [OF unat_lt_32 [of w], of "2 ^ 64"] by (simp add: unsigned_ucast_eq take_bit_nat_eq_self)
  have n: "unat ?n = unat (fb_width ?fb) * unat (fb_height ?fb) * 4"
  proof -
    have "unat (ucast (fb_width ?fb) * ucast (fb_height ?fb) :: u64) = unat (fb_width ?fb) * unat (fb_height ?fb)"
      using lt by (subst unat_mult_exact) (simp_all add: up mult.commute)
    then show ?thesis using lt by (subst unat_mult_exact) simp_all
  qed
  have p0: "p \<noteq> 0" and s': "s' = s\<lparr>g_bw := fb_width ?fb, g_bh := fb_height ?fb, g_backbuf := p, wm_heap := h,
      g_windows := map (\<lambda>w. w\<lparr>wused := False\<rparr>) (g_windows s), g_active := None\<rparr>"
    using assms(4) k by (auto simp: wm_init_def fb_get_def Let_def split: if_splits)
  have c: "0 < ?n" "unat p = heap_brk kend (wm_heap s)" "heap_brk kend h = heap_brk kend (wm_heap s) + (unat ?n + 7) div 8 * 8" "heap_inv kend h"
    proof -
    have "unat ?n \<le> 2 ^ 63" unfolding n using lt by simp
    from kmalloc_cases [OF assms(2) this k] p0 
    show "0 < ?n" "unat p = heap_brk kend (wm_heap s)" "heap_brk kend h = heap_brk kend (wm_heap s) + (unat ?n + 7) div 8 * 8" "heap_inv kend h"
      by blast+
  qed
  have cnt: "bb_count s' = unat (fb_width ?fb) * unat (fb_height ?fb)" by (simp add: s' bb_count_def)
  have "unat p + 4 * bb_count s' \<le> heap_brk kend h" using c(2,3) n cnt round_up_8 [of "unat ?n"] by linarith
  moreover have "unat kend \<le> unat p" using c(2) kheap.ok_brk [OF assms(2)] by simp
  moreover have "0 < bb_count s'" using c(1) unfolding cnt word_less_nat_alt n by simp
  ultimately show ?thesis using c(4) p0 assms(3) by (simp add: wm_inv_def s')
qed

lemma upd_window_nth:
  "i < length (g_windows s) \<Longrightarrow> g_windows (upd_window i f s) ! j = (if j = i then f (g_windows s ! i) else g_windows s ! j)"
  by (simp add: upd_window_def nth_list_update)

lemma upd_window_fields [simp]:
  "g_fb (upd_window i f s) = g_fb s" "wm_heap (upd_window i f s) = wm_heap s" "g_bw (upd_window i f s) = g_bw s"
  "g_bh (upd_window i f s) = g_bh s" "g_backbuf (upd_window i f s) = g_backbuf s" "g_active (upd_window i f s) = g_active s"
  "length (g_windows (upd_window i f s)) = length (g_windows s)" "vmem (upd_window i f s) = vmem s"
  by (simp_all add: upd_window_def)

lemma wm_inv_focus:
  assumes "wm_inv kend fb s" "pred_option (\<lambda>i. i < WM_MAX_WINDOWS) win"
  shows "wm_inv kend fb (wm_focus_window win s)"
proof (cases win)
  case (Some i)
  then have i: "i < length (g_windows s)" using assms wm_invD(9) [OF assms(1)] by simp
  show ?thesis using assms Some i unfolding wm_inv_def
    by (auto simp: wm_focus_window_def upd_window_nth window_ok_def bb_count_def)
qed (use assms in \<open>simp add: wm_focus_window_def\<close>)

lemma wm_inv_close:
  assumes "wm_inv kend fb s" "pred_option (\<lambda>i. i < WM_MAX_WINDOWS) win"
  shows "wm_inv kend fb (wm_close_window win s)"
proof (cases win)
  case (Some i)
  then have i: "i < length (g_windows s)" using assms wm_invD(9) [OF assms(1)] by simp
  show ?thesis using assms Some i unfolding wm_inv_def
    by (auto simp: wm_close_window_def upd_window_nth window_ok_def bb_count_def Let_def)
qed (use assms in \<open>simp add: wm_close_window_def\<close>)

lemma find_upt: "find P xs = Some i \<Longrightarrow> i \<in> set xs \<and> P i"
  by (auto simp: find_Some_iff)

lemma pick_bound:
  assumes "wm_inv kend fb s" "pick_window_at x y s = Some i"
  shows "i < WM_MAX_WINDOWS \<and> hit x y (g_windows s ! i)"
  using assms(2) wm_invD(10) [OF assms(1)]
  by (auto simp: pick_window_at_def split: option.splits if_splits dest!: find_upt)

lemma wm_inv_press:
  assumes "wm_inv kend fb s"
  shows "wm_inv kend fb (wm_press x y s)"
proof (cases "pick_window_at x y s")
  case (Some i)
  then have i: "i < WM_MAX_WINDOWS" using pick_bound [OF assms] by simp
  then have f: "wm_inv kend fb (wm_focus_window (Some i) s)" by (intro wm_inv_focus assms) simp
  then have "wm_inv kend fb (wm_close_window (Some i) (wm_focus_window (Some i) s))" using i by (intro wm_inv_close) simp_all
  with f show ?thesis using Some by (simp add: wm_press_def Let_def wm_inv_cong [of "_\<lparr>g_dragging := _, g_drag_offx := _, g_drag_offy := _\<rparr>"])
qed (use assms in \<open>simp add: wm_press_def\<close>)

lemma wm_inv_drag:
  assumes "wm_inv kend fb s"
  shows "wm_inv kend fb (wm_drag x y left s)"
proof (cases "g_active s")
  case (Some a)
  then have a: "a < length (g_windows s)" using wm_invD(9,10) [OF assms] by simp
  then have "wm_inv kend fb (upd_window a (\<lambda>w. w\<lparr>wx := u, wy := v\<rparr>) s)" for u v
    using assms unfolding wm_inv_def by (auto simp: upd_window_nth window_ok_def bb_count_def)
  then show ?thesis using assms Some by (simp add: wm_drag_def)
qed (use assms in \<open>simp add: wm_drag_def\<close>)

lemma wm_inv_mouse:
  assumes "wm_inv kend fb s"
  shows "wm_inv kend fb (wm_handle_mouse x y b s)"
proof -
  have k: "wm_inv kend fb (t\<lparr>g_dragging := u\<rparr>) = wm_inv kend fb t" "wm_inv kend fb (t\<lparr>g_prev_btn := u\<rparr>) = wm_inv kend fb t" for t u
    by (rule wm_inv_cong; simp)+
  show ?thesis using assms by (simp add: wm_handle_mouse_def Let_def k wm_inv_drag wm_inv_press)
qed

lemma fill_vmem: "\<exists>m. win_fill_default w c s = s\<lparr>vmem := m\<rparr>"
proof -
  define P where "P = (\<lambda>t. t\<lparr>vmem := vmem s\<rparr> = s)"
  have "P s" by (simp add: P_def)
  have "P (for_int (wh w) (\<lambda>y. for_int (ww w) (\<lambda>x s. s\<lparr>vmem := store32 (word_at (wbuffer w) (of_int (y * ww w + x))) c (vmem s)\<rparr>)) s)"
  proof (rule for_int_induct)
    fix y t assume "P t"
    then show "P (for_int (ww w) (\<lambda>x s. s\<lparr>vmem := store32 (word_at (wbuffer w) (of_int (y * ww w + x))) c (vmem s)\<rparr>) t)"
      by (rule for_int_induct) (simp add: P_def)
  qed fact
  with \<open>P s\<close> have "P (win_fill_default w c s)" by (simp add: win_fill_default_def)
  then have "win_fill_default w c s = s\<lparr>vmem := vmem (win_fill_default w c s)\<rparr>"
    unfolding P_def by (metis video.surjective video.update_convs(2))
  then show ?thesis by blast
qed

lemma create_window:
  assumes "find (\<lambda>i. \<not> wused (g_windows s ! i)) [0..<WM_MAX_WINDOWS] = Some i" "i < length (g_windows s)"
    "kmalloc kend (of_int w * of_int h * 4) (wm_heap s) = (p, hp)" "p \<noteq> 0"
  obtains m where "wm_create_window kend x y w h title flags s = (Some i, wm_focus_window (Some i) ((upd_window i
    (\<lambda>_. \<lparr>wused = True, wx = x, wy = y, ww = w, wh = h, wactive = False, wflags = flags, wtitle = title_of title, wbuffer = p\<rparr>)
    s)\<lparr>wm_heap := hp, vmem := m\<rparr>))"
proof -
  define s2 where "s2 = upd_window i (\<lambda>win. win\<lparr>wtitle := title_of title\<rparr>) (upd_window i (\<lambda>win. win\<lparr>wused := True, wx := x, wy := y,
      ww := w, wh := h, wactive := False, wflags := flags, wbuffer := p\<rparr>) (s\<lparr>wm_heap := hp\<rparr>))"
  have rec: "win\<lparr>wused := True, wx := x, wy := y, ww := w, wh := h, wactive := False, wflags := flags, wbuffer := p, wtitle := title_of title\<rparr> =
      \<lparr>wused = True, wx = x, wy = y, ww = w, wh = h, wactive = False, wflags = flags, wtitle = title_of title, wbuffer = p\<rparr>" for win :: wm_window
    by (cases win) simp
  have s2: "s2 = (upd_window i (\<lambda>_. \<lparr>wused = True, wx = x, wy = y, ww = w, wh = h, wactive = False, wflags = flags,
      wtitle = title_of title, wbuffer = p\<rparr>) s)\<lparr>wm_heap := hp\<rparr>"
    using assms(2) by (cases s, simp add: s2_def upd_window_def, simp only: rec)
  obtain m where m: "win_fill_default (g_windows s2 ! i) 0xFF202830 s2 = s2\<lparr>vmem := m\<rparr>" using fill_vmem by blast
  have "wm_create_window kend x y w h title flags s = (Some i, wm_focus_window (Some i) (win_fill_default (g_windows s2 ! i) 0xFF202830 s2))"
    unfolding wm_create_window_def assms(1) option.case assms(3) prod.case Let_def if_not_P [OF assms(4)] s2_def ..
  then show ?thesis unfolding m unfolding s2 using that by simp
qed

lemma wm_inv_create:
  assumes inv: "wm_inv kend fb s" and wh: "0 \<le> w" "0 \<le> h" "w * h * 4 \<le> 2 ^ 63" 
    and c: "wm_create_window kend x y w h title flags s = (win, s')"
  shows "wm_inv kend fb s'"
proof (cases "find (\<lambda>i. \<not> wused (g_windows s ! i)) [0..<WM_MAX_WINDOWS]")
  case None
  then show ?thesis using inv c by (simp add: wm_create_window_def)
next
  case (Some i)
  obtain p hp where k: "kmalloc kend (of_int w * of_int h * 4) (wm_heap s) = (p, hp)" by fastforce
  have i: "i < WM_MAX_WINDOWS" "\<not> wused (g_windows s ! i)" using find_upt [OF Some] by auto
  then have il: "i < length (g_windows s)" using wm_invD(9) [OF inv] by simp
  have n0: "of_int w * of_int h * 4 = (of_int (w * h * 4) :: u64)" by simp
  have n: "unat (of_int w * of_int h * 4 :: u64) = nat (w * h * 4)"
    unfolding n0 by (rule unat_of_int_small) (use wh in auto)
  then have nl: "unat (of_int w * of_int h * 4 :: u64) \<le> 2 ^ 63" unfolding n nat_le_iff using wh(3) by simp
  note kc = kmalloc_cases [OF wm_invD(2) [OF inv] nl k]
  have hp: "heap_inv kend hp" "heap_brk kend (wm_heap s) \<le> heap_brk kend hp"
    using kheap.alloc_ok [OF wm_invD(2) [OF inv] nl k] kheap.alloc_mono [OF wm_invD(2) [OF inv] nl k] by auto
  show ?thesis
  proof (cases "p = 0")
    case True
    then have "s' = upd_window i (\<lambda>win. win\<lparr>wused := False\<rparr>) (upd_window i (\<lambda>win. win\<lparr>wused := True, wx := x, wy := y, ww := w, wh := h,
        wactive := False, wflags := flags, wbuffer := p\<rparr>) (s\<lparr>wm_heap := hp\<rparr>))"
      using c Some k by (simp add: wm_create_window_def Let_def)
    then show ?thesis using inv hp i il unfolding wm_inv_def by (auto simp: upd_window_nth window_ok_def bb_count_def)
  next
    case False
    with kc have b: "0 < (of_int w * of_int h * 4 :: u64)" "unat p = heap_brk kend (wm_heap s)"
      "heap_brk kend hp = heap_brk kend (wm_heap s) + (nat (w * h * 4) + 7) div 8 * 8" by (auto simp: n)
    have "0 < nat (w * h * 4)" using b(1) n by (simp only: word_less_nat_alt unat_0)
    then have pos: "0 < w" "0 < h" using wh by (auto simp: zero_less_mult_iff)
    have "4 * nat (w * h) = nat (w * h * 4)" by simp
    then have top: "unat p + 4 * nat (w * h) \<le> heap_brk kend hp" using b(2,3) round_up_8 [of "nat (w * h * 4)"] by simp
    obtain m where "wm_create_window kend x y w h title flags s = (Some i, wm_focus_window (Some i) ((upd_window i
        (\<lambda>_. \<lparr>wused = True, wx = x, wy = y, ww = w, wh = h, wactive = False, wflags = flags, wtitle = title_of title, wbuffer = p\<rparr>)
        s)\<lparr>wm_heap := hp, vmem := m\<rparr>))" by (rule create_window [OF Some il k False])
    then have s': "s' = wm_focus_window (Some i) ((upd_window i (\<lambda>_. \<lparr>wused = True, wx = x, wy = y, ww = w, wh = h, wactive = False,
        wflags = flags, wtitle = title_of title, wbuffer = p\<rparr>) s)\<lparr>wm_heap := hp, vmem := m\<rparr>)" using c by simp
    have "wm_inv kend fb ((upd_window i (\<lambda>_. \<lparr>wused = True, wx = x, wy = y, ww = w, wh = h, wactive = (g_active s = Some i),
        wflags = flags, wtitle = title_of title, wbuffer = p\<rparr>) s)\<lparr>wm_heap := hp, vmem := m\<rparr>)" (is "wm_inv _ _ ?t")
      using inv hp i(1) il pos top b(2) wm_invD(8) [OF inv] unfolding wm_inv_def
      by (auto simp: upd_window_nth window_ok_def bb_count_def)
    then have "wm_inv kend fb (wm_focus_window (Some i) ?t)" using i(1) by (intro wm_inv_focus) simp_all
    moreover have "wm_focus_window (Some i) ?t = s'" using il by (simp add: s' wm_focus_window_def upd_window_def map_update list_update_overwrite)
    ultimately show ?thesis by simp
  qed
qed

lemma wm_reach_inv:
  assumes "wm_reach kend fb s" "screen_ok kend fb"
  shows "wm_inv kend fb s"
  using assms
proof (induction rule: wm_reach.induct)
  case (wr_init s ops s')
  then show ?case using wm_inv_init [of kend s ops s'] by simp
next
  case (wr_create s w h x y title flags win s')
  then show ?case using wm_inv_create by blast
next
  case (wr_composite s)
  then have i: "wm_inv kend fb s" by simp
  then show ?case using composite_frame [OF i] more_wm [of "wm_composite s" s] by (subst wm_inv_cong) auto
next
  case (wr_moved s m)
  then show ?case by (subst wm_inv_cong) auto
next
  case (wr_close s win)
  then show ?case by (intro wm_inv_close) auto
next
  case (wr_focus s win)
  then show ?case by (intro wm_inv_focus) auto
next
  case (wr_mouse s x y b)
  then show ?case by (intro wm_inv_mouse) auto
qed (simp add: wm_handle_key_def)
subsection \<open>Properties\<close>


definition demo_wm :: wm where
  "demo_wm = \<lparr>g_fb = g_fb demo_video, vmem = \<lambda>_. 0, wm_heap = heap_static, wm_mouse = mouse_static, 
     g_windows = replicate WM_MAX_WINDOWS window_zero, g_active = None, g_backbuf = 0, g_bw = 0, g_bh = 0,
     g_dragging = False, g_drag_offx = 0, g_drag_offy = 0, g_prev_btn = False\<rparr>"

definition demo_desktop :: wm where
  "demo_desktop = snd (wm_create_window 0x200000 50 60 100 40 (Some ''term'') 1 (snd (snd (wm_init 0x200000 demo_wm))))"

lemma demo_screen: "screen_ok 0x200000 (g_fb demo_video)"
  by (auto simp: screen_ok_def demo_video_def fb_ok_def fb_stride_def fb_size_def fb_region_def)

lemma demo_wm_reach: "wm_reach 0x200000 (g_fb demo_video) demo_desktop"
proof -
  have h: "heap_inv 0x200000 heap_static" by (rule heap_inv_static) (simp add: kend_ok_def)
  have "wm_init 0x200000 demo_wm = (0, log_info ''[OK] nanawm ready'', snd (snd (wm_init 0x200000 demo_wm)))"
    by (simp add: wm_init_def demo_wm_def fb_is_enabled_def fb_get_def demo_video_def kmalloc_def heap_static_def heap_ensure_init_def
        align_up_size_def KERNEL_HEAP_SIZE_def Let_def)
  then have "wm_reach 0x200000 (g_fb demo_video) (snd (snd (wm_init 0x200000 demo_wm)))"
    by (rule wr_init [rotated 3]) (simp_all add: demo_wm_def h)
  then show ?thesis unfolding demo_desktop_def
    by (rule wr_create [where w = 100 and h = 40]) (simp_all add: prod_eq_iff)
qed

lemma demo_windows:
  "g_windows demo_desktop = \<lparr>wused = True, wx = 50, wy = 60, ww = 100, wh = 40, wactive = True, wflags = 1, wtitle = ''term'', wbuffer = 0x32C000\<rparr> #
     replicate 7 window_zero" "g_active demo_desktop = Some 0" "g_bw demo_desktop = 640" "g_bh demo_desktop = 480"
  "wm_mouse demo_desktop = mouse_static" "g_fb demo_desktop = g_fb demo_video" "g_prev_btn demo_desktop = False"
proof -
  have r: "[0..<WM_MAX_WINDOWS] = [0, 1, 2, 3, 4, 5, 6, 7]" by (simp add: WM_MAX_WINDOWS_def upt_rec)
  have i: "snd (snd (wm_init 0x200000 demo_wm)) = demo_wm\<lparr>g_bw := 640, g_bh := 480, g_backbuf := 0x200000,
      wm_heap := \<lparr>heap_base = 0x200000, heap_ptr = 0x32C000, heap_limit = 0xA00000\<rparr>\<rparr>"
    by (simp add: wm_init_def demo_wm_def fb_is_enabled_def fb_get_def demo_video_def kmalloc_def heap_static_def heap_ensure_init_def
        align_up_size_def KERNEL_HEAP_SIZE_def Let_def WM_MAX_WINDOWS_def window_zero_def)
  define t where "t = snd (snd (wm_init 0x200000 demo_wm))"
  note t = i [folded t_def]
  have k: "kmalloc 0x200000 (of_int 100 * of_int 40 * 4) (wm_heap t) = (0x32C000, \<lparr>heap_base = 0x200000, heap_ptr = 0x32FE80, heap_limit = 0xA00000\<rparr>)"
    by (simp add: t kmalloc_def heap_ensure_init_def align_up_size_def)
  have w: "g_windows t = window_zero # replicate 7 window_zero" by (simp add: t demo_wm_def WM_MAX_WINDOWS_def numeral_eq_Suc)
  have f: "find (\<lambda>i. \<not> wused (g_windows t ! i)) [0..<WM_MAX_WINDOWS] = Some 0" unfolding r w by (simp add: window_zero_def)
  obtain m where "wm_create_window 0x200000 50 60 100 40 (Some ''term'') 1 t = (Some 0, wm_focus_window (Some 0) ((upd_window 0
    (\<lambda>_. \<lparr>wused = True, wx = 50, wy = 60, ww = 100, wh = 40, wactive = False, wflags = 1, wtitle = title_of (Some ''term''), wbuffer = 0x32C000\<rparr>)
    t)\<lparr>wm_heap := \<lparr>heap_base = 0x200000, heap_ptr = 0x32FE80, heap_limit = 0xA00000\<rparr>, vmem := m\<rparr>))"
    by (rule create_window [OF f _ k]) (simp_all add: w)
  then have d: "demo_desktop = wm_focus_window (Some 0) ((upd_window 0
    (\<lambda>_. \<lparr>wused = True, wx = 50, wy = 60, ww = 100, wh = 40, wactive = False, wflags = 1, wtitle = title_of (Some ''term''), wbuffer = 0x32C000\<rparr>)
    t)\<lparr>wm_heap := \<lparr>heap_base = 0x200000, heap_ptr = 0x32FE80, heap_limit = 0xA00000\<rparr>, vmem := m\<rparr>)"
    by (simp add: demo_desktop_def t_def)
  show "g_windows demo_desktop = \<lparr>wused = True, wx = 50, wy = 60, ww = 100, wh = 40, wactive = True, wflags = 1, wtitle = ''term'', wbuffer = 0x32C000\<rparr> #
     replicate 7 window_zero" "g_active demo_desktop = Some 0" "g_bw demo_desktop = 640" "g_bh demo_desktop = 480"
    "wm_mouse demo_desktop = mouse_static" "g_fb demo_desktop = g_fb demo_video" "g_prev_btn demo_desktop = False"
    unfolding d by (simp_all add: wm_focus_window_def upd_window_def w title_of_def window_zero_def) (simp_all add: t demo_wm_def)
qed


subsection \<open>Dragging\<close>

text \<open>The left button is held on the title bar of slot \<open>i\<close>, \<open>(dx, dy)\<close> away from the window's corner.\<close>

definition dragging :: "nat \<Rightarrow> int \<Rightarrow> int \<Rightarrow> wm \<Rightarrow> bool" where
  "dragging i dx dy s \<longleftrightarrow> g_dragging s \<and> g_prev_btn s \<and> g_active s = Some i \<and> i < length (g_windows s) \<and> wused (g_windows s ! i) \<and>
     g_drag_offx s = dx \<and> g_drag_offy s = dy"

definition moved_to :: "int \<Rightarrow> int \<Rightarrow> wm_window \<Rightarrow> wm_window" where
  "moved_to x y w = w\<lparr>wx := max 0 x, wy := max 0 y\<rparr>"

definition title_press :: "nat \<Rightarrow> int \<Rightarrow> int \<Rightarrow> wm \<Rightarrow> bool" where
  "title_press i x y s \<longleftrightarrow> pick_window_at x y s = Some i \<and> wflags (g_windows s ! i) AND WM_WIN_MOVABLE \<noteq> 0 \<and>
     point_in x y (wx (g_windows s ! i)) (wy (g_windows s ! i)) (ww (g_windows s ! i)) WM_TITLEBAR_H \<and>
     \<not> point_in x y (wx (g_windows s ! i) + ww (g_windows s ! i) - 18) (wy (g_windows s ! i) + 2) 14 14"

lemma drag_step:
  assumes "dragging i dx dy s" "fb_enabled (g_fb s)" "odd b"
  shows "dragging i dx dy (wm_handle_mouse x y b s) \<and> g_fb (wm_handle_mouse x y b s) = g_fb s \<and>
     g_windows (wm_handle_mouse x y b s) = (g_windows s)[i := moved_to (clamp_x (g_fb s) x - dx) (clamp_y (g_fb s) y - dy) (g_windows s ! i)]"
  using assms by (auto simp: dragging_def wm_handle_mouse_def fb_is_enabled_def fb_get_def Let_def wm_drag_def upd_window_def moved_to_def max_def)

lemma moved_to_again: "moved_to x y (moved_to x' y' w) = moved_to x y w"
  by (simp add: moved_to_def)

definition mouse_events :: "(int \<times> int \<times> int) list \<Rightarrow> wm \<Rightarrow> wm" where
  "mouse_events es s = fold (\<lambda>(x, y, b). wm_handle_mouse x y b) es s"

lemma mouse_events_simps [simp]:
  "mouse_events [] s = s" "mouse_events ((x, y, b) # es) s = mouse_events es (wm_handle_mouse x y b s)"
  "mouse_events (es @ fs) s = mouse_events fs (mouse_events es s)"
  by (simp_all add: mouse_events_def)

lemma drag_run:
  assumes "dragging i dx dy s" "fb_enabled (g_fb s)" "\<forall>(x, y, b) \<in> set es. odd b" "odd b"
  shows "dragging i dx dy (mouse_events (es @ [(x, y, b)]) s) \<and> g_fb (mouse_events (es @ [(x, y, b)]) s) = g_fb s \<and>
     g_windows (mouse_events (es @ [(x, y, b)]) s) = (g_windows s)[i := moved_to (clamp_x (g_fb s) x - dx) (clamp_y (g_fb s) y - dy) (g_windows s ! i)]"
  using assms
proof (induction es arbitrary: s)
  case Nil
  then show ?case using drag_step by simp
next
  case (Cons e es)
  obtain x' y' b' where e: "e = (x', y', b')" by (cases e)
  have i: "i < length (g_windows s)" using Cons.prems(1) by (simp add: dragging_def)
  from drag_step [OF Cons.prems(1,2), of b' x' y'] Cons.prems e i Cons.IH [of "wm_handle_mouse x' y' b' s"]
  show ?case by (auto simp: moved_to_again)
qed

lemma released_run:
  assumes "\<not> g_dragging s" "\<not> g_prev_btn s" "\<forall>(x, y, b) \<in> set es. even b"
  shows "g_windows (mouse_events es s) = g_windows s"
  using assms
proof (induction es arbitrary: s)
  case (Cons e es)
  obtain x y b where e: "e = (x, y, b)" by (cases e)
  have "g_windows (wm_handle_mouse x y b s) = g_windows s \<and> \<not> g_dragging (wm_handle_mouse x y b s) \<and> \<not> g_prev_btn (wm_handle_mouse x y b s)"
    using Cons.prems e by (auto simp: wm_handle_mouse_def Let_def wm_drag_def split: option.splits)
  with Cons e show ?case by simp
qed simp

lemma press_starts_drag:
  assumes "wm_inv kend fb s" "fb_enabled fb" "\<not> g_prev_btn s" "odd b" "title_press i (clamp_x fb x) (clamp_y fb y) s"
  defines "w \<equiv> g_windows s ! i"
  shows "dragging i (clamp_x fb x - wx w) (clamp_y fb y - wy w) (wm_handle_mouse x y b s) \<and> g_fb (wm_handle_mouse x y b s) = fb \<and>
     g_windows (wm_handle_mouse x y b s) = (map (\<lambda>w. w\<lparr>wactive := False\<rparr>) (g_windows s))[i := moved_to (wx w) (wy w) (w\<lparr>wactive := True\<rparr>)]"
proof -
  have p: "pick_window_at (clamp_x fb x) (clamp_y fb y) s = Some i" using assms by (simp add: title_press_def)
  from pick_bound [OF assms(1) this] have i: "i < length (g_windows s)" "wused (g_windows s ! i)"
    using wm_invD(9) [OF assms(1)] by (auto simp: hit_def)
  have fb: "g_fb s = fb" by (rule wm_invD(1) [OF assms(1)])
  have f: "wm_focus_window (Some i) s = s\<lparr>g_windows := (map (\<lambda>w. w\<lparr>wactive := False\<rparr>) (g_windows s))[i := w\<lparr>wactive := True\<rparr>], g_active := Some i\<rparr>"
    using i by (simp add: wm_focus_window_def upd_window_def w_def)
  have "wm_press (clamp_x fb x) (clamp_y fb y) s = (wm_focus_window (Some i) s)\<lparr>g_dragging := True,
      g_drag_offx := clamp_x fb x - wx w, g_drag_offy := clamp_y fb y - wy w\<rparr>"
    using assms(5) i unfolding wm_press_def p by (simp add: f title_press_def Let_def w_def)
  then show ?thesis using assms i
    by (auto simp: f fb wm_handle_mouse_def fb_is_enabled_def fb_get_def Let_def wm_drag_def upd_window_def moved_to_def max_def dragging_def)
qed

text \<open>
  C35: dragging a window. Press the left button on the title bar of the topmost window under the pointer,
  beside its close button, hold it through any number of mouse events and release it: the window gets
  the focus and has moved by the distance the (clamped) pointer moved, cut off at the top and left edge
  only; every other window is where it was, and moving the mouse afterwards moves nothing.
\<close>

theorem wm_drag_follows:
  assumes "wm_reach kend fb s" "screen_ok kend fb" "\<not> g_prev_btn s"
    "title_press i (clamp_x fb x0) (clamp_y fb y0) s" "odd b0" "\<forall>(x, y, b) \<in> set es. odd b" "odd b1"
    "\<forall>(x, y, b) \<in> set (e # fs). even b"
  defines "w \<equiv> g_windows s ! i"
  shows "g_windows (mouse_events (((x0, y0, b0) # es @ [(x1, y1, b1)]) @ e # fs) s) =
    (map (\<lambda>w. w\<lparr>wactive := False\<rparr>) (g_windows s))[i := moved_to (wx w + (clamp_x fb x1 - clamp_x fb x0))
       (wy w + (clamp_y fb y1 - clamp_y fb y0)) (w\<lparr>wactive := True\<rparr>)]"
proof -
  have inv: "wm_inv kend fb s" by (rule wm_reach_inv [OF assms(1,2)])
  have en: "fb_enabled fb" using assms(2) by (simp add: screen_ok_def)
  obtain xe ye be where e: "e = (xe, ye, be)" by (cases e)
  note a = press_starts_drag [OF inv en assms(3,5,4), folded w_def]
  define A where "A = wm_handle_mouse x0 y0 b0 s"
  have A: "dragging i (clamp_x fb x0 - wx w) (clamp_y fb y0 - wy w) A" "g_fb A = fb"
    "g_windows A = (map (\<lambda>w. w\<lparr>wactive := False\<rparr>) (g_windows s))[i := moved_to (wx w) (wy w) (w\<lparr>wactive := True\<rparr>)]"
    using a by (simp_all add: A_def)
  have i: "i < length (g_windows s)"
    using pick_bound [OF inv, of "clamp_x fb x0" "clamp_y fb y0" i] assms(4) wm_invD(9) [OF inv] by (simp add: title_press_def)
  define t where "t = mouse_events (es @ [(x1, y1, b1)]) A"
  have "fb_enabled (g_fb A)" using A(2) en by simp
  note d = drag_run [OF A(1) this assms(6,7), of x1 y1, folded t_def]
  have t: "dragging i (clamp_x fb x0 - wx w) (clamp_y fb y0 - wy w) t" "g_fb t = fb" using d A(2) by simp_all
  have "g_windows t = (map (\<lambda>w. w\<lparr>wactive := False\<rparr>) (g_windows s))[i := moved_to (clamp_x fb x1 - (clamp_x fb x0 - wx w))
       (clamp_y fb y1 - (clamp_y fb y0 - wy w)) (w\<lparr>wactive := True\<rparr>)]"
    using d i unfolding A(2,3) by (simp add: moved_to_again)
  moreover have "clamp_x fb x1 - (clamp_x fb x0 - wx w) = wx w + (clamp_x fb x1 - clamp_x fb x0)"
    "clamp_y fb y1 - (clamp_y fb y0 - wy w) = wy w + (clamp_y fb y1 - clamp_y fb y0)" by simp_all
  ultimately have w: "g_windows t = (map (\<lambda>w. w\<lparr>wactive := False\<rparr>) (g_windows s))[i := moved_to (wx w + (clamp_x fb x1 - clamp_x fb x0))
       (wy w + (clamp_y fb y1 - clamp_y fb y0)) (w\<lparr>wactive := True\<rparr>)]" by simp
  have r: "g_windows (wm_handle_mouse xe ye be t) = g_windows t \<and> \<not> g_dragging (wm_handle_mouse xe ye be t) \<and> \<not> g_prev_btn (wm_handle_mouse xe ye be t)"
    using t en assms(8) e by (auto simp: dragging_def wm_handle_mouse_def fb_is_enabled_def fb_get_def Let_def wm_drag_def)
  have m: "mouse_events (((x0, y0, b0) # es @ [(x1, y1, b1)]) @ e # fs) s = mouse_events fs (wm_handle_mouse xe ye be t)"
    by (simp add: e t_def A_def)
  show ?thesis unfolding m using released_run [of "wm_handle_mouse xe ye be t" fs] r assms(8) w by simp
qed

theorem wm_drag_follows_witness:
  "map (\<lambda>w. (wx w, wy w)) (List.take 1 (g_windows (mouse_events [(70, 65, 1), (90, 80, 1), (30, 700, 1), (30, 700, 0), (400, 20, 0)] demo_desktop))) =
    [(10, 474)]"
proof -
  have p: "title_press 0 (clamp_x (g_fb demo_video) 70) (clamp_y (g_fb demo_video) 65) demo_desktop"
    by (simp add: title_press_def demo_windows pick_window_at_def hit_def point_in_def clamp_x_def clamp_y_def demo_video_def WM_TITLEBAR_H_def WM_WIN_MOVABLE_def)
  from wm_drag_follows [OF demo_wm_reach demo_screen _ p, of 1 "[(90, 80, 1)]" 1 "(30, 700, 0)" "[(400, 20, 0)]" 30 700]
  show ?thesis by (simp add: demo_windows moved_to_def clamp_x_def clamp_y_def demo_video_def)
qed

subsection \<open>A screen of 24 bits per pixel\<close>

lemma for_u32_last:
  assumes "n \<noteq> 0"
  shows "for_u32 n f s = f (n - 1) (for_u32 (n - 1) f s)"
proof -
  have p: "0 < unat n" using assms by (simp add: unat_gt_0)
  then have u: "unat (n - 1) = unat n - 1" using unat_minus_exact [of 1 n] by (simp add: word_le_nat_alt)
  have "[0..<unat n] = [0..<unat n - 1] @ [unat n - 1]" using p by (metis Suc_diff_1 upt_Suc_append zero_le)
  moreover have "of_nat (unat n - 1) = n - 1" unfolding u [symmetric] by simp
  ultimately show ?thesis by (simp add: for_u32_def u)
qed

lemma copy_last_byte:
  assumes "fb_enabled (g_fb s)" "g_backbuf s \<noteq> 0" "fb_width (g_fb s) \<noteq> 0" "fb_height (g_fb s) \<noteq> 0"
  shows "vmem (copy_to_fb s) (fb_addr (g_fb s) + ucast ((fb_height (g_fb s) - 1) * fb_pitch (g_fb s)) + ucast ((fb_width (g_fb s) - 1) * 4 + 3)) = 0"
  unfolding copy_to_fb_def Let_def using assms by (simp add: for_u32_last)

text \<open>
  C39: the compositor overruns a 24-bit screen. \<open>fb_init\<close> accepts 24 bits per pixel, but \<open>copy_to_fb\<close>
  writes four bytes per pixel: on a screen of tightly packed rows the last byte it writes lies
  \<open>width\<close> bytes beyond the last byte of the screen, and it is cleared whatever was there.
\<close>

theorem wm_copy_overruns:
  assumes "fb_enabled (g_fb s)" "fb_bpp (g_fb s) = 24" "g_backbuf s \<noteq> 0" "fb_width (g_fb s) \<noteq> 0" "fb_height (g_fb s) \<noteq> 0"
    "unat (fb_pitch (g_fb s)) = 3 * unat (fb_width (g_fb s))" "fb_size (g_fb s) < 2 ^ 32"
    "unat (fb_addr (g_fb s)) + fb_size (g_fb s) + unat (fb_width (g_fb s)) \<le> 2 ^ 64" "unat (fb_width (g_fb s)) < 2 ^ 30"
  defines "p \<equiv> fb_addr (g_fb s) + of_nat (fb_size (g_fb s) + unat (fb_width (g_fb s)) - 1)"
  shows "fb_ok (g_fb s) \<and> p \<notin> fb_region (g_fb s) \<and> vmem (copy_to_fb s) p = 0"
proof -
  let ?w = "unat (fb_width (g_fb s))" and ?h = "unat (fb_height (g_fb s))" and ?p = "unat (fb_pitch (g_fb s))" and ?a = "unat (fb_addr (g_fb s))"
  have w: "0 < ?w" and h: "0 < ?h" using assms(4,5) by (simp_all add: unat_gt_0)
  have up: "unat (ucast w :: u64) = unat w" for w :: u32
    using less_trans [OF unat_lt_32 [of w], of "2 ^ 64"] by (simp add: unsigned_ucast_eq take_bit_nat_eq_self)
  have sz: "fb_size (g_fb s) = ?h * ?p" by (simp add: fb_size_def)
  have up1: "unat p = ?a + fb_size (g_fb s) + ?w - 1"
  proof -
    have "unat (of_nat (fb_size (g_fb s) + ?w - 1) :: u64) = fb_size (g_fb s) + ?w - 1" using assms(7,9) by (simp add: unat_of_nat)
    then show ?thesis unfolding p_def using assms(8) w by (subst unat_plus_exact) auto
  qed
  have h1: "unat (fb_height (g_fb s) - 1) = ?h - 1" and w1: "unat (fb_width (g_fb s) - 1) = ?w - 1"
    using h w by (simp_all add: unat_minus_exact word_le_nat_alt)
  have hp: "(?h - 1) * ?p + ?p = ?h * ?p" using h by (metis Suc_diff_1 add.commute mult_Suc)
  have r: "unat ((fb_height (g_fb s) - 1) * fb_pitch (g_fb s)) = (?h - 1) * ?p"
    using hp assms(7) sz by (subst unat_mult_exact) (auto simp: h1)
  have "unat ((fb_width (g_fb s) - 1) * 4) = (?w - 1) * 4" using assms(9) by (subst unat_mult_exact) (auto simp: w1)
  then have c: "unat ((fb_width (g_fb s) - 1) * 4 + 3) = (?w - 1) * 4 + 3" using assms(9) by (subst unat_plus_exact) auto
  have t: "(?h - 1) * ?p + ((?w - 1) * 4 + 3) = fb_size (g_fb s) + ?w - 1" using hp sz assms(6) w by linarith
  have lt: "?a + (?h - 1) * ?p < 2 ^ 64" using assms(6,8) hp sz w by linarith
  define row col where "row = (fb_height (g_fb s) - 1) * fb_pitch (g_fb s)" and "col = (fb_width (g_fb s) - 1) * 4 + 3"
  have "unat (fb_addr (g_fb s) + ucast row) = ?a + (?h - 1) * ?p"
    using lt r by (subst unat_plus_exact) (auto simp: up row_def)
  moreover have "?a + (?h - 1) * ?p + unat col < 2 ^ 64" using t c assms(8) w unfolding col_def by linarith
  ultimately have "unat (fb_addr (g_fb s) + ucast row + ucast col) = ?a + (?h - 1) * ?p + unat col"
    by (subst unat_plus_exact) (simp_all add: up)
  also have "\<dots> = unat p" using t c up1 w unfolding col_def by linarith
  finally have "fb_addr (g_fb s) + ucast row + ucast col = p" by (simp only: word_unat_eq_iff)
  with copy_last_byte [OF assms(1,3-5)] have "vmem (copy_to_fb s) p = 0" by (simp only: row_def col_def)
  moreover have "\<not> unat p < ?a + fb_size (g_fb s)" using up1 w by linarith
  then have "p \<notin> fb_region (g_fb s)" by (simp add: fb_region_def)
  moreover have "fb_ok (g_fb s)" using assms by (simp add: fb_ok_def fb_stride_def)
  ultimately show ?thesis by blast
qed

theorem wm_copy_overruns_witness:
  "vmem (copy_to_fb (demo_wm\<lparr>g_backbuf := 0x200000, g_bw := 640, g_bh := 480, vmem := \<lambda>_. 0x55,
     g_fb := \<lparr>fb_addr = 0xFD000000, fb_width = 640, fb_height = 480, fb_pitch = 1920, fb_bpp = 24, fb_enabled = True\<rparr>\<rparr>)) 0xFD0E127F = 0"
  using wm_copy_overruns [of "demo_wm\<lparr>g_backbuf := 0x200000, g_bw := 640, g_bh := 480, vmem := \<lambda>_. 0x55,
     g_fb := \<lparr>fb_addr = 0xFD000000, fb_width = 640, fb_height = 480, fb_pitch = 1920, fb_bpp = 24, fb_enabled = True\<rparr>\<rparr>"]
  by (simp add: fb_size_def)

end
