(* ===== verification/Login.thy ===== *)
theory Login
  imports Framebuffer Devices "HOL-Library.Signed_Division"
begin

text \<open>
  The screens before the desktop: the boot splash (\<open>kernel/ui/boot_splash/boot_splash.c\<close>) and the login
  screen (\<open>kernel/ui/login/login_screen.c\<close>), with the theme and the user they show
  (\<open>kernel/ui/theme/theme.c\<close>, \<open>kernel/ui/login/user.c\<close>).
\<close>

subsection \<open>Theme and user\<close>

record theme =
  th_background :: u32
  th_surface :: u32
  th_surface_alt :: u32
  th_border :: u32
  th_text :: u32
  th_text_muted :: u32
  th_accent :: u32
  th_danger :: u32

definition theme_get_default :: theme where
  "theme_get_default = \<lparr>th_background = 0xFF0E2336, th_surface = 0xFF151F2B, th_surface_alt = 0xFF111827, th_border = 0xFF2A3A4F,
     th_text = 0xFFEAF2FF, th_text_muted = 0xFFBFD0E6, th_accent = 0xFF6CA8FF, th_danger = 0xFFCC4444\<rparr>"

record user =
  username :: string
  display_name :: string
  password_hash :: string
  avatar_color :: u32

definition user_get_default :: user where
  "user_get_default = \<lparr>username = ''felipe'', display_name = ''Felipe'', password_hash = ''PLAINTEXT:nana'', avatar_color = 0xFF6CA8FF\<rparr>"

subsection \<open>Drawing for both screens\<close>

text \<open>The centre of the screen: \<open>(int)fb->width / 2\<close> and \<open>(int)fb->height / 2\<close>.\<close>

definition centre_x :: "framebuffer \<Rightarrow> int" where "centre_x fb = sint (fb_width fb) sdiv 2"
definition centre_y :: "framebuffer \<Rightarrow> int" where "centre_y fb = sint (fb_height fb) sdiv 2"

definition fill_gradient :: "u32 \<Rightarrow> u32 \<Rightarrow> 'a video_scheme \<Rightarrow> 'a video_scheme" where
  "fill_gradient c_top c_bottom v =
     (let fb = fb_get v
      in if \<not> fb_is_enabled v then v
      else let denom = (if fb_height fb > 1 then fb_height fb - 1 else 1)
      in for_u32 (fb_height fb) (\<lambda>y. let c = lerp_rgb c_top c_bottom y denom in for_u32 (fb_width fb) (\<lambda>x. fb_put_pixel x y c)) v)"

subsection \<open>The boot splash\<close>

record splash =
  g_status :: string
  g_progress :: int

definition splash_static :: splash where
  "splash_static = \<lparr>g_status = ''initializing nanacore...'', g_progress = 0\<rparr>"

definition draw_progress_bar :: "int \<Rightarrow> int \<Rightarrow> int \<Rightarrow> int \<Rightarrow> int \<Rightarrow> theme \<Rightarrow> 'a video_scheme \<Rightarrow> 'a video_scheme" where
  "draw_progress_bar cx cy w h percent t v =
     (let percent = (if percent < 0 then 0 else percent); percent = (if percent > 100 then 100 else percent);
          v1 = fb_fill_rect (of_int cx) (of_int cy) (of_int w) (of_int h) (th_surface t) v;
          v2 = fb_draw_rect (of_int cx) (of_int cy) (of_int w) (of_int h) (th_border t) v1;
          inner = w - 4; fill = (inner * percent) sdiv 100
      in fb_fill_rect (of_int (cx + 2)) (of_int (cy + 2)) (of_int fill) (of_int (h - 4)) (th_accent t) v2)"

definition boot_splash_set_status :: "string option \<Rightarrow> splash \<Rightarrow> splash" where
  "boot_splash_set_status txt b = (case txt of Some t \<Rightarrow> b\<lparr>g_status := t\<rparr> | None \<Rightarrow> b)"

definition boot_splash_set_progress :: "int \<Rightarrow> splash \<Rightarrow> splash" where
  "boot_splash_set_progress percent b = b\<lparr>g_progress := percent\<rparr>"

definition boot_splash_render :: "splash \<Rightarrow> pit \<Rightarrow> 'a video_scheme \<Rightarrow> 'a video_scheme" where
  "boot_splash_render b p v =
     (if \<not> fb_is_enabled v then v
      else let t = theme_get_default; fb = fb_get v;
               v1 = fill_gradient 0xFF0B1220 (th_background t) v;
               cx = centre_x fb; cy = centre_y fb;
               v2 = fb_draw_string (of_int (cx - 18)) (of_int (cy - 30)) (Some ''nanaos'') (th_text t) v1;
               v3 = draw_progress_bar (cx - 140) (cy + 10) 280 16 (g_progress b) t v2;
               v4 = fb_draw_string (of_int (cx - 140)) (of_int (cy + 34)) (Some (g_status b)) (th_text_muted t) v3;
               dots = unat ((pit_get_ticks p div 10) mod 4)
           in fb_draw_string (of_int (cx + 40)) (of_int (cy - 30)) (Some (replicate dots CHR ''.'')) (th_text_muted t) v4)"

definition boot_splash_init :: "pit \<Rightarrow> splash \<Rightarrow> 'a video_scheme \<Rightarrow> splash \<times> 'a video_scheme" where
  "boot_splash_init p b v = (let b' = b\<lparr>g_status := ''initializing nanacore...'', g_progress := 0\<rparr> in (b', boot_splash_render b' p v))"

definition boot_splash_finish :: "pit \<Rightarrow> splash \<Rightarrow> 'a video_scheme \<Rightarrow> splash \<times> 'a video_scheme" where
  "boot_splash_finish p b v =
     (let b' = boot_splash_set_progress 100 (boot_splash_set_status (Some ''ready'') b) in (b', boot_splash_render b' p v))"

subsection \<open>The login screen\<close>

text \<open>\<open>g_pass\<close> is the array of 32 characters. \<open>login_prev_left\<close> is the handler's static variable.\<close>

record login =
  g_pass :: string
  g_pass_len :: int
  g_error :: bool
  g_done :: bool
  login_prev_left :: bool

definition login_static :: login where
  "login_static = \<lparr>g_pass = replicate 32 NUL, g_pass_len = 0, g_error = False, g_done = False, login_prev_left = False\<rparr>"

definition login_screen_is_done :: "login \<Rightarrow> bool" where
  "login_screen_is_done l = g_done l"

definition login_screen_authenticate :: "login \<Rightarrow> bool" where
  "login_screen_authenticate l \<longleftrightarrow> g_pass_len l = 4 \<and> strcmp (g_pass l) ''nana'' = 0"

definition login_screen_transition_to_desktop :: "login \<Rightarrow> login" where
  "login_screen_transition_to_desktop l = l\<lparr>g_done := True\<rparr>"

text \<open>\<open>g_pass[i] = c\<close>.\<close>

definition set_pass :: "int \<Rightarrow> char \<Rightarrow> login \<Rightarrow> login" where
  "set_pass i c l = l\<lparr>g_pass := (g_pass l)[nat i := c]\<rparr>"

text \<open>Enter and the button do the same.\<close>

definition login_submit :: "login \<Rightarrow> login" where
  "login_submit l =
     (if login_screen_authenticate l then login_screen_transition_to_desktop l
      else set_pass 0 NUL (l\<lparr>g_error := True, g_pass_len := 0\<rparr>))"

text \<open>A character as the signed \<open>char\<close> it is compared as.\<close>

definition char_of_int :: "int \<Rightarrow> char" where
  "char_of_int a = char_of (a mod 256)"

definition login_key :: "char \<Rightarrow> login \<Rightarrow> login" where
  "login_key c l =
     (if c = newline then login_submit l
      else if c = backspace then
        if g_pass_len l > 0 then (let l1 = l\<lparr>g_pass_len := g_pass_len l - 1\<rparr> in set_pass (g_pass_len l1) NUL l1) else l
      else if 32 \<le> uchar c \<and> uchar c \<le> 126 then
        if g_pass_len l < 31
        then (let l1 = (set_pass (g_pass_len l) c l)\<lparr>g_pass_len := g_pass_len l + 1\<rparr> in set_pass (g_pass_len l1) NUL l1)
        else l
      else l)"

text \<open>The rectangle test of this file and of the window manager.\<close>

definition login_point_in :: "int \<Rightarrow> int \<Rightarrow> int \<Rightarrow> int \<Rightarrow> int \<Rightarrow> int \<Rightarrow> bool" where
  "login_point_in px py x y w h \<longleftrightarrow> px \<ge> x \<and> py \<ge> y \<and> px < x + w \<and> py < y + h"

definition on_button :: "framebuffer \<Rightarrow> int \<Rightarrow> int \<Rightarrow> bool" where
  "on_button fb mx my \<longleftrightarrow>
     (let card_x = centre_x fb - 320 sdiv 2; card_y = centre_y fb - 210 sdiv 2
      in login_point_in mx my (card_x + 60) (card_y + 150) 200 26)"

definition login_screen_handle_event :: "framebuffer \<Rightarrow> event option \<Rightarrow> login \<Rightarrow> login" where
  "login_screen_handle_event fb event l =
     (case event of None \<Rightarrow> l
      | Some ev \<Rightarrow>
        if g_done l then l
        else if ev_type ev = EVENT_KEYBOARD then login_key (char_of_int (ev_a ev)) l
        else if ev_type ev = EVENT_MOUSE then
          let left = odd (ev_c ev); edge = (left \<and> \<not> login_prev_left l); l1 = l\<lparr>login_prev_left := left\<rparr>
          in if \<not> edge then l1 else if on_button fb (ev_a ev) (ev_b ev) then login_submit l1 else l1
        else l)"

definition login_screen_render :: "login \<Rightarrow> pit \<Rightarrow> 'a video_scheme \<Rightarrow> 'a video_scheme" where
  "login_screen_render l p v =
     (if \<not> fb_is_enabled v then v
      else let t = theme_get_default; fb = fb_get v;
        v1 = fill_gradient 0xFF0B1220 (th_background t) v;
        cx = centre_x fb; cy = centre_y fb;
        v2 = fb_draw_string (of_int (cx - 18)) (of_int (cy - 150)) (Some ''nanaos'') (th_text t) v1;
        card_w = 320; card_h = 210; card_x = cx - card_w sdiv 2; card_y = cy - card_h sdiv 2;
        v3 = fb_fill_rect (of_int (card_x + 4)) (of_int (card_y + 6)) (of_int card_w) (of_int card_h) 0xFF0A0F16 v2;
        v4 = fb_fill_rect (of_int card_x) (of_int card_y) (of_int card_w) (of_int card_h) (th_surface t) v3;
        v5 = fb_draw_rect (of_int card_x) (of_int card_y) (of_int card_w) (of_int card_h) (th_border t) v4;
        u = user_get_default;
        v6 = fb_fill_rect (of_int (card_x + 130)) (of_int (card_y + 18)) 60 60 (avatar_color u) v5;
        v7 = fb_draw_rect (of_int (card_x + 130)) (of_int (card_y + 18)) 60 60 (th_border t) v6;
        v8 = fb_draw_string (of_int (card_x + 132)) (of_int (card_y + 88)) (Some (display_name u)) (th_text t) v7;
        v9 = fb_fill_rect (of_int (card_x + 60)) (of_int (card_y + 118)) 200 22 (th_surface_alt t) v8;
        v10 = fb_draw_rect (of_int (card_x + 60)) (of_int (card_y + 118)) 200 22 (th_border t) v9;
        n = (if g_pass_len l > 31 then 31 else g_pass_len l);
        v11 = fb_draw_string (of_int (card_x + 66)) (of_int (card_y + 124)) (Some (replicate (nat n) CHR ''*'')) (th_text_muted t) v10;
        v12 = fb_fill_rect (of_int (card_x + 60)) (of_int (card_y + 150)) 200 26 (th_accent t) v11;
        v13 = fb_draw_rect (of_int (card_x + 60)) (of_int (card_y + 150)) 200 26 (th_border t) v12;
        v14 = fb_draw_string (of_int (card_x + 128)) (of_int (card_y + 158)) (Some ''entrar'') 0xFF0B1220 v13;
        v15 = fb_draw_string (of_int (cx - 60)) (of_int (card_y + card_h + 22)) (Some ''desligar'') (th_text_muted t) v14;
        v16 = fb_draw_string (of_int (cx + 20)) (of_int (card_y + card_h + 22)) (Some ''reiniciar'') (th_text_muted t) v15
      in if g_error l \<and> (pit_get_ticks p div 10) mod 2 \<noteq> 0
         then fb_draw_string (of_int (card_x + 70)) (of_int (card_y + 184)) (Some ''senha incorreta'') (th_danger t) v16
         else v16)"

definition login_screen_init :: "pit \<Rightarrow> login \<Rightarrow> 'a video_scheme \<Rightarrow> login \<times> 'a video_scheme" where
  "login_screen_init p l v =
     (let l' = (set_pass 0 NUL (l\<lparr>g_pass_len := 0\<rparr>))\<lparr>g_error := False, g_done := False\<rparr>
      in (l', login_screen_render l' p v))"

subsection \<open>Specification\<close>

text \<open>
  What the user means by typing: the line as a list of characters, edited by the keys, emptied by every
  attempt to enter. The second component is whether the left button was down at the last mouse event.
\<close>

definition edit_line :: "char \<Rightarrow> string \<Rightarrow> string" where
  "edit_line c line =
     (if c = backspace then butlast line
      else if 32 \<le> uchar c \<and> uchar c \<le> 126 \<and> length line < 31 then line @ [c] else line)"

definition submits :: "framebuffer \<Rightarrow> bool \<Rightarrow> event \<Rightarrow> bool" where
  "submits fb down e \<longleftrightarrow> ev_type e = EVENT_KEYBOARD \<and> char_of_int (ev_a e) = newline \<or>
     ev_type e = EVENT_MOUSE \<and> odd (ev_c e) \<and> \<not> down \<and> on_button fb (ev_a e) (ev_b e)"

definition typing_step :: "framebuffer \<Rightarrow> event \<Rightarrow> string \<times> bool \<Rightarrow> string \<times> bool" where
  "typing_step fb e = (\<lambda>(line, down).
     (if submits fb down e then '''' else if ev_type e = EVENT_KEYBOARD then edit_line (char_of_int (ev_a e)) line else line,
      if ev_type e = EVENT_MOUSE then odd (ev_c e) else down))"

definition typed :: "framebuffer \<Rightarrow> bool \<Rightarrow> event list \<Rightarrow> string \<times> bool" where
  "typed fb down es = fold (typing_step fb) es ('''', down)"

definition login_run :: "framebuffer \<Rightarrow> event list \<Rightarrow> login \<Rightarrow> login" where
  "login_run fb es l = fold (\<lambda>e. login_screen_handle_event fb (Some e)) es l"

text \<open>The array holds the line, ended by a NUL.\<close>

definition holds_line :: "login \<Rightarrow> string \<times> bool \<Rightarrow> bool" where
  "holds_line l = (\<lambda>(line, down). length (g_pass l) = 32 \<and> length line \<le> 31 \<and> is_cstr line \<and> g_pass_len l = int (length line) \<and>
     List.take (length line) (g_pass l) = line \<and> g_pass l ! length line = NUL \<and> login_prev_left l = down)"

lemma strcmp_buffer: "is_cstr xs \<Longrightarrow> strcmp (xs @ NUL # ys) b = strcmp xs b"
proof (induction xs arbitrary: b)
  case Nil
  then show ?case by (simp add: strcmp.simps [of "NUL # ys"] strcmp.simps [of "[]"])
next
  case (Cons x xs)
  then show ?case by (simp add: strcmp.simps [of "x # xs @ NUL # ys"] strcmp.simps [of "x # xs"])
qed

lemma authenticate_line:
  assumes "holds_line l (line, down)"
  shows "login_screen_authenticate l \<longleftrightarrow> line = ''nana''"
proof -
  have h: "is_cstr line" "g_pass_len l = int (length line)" "g_pass l = line @ NUL # drop (length line + 1) (g_pass l)"
    using assms id_take_nth_drop [of "length line" "g_pass l"] by (auto simp: holds_line_def)
  have "strcmp (g_pass l) ''nana'' = strcmp line ''nana''" by (subst h(3)) (rule strcmp_buffer [OF h(1)])
  then show ?thesis using h(1,2) strcmp_zero [of line "''nana''"] by (auto simp: login_screen_authenticate_def)
qed

lemma take_Suc_update: "i < length xs \<Longrightarrow> List.take (Suc i) (xs[i := c]) = List.take i xs @ [c]"
  by (simp add: take_Suc_conv_app_nth)

lemma holds_push:
  assumes "holds_line l (line, down)" "length line < 31" "c \<noteq> NUL"
  shows "holds_line (set_pass (g_pass_len l + 1) NUL ((set_pass (g_pass_len l) c l)\<lparr>g_pass_len := g_pass_len l + 1\<rparr>)) (line @ [c], down)"
  using assms by (simp add: holds_line_def set_pass_def nat_add_distrib take_Suc_update is_cstr_def)

lemma holds_pop:
  assumes "holds_line l (line @ [c], down)"
  shows "holds_line (set_pass (g_pass_len l - 1) NUL (l\<lparr>g_pass_len := g_pass_len l - 1\<rparr>)) (line, down)"
proof -
  have "List.take (length line) (List.take (Suc (length line)) (g_pass l)) = line" using assms by (simp add: holds_line_def)
  then have "List.take (length line) (g_pass l) = line" by (simp add: min_def)
  then show ?thesis using assms by (simp add: holds_line_def set_pass_def is_cstr_def)
qed

lemma holds_clear:
  assumes "length (g_pass l) = 32" "login_prev_left l = down" "g_pass_len l = 0"
  shows "holds_line (set_pass 0 NUL l) ('''', down)"
  using assms by (simp add: holds_line_def set_pass_def take_Suc_update)

lemma submit_line:
  assumes "holds_line l (line, down)" "\<not> g_done l"
  shows "g_done (login_submit l) = (line = ''nana'')" "line \<noteq> ''nana'' \<Longrightarrow> holds_line (login_submit l) ('''', down)"
proof -
  have "length (g_pass l) = 32" "login_prev_left l = down" using assms(1) by (simp_all add: holds_line_def)
  then show "line \<noteq> ''nana'' \<Longrightarrow> holds_line (login_submit l) ('''', down)"
    using authenticate_line [OF assms(1)] by (simp add: login_submit_def holds_clear)
qed (use authenticate_line [OF assms(1)] assms(2) in \<open>simp add: login_submit_def login_screen_transition_to_desktop_def set_pass_def\<close>)

lemma login_step:
  assumes "holds_line l (line, down)" "\<not> g_done l"
  shows "g_done (login_screen_handle_event fb (Some e) l) = (submits fb down e \<and> line = ''nana'')"
    "\<not> (submits fb down e \<and> line = ''nana'') \<Longrightarrow> holds_line (login_screen_handle_event fb (Some e) l) (typing_step fb e (line, down))"
proof -
  let ?c = "char_of_int (ev_a e)"
  have len: "g_pass_len l = int (length line)" and d: "login_prev_left l = down" using assms(1) by (simp_all add: holds_line_def)
  have ctl: "\<not> 32 \<le> uchar backspace" "\<not> 32 \<le> uchar newline" "\<not> 32 \<le> uchar NUL" by (simp_all add: uchar_def)
  then have nz: "32 \<le> uchar ?c \<Longrightarrow> ?c \<noteq> NUL" by metis
  consider (key) "ev_type e = EVENT_KEYBOARD" "?c \<noteq> newline" | (enter) "ev_type e = EVENT_KEYBOARD" "?c = newline"
    | (mouse) "ev_type e = EVENT_MOUSE" | (other) "ev_type e \<noteq> EVENT_KEYBOARD" "ev_type e \<noteq> EVENT_MOUSE" by blast
  then have "g_done (login_screen_handle_event fb (Some e) l) = (submits fb down e \<and> line = ''nana'') \<and>
    (\<not> (submits fb down e \<and> line = ''nana'') \<longrightarrow> holds_line (login_screen_handle_event fb (Some e) l) (typing_step fb e (line, down)))"
  proof cases
    case key
    have h: "login_screen_handle_event fb (Some e) l = login_key ?c l" using key assms(2) by (simp add: login_screen_handle_event_def)
    have "holds_line (login_key ?c l) (edit_line ?c line, down) \<and> \<not> g_done (login_key ?c l)"
    proof (cases "?c = backspace")
      case True
      show ?thesis
      proof (cases line rule: rev_cases)
        case Nil
        then show ?thesis using assms True len by (simp add: login_key_def edit_line_def)
      next
        case (snoc xs x)
        then show ?thesis using holds_pop [of l xs x down] assms True len by (simp add: login_key_def edit_line_def Let_def set_pass_def)
      qed
    next
      case False
      then show ?thesis using holds_push [OF assms(1), of ?c] assms key nz len
        by (auto simp: login_key_def edit_line_def Let_def set_pass_def)
    qed
    then show ?thesis using key h by (simp add: submits_def typing_step_def)
  next
    case enter
    then have h: "login_screen_handle_event fb (Some e) l = login_submit l" "submits fb down e"
      using assms(2) by (simp_all add: login_screen_handle_event_def login_key_def submits_def)
    then show ?thesis using submit_line [OF assms] enter by (simp add: typing_step_def)
  next
    case mouse
    define l1 where "l1 = l\<lparr>login_prev_left := odd (ev_c e)\<rparr>"
    have l1: "holds_line l1 (line, odd (ev_c e))" "\<not> g_done l1" using assms by (simp_all add: holds_line_def l1_def)
    have h: "login_screen_handle_event fb (Some e) l = (if submits fb down e then login_submit l1 else l1)"
      using mouse assms(2) d by (simp add: login_screen_handle_event_def submits_def l1_def Let_def)
    show ?thesis using submit_line [OF l1] l1 mouse by (simp add: h typing_step_def)
  next
    case other
    then show ?thesis using assms by (simp add: login_screen_handle_event_def submits_def typing_step_def)
  qed
  then show "g_done (login_screen_handle_event fb (Some e) l) = (submits fb down e \<and> line = ''nana'')"
    "\<not> (submits fb down e \<and> line = ''nana'') \<Longrightarrow> holds_line (login_screen_handle_event fb (Some e) l) (typing_step fb e (line, down))"
    by blast+
qed

lemma login_done_stays: "g_done l \<Longrightarrow> login_run fb es l = l"
  by (induction es) (simp_all add: login_run_def login_screen_handle_event_def)

lemma login_run_simps [simp]:
  "login_run fb [] l = l" "login_run fb (e # es) l = login_run fb es (login_screen_handle_event fb (Some e) l)"
  "login_run fb (es @ fs) l = login_run fb fs (login_run fb es l)"
  by (simp_all add: login_run_def)

definition right_attempt :: "framebuffer \<Rightarrow> bool \<Rightarrow> event list \<Rightarrow> bool" where
  "right_attempt fb down es \<longleftrightarrow> (\<exists>es1 e es2. es = es1 @ e # es2 \<and> fst (typed fb down es1) = ''nana'' \<and> submits fb (snd (typed fb down es1)) e)"

lemma split_at_Cons:
  "(\<exists>es1 e' es2. e # es = es1 @ e' # es2 \<and> P es1 e') \<longleftrightarrow> P [] e \<or> (\<exists>es1 e' es2. es = es1 @ e' # es2 \<and> P (e # es1) e')"
    (is "?L \<longleftrightarrow> ?R")
proof
  assume ?L
  then obtain es1 e' es2 where "e # es = es1 @ e' # es2" "P es1 e'" by blast
  then show ?R by (cases es1) auto
next
  assume ?R
  then show ?L
  proof
    assume "\<exists>es1 e' es2. es = es1 @ e' # es2 \<and> P (e # es1) e'"
    then obtain es1 e' es2 where "e # es = (e # es1) @ e' # es2" "P (e # es1) e'" by auto
    then show ?L by blast
  qed fastforce
qed

lemma login_run_spec:
  assumes "holds_line l (line, down)" "\<not> g_done l"
  shows "g_done (login_run fb es l) \<longleftrightarrow> (\<exists>es1 e es2. es = es1 @ e # es2 \<and>
      (case fold (typing_step fb) es1 (line, down) of (w, d) \<Rightarrow> w = ''nana'' \<and> submits fb d e))"
    (is "_ \<longleftrightarrow> ?R line down es")
  using assms
proof (induction es arbitrary: l line down)
  case (Cons e es)
  have r: "?R line down (e # es) \<longleftrightarrow> (line = ''nana'' \<and> submits fb down e) \<or> (\<exists>es1 e' es2. es = es1 @ e' # es2 \<and>
      (case fold (typing_step fb) es1 (typing_step fb e (line, down)) of (w, d) \<Rightarrow> w = ''nana'' \<and> submits fb d e'))" 
    by (subst split_at_Cons) auto
  let ?l = "login_screen_handle_event fb (Some e) l"
  show ?case
  proof (cases "submits fb down e \<and> line = ''nana''")
    case True
    then show ?thesis using login_step(1) [OF Cons.prems, of fb e] login_done_stays [of ?l fb es] r by simp
  next
    case False
    obtain w d where wd: "typing_step fb e (line, down) = (w, d)" by (cases "typing_step fb e (line, down)")
    have "holds_line ?l (w, d)" "\<not> g_done ?l" using login_step [OF Cons.prems, of fb e] False wd by auto
    from Cons.IH [OF this] show ?thesis unfolding r using False by (simp add: wd) blast
  qed
qed simp

lemma login_init_holds:
  assumes "length (g_pass l0) = 32"
  shows "holds_line (fst (login_screen_init p l0 v)) ('''', login_prev_left l0)" "\<not> g_done (fst (login_screen_init p l0 v))"
  using assms by (simp_all add: login_screen_init_def holds_line_def set_pass_def Let_def)

lemma login_opens:
  assumes "length (g_pass l0) = 32"
  shows "g_done (login_run fb es (fst (login_screen_init p l0 v))) \<longleftrightarrow> right_attempt fb (login_prev_left l0) es"
  using login_run_spec [OF login_init_holds [OF assms], of fb es p v] by (simp add: right_attempt_def typed_def split_beta)

text \<open>
  C8: the login screen opens exactly for the password. Whatever keys and mouse events arrive after
  \<open>login_screen_init\<close>, the desktop is released if and only if at some Enter or press of the button the
  line, edited with the keys and backspaces since the last attempt and cut at 31 characters, is \<open>nana\<close>;
  nothing else in the 32-character buffer, and no later event, changes the outcome.
\<close>

theorem login_opens_iff:
  assumes "length (g_pass l0) = 32"
  shows "login_screen_is_done (login_run fb es (fst (login_screen_init p l0 v))) \<longleftrightarrow> right_attempt fb (login_prev_left l0) es"
  unfolding login_screen_is_done_def by (rule login_opens [OF assms])

definition key_event :: "char \<Rightarrow> event" where
  "key_event c = \<lparr>ev_type = EVENT_KEYBOARD, ev_a = of_char c, ev_b = 0, ev_c = 0\<rparr>"

lemma char_of_int_of_char [simp]: "char_of_int (of_char c) = c"
proof -
  have "(of_char c :: int) < 256" using of_char_mod_256 [of c] by (metis pos_mod_bound zero_less_numeral)
  moreover have "0 \<le> (of_char c :: int)" by (metis of_char_mod_256 pos_mod_sign zero_less_numeral)
  ultimately show ?thesis by (simp add: char_of_int_def)
qed

lemma key_step: "c \<noteq> newline \<Longrightarrow> typing_step fb (key_event c) (line, down) = (edit_line c line, down)"
  by (simp add: typing_step_def submits_def key_event_def)

lemma key_submits: "submits fb down (key_event c) \<longleftrightarrow> c = newline"
  by (simp add: submits_def key_event_def)

lemma enter_step: "typing_step fb (key_event newline) (line, down) = ('''', down)"
  by (simp add: typing_step_def key_submits) (simp add: key_event_def)

theorem login_opens_iff_witness:
  "login_screen_is_done (login_run (g_fb demo_video) (map key_event (''x'' @ [newline] @ ''nanb'' @ [backspace] @ ''a'' @ [newline]))
     (fst (login_screen_init pit_static login_static demo_video)))"
proof -
  have "fst (typed (g_fb demo_video) False (map key_event (''x'' @ [newline] @ ''nanb'' @ [backspace] @ ''a''))) = ''nana'' \<and>
    submits (g_fb demo_video) (snd (typed (g_fb demo_video) False (map key_event (''x'' @ [newline] @ ''nanb'' @ [backspace] @ ''a'')))) (key_event newline)"
    by (simp add: typed_def key_step enter_step key_submits edit_line_def uchar_def)
  moreover have "map key_event (''x'' @ [newline] @ ''nanb'' @ [backspace] @ ''a'' @ [newline]) =
      map key_event (''x'' @ [newline] @ ''nanb'' @ [backspace] @ ''a'') @ key_event newline # []" by simp
  ultimately have r: "right_attempt (g_fb demo_video) False (map key_event (''x'' @ [newline] @ ''nanb'' @ [backspace] @ ''a'' @ [newline]))"
    unfolding right_attempt_def by blast
  have s: "length (g_pass login_static) = 32" "login_prev_left login_static = False" by (simp_all add: login_static_def)
  show ?thesis unfolding login_opens_iff [OF s(1)] s(2) by (rule r)
qed

subsection \<open>What the login screen shows\<close>

text \<open>The background, and the drawing operations on it for \<open>n\<close> typed characters; \<open>blink\<close>: with the error message.\<close>

definition gradient_layer :: "framebuffer \<Rightarrow> u32 \<Rightarrow> u32 \<Rightarrow> (u32 \<times> u32) layer" where
  "gradient_layer fb c1 c2 = (let d = (if fb_height fb > 1 then fb_height fb - 1 else 1) in
     layers (map (\<lambda>j. layers (map (\<lambda>i. ink (lerp_rgb c1 c2 (of_nat j) d) {(of_nat i, of_nat j)}) [0..<unat (fb_width fb)]))
       [0..<unat (fb_height fb)]))"

definition login_ops :: "framebuffer \<Rightarrow> int \<Rightarrow> bool \<Rightarrow> fb_op list" where
  "login_ops fb n blink = (let t = theme_get_default; cx = centre_x fb; cy = centre_y fb; x = cx - 320 sdiv 2; y = cy - 210 sdiv 2 in
     [Text (of_int (cx - 18)) (of_int (cy - 150)) ''nanaos'' (th_text t),
      Fill (of_int (x + 4)) (of_int (y + 6)) 320 210 0xFF0A0F16,
      Fill (of_int x) (of_int y) 320 210 (th_surface t),
      Frame (of_int x) (of_int y) 320 210 (th_border t),
      Fill (of_int (x + 130)) (of_int (y + 18)) 60 60 (avatar_color user_get_default),
      Frame (of_int (x + 130)) (of_int (y + 18)) 60 60 (th_border t),
      Text (of_int (x + 132)) (of_int (y + 88)) ''Felipe'' (th_text t),
      Fill (of_int (x + 60)) (of_int (y + 118)) 200 22 (th_surface_alt t),
      Frame (of_int (x + 60)) (of_int (y + 118)) 200 22 (th_border t),
      Text (of_int (x + 66)) (of_int (y + 124)) (replicate (nat (if n > 31 then 31 else n)) CHR ''*'') (th_text_muted t),
      Fill (of_int (x + 60)) (of_int (y + 150)) 200 26 (th_accent t),
      Frame (of_int (x + 60)) (of_int (y + 150)) 200 26 (th_border t),
      Text (of_int (x + 128)) (of_int (y + 158)) ''entrar'' 0xFF0B1220,
      Text (of_int (cx - 60)) (of_int (y + 210 + 22)) ''desligar'' (th_text_muted t),
      Text (of_int (cx + 20)) (of_int (y + 210 + 22)) ''reiniciar'' (th_text_muted t)] @
     (if blink then [Text (of_int (x + 70)) (of_int (y + 184)) ''senha incorreta'' (th_danger t)] else []))"

definition blinks :: "login \<Rightarrow> pit \<Rightarrow> bool" where
  "blinks l p \<longleftrightarrow> g_error l \<and> (pit_get_ticks p div 10) mod 2 \<noteq> 0"

lemma login_render_ops:
  assumes "fb_enabled (g_fb v)"
  shows "login_screen_render l p v =
    fold fb_exec (login_ops (g_fb v) (g_pass_len l) (blinks l p)) (fill_gradient 0xFF0B1220 (th_background theme_get_default) v)"
proof -
  have u: "display_name user_get_default = ''Felipe''" by (simp add: user_get_default_def)
  have e: "fb_is_enabled v" using assms by (simp add: fb_is_enabled_def)
  show ?thesis
  proof (cases "blinks l p")
    case True
    then have b: "(g_error l \<and> (pit_get_ticks p div 10) mod 2 \<noteq> 0) = True" by (simp add: blinks_def)
    show ?thesis unfolding login_screen_render_def login_ops_def Let_def fb_get_def b u by (simp only: True e if_True not_True_eq_False if_False
          fold_simps fb_exec.simps append_Cons append_Nil of_int_numeral)
  next
    case False
    then have b: "(g_error l \<and> (pit_get_ticks p div 10) mod 2 \<noteq> 0) = False" by (simp add: blinks_def)
    show ?thesis unfolding login_screen_render_def login_ops_def Let_def fb_get_def b u by (simp only: False e if_True not_True_eq_False if_False
          fold_simps fb_exec.simps append_Cons append_Nil append_Nil2 of_int_numeral)
  qed
qed

lemma paints_gradient_layer:
  "fbc.paints (fb_rest v) (fill_gradient c1 c2) (gradient_layer (g_fb v) c1 c2)"
proof (cases "fb_enabled (g_fb v)")
  case True
  let ?fb = "g_fb v" and ?d = "if fb_height (g_fb v) > 1 then fb_height (g_fb v) - 1 else 1"
  have "fbc.paints (fb_rest v) (for_u32 (fb_height ?fb) (\<lambda>y. for_u32 (fb_width ?fb) (\<lambda>x. fb_put_pixel x y (lerp_rgb c1 c2 y ?d))))
    (layers (map (\<lambda>j. layers (map (\<lambda>i. ink (lerp_rgb c1 c2 (of_nat j) ?d) {(of_nat i, of_nat j)}) [0..<unat (fb_width ?fb)]))
       [0..<unat (fb_height ?fb)]))"
    by (intro fbc.paints_for_u32_layers [where L = "\<lambda>y. layers (map (\<lambda>i. ink (lerp_rgb c1 c2 y ?d) {(of_nat i, y)}) [0..<unat (fb_width ?fb)])"]
        fbc.paints_for_u32_layers [where L = "\<lambda>x. ink (lerp_rgb c1 c2 _ ?d) {(x, _)}"] paints_pixel)
  then show ?thesis
    by (rule fbc.paints_cong) (use True in \<open>auto simp: fill_gradient_def gradient_layer_def fb_get_def fb_is_enabled_def fb_rest_def Let_def\<close>)
next
  case False
  then have "\<not> fb_enabled (fst (fb_rest v))" by (simp add: fb_rest_def)
  from paints_disabled [OF this] show ?thesis
    by (rule fbc.paints_cong) (use False in \<open>auto simp: fill_gradient_def fb_get_def fb_is_enabled_def fb_rest_def Let_def\<close>)
qed

lemma gradient_covers:
  "fb_visible v (x, y) \<Longrightarrow> gradient_layer (g_fb v) c1 c2 (x, y) \<noteq> None"
  using screen_layer [of x "fb_width (g_fb v)" y "fb_height (g_fb v)"
      "\<lambda>x y. lerp_rgb c1 c2 y (if fb_height (g_fb v) > 1 then fb_height (g_fb v) - 1 else 1)"]
  by (simp add: gradient_layer_def Let_def fb_visible_def)

lemma login_shows:
  assumes "fb_ok (g_fb v)" "fb_visible v z"
  shows "fb_pixel (login_screen_render l p v) z = rgb24 (the ((gradient_layer (g_fb v) 0xFF0B1220 (th_background theme_get_default) ++
     layers (map fb_layer (login_ops (g_fb v) (g_pass_len l) (blinks l p)))) z))"
proof -
  have en: "fb_enabled (g_fb v)" using assms(2) by (simp add: fb_visible_def)
  obtain x y where xy: "z = (x, y)" by (cases z)
  let ?L = "gradient_layer (g_fb v) 0xFF0B1220 (th_background theme_get_default) ++
     layers (map fb_layer (login_ops (g_fb v) (g_pass_len l) (blinks l p)))"
  have "fbc.paints (fb_rest v) (\<lambda>u. fold fb_exec (login_ops (g_fb v) (g_pass_len l) (blinks l p))
      (fill_gradient 0xFF0B1220 (th_background theme_get_default) u)) ?L"
    by (intro fbc.paints_seq paints_gradient_layer fbc.paints_fold paints_op)
  from fbc.paintsD(4) [OF this assms(1) refl assms(2)]
  have "fb_pixel (login_screen_render l p v) z = (case ?L z of None \<Rightarrow> fb_pixel v z | Some c \<Rightarrow> rgb24 c)"
    unfolding login_render_ops [OF en] .
  moreover have "?L z \<noteq> None" using gradient_covers [of v x y] assms(2) by (simp add: xy)
  then obtain c where "?L z = Some c" by (meson not_None_eq)
  ultimately show ?thesis by simp
qed

text \<open>Two events that an onlooker cannot tell apart: the same event, or two keys that both type a character.\<close>

definition types_char :: "event \<Rightarrow> bool" where
  "types_char e \<longleftrightarrow> ev_type e = EVENT_KEYBOARD \<and> 32 \<le> uchar (char_of_int (ev_a e)) \<and> uchar (char_of_int (ev_a e)) \<le> 126"

definition looks_same :: "event \<Rightarrow> event \<Rightarrow> bool" where
  "looks_same e e' \<longleftrightarrow> e = e' \<or> types_char e \<and> types_char e'"

definition look_alike :: "login \<Rightarrow> login \<Rightarrow> bool" where
  "look_alike l l' \<longleftrightarrow> g_pass_len l = g_pass_len l' \<and> g_error l = g_error l' \<and> login_prev_left l = login_prev_left l' \<and>
     \<not> g_done l \<and> \<not> g_done l'"

lemma submit_alike:
  assumes "look_alike l l'" "\<not> g_done (login_submit l)" "\<not> g_done (login_submit l')"
  shows "look_alike (login_submit l) (login_submit l')"
  using assms by (auto simp: look_alike_def login_submit_def login_screen_transition_to_desktop_def set_pass_def split: if_splits)

lemma char_key:
  assumes "types_char e" "\<not> g_done l"
  shows "login_screen_handle_event fb (Some e) l = (if g_pass_len l < 31
    then (let l1 = (set_pass (g_pass_len l) (char_of_int (ev_a e)) l)\<lparr>g_pass_len := g_pass_len l + 1\<rparr> in set_pass (g_pass_len l1) NUL l1) else l)"
proof -
  have "char_of_int (ev_a e) \<noteq> newline" "char_of_int (ev_a e) \<noteq> backspace" using assms(1) by (auto simp: types_char_def uchar_def)
  then show ?thesis using assms by (simp add: login_screen_handle_event_def login_key_def types_char_def)
qed

lemma handle_alike:
  assumes "look_alike l l'" "looks_same e e'" "\<not> g_done (login_screen_handle_event fb (Some e) l)"
    "\<not> g_done (login_screen_handle_event fb (Some e') l')"
  shows "look_alike (login_screen_handle_event fb (Some e) l) (login_screen_handle_event fb (Some e') l')"
proof (cases "types_char e \<and> types_char e'")
  case True
  then show ?thesis using assms(1) char_key [of e l fb] char_key [of e' l' fb] by (auto simp: look_alike_def set_pass_def Let_def)
next
  case False
  then have e: "e' = e" using assms(2) by (auto simp: looks_same_def)
  have d: "\<not> g_done l" "\<not> g_done l'" using assms(1) by (simp_all add: look_alike_def)
  consider (key) "ev_type e = EVENT_KEYBOARD" | (mouse) "ev_type e = EVENT_MOUSE" | (other) "ev_type e \<noteq> EVENT_KEYBOARD" "ev_type e \<noteq> EVENT_MOUSE"
    by blast
  then show ?thesis
  proof cases
    case key
    then have h: "login_screen_handle_event fb (Some e) k = login_key (char_of_int (ev_a e)) k" if "\<not> g_done k" for k
      using that by (simp add: login_screen_handle_event_def)
    show ?thesis
    proof (cases "char_of_int (ev_a e) = newline")
      case True
      then show ?thesis using submit_alike [OF assms(1)] assms(3,4) unfolding e h [OF d(1)] h [OF d(2)] by (simp add: login_key_def)
    next
      case False
      then show ?thesis using assms(1) unfolding e h [OF d(1)] h [OF d(2)]
        by (auto simp: login_key_def look_alike_def set_pass_def Let_def)
    qed
  next
    case mouse
    define m :: "login \<Rightarrow> login" where "m = (\<lambda>k. k\<lparr>login_prev_left := odd (ev_c e)\<rparr>)"
    have a: "look_alike (m l) (m l')" using assms(1) by (simp add: look_alike_def m_def)
    have p: "login_prev_left l' = login_prev_left l" using assms(1) by (simp add: look_alike_def)
    have h: "login_screen_handle_event fb (Some e) k = (if odd (ev_c e) \<and> \<not> login_prev_left k \<and> on_button fb (ev_a e) (ev_b e)
        then login_submit (m k) else m k)" if "\<not> g_done k" for k
      using mouse that by (simp add: login_screen_handle_event_def Let_def m_def)
    show ?thesis using a submit_alike [OF a] assms(3,4) unfolding e h [OF d(1)] h [OF d(2)] p by (auto split: if_splits)
  next
    case other
    then show ?thesis using assms(1) d by (simp add: e login_screen_handle_event_def)
  qed
qed

lemma run_alike:
  assumes "look_alike l l'" "list_all2 looks_same es es'" "\<not> g_done (login_run fb es l)" "\<not> g_done (login_run fb es' l')"
  shows "look_alike (login_run fb es l) (login_run fb es' l')"
  using assms(2,1,3,4)
proof (induction arbitrary: l l' rule: list_all2_induct)
  case (Cons e es e' es')
  let ?l = "login_screen_handle_event fb (Some e) l" and ?l' = "login_screen_handle_event fb (Some e') l'"
  have "\<not> g_done ?l" using Cons.prems(2) login_done_stays [of ?l fb es] by auto
  moreover have "\<not> g_done ?l'" using Cons.prems(3) login_done_stays [of ?l' fb es'] by auto
  ultimately have "look_alike ?l ?l'" using handle_alike Cons by blast
  then show ?case using Cons by simp
qed simp

text \<open>
  C32: the login screen keeps the password secret. Two users who make the same events, except that each
  types its own characters, see the same screen as long as neither is let in: every visible pixel
  depends on how many characters stand in the line and on nothing else of what was typed, and nothing
  of what was on the screen before shines through.
\<close>

theorem login_masks_password:
  assumes "fb_ok (g_fb v)" "fb_visible v z" "g_fb v' = g_fb v" "length (g_pass l0) = 32" "list_all2 looks_same es es'"
    "\<not> right_attempt (g_fb v) (login_prev_left l0) es" "\<not> right_attempt (g_fb v) (login_prev_left l0) es'"
  shows "fb_pixel (login_screen_render (login_run (g_fb v) es (fst (login_screen_init p l0 v))) t v) z =
    fb_pixel (login_screen_render (login_run (g_fb v) es' (fst (login_screen_init p l0 v))) t v') z"
proof -
  let ?i = "fst (login_screen_init p l0 v)"
  let ?a = "login_run (g_fb v) es ?i" and ?b = "login_run (g_fb v) es' ?i"
  have "\<not> g_done ?a" "\<not> g_done ?b"
    using login_opens [OF assms(4), of "g_fb v" _ p v] assms(6,7) by blast+
  then have "look_alike ?a ?b" using run_alike [of ?i ?i es es' "g_fb v"] assms(5) login_init_holds(2) [OF assms(4), of p v]
    by (simp add: look_alike_def)
  then have "g_pass_len ?a = g_pass_len ?b" "blinks ?a t = blinks ?b t" by (simp_all add: look_alike_def blinks_def)
  moreover have "fb_visible v' z" "fb_ok (g_fb v')" using assms(1-3) by (simp_all add: fb_visible_def)
  ultimately show ?thesis using login_shows [OF assms(1,2), of ?a t] login_shows [of v' z ?b t] assms(3) by simp
qed

lemma no_attempt: "\<forall>e \<in> set es. types_char e \<Longrightarrow> \<not> right_attempt fb down es"
  by (auto simp: right_attempt_def submits_def types_char_def uchar_def)

lemma types_key: "types_char (key_event c) \<longleftrightarrow> 32 \<le> uchar c \<and> uchar c \<le> 126"
  by (simp add: types_char_def key_event_def)

theorem login_masks_password_witness:
  "fb_pixel (login_screen_render (login_run (g_fb demo_video) (map key_event ''nana'') (fst (login_screen_init pit_static login_static demo_video))) pit_static demo_video) (230, 250) =
   fb_pixel (login_screen_render (login_run (g_fb demo_video) (map key_event ''no!?'') (fst (login_screen_init pit_static login_static demo_video))) pit_static
     (demo_video\<lparr>vmem := \<lambda>_. 7\<rparr>)) (230, 250)"
proof (rule login_masks_password)
  have "types_char (key_event CHR ''n'')" "types_char (key_event CHR ''a'')" "types_char (key_event CHR ''o'')" "types_char (key_event CHR ''!'')"
    "types_char (key_event CHR ''?'')" by (simp_all add: types_key uchar_def)
  then show "list_all2 looks_same (map key_event ''nana'') (map key_event ''no!?'')"
    "\<not> right_attempt (g_fb demo_video) (login_prev_left login_static) (map key_event ''nana'')"
    "\<not> right_attempt (g_fb demo_video) (login_prev_left login_static) (map key_event ''no!?'')"
    by (simp_all add: looks_same_def no_attempt)
qed (rule demo_video_ok, simp_all add: login_static_def fb_visible_def demo_video_def)

subsection \<open>Both screens touch the screen only\<close>

definition splash_ops :: "framebuffer \<Rightarrow> splash \<Rightarrow> nat \<Rightarrow> fb_op list" where
  "splash_ops fb b dots = (let t = theme_get_default; cx = centre_x fb; cy = centre_y fb; 
       percent = (if g_progress b < 0 then 0 else g_progress b); percent = (if percent > 100 then 100 else percent) in
     [Text (of_int (cx - 18)) (of_int (cy - 30)) ''nanaos'' (th_text t),
      Fill (of_int (cx - 140)) (of_int (cy + 10)) 280 16 (th_surface t),
      Frame (of_int (cx - 140)) (of_int (cy + 10)) 280 16 (th_border t),
      Fill (of_int (cx - 140 + 2)) (of_int (cy + 10 + 2)) (of_int ((280 - 4) * percent sdiv 100)) (of_int (16 - 4)) (th_accent t),
      Text (of_int (cx - 140)) (of_int (cy + 34)) (g_status b) (th_text_muted t),
      Text (of_int (cx + 40)) (of_int (cy - 30)) (replicate dots CHR ''.'') (th_text_muted t)])"

lemma splash_render_ops:
  assumes "fb_enabled (g_fb v)"
  shows "boot_splash_render b p v =
    fold fb_exec (splash_ops (g_fb v) b (unat ((pit_get_ticks p div 10) mod 4))) (fill_gradient 0xFF0B1220 (th_background theme_get_default) v)"
proof -
  have e: "fb_is_enabled v" using assms by (simp add: fb_is_enabled_def)
  show ?thesis unfolding boot_splash_render_def splash_ops_def draw_progress_bar_def Let_def fb_get_def
    by (simp only: e not_True_eq_False if_False fold_simps fb_exec.simps of_int_numeral)
qed

lemma render_rest:
  assumes "fb_ok (g_fb v)"
  shows "fb_rest (fold fb_exec ops (fill_gradient c1 c2 v)) = fb_rest v"
proof -
  have "fbc.paints (fb_rest v) (\<lambda>u. fold fb_exec ops (fill_gradient c1 c2 u)) (gradient_layer (g_fb v) c1 c2 ++ layers (map fb_layer ops))"
    by (intro fbc.paints_seq paints_gradient_layer fbc.paints_fold paints_op)
  from fbc.paintsD(2) [OF this assms refl] show ?thesis .
qed

lemma splash_rest: "fb_ok (g_fb v) \<Longrightarrow> fb_rest (boot_splash_render b p v) = fb_rest v"
  by (cases "fb_enabled (g_fb v)") (simp_all add: splash_render_ops render_rest, simp add: boot_splash_render_def fb_is_enabled_def)

lemma login_rest: "fb_ok (g_fb v) \<Longrightarrow> fb_rest (login_screen_render l p v) = fb_rest v"
  by (cases "fb_enabled (g_fb v)") (simp_all add: login_render_ops render_rest, simp add: login_screen_render_def fb_is_enabled_def)

lemma fb_restD: "fb_rest v' = fb_rest v \<Longrightarrow> g_fb v' = g_fb v \<and> video.more v' = video.more v"
  by (simp add: fb_rest_def)

end
