(* ===== verification/Desktop.thy ===== *)
theory Desktop
  imports Login Windows
begin

text \<open>
  The desktop (\<open>kernel/ui/nanaura/ura.c\<close>) and the user interface as a whole
  (\<open>kernel/ui/system/ui.c\<close>): boot splash, login, desktop. Interrupts may arrive at any time; what they
  do to the interface is the \<open>irq\<close> handlers' part of \<open>Devices\<close>.
\<close>

subsection \<open>The desktop\<close>

record ura =
  g_launcher :: bool
  g_mouse_x :: int
  g_mouse_y :: int
  g_mouse_btn :: int
  g_prev_left :: bool

definition ura_static :: ura where
  "ura_static = \<lparr>g_launcher = False, g_mouse_x = 0, g_mouse_y = 0, g_mouse_btn = 0, g_prev_left = False\<rparr>"

definition create_default_windows :: "u64 \<Rightarrow> 'a wm_scheme \<Rightarrow> 'a wm_scheme" where
  "create_default_windows kend s =
     (let s1 = snd (wm_create_window kend 80 80 360 240 (Some ''terminal'') WM_WIN_MOVABLE s);
          s2 = snd (wm_create_window kend 180 140 320 220 (Some ''files'') WM_WIN_MOVABLE s1)
      in snd (wm_create_window kend 300 110 280 200 (Some ''settings'') WM_WIN_MOVABLE s2))"

definition nanaura_init :: "u64 \<Rightarrow> 'a wm_scheme \<Rightarrow> int \<times> console_op list \<times> 'a wm_scheme" where
  "nanaura_init kend s =
     (if \<not> fb_is_enabled s then (- 1, [], s)
      else let (r, ops, s1) = wm_init kend s
      in if r \<noteq> 0 then (- 2, ops, s1) else (0, ops @ log_info ''nanaos desktop loaded'', create_default_windows kend s1))"

definition dock_window :: "u64 \<Rightarrow> int \<Rightarrow> 'a wm_scheme \<Rightarrow> 'a wm_scheme" where
  "dock_window kend i s =
     (if i = 0 then snd (wm_create_window kend 90 70 380 260 (Some ''terminal'') WM_WIN_MOVABLE s)
      else if i = 1 then snd (wm_create_window kend 160 120 340 240 (Some ''files'') WM_WIN_MOVABLE s)
      else snd (wm_create_window kend 240 90 320 220 (Some ''settings'') WM_WIN_MOVABLE s))"

definition dock_click :: "u64 \<Rightarrow> int \<Rightarrow> int \<Rightarrow> 'a wm_scheme \<Rightarrow> 'a wm_scheme" where
  "dock_click kend mx my s =
     (let fb = fb_get s; dock_w = 240; dock_h = 52;
          dock_x = (sint (fb_width fb) - dock_w) sdiv 2; dock_y = sint (fb_height fb) - dock_h - 10
      in for_int 3 (\<lambda>i s. let ix = dock_x + 16 + i * 72; iy = dock_y + 10
           in if mx \<ge> ix \<and> mx < ix + 32 \<and> my \<ge> iy \<and> my < iy + 32 then dock_window kend i s else s) s)"

definition nanaura_handle_event :: "u64 \<Rightarrow> event \<Rightarrow> ura \<times> 'a wm_scheme \<Rightarrow> ura \<times> 'a wm_scheme" where
  "nanaura_handle_event kend ev = (\<lambda>(u, s).
     if ev_type ev = EVENT_MOUSE then
       let u1 = u\<lparr>g_mouse_x := ev_a ev, g_mouse_y := ev_b ev, g_mouse_btn := ev_c ev\<rparr>;
           left = odd (g_mouse_btn u1); left_edge = (left \<and> \<not> g_prev_left u1);
           s1 = (if left_edge then dock_click kend (g_mouse_x u1) (g_mouse_y u1) s else s)
       in (u1\<lparr>g_prev_left := left\<rparr>, wm_handle_mouse (g_mouse_x u1) (g_mouse_y u1) (g_mouse_btn u1) s1)
     else if ev_type ev = EVENT_KEYBOARD then
       let c = ev_a ev
       in if c = of_char CHR ''l'' \<or> c = of_char CHR ''L'' then (u\<lparr>g_launcher := \<not> g_launcher u\<rparr>, s) else (u, wm_handle_key c s)
     else (u, s))"

subsection \<open>The user interface\<close>

datatype ui_state = UI_STATE_BOOT_SPLASH | UI_STATE_LOGIN | UI_STATE_DESKTOP

record ui =
  g_state :: ui_state
  ui_splash :: splash
  ui_login :: login
  ui_ura :: ura
  ui_wm :: wm
  ui_events :: event_queue
  ui_pit :: pit
  ui_sched :: sched
  ui_ops :: "console_op list"

text \<open>The interrupts as the interface sees them; a key that maps to a character, a byte of the mouse.\<close>

datatype irq = Irq_timer | Irq_key char | Irq_mouse u8 | Irq_other

fun on_irq :: "irq \<Rightarrow> ui \<Rightarrow> ui" where
  "on_irq Irq_timer s = (let (p, eq, sc) = pit_on_interrupt (ui_pit s) (ui_events s) (ui_sched s)
     in s\<lparr>ui_pit := p, ui_events := eq, ui_sched := sc\<rparr>)"
| "on_irq (Irq_key c) s =
     s\<lparr>ui_events := snd (events_enqueue \<lparr>ev_type = EVENT_KEYBOARD, ev_a = of_char c, ev_b = 0, ev_c = 0\<rparr> (ui_events s))\<rparr>"
| "on_irq (Irq_mouse b) s = (let (m, eq) = mouse_byte b (wm_mouse (ui_wm s)) (ui_events s)
     in s\<lparr>ui_wm := (ui_wm s)\<lparr>wm_mouse := m\<rparr>, ui_events := eq\<rparr>)"
| "on_irq Irq_other s = s"

text \<open>\<open>hlt\<close> waits for the next interrupt: \<open>env i\<close> is the \<open>i\<close>th. \<open>None\<close> is a wait that never ends.\<close>

partial_function (option) busy_wait :: "(nat \<Rightarrow> irq) \<Rightarrow> u64 \<Rightarrow> u64 \<Rightarrow> nat \<Rightarrow> ui \<Rightarrow> (nat \<times> ui) option" where
  "busy_wait env start wait i s =
     (if pit_get_ticks (ui_pit s) - start < wait then busy_wait env start wait (i + 1) (on_irq (env i) s) else Some (i, s))"

definition busy_delay_ms :: "(nat \<Rightarrow> irq) \<Rightarrow> u64 \<Rightarrow> nat \<Rightarrow> ui \<Rightarrow> (nat \<times> ui) option" where
  "busy_delay_ms env ms i s =
     (let start = pit_get_ticks (ui_pit s); hz = 100; wait = (ms * hz + 999) div 1000; wait = (if wait = 0 then 1 else wait)
      in busy_wait env start wait i s)"

definition splash_show :: "ui \<Rightarrow> ui" where
  "splash_show s = s\<lparr>ui_wm := boot_splash_render (ui_splash s) (ui_pit s) (ui_wm s)\<rparr>"

text \<open>One stage of the boot: status, progress, picture, pause.\<close>

definition splash_stage :: "(nat \<Rightarrow> irq) \<Rightarrow> string \<Rightarrow> int \<Rightarrow> u64 \<Rightarrow> nat \<Rightarrow> ui \<Rightarrow> (nat \<times> ui) option" where
  "splash_stage env txt percent ms i s =
     busy_delay_ms env ms i (splash_show (s\<lparr>ui_splash := boot_splash_set_progress percent (boot_splash_set_status (Some txt) (ui_splash s))\<rparr>))"

definition ui_system_init :: "(nat \<Rightarrow> irq) \<Rightarrow> ui \<Rightarrow> (int \<times> nat \<times> ui) option" where
  "ui_system_init env s =
     (if \<not> fb_is_enabled (ui_wm s) then Some (- 1, 0, s)
      else
        let (b, w) = boot_splash_init (ui_pit s) (ui_splash s) (ui_wm s);
            s1 = s\<lparr>g_state := UI_STATE_BOOT_SPLASH, ui_splash := b, ui_wm := w\<rparr>
        in case splash_stage env ''initializing nanacore...'' 10 120 0 s1 of None \<Rightarrow> None | Some (i2, s2) \<Rightarrow>
           case splash_stage env ''loading drivers...'' 35 120 i2 s2 of None \<Rightarrow> None | Some (i3, s3) \<Rightarrow>
           case splash_stage env ''starting services...'' 60 120 i3 s3 of None \<Rightarrow> None | Some (i4, s4) \<Rightarrow>
           case splash_stage env ''loading nanaura...'' 80 120 i4 s4 of None \<Rightarrow> None | Some (i5, s5) \<Rightarrow>
           let (b, w) = boot_splash_finish (ui_pit s5) (ui_splash s5) (ui_wm s5)
           in case busy_delay_ms env 200 i5 (s5\<lparr>ui_splash := b, ui_wm := w\<rparr>) of None \<Rightarrow> None | Some (i6, s6) \<Rightarrow>
           let (l, w) = login_screen_init (ui_pit s6) (ui_login s6) (ui_wm s6)
           in Some (0, i6, s6\<lparr>g_state := UI_STATE_LOGIN, ui_login := l, ui_wm := w\<rparr>))"

definition ui_render :: "ui \<Rightarrow> ui" where
  "ui_render s = (case g_state s of
     UI_STATE_BOOT_SPLASH \<Rightarrow> splash_show s
   | UI_STATE_LOGIN \<Rightarrow> s\<lparr>ui_wm := login_screen_render (ui_login s) (ui_pit s) (ui_wm s)\<rparr>
   | UI_STATE_DESKTOP \<Rightarrow> s)"

text \<open>What \<open>ui_system_run\<close> does with an event. The call of \<open>nanaura_run\<close> never returns: from then on its loop runs.\<close>

definition ui_event :: "u64 \<Rightarrow> event \<Rightarrow> ui \<Rightarrow> ui" where
  "ui_event kend ev s =
     (if g_state s = UI_STATE_LOGIN then
        let s1 = s\<lparr>ui_login := login_screen_handle_event (fb_get (ui_wm s)) (Some ev) (ui_login s)\<rparr>
        in if login_screen_is_done (ui_login s1)
           then (let (r, ops, w) = nanaura_init kend (ui_wm s1)
             in s1\<lparr>g_state := UI_STATE_DESKTOP, ui_wm := w, ui_ops := ui_ops s1 @ ops\<rparr>)
           else s1
      else s)"

definition nanaura_event :: "u64 \<Rightarrow> event \<Rightarrow> ui \<Rightarrow> ui" where
  "nanaura_event kend ev s = (let (u, w) = nanaura_handle_event kend ev (ui_ura s, ui_wm s) in s\<lparr>ui_ura := u, ui_wm := w\<rparr>)"

text \<open>
  A turn of the inner loop, in \<open>ui_system_run\<close> before the login and in \<open>nanaura_run\<close> after it: take the
  next event, or draw when there is none. Both functions return at once without a framebuffer.
\<close>

definition ui_turn :: "u64 \<Rightarrow> ui \<Rightarrow> ui" where
  "ui_turn kend s =
     (if \<not> fb_is_enabled (ui_wm s) then s
      else case events_dequeue (Some event_zero) (ui_events s) of (r, out, eq) \<Rightarrow>
        if r = 0 then
          let s1 = s\<lparr>ui_events := eq\<rparr>; ev = the out
          in if g_state s1 = UI_STATE_DESKTOP then nanaura_event kend ev s1 else ui_event kend ev s1
        else if g_state s = UI_STATE_DESKTOP then s\<lparr>ui_wm := wm_composite (ui_wm s)\<rparr> else ui_render s)"

text \<open>A run: interrupts and turns of the loop in any order.\<close>

datatype ui_act = Irq irq | Turn

fun ui_do :: "u64 \<Rightarrow> ui_act \<Rightarrow> ui \<Rightarrow> ui" where
  "ui_do kend (Irq i) s = on_irq i s"
| "ui_do kend Turn s = ui_turn kend s"

definition ui_run :: "u64 \<Rightarrow> ui_act list \<Rightarrow> ui \<Rightarrow> ui" where
  "ui_run kend acts s = fold (ui_do kend) acts s"

subsection \<open>Interrupts and pauses\<close>

lemma on_irq_keeps [simp]:
  "g_state (on_irq i s) = g_state s" "ui_login (on_irq i s) = ui_login s" "ui_splash (on_irq i s) = ui_splash s"
  "ui_ura (on_irq i s) = ui_ura s" "g_fb (ui_wm (on_irq i s)) = g_fb (ui_wm s)" "vmem (ui_wm (on_irq i s)) = vmem (ui_wm s)"
  by (cases i; simp add: pit_on_interrupt_def Let_def split_beta)+

lemma on_irq_wm: "\<exists>m. ui_wm (on_irq i s) = (ui_wm s)\<lparr>wm_mouse := m\<rparr>"
proof (cases i)
  case (Irq_mouse b)
  then show ?thesis by (auto simp: split_beta)
qed (auto simp: pit_on_interrupt_def Let_def intro!: exI [of _ "wm_mouse (ui_wm s)"])

lemma on_irq_ticks: "pit_ticks (ui_pit (on_irq i s)) = pit_ticks (ui_pit s) + (if i = Irq_timer then 1 else 0)"
  by (cases i) (simp_all add: pit_on_interrupt_def Let_def split_beta)

definition irqs :: "(nat \<Rightarrow> irq) \<Rightarrow> nat \<Rightarrow> nat \<Rightarrow> ui \<Rightarrow> ui" where
  "irqs env i j s = fold on_irq (map env [i..<j]) s"

definition timers :: "(nat \<Rightarrow> irq) \<Rightarrow> nat \<Rightarrow> nat \<Rightarrow> nat" where
  "timers env i j = length (filter (\<lambda>k. env k = Irq_timer) [i..<j])"

lemma timers_Cons: "i < j \<Longrightarrow> timers env i j = (if env i = Irq_timer then 1 else 0) + timers env (Suc i) j"
  by (simp add: timers_def upt_conv_Cons)

lemma irqs_Cons: "i < j \<Longrightarrow> irqs env i j s = irqs env (Suc i) j (on_irq (env i) s)"
  by (simp add: irqs_def upt_conv_Cons)

lemma timers_same [simp]: "timers env i i = 0" by (simp add: timers_def)
lemma irqs_same [simp]: "irqs env i i s = s" by (simp add: irqs_def)

lemma timers_split: "i \<le> j \<Longrightarrow> j \<le> k \<Longrightarrow> timers env i k = timers env i j + timers env j k"
  using upt_add_eq_append [of i j "k - j"] by (simp add: timers_def)

lemma irqs_keeps [simp]:
  "g_state (irqs env i j s) = g_state s" "ui_login (irqs env i j s) = ui_login s" "g_fb (ui_wm (irqs env i j s)) = g_fb (ui_wm s)"
  unfolding irqs_def by (rule fold_induct, simp, simp)+

lemma irqs_ticks: "i \<le> j \<Longrightarrow> pit_ticks (ui_pit (irqs env i j s)) = pit_ticks (ui_pit s) + of_nat (timers env i j)"
proof (induction "j - i" arbitrary: i s)
  case (Suc m)
  then have "i < j" by simp
  with Suc.hyps(1) [of "Suc i"] Suc.hyps(2) show ?case by (simp add: irqs_Cons timers_Cons on_irq_ticks)
qed simp

text \<open>A pause of \<open>wait\<close> ticks ends after the interrupt that brings the \<open>wait\<close>th tick, and only then.\<close>

lemma busy_wait_ends:
  assumes "pit_ticks (ui_pit s) - start = of_nat d" "d \<le> w" "w < 2 ^ 64" "w \<le> d + timers env i n" "i \<le> n"
  shows "\<exists>j. i \<le> j \<and> j \<le> n \<and> timers env i j = w - d \<and> busy_wait env start (of_nat w) i s = Some (j, irqs env i j s)"
  using assms
proof (induction "n - i" arbitrary: i s d)
  case 0
  then have "d = w" by simp
  with 0 show ?case by (subst busy_wait.simps) (auto simp: pit_get_ticks_def)
next
  case (Suc m)
  show ?case
  proof (cases "d = w")
    case True
    with Suc.prems show ?thesis by (subst busy_wait.simps) (auto simp: pit_get_ticks_def intro!: exI [of _ i])
  next
    case False
    then have dw: "d < w" using Suc.prems by simp
    have lt: "(of_nat d :: u64) < of_nat w" using dw Suc.prems(3) by (simp add: word_less_nat_alt unat_of_nat)
    let ?e = "if env i = Irq_timer then 1 else 0 :: nat"
    have ilt: "i < n" using Suc by simp
    have "pit_ticks (ui_pit (on_irq (env i) s)) - start = of_nat (d + ?e)"
      using Suc.prems(1) by (simp add: on_irq_ticks algebra_simps)
    note IH = Suc.hyps(1) [of "Suc i", OF _ this]
    have "m = n - Suc i" "d + ?e \<le> w" "Suc i \<le> n" using Suc.hyps(2) dw ilt by auto
    moreover have "w \<le> d + ?e + timers env (Suc i) n" using Suc.prems(4) timers_Cons [OF ilt, of env] by simp
    ultimately obtain j where j: "Suc i \<le> j" "j \<le> n" "timers env (Suc i) j = w - (d + ?e)"
      "busy_wait env start (of_nat w) (Suc i) (on_irq (env i) s) = Some (j, irqs env (Suc i) j (on_irq (env i) s))"
      using IH Suc.prems(3) by blast
    have "busy_wait env start (of_nat w) i s = Some (j, irqs env i j s)"
      using j lt Suc.prems(1) by (subst busy_wait.simps) (simp add: pit_get_ticks_def irqs_Cons)
    moreover have "timers env i j = w - d" using timers_Cons [of i j env] j(1,3) dw by auto
    ultimately show ?thesis using j by (intro exI [of _ j]) auto
  qed
qed

lemma busy_wait_irqs:
  "busy_wait env start wait i s = Some r \<Longrightarrow> i \<le> fst r \<and> snd r = irqs env i (fst r) s \<and> \<not> pit_ticks (ui_pit (snd r)) - start < wait"
proof (induction rule: busy_wait.raw_induct [rotated, consumes 1])
  case (1 f env start wait i s r)
  show ?case
  proof (cases "pit_get_ticks (ui_pit s) - start < wait")
    case True
    with 1(2) have "f env start wait (i + 1) (on_irq (env i) s) = Some r" by simp
    from 1(1) [OF this] show ?thesis using irqs_Cons [of i "fst r" env s] by auto
  next
    case False
    with 1(2) show ?thesis by (auto simp: pit_get_ticks_def)
  qed
qed

lemma busy_wait_needs:
  assumes "busy_wait env (pit_ticks (ui_pit s)) (of_nat w) i s = Some (j, t)" "w < 2 ^ 64"
  shows "i \<le> j \<and> t = irqs env i j s \<and> w \<le> timers env i j"
proof -
  have r: "i \<le> j" "t = irqs env i j s" "\<not> pit_ticks (ui_pit t) - pit_ticks (ui_pit s) < of_nat w"
    using busy_wait_irqs [OF assms(1)] by auto
  then have "\<not> (of_nat (timers env i j) :: u64) < of_nat w" by (simp add: irqs_ticks)
  then have "w \<le> unat (of_nat (timers env i j) :: u64)" using assms(2) by (simp add: word_less_nat_alt unat_of_nat)
  also have "\<dots> \<le> timers env i j" by (simp add: unat_of_nat)
  finally show ?thesis using r by simp
qed
lemma busy_delay:
  assumes "ms = 120 \<and> w = 12 \<or> ms = 200 \<and> w = 20"
  shows "busy_delay_ms env ms i s = busy_wait env (pit_ticks (ui_pit s)) (of_nat w) i s"
  using assms by (auto simp: busy_delay_ms_def pit_get_ticks_def Let_def)

lemma delay_ends:
  assumes "ms = 120 \<and> w = 12 \<or> ms = 200 \<and> w = 20" "w \<le> timers env i n" "i \<le> n"
  obtains j where "i \<le> j" "j \<le> n" "timers env i j = w" "busy_delay_ms env ms i s = Some (j, irqs env i j s)"
  using busy_wait_ends [of s "pit_ticks (ui_pit s)" 0 w env i n] assms unfolding busy_delay [OF assms(1)] by auto

lemma delay_needs:
  assumes "busy_delay_ms env ms i s = Some (j, t)" "ms = 120 \<and> w = 12 \<or> ms = 200 \<and> w = 20"
  shows "i \<le> j \<and> t = irqs env i j s \<and> w \<le> timers env i j"
  using busy_wait_needs [of env s w i j t] assms unfolding busy_delay [OF assms(2)] by auto

text \<open>What the boot leaves alone: everything of the interface but the pictures, the time and the queue.\<close>

definition boot_kept :: "ui \<Rightarrow> ui \<Rightarrow> bool" where
  "boot_kept s t \<longleftrightarrow> ui_login t = ui_login s \<and> g_fb (ui_wm t) = g_fb (ui_wm s) \<and> wm_heap (ui_wm t) = wm_heap (ui_wm s) \<and>
     g_windows (ui_wm t) = g_windows (ui_wm s) \<and> g_backbuf (ui_wm t) = g_backbuf (ui_wm s)"

lemma boot_kept_refl: "boot_kept s s" by (simp add: boot_kept_def)
lemma boot_kept_trans: "boot_kept s t \<Longrightarrow> boot_kept t u \<Longrightarrow> boot_kept s u" by (simp add: boot_kept_def)

lemma irqs_kept: "boot_kept s (irqs env i j s)"
  unfolding irqs_def
proof (rule fold_induct)
  fix x t assume "boot_kept s t"
  then show "boot_kept s (on_irq x t)" using on_irq_wm [of x t] by (auto simp: boot_kept_def)
qed (rule boot_kept_refl)

lemma show_kept:
  assumes "fb_ok (g_fb (ui_wm s))"
  shows "boot_kept s (splash_show (s\<lparr>ui_splash := b\<rparr>))"
  using fb_restD [OF splash_rest [OF assms, of b "ui_pit s"]] more_wm [of "boot_splash_render b (ui_pit s) (ui_wm s)" "ui_wm s"]
  by (simp add: boot_kept_def splash_show_def)

lemma splash_stage_delay:
  obtains t where "\<And>env. splash_stage env msg percent ms i s = busy_delay_ms env ms i t" "fb_ok (g_fb (ui_wm s)) \<Longrightarrow> boot_kept s t"
  using show_kept [of s "boot_splash_set_progress percent (boot_splash_set_status (Some msg) (ui_splash s))"]
  by (auto simp: splash_stage_def)

lemma boot_keptD: "boot_kept s t \<Longrightarrow> g_fb (ui_wm t) = g_fb (ui_wm s)"
  by (simp add: boot_kept_def)

lemma stage_ends:
  assumes "fb_ok (g_fb (ui_wm s))" "12 \<le> timers env i n" "i \<le> n"
  obtains j t where "i \<le> j" "j \<le> n" "timers env i j = 12" "splash_stage env msg percent 120 i s = Some (j, t)" "boot_kept s t"
proof -
  obtain u where u: "splash_stage env msg percent 120 i s = busy_delay_ms env 120 i u" "boot_kept s u"
    using splash_stage_delay [of msg percent 120 i s] assms(1) by metis
  obtain j where "i \<le> j" "j \<le> n" "timers env i j = 12" "busy_delay_ms env 120 i u = Some (j, irqs env i j u)"
    using delay_ends [of 120 12 env i n u] assms by auto
  then show ?thesis using that u boot_kept_trans [OF u(2) irqs_kept] by simp
qed

lemma stage_needs:
  assumes "splash_stage env msg percent 120 i s = Some (j, t)" "fb_ok (g_fb (ui_wm s))"
  shows "i \<le> j \<and> boot_kept s t \<and> 12 \<le> timers env i j"
proof -
  obtain u where u: "splash_stage env msg percent 120 i s = busy_delay_ms env 120 i u" "boot_kept s u"
    using splash_stage_delay [of msg percent 120 i s] assms(2) by metis
  from delay_needs [of env 120 i u j t 12] assms(1) u show ?thesis using boot_kept_trans [OF u(2) irqs_kept] by simp
qed

lemma boot_inits:
  assumes "fb_enabled (g_fb (ui_wm s))" "fb_ok (g_fb (ui_wm s))"
  obtains s1 where "boot_kept s s1" "\<And>env. ui_system_init env s =
    (case splash_stage env ''initializing nanacore...'' 10 120 0 s1 of None \<Rightarrow> None | Some (i2, s2) \<Rightarrow>
     case splash_stage env ''loading drivers...'' 35 120 i2 s2 of None \<Rightarrow> None | Some (i3, s3) \<Rightarrow>
     case splash_stage env ''starting services...'' 60 120 i3 s3 of None \<Rightarrow> None | Some (i4, s4) \<Rightarrow>
     case splash_stage env ''loading nanaura...'' 80 120 i4 s4 of None \<Rightarrow> None | Some (i5, s5) \<Rightarrow>
     let (b, w) = boot_splash_finish (ui_pit s5) (ui_splash s5) (ui_wm s5)
     in case busy_delay_ms env 200 i5 (s5\<lparr>ui_splash := b, ui_wm := w\<rparr>) of None \<Rightarrow> None | Some (i6, s6) \<Rightarrow>
     let (l, w) = login_screen_init (ui_pit s6) (ui_login s6) (ui_wm s6)
     in Some (0, i6, s6\<lparr>g_state := UI_STATE_LOGIN, ui_login := l, ui_wm := w\<rparr>))"
proof -
  obtain b w where bw: "boot_splash_init (ui_pit s) (ui_splash s) (ui_wm s) = (b, w)" by fastforce
  then have w: "w = boot_splash_render b (ui_pit s) (ui_wm s)" by (auto simp: boot_splash_init_def Let_def)
  have "boot_kept s (s\<lparr>g_state := UI_STATE_BOOT_SPLASH, ui_splash := b, ui_wm := w\<rparr>)"
    using show_kept [OF assms(2), of b] by (simp add: boot_kept_def splash_show_def w)
  moreover have "fb_is_enabled (ui_wm s)" using assms(1) by (simp add: fb_is_enabled_def)
  ultimately show ?thesis using bw by (intro that) (simp_all add: ui_system_init_def)
qed

text \<open>The state the boot ends in: the first login screen, and nothing else of the interface changed.\<close>

definition at_login :: "ui \<Rightarrow> ui \<Rightarrow> bool" where
  "at_login s t \<longleftrightarrow> g_state t = UI_STATE_LOGIN \<and> (\<exists>p v. ui_login t = fst (login_screen_init p (ui_login s) (v :: wm))) \<and>
     g_fb (ui_wm t) = g_fb (ui_wm s) \<and> wm_heap (ui_wm t) = wm_heap (ui_wm s) \<and> g_windows (ui_wm t) = g_windows (ui_wm s) \<and>
     g_backbuf (ui_wm t) = g_backbuf (ui_wm s)"

lemma login_entered:
  assumes "boot_kept s t" "fb_ok (g_fb (ui_wm s))" "login_screen_init (ui_pit t) (ui_login t) (ui_wm t) = (l, w)"
  shows "at_login s (t\<lparr>g_state := UI_STATE_LOGIN, ui_login := l, ui_wm := w\<rparr>)"
proof -
  have w: "w = login_screen_render l (ui_pit t) (ui_wm t)" and l: "l = fst (login_screen_init (ui_pit t) (ui_login t) (ui_wm t))"
    using assms(3) by (auto simp: login_screen_init_def Let_def)
  have "fb_ok (g_fb (ui_wm t))" using assms(1,2) by (simp add: boot_kept_def)
  from fb_restD [OF login_rest [OF this, of l "ui_pit t"]] more_wm [of w "ui_wm t"] assms(1) show ?thesis
    unfolding at_login_def boot_kept_def w [symmetric] using l by auto
qed

lemma finish_kept:
  assumes "fb_ok (g_fb (ui_wm s))" "boot_splash_finish (ui_pit s) (ui_splash s) (ui_wm s) = (b, w)"
  shows "boot_kept s (s\<lparr>ui_splash := b, ui_wm := w\<rparr>)"
  using show_kept [OF assms(1), of b] assms(2) by (auto simp: boot_splash_finish_def splash_show_def Let_def)

lemma boot_ends:
  assumes "fb_enabled (g_fb (ui_wm s))" "fb_ok (g_fb (ui_wm s))" "68 \<le> timers env 0 n"
  shows "\<exists>r. ui_system_init env s = Some r"
proof -
  obtain s1 where s1: "boot_kept s s1" and init: "\<And>env. ui_system_init env s =
    (case splash_stage env ''initializing nanacore...'' 10 120 0 s1 of None \<Rightarrow> None | Some (i2, s2) \<Rightarrow>
     case splash_stage env ''loading drivers...'' 35 120 i2 s2 of None \<Rightarrow> None | Some (i3, s3) \<Rightarrow>
     case splash_stage env ''starting services...'' 60 120 i3 s3 of None \<Rightarrow> None | Some (i4, s4) \<Rightarrow>
     case splash_stage env ''loading nanaura...'' 80 120 i4 s4 of None \<Rightarrow> None | Some (i5, s5) \<Rightarrow>
     let (b, w) = boot_splash_finish (ui_pit s5) (ui_splash s5) (ui_wm s5)
     in case busy_delay_ms env 200 i5 (s5\<lparr>ui_splash := b, ui_wm := w\<rparr>) of None \<Rightarrow> None | Some (i6, s6) \<Rightarrow>
     let (l, w) = login_screen_init (ui_pit s6) (ui_login s6) (ui_wm s6)
     in Some (0, i6, s6\<lparr>g_state := UI_STATE_LOGIN, ui_login := l, ui_wm := w\<rparr>))"
    using boot_inits [OF assms(1,2)] by blast
  have ok: "fb_ok (g_fb (ui_wm t))" if "boot_kept s t" for t using that assms(2) by (simp add: boot_kept_def)
  obtain i2 s2 where 2: "i2 \<le> n" "timers env 0 i2 = 12" "splash_stage env ''initializing nanacore...'' 10 120 0 s1 = Some (i2, s2)" "boot_kept s1 s2"
    by (rule stage_ends [OF ok [OF s1], of env 0 n]) (use assms(3) in auto)
  have k2: "boot_kept s s2" and t2: "timers env i2 n = timers env 0 n - 12"
    using boot_kept_trans [OF s1 2(4)] timers_split [of 0 i2 n env] 2 by simp_all
  obtain i3 s3 where 3: "i2 \<le> i3" "i3 \<le> n" "timers env i2 i3 = 12" "splash_stage env ''loading drivers...'' 35 120 i2 s2 = Some (i3, s3)" "boot_kept s2 s3"
    by (rule stage_ends [OF ok [OF k2], of env i2 n]) (use assms(3) 2 t2 in auto)
  have k3: "boot_kept s s3" and t3: "timers env i3 n = timers env 0 n - 24"
    using boot_kept_trans [OF k2 3(5)] timers_split [of i2 i3 n env] 3 t2 by simp_all
  obtain i4 s4 where 4: "i3 \<le> i4" "i4 \<le> n" "timers env i3 i4 = 12" "splash_stage env ''starting services...'' 60 120 i3 s3 = Some (i4, s4)" "boot_kept s3 s4"
    by (rule stage_ends [OF ok [OF k3], of env i3 n]) (use assms(3) 3 t3 in auto)
  have k4: "boot_kept s s4" and t4: "timers env i4 n = timers env 0 n - 36"
    using boot_kept_trans [OF k3 4(5)] timers_split [of i3 i4 n env] 4 t3 by simp_all
  obtain i5 s5 where 5: "i4 \<le> i5" "i5 \<le> n" "timers env i4 i5 = 12" "splash_stage env ''loading nanaura...'' 80 120 i4 s4 = Some (i5, s5)" "boot_kept s4 s5"
    by (rule stage_ends [OF ok [OF k4], of env i4 n]) (use assms(3) 4 t4 in auto)
  have t5: "timers env i5 n = timers env 0 n - 48" using timers_split [of i4 i5 n env] 5 t4 by simp
  obtain b w where bw: "boot_splash_finish (ui_pit s5) (ui_splash s5) (ui_wm s5) = (b, w)" by fastforce
  obtain i6 where 6: "busy_delay_ms env 200 i5 (s5\<lparr>ui_splash := b, ui_wm := w\<rparr>) = Some (i6, irqs env i5 i6 (s5\<lparr>ui_splash := b, ui_wm := w\<rparr>))"
    by (rule delay_ends [of 200 20 env i5 n "s5\<lparr>ui_splash := b, ui_wm := w\<rparr>"]) (use 5 t5 assms(3) in auto)
  show ?thesis unfolding init 2(3) option.case prod.case 3(4) 4(4) 5(4) bw Let_def 6 by (simp add: split_beta)
qed

lemma boot_result:
  assumes "fb_enabled (g_fb (ui_wm s))" "fb_ok (g_fb (ui_wm s))" "ui_system_init env s = Some (r, n, t)"
  shows "r = 0 \<and> 68 \<le> timers env 0 n \<and> at_login s t"
proof -
  obtain s1 where s1: "boot_kept s s1" and init: "\<And>env. ui_system_init env s =
    (case splash_stage env ''initializing nanacore...'' 10 120 0 s1 of None \<Rightarrow> None | Some (i2, s2) \<Rightarrow>
     case splash_stage env ''loading drivers...'' 35 120 i2 s2 of None \<Rightarrow> None | Some (i3, s3) \<Rightarrow>
     case splash_stage env ''starting services...'' 60 120 i3 s3 of None \<Rightarrow> None | Some (i4, s4) \<Rightarrow>
     case splash_stage env ''loading nanaura...'' 80 120 i4 s4 of None \<Rightarrow> None | Some (i5, s5) \<Rightarrow>
     let (b, w) = boot_splash_finish (ui_pit s5) (ui_splash s5) (ui_wm s5)
     in case busy_delay_ms env 200 i5 (s5\<lparr>ui_splash := b, ui_wm := w\<rparr>) of None \<Rightarrow> None | Some (i6, s6) \<Rightarrow>
     let (l, w) = login_screen_init (ui_pit s6) (ui_login s6) (ui_wm s6)
     in Some (0, i6, s6\<lparr>g_state := UI_STATE_LOGIN, ui_login := l, ui_wm := w\<rparr>))"
    using boot_inits [OF assms(1,2)] by blast
  have ok: "fb_ok (g_fb (ui_wm t))" if "boot_kept s t" for t using that assms(2) by (simp add: boot_kept_def)
  obtain i2 s2 i3 s3 i4 s4 i5 s5 where st: "splash_stage env ''initializing nanacore...'' 10 120 0 s1 = Some (i2, s2)"
    "splash_stage env ''loading drivers...'' 35 120 i2 s2 = Some (i3, s3)" "splash_stage env ''starting services...'' 60 120 i3 s3 = Some (i4, s4)"
    "splash_stage env ''loading nanaura...'' 80 120 i4 s4 = Some (i5, s5)"
    using assms(3) unfolding init by (auto split: option.splits prod.splits)
  obtain b w where bw: "boot_splash_finish (ui_pit s5) (ui_splash s5) (ui_wm s5) = (b, w)" by fastforce
  obtain s6 where 6: "busy_delay_ms env 200 i5 (s5\<lparr>ui_splash := b, ui_wm := w\<rparr>) = Some (n, s6)" and
    t: "r = 0" "t = (case login_screen_init (ui_pit s6) (ui_login s6) (ui_wm s6) of (l, w) \<Rightarrow> s6\<lparr>g_state := UI_STATE_LOGIN, ui_login := l, ui_wm := w\<rparr>)"
    using assms(3) unfolding init st option.case prod.case bw Let_def by (auto split: option.splits prod.splits)
  have k2: "0 \<le> i2" "boot_kept s s2" "12 \<le> timers env 0 i2" using stage_needs [OF st(1) ok [OF s1]] boot_kept_trans [OF s1] by auto
  have k3: "i2 \<le> i3" "boot_kept s s3" "12 \<le> timers env i2 i3" using stage_needs [OF st(2) ok [OF k2(2)]] boot_kept_trans [OF k2(2)] by auto
  have k4: "i3 \<le> i4" "boot_kept s s4" "12 \<le> timers env i3 i4" using stage_needs [OF st(3) ok [OF k3(2)]] boot_kept_trans [OF k3(2)] by auto
  have k5: "i4 \<le> i5" "boot_kept s s5" "12 \<le> timers env i4 i5" using stage_needs [OF st(4) ok [OF k4(2)]] boot_kept_trans [OF k4(2)] by auto
  have k5': "boot_kept s (s5\<lparr>ui_splash := b, ui_wm := w\<rparr>)" by (rule boot_kept_trans [OF k5(2) finish_kept [OF ok [OF k5(2)] bw]])
  have k6: "i5 \<le> n" "boot_kept s s6" "20 \<le> timers env i5 n"
    using delay_needs [OF 6, of 20] boot_kept_trans [OF k5' irqs_kept] by auto
  have "timers env 0 n = timers env 0 i2 + timers env i2 i3 + timers env i3 i4 + timers env i4 i5 + timers env i5 n"
    using timers_split [of 0 i2 n env] timers_split [of i2 i3 n env] timers_split [of i3 i4 n env] timers_split [of i4 i5 n env] k2 k3 k4 k5 k6 by linarith
  then have "68 \<le> timers env 0 n" using k2(3) k3(3) k4(3) k5(3) k6(3) by linarith
  moreover obtain l v where "login_screen_init (ui_pit s6) (ui_login s6) (ui_wm s6) = (l, v)" by fastforce
  ultimately show ?thesis using login_entered [OF k6(2) assms(2)] t by auto
qed

definition demo_ui :: ui where
  "demo_ui = \<lparr>g_state = UI_STATE_BOOT_SPLASH, ui_splash = splash_static, ui_login = login_static, ui_ura = ura_static, ui_wm = demo_wm,
     ui_events = events_static, ui_pit = pit_static, ui_sched = demo_blank, ui_ops = []\<rparr>"

lemma demo_ui_fb: "fb_enabled (g_fb (ui_wm demo_ui))" "fb_ok (g_fb (ui_wm demo_ui))"
  using demo_video_ok by (simp_all add: demo_ui_def demo_wm_def) (simp add: demo_video_def)


subsection \<open>From the login to the desktop\<close>

text \<open>The events the interface takes from the queue while the login screen is up.\<close>

fun login_events :: "u64 \<Rightarrow> ui_act list \<Rightarrow> ui \<Rightarrow> event list" where
  "login_events kend [] s = []"
| "login_events kend (a # acts) s =
     (case events_dequeue (Some event_zero) (ui_events s) of (r, out, eq) \<Rightarrow>
        if a = Turn \<and> g_state s = UI_STATE_LOGIN \<and> r = 0 then [the out] else []) @ login_events kend acts (ui_do kend a s)"

lemma ui_run_simps [simp]:
  "ui_run kend [] s = s" "ui_run kend (a # acts) s = ui_run kend acts (ui_do kend a s)"
  by (simp_all add: ui_run_def)

lemma desktop_stays: "g_state s = UI_STATE_DESKTOP \<Longrightarrow> g_state (ui_do kend a s) = UI_STATE_DESKTOP"
  by (cases a) (auto simp: ui_turn_def nanaura_event_def split_beta Let_def)

lemma desktop_runs: "g_state s = UI_STATE_DESKTOP \<Longrightarrow> g_state (ui_run kend acts s) = UI_STATE_DESKTOP \<and> login_events kend acts s = []"
  by (induction acts arbitrary: s) (auto simp: desktop_stays split_beta)

lemma login_turn:
  assumes "g_state s = UI_STATE_LOGIN" "fb_enabled (g_fb (ui_wm s))" "fb_ok (g_fb (ui_wm s))" 
    "events_dequeue (Some event_zero) (ui_events s) = (r, ev, eq)" "\<not> g_done (ui_login s)"
  defines "l \<equiv> login_screen_handle_event (g_fb (ui_wm s)) (Some (the ev)) (ui_login s)"
  shows "g_state (ui_turn kend s) = (if r = 0 \<and> g_done l then UI_STATE_DESKTOP else UI_STATE_LOGIN) \<and>
    ui_login (ui_turn kend s) = (if r = 0 then l else ui_login s) \<and>
    (r \<noteq> 0 \<or> \<not> g_done l \<longrightarrow> g_fb (ui_wm (ui_turn kend s)) = g_fb (ui_wm s))"
  using assms(1-5) fb_restD [OF login_rest [OF assms(3), of "ui_login s" "ui_pit s"]]
  by (simp add: ui_turn_def fb_is_enabled_def ui_event_def ui_render_def fb_get_def login_screen_is_done_def l_def Let_def split_beta)

lemma login_phase:
  assumes "g_state s = UI_STATE_LOGIN" "fb_enabled (g_fb (ui_wm s))" "fb_ok (g_fb (ui_wm s))" "\<not> g_done (ui_login s)"
  shows "g_state (ui_run kend acts s) = UI_STATE_DESKTOP \<longleftrightarrow> g_done (login_run (g_fb (ui_wm s)) (login_events kend acts s) (ui_login s))"
  using assms
proof (induction acts arbitrary: s)
  case (Cons a acts)
  obtain r out eq where deq: "events_dequeue (Some event_zero) (ui_events s) = (r, out, eq)" by (cases "events_dequeue (Some event_zero) (ui_events s)") auto
  show ?case
  proof (cases a)
    case (Irq i)
    then show ?thesis using Cons.IH [of "on_irq i s"] Cons.prems deq by simp
  next
    case Turn
    let ?l = "login_screen_handle_event (g_fb (ui_wm s)) (Some (the out)) (ui_login s)"
    note t = login_turn [OF Cons.prems(1-3) deq Cons.prems(4), of kend]
    show ?thesis
    proof (cases "r = 0 \<and> g_done ?l")
      case True
      then have "g_state (ui_turn kend s) = UI_STATE_DESKTOP" using t by simp
      from desktop_runs [OF this, of kend acts] show ?thesis using Turn True deq Cons.prems(1) by simp
    next
      case False
      then show ?thesis using Cons.IH [of "ui_turn kend s"] Turn Cons.prems t deq by auto
    qed
  qed
qed simp

text \<open>
  C11: the desktop is behind the password. After the boot, whatever interrupts arrive and however they
  interleave with the loop, the interface shows the desktop if and only if the events it took from the
  queue so far contain an attempt with the right password.
\<close>

theorem ui_desktop_iff_password:
  assumes "fb_enabled (g_fb (ui_wm s))" "fb_ok (g_fb (ui_wm s))" "length (g_pass (ui_login s)) = 32"
    "ui_system_init env s = Some (0, n, t)"
  shows "g_state (ui_run kend acts t) = UI_STATE_DESKTOP \<longleftrightarrow>
    right_attempt (g_fb (ui_wm s)) (login_prev_left (ui_login s)) (login_events kend acts t)"
proof -
  have a: "at_login s t" using boot_result [OF assms(1,2,4)] by simp
  then obtain p and v :: wm where l: "ui_login t = fst (login_screen_init p (ui_login s) v)" by (auto simp: at_login_def)
  have g: "g_fb (ui_wm t) = g_fb (ui_wm s)" "g_state t = UI_STATE_LOGIN" using a by (simp_all add: at_login_def)
  have "\<not> g_done (ui_login t)" unfolding l by (rule login_init_holds(2) [OF assms(3)])
  from login_phase [OF g(2) _ _ this, of kend acts] assms(1,2) g(1)
  show ?thesis using login_opens [OF assms(3), of "g_fb (ui_wm s)" "login_events kend acts t" p v]
    by (simp add: l)
qed

theorem ui_desktop_iff_password_witness:
  "\<exists>n t. ui_system_init (\<lambda>_. Irq_timer) demo_ui = Some (0, n, t) \<and>
     g_state (ui_run 0x200000 (map (\<lambda>c. Irq (Irq_key c)) (''nana'' @ [newline])) t) \<noteq> UI_STATE_DESKTOP"
proof -
  have "timers (\<lambda>_. Irq_timer) 0 68 = 68" by (simp add: timers_def)
  then obtain r where "ui_system_init (\<lambda>_. Irq_timer) demo_ui = Some r" using boot_ends [OF demo_ui_fb, of "\<lambda>_. Irq_timer" 68] by auto
  then obtain n t where b: "ui_system_init (\<lambda>_. Irq_timer) demo_ui = Some (0, n, t)"
    using boot_result [OF demo_ui_fb, of "\<lambda>_. Irq_timer"] by (cases r) auto
  have l: "length (g_pass (ui_login demo_ui)) = 32" by (simp add: demo_ui_def login_static_def)
  have "login_events 0x200000 (map (\<lambda>c. Irq (Irq_key c)) cs) s = []" for cs s by (induction cs arbitrary: s) (simp_all add: split_beta)
  note e = this [of "''nana'' @ [newline]" t]
  have "\<not> right_attempt fb d []" for fb d by (simp add: right_attempt_def)
  with ui_desktop_iff_password [OF demo_ui_fb l b, of "0x200000" "map (\<lambda>c. Irq (Irq_key c)) (''nana'' @ [newline])", unfolded e] b
  show ?thesis by blast
qed

subsection \<open>What the desktop shows\<close>

text \<open>Before the desktop the window manager is untouched; on it, either it runs or it never got its back buffer.\<close>

definition wm_fresh :: "u64 \<Rightarrow> framebuffer \<Rightarrow> wm \<Rightarrow> bool" where
  "wm_fresh kend fb w \<longleftrightarrow> g_fb w = fb \<and> heap_inv kend (wm_heap w) \<and> length (g_windows w) = WM_MAX_WINDOWS \<and> g_backbuf w = 0"

definition ui_inv :: "u64 \<Rightarrow> framebuffer \<Rightarrow> ui \<Rightarrow> bool" where
  "ui_inv kend fb s \<longleftrightarrow> (if g_state s = UI_STATE_DESKTOP then wm_reach kend fb (ui_wm s) \<or> wm_fresh kend fb (ui_wm s)
     else wm_fresh kend fb (ui_wm s))"

lemma fresh_moved: "wm_fresh kend fb w \<Longrightarrow> wm_fresh kend fb (w\<lparr>wm_mouse := m\<rparr>)"
  by (simp add: wm_fresh_def)

lemma create_reach:
  assumes "wm_reach kend fb w" "0 \<le> a" "0 \<le> b" "a * b * 4 \<le> 2 ^ 63"
  shows "wm_reach kend fb (snd (wm_create_window kend x y a b title flags w))"
  using wr_create [OF assms, of x y title flags "fst (wm_create_window kend x y a b title flags w)"] by simp

lemma dock_reach: "wm_reach kend fb w \<Longrightarrow> wm_reach kend fb (dock_click kend mx my w)"
  unfolding dock_click_def Let_def by (rule for_int_induct) (auto simp: dock_window_def intro!: create_reach)

lemma fresh_focus: "wm_fresh kend fb w \<Longrightarrow> wm_fresh kend fb (wm_focus_window i w)"
  by (simp add: wm_fresh_def wm_focus_window_def upd_window_def split: option.splits)

lemma fresh_close: "wm_fresh kend fb w \<Longrightarrow> wm_fresh kend fb (wm_close_window i w)"
  by (simp add: wm_fresh_def wm_close_window_def upd_window_def Let_def split: option.splits)

lemma fresh_press: "wm_fresh kend fb w \<Longrightarrow> wm_fresh kend fb (wm_press x y w)"
  using fresh_focus [of kend fb w] fresh_close [of kend fb "wm_focus_window _ w"]
  by (auto simp: wm_press_def Let_def wm_fresh_def [of _ _ "_\<lparr>g_dragging := _, g_drag_offx := _, g_drag_offy := _\<rparr>"]
      wm_fresh_def [of _ _ "wm_focus_window _ w"] split: option.splits)

lemma fresh_drag: "wm_fresh kend fb w \<Longrightarrow> wm_fresh kend fb (wm_drag x y left w)"
  by (simp add: wm_fresh_def wm_drag_def upd_window_def split: option.splits)

lemma fresh_mouse:
  assumes "wm_fresh kend fb w"
  shows "wm_fresh kend fb (wm_handle_mouse x y b w)"
proof -
  have k: "wm_fresh kend fb (t\<lparr>g_dragging := u\<rparr>) = wm_fresh kend fb t" "wm_fresh kend fb (t\<lparr>g_prev_btn := u\<rparr>) = wm_fresh kend fb t" for t u
    by (simp_all add: wm_fresh_def)
  show ?thesis using assms by (simp add: wm_handle_mouse_def Let_def k fresh_drag fresh_press)
qed

lemma create_fresh:
  assumes "wm_fresh kend fb w" "0 \<le> a" "0 \<le> b" "a * b * 4 \<le> 2 ^ 63"
  shows "wm_fresh kend fb (snd (wm_create_window kend x y a b title flags w))"
proof (cases "find (\<lambda>i. \<not> wused (g_windows w ! i)) [0..<WM_MAX_WINDOWS]")
  case (Some i)
  obtain p hp where k: "kmalloc kend (of_int a * of_int b * 4) (wm_heap w) = (p, hp)" by fastforce
  have "of_int a * of_int b * 4 = (of_int (a * b * 4) :: u64)" by simp
  then have n: "unat (of_int a * of_int b * 4 :: u64) = nat (a * b * 4)"
    by (simp only:) (rule unat_of_int_small, use assms in auto)
  have "unat (of_int a * of_int b * 4 :: u64) \<le> 2 ^ 63" unfolding n nat_le_iff using assms(4) by simp
  from kheap.alloc_ok [OF _ this k] assms(1) have hp: "heap_inv kend hp" by (simp add: wm_fresh_def)
  have i: "i < length (g_windows w)" using find_upt [OF Some] assms(1) by (simp add: wm_fresh_def)
  show ?thesis
  proof (cases "p = 0")
    case True
    then show ?thesis using Some k hp assms(1) by (simp add: wm_create_window_def wm_fresh_def Let_def)
  next
    case False
    obtain m where "wm_create_window kend x y a b title flags w = (Some i, wm_focus_window (Some i) ((upd_window i
      (\<lambda>_. \<lparr>wused = True, wx = x, wy = y, ww = a, wh = b, wactive = False, wflags = flags, wtitle = title_of title, wbuffer = p\<rparr>)
      w)\<lparr>wm_heap := hp, vmem := m\<rparr>))" by (rule create_window [OF Some i k False])
    then show ?thesis using hp assms(1) by (auto intro!: fresh_focus) (simp add: wm_fresh_def)
  qed
qed (use assms in \<open>simp add: wm_create_window_def\<close>)

lemma dock_fresh: "wm_fresh kend fb w \<Longrightarrow> wm_fresh kend fb (dock_click kend mx my w)"
  unfolding dock_click_def Let_def by (rule for_int_induct) (auto simp: dock_window_def intro!: create_fresh)

lemma fresh_composite: "wm_fresh kend fb w \<Longrightarrow> wm_composite w = w"
  by (simp add: wm_fresh_def wm_composite_def)

lemma init_desktop:
  assumes "wm_fresh kend fb w" "fb_enabled fb" "nanaura_init kend w = (r, ops, w')"
  shows "(r = 0 \<and> wm_reach kend fb w') \<or> (r = - 2 \<and> wm_fresh kend fb w' \<and> vmem w' = vmem w)"
proof -
  have f: "g_fb w = fb" "heap_inv kend (wm_heap w)" "length (g_windows w) = WM_MAX_WINDOWS" using assms(1) by (simp_all add: wm_fresh_def)
  have en: "fb_is_enabled w" using assms(2) f(1) by (simp add: fb_is_enabled_def)
  obtain r1 ops1 w1 where i: "wm_init kend w = (r1, ops1, w1)" by (cases "wm_init kend w") auto
  obtain p h where k: "kmalloc kend (ucast (fb_width fb) * ucast (fb_height fb) * 4) (wm_heap w) = (p, h)" by fastforce
  show ?thesis
  proof (cases "r1 = 0")
    case True
    have "wm_reach kend fb w1" by (rule wr_init [OF f]) (use i True in simp)
    then have "wm_reach kend fb (create_default_windows kend w1)"
      by (auto simp: create_default_windows_def Let_def intro!: create_reach)
    then show ?thesis using assms(3) en i True by (simp add: nanaura_init_def)
  next
    case False
    then have p: "p = 0" and w1: "w1 = w\<lparr>g_bw := fb_width fb, g_bh := fb_height fb, g_backbuf := p, wm_heap := h\<rparr>"
      using i k en f(1) by (auto simp: wm_init_def fb_get_def Let_def split: if_splits)
    have "h = wm_heap w \<or> h = heap_ensure_init kend (wm_heap w)" using k p f(2) 
      by (auto simp: kmalloc_def Let_def heap_ensure_init_def heap_inv_def kend_ok_def split: if_splits)
    then have "heap_inv kend h" using f(2) ensure_init_heap_inv by auto
    then have "wm_fresh kend fb w1" using f p by (simp add: wm_fresh_def w1)
    then show ?thesis using assms(3) en i False by (auto simp: nanaura_init_def w1)
  qed
qed
lemma irq_inv: "ui_inv kend fb s \<Longrightarrow> ui_inv kend fb (on_irq i s)"
  using on_irq_wm [of i s] by (auto simp: ui_inv_def intro: wr_moved fresh_moved split: if_splits)

lemma handle_reach:
  "wm_reach kend fb w \<Longrightarrow> wm_reach kend fb (snd (nanaura_handle_event kend ev (u, w)))"
  by (simp add: nanaura_handle_event_def Let_def wr_mouse wr_key dock_reach)

lemma handle_fresh:
  "wm_fresh kend fb w \<Longrightarrow> wm_fresh kend fb (snd (nanaura_handle_event kend ev (u, w)))"
  by (simp add: nanaura_handle_event_def Let_def fresh_mouse wm_handle_key_def dock_fresh)

lemma render_fresh:
  assumes "wm_fresh kend fb (ui_wm s)" "fb_ok fb"
  shows "wm_fresh kend fb (ui_wm (ui_render s))"
proof -
  have ok: "fb_ok (g_fb (ui_wm s))" using assms by (simp add: wm_fresh_def)
  have k: "wm_fresh kend fb w'" if "fb_rest w' = fb_rest (ui_wm s)" for w'
    using fb_restD [OF that] more_wm [of w' "ui_wm s"] assms(1) by (simp add: wm_fresh_def)
  show ?thesis using k [OF splash_rest [OF ok]] k [OF login_rest [OF ok]] assms(1)
    by (simp add: ui_render_def splash_show_def split: ui_state.split)
qed

lemma turn_inv:
  assumes "ui_inv kend fb s" "fb_enabled fb" "fb_ok fb"
  shows "ui_inv kend fb (ui_turn kend s)"
proof -
  obtain r ev eq where deq: "events_dequeue (Some event_zero) (ui_events s) = (r, ev, eq)" by (cases "events_dequeue (Some event_zero) (ui_events s)") auto
  show ?thesis
  proof (cases "g_state s = UI_STATE_DESKTOP")
    case True
    then have w: "wm_reach kend fb (ui_wm s) \<or> wm_fresh kend fb (ui_wm s)" using assms(1) by (simp add: ui_inv_def)
    then have "wm_reach kend fb (wm_composite (ui_wm s)) \<or> wm_fresh kend fb (wm_composite (ui_wm s))"
      "wm_reach kend fb (snd (nanaura_handle_event kend e (u, ui_wm s))) \<or> wm_fresh kend fb (snd (nanaura_handle_event kend e (u, ui_wm s)))" for e u
      using handle_reach handle_fresh wr_composite fresh_composite by metis+
    then show ?thesis using assms(1) deq True by (simp add: ui_inv_def ui_turn_def nanaura_event_def Let_def split_beta)
  next
    case False
    then have f: "wm_fresh kend fb (ui_wm s)" using assms(1) by (simp add: ui_inv_def)
    obtain r' ops w' where i: "nanaura_init kend (ui_wm s) = (r', ops, w')" by (cases "nanaura_init kend (ui_wm s)") auto
    have "g_state (ui_render s) = g_state s" by (simp add: ui_render_def splash_show_def split: ui_state.split)
    moreover have "wm_reach kend fb w' \<or> wm_fresh kend fb w'" using init_desktop [OF f assms(2) i] by blast
    ultimately show ?thesis using f render_fresh [OF f assms(3)] False i deq
      by (simp add: ui_inv_def ui_turn_def ui_event_def Let_def)
  qed
qed

lemma run_inv:
  assumes "ui_inv kend fb s" "fb_enabled fb" "fb_ok fb"
  shows "ui_inv kend fb (ui_run kend acts s)"
  unfolding ui_run_def
proof (rule fold_induct)
  fix a t assume "ui_inv kend fb t"
  then show "ui_inv kend fb (ui_do kend a t)" using irq_inv turn_inv [OF _ assms(2,3)] by (cases a) simp_all
qed (rule assms(1))

lemma login_fresh_inv: "wm_fresh kend fb (ui_wm s) \<Longrightarrow> g_state s \<noteq> UI_STATE_DESKTOP \<Longrightarrow> ui_inv kend fb s"
  by (simp add: ui_inv_def)


lemma create_backbuf: "g_backbuf (snd (wm_create_window kend x y w h title flags s)) = g_backbuf s"
proof -
  have "g_backbuf (win_fill_default win c t) = g_backbuf t" for win c and t :: "'a wm_scheme"
    using fill_vmem [of win c t] by auto
  then show ?thesis by (simp add: wm_create_window_def wm_focus_window_def split_beta Let_def split: option.splits)
qed

definition demo_login :: ui where
  "demo_login = demo_ui\<lparr>g_state := UI_STATE_LOGIN, ui_login := login_static\<lparr>g_pass := ''nana'' @ replicate 28 NUL, g_pass_len := 4\<rparr>\<rparr>"

lemma enter_opens:
  fixes w :: wm
  assumes "fb_enabled (g_fb w)"
  shows "ui_wm (ui_run kend [Irq (Irq_key newline), Turn] (demo_login\<lparr>ui_wm := w\<rparr>)) = snd (snd (nanaura_init kend w)) \<and>
    g_state (ui_run kend [Irq (Irq_key newline), Turn] (demo_login\<lparr>ui_wm := w\<rparr>)) = UI_STATE_DESKTOP \<and>
    fst (events_dequeue (Some event_zero) (ui_events (ui_run kend [Irq (Irq_key newline), Turn] (demo_login\<lparr>ui_wm := w\<rparr>)))) \<noteq> 0"
proof -
  have "strcmp (''nana'' @ NUL # replicate 27 NUL) ''nana'' = 0" by (subst strcmp_buffer) (simp_all add: strcmp_zero)
  then have c: "login_screen_authenticate (login_static\<lparr>g_pass := ''nana'' @ replicate 28 NUL, g_pass_len := 4\<rparr>)"
    by (simp add: login_screen_authenticate_def numeral_eq_Suc)
  define l where "l = login_static\<lparr>g_pass := ''nana'' @ replicate 28 NUL, g_pass_len := 4\<rparr>"
  have nd: "\<not> g_done l" by (simp add: l_def login_static_def)
  define eq where "eq = snd (events_enqueue (key_event newline) events_static)"
  have deq: "events_dequeue (Some event_zero) eq = (0, Some (key_event newline), eq\<lparr>head := 1\<rparr>)"
    "fst (events_dequeue (Some event_zero) (eq\<lparr>head := 1\<rparr>)) \<noteq> 0"
    by (simp_all add: eq_def events_dequeue_def events_enqueue_def events_static_def EVENT_QUEUE_CAP_def Let_def nth_list_update)
  have h: "g_done (login_screen_handle_event (g_fb w) (Some (key_event newline)) l)"
    using nd c [folded l_def] by (simp add: login_screen_handle_event_def key_event_def login_key_def login_submit_def login_screen_transition_to_desktop_def
        char_of_int_of_char [of newline, simplified])
  have s1: "on_irq (Irq_key newline) (demo_login\<lparr>ui_wm := w\<rparr>) = demo_login\<lparr>ui_wm := w, ui_events := eq\<rparr>"
    by (simp add: demo_login_def demo_ui_def eq_def key_event_def)
  have s: "g_state (demo_login\<lparr>ui_wm := w, ui_events := eq\<rparr>) = UI_STATE_LOGIN" "ui_login (demo_login\<lparr>ui_wm := w, ui_events := eq\<rparr>) = l"
    by (simp_all add: demo_login_def l_def)
  have e: "fb_is_enabled w" using assms by (simp add: fb_is_enabled_def)
  have run: "ui_run kend [Irq (Irq_key newline), Turn] (demo_login\<lparr>ui_wm := w\<rparr>) = ui_turn kend (demo_login\<lparr>ui_wm := w, ui_events := eq\<rparr>)"
    unfolding ui_run_simps ui_do.simps s1 ..
  have turn: "ui_turn kend (demo_login\<lparr>ui_wm := w, ui_events := eq\<rparr>) =
      ui_event kend (key_event newline) (demo_login\<lparr>ui_wm := w, ui_events := eq\<lparr>head := 1\<rparr>\<rparr>)"
    using e s(1) deq(1) by (simp add: ui_turn_def)
  obtain r ops w' where i: "nanaura_init kend w = (r, ops, w')" by (cases "nanaura_init kend w") auto
  show ?thesis unfolding run turn using s h i deq(2)
    by (simp add: ui_event_def fb_get_def login_screen_is_done_def Let_def)
qed


subsection \<open>A screen too large for the heap\<close>

lemma fill_outside:
  assumes "unat p + 4 * nat (w * h) \<le> 2 ^ 64" "w * h < 2 ^ 63" "\<not> (unat p \<le> unat z \<and> unat z < unat p + 4 * nat (w * h))" 
    "wbuffer win = p" "ww win = w" "wh win = h"
  shows "vmem (win_fill_default win c s) z = vmem s z"
proof -
  let ?P = "\<lambda>t. vmem t z = vmem s z"
  have "?P (for_int h (\<lambda>y. for_int w (\<lambda>x s. s\<lparr>vmem := store32 (word_at p (of_int (y * w + x))) c (vmem s)\<rparr>)) s)"
  proof (rule for_int_induct)
    fix y t assume y: "0 \<le> y" "y < h" "?P t"
    show "?P (for_int w (\<lambda>x s. s\<lparr>vmem := store32 (word_at p (of_int (y * w + x))) c (vmem s)\<rparr>) t)"
    proof (rule for_int_induct)
      fix x u assume x: "0 \<le> x" "x < w" "?P u"
      note cell = cell_index [OF x(1,2) y(1,2)]
      have "unat (of_int (y * w + x) :: u64) = nat (y * w + x)" using cell assms(2) by (intro unat_of_int_small) auto
      then have "unat (of_int (y * w + x) :: u64) < nat (w * h)" using cell by simp
      then have "store32 (word_at p (of_int (y * w + x))) c (vmem u) z = vmem u z"
        using assms(1,3) by (rule store32_outside)
      then show "?P (u\<lparr>vmem := store32 (word_at p (of_int (y * w + x))) c (vmem u)\<rparr>)" using x(3) by simp
    qed (rule y(3))
  qed simp
  then show ?thesis using assms(4-6) by (simp add: win_fill_default_def)
qed

lemma create_screen:
  assumes "wm_fresh kend fb w" "screen_ok kend fb" "0 \<le> a" "0 \<le> b" "a * b * 4 \<le> 2 ^ 63" "z \<in> fb_region fb"
  shows "vmem (snd (wm_create_window kend x y a b title flags w)) z = vmem w z"
proof (cases "find (\<lambda>i. \<not> wused (g_windows w ! i)) [0..<WM_MAX_WINDOWS]")
  case (Some i)
  obtain p hp where k: "kmalloc kend (of_int a * of_int b * 4) (wm_heap w) = (p, hp)" by fastforce
  have i: "i < length (g_windows w)" using find_upt [OF Some] assms(1) by (simp add: wm_fresh_def)
  have hi: "heap_inv kend (wm_heap w)" using assms(1) by (simp add: wm_fresh_def)
  show ?thesis
  proof (cases "p = 0")
    case False
    have "of_int a * of_int b * 4 = (of_int (a * b * 4) :: u64)" by simp
    then have n: "unat (of_int a * of_int b * 4 :: u64) = nat (a * b * 4)"
      by (simp only:) (rule unat_of_int_small, use assms in auto)
    have nl: "unat (of_int a * of_int b * 4 :: u64) \<le> 2 ^ 63" unfolding n nat_le_iff using assms(5) by simp
    have s: "unat p = heap_brk kend (wm_heap w)" "heap_brk kend hp = heap_brk kend (wm_heap w) + (nat (a * b * 4) + 7) div 8 * 8"
      using kheap.alloc_some [OF hi nl k False] by (simp_all add: n)
    have lim: "unat kend \<le> heap_brk kend (wm_heap w)" "heap_brk kend hp \<le> unat kend + 8388608" "unat kend + 8388608 < 2 ^ 63"
      using kheap.ok_brk [OF hi] kheap.ok_brk [OF kheap.alloc_ok [OF hi nl k]] hi by (auto simp: heap_inv_def kend_ok_def)
    have "4 * nat (a * b) = nat (a * b * 4)" by simp
    then have fit: "unat p + 4 * nat (a * b) \<le> unat kend + 8388608"
      using s lim(2) round_up_8 [of "nat (a * b * 4)"] by linarith
    have z: "unat z < unat kend \<or> unat kend + 8388608 \<le> unat z" using assms(2,6) by (simp add: screen_ok_def)
    define t where "t = upd_window i (\<lambda>win. win\<lparr>wtitle := title_of title\<rparr>) (upd_window i (\<lambda>win. win\<lparr>wused := True, wx := x, wy := y,
        ww := a, wh := b, wactive := False, wflags := flags, wbuffer := p\<rparr>) (w\<lparr>wm_heap := hp\<rparr>))"
    have "snd (wm_create_window kend x y a b title flags w) = wm_focus_window (Some i) (win_fill_default (g_windows t ! i) 0xFF202830 t)"
      unfolding wm_create_window_def Some option.case k prod.case Let_def if_not_P [OF False] t_def by simp
    moreover have "vmem (wm_focus_window v u) z = vmem u z" for v and u :: wm by (simp add: wm_focus_window_def split: option.splits)
    moreover have "vmem (win_fill_default (g_windows t ! i) 0xFF202830 t) z = vmem t z"
      by (rule fill_outside [of p a b]) (use fit lim s z i assms(5) in \<open>auto simp: t_def upd_window_nth\<close>)
    moreover have "vmem t = vmem w" by (simp add: t_def)
    ultimately show ?thesis by simp
  qed (use Some k in \<open>simp add: wm_create_window_def Let_def\<close>)
qed (simp add: wm_create_window_def)

lemma dock_screen:
  assumes "wm_fresh kend fb w" "screen_ok kend fb" "z \<in> fb_region fb"
  shows "vmem (dock_click kend mx my w) z = vmem w z"
proof -
  have "wm_fresh kend fb (dock_click kend mx my w) \<and> vmem (dock_click kend mx my w) z = vmem w z"
    unfolding dock_click_def Let_def
  proof (rule for_int_induct)
    fix i t assume t: "wm_fresh kend fb t \<and> vmem t z = vmem w z"
    then have "wm_fresh kend fb (dock_window kend i t) \<and> vmem (dock_window kend i t) z = vmem w z"
      using create_fresh [of kend fb t] create_screen [of kend fb t _ _ z] assms(2,3) by (simp add: dock_window_def)
    then show "wm_fresh kend fb (if (sint (fb_width (fb_get w)) - 240) sdiv 2 + 16 + i * 72 \<le> mx \<and>
        mx < (sint (fb_width (fb_get w)) - 240) sdiv 2 + 16 + i * 72 + 32 \<and> sint (fb_height (fb_get w)) - 52 - 10 + 10 \<le> my \<and>
        my < sint (fb_height (fb_get w)) - 52 - 10 + 10 + 32 then dock_window kend i t else t) \<and>
      vmem (if (sint (fb_width (fb_get w)) - 240) sdiv 2 + 16 + i * 72 \<le> mx \<and>
        mx < (sint (fb_width (fb_get w)) - 240) sdiv 2 + 16 + i * 72 + 32 \<and> sint (fb_height (fb_get w)) - 52 - 10 + 10 \<le> my \<and>
        my < sint (fb_height (fb_get w)) - 52 - 10 + 10 + 32 then dock_window kend i t else t) z = vmem w z"
      using t by simp
  qed (simp add: assms(1))
  then show ?thesis by simp
qed

lemma mouse_vmem: "vmem (wm_handle_mouse x y b w) = vmem w"
proof -
  have "vmem (wm_press x y t) = vmem t" for x y and t :: "'a wm_scheme"
    by (simp add: wm_press_def wm_focus_window_def wm_close_window_def Let_def split: option.splits)
  moreover have "vmem (wm_drag x y l t) = vmem t" for x y l and t :: "'a wm_scheme"
    by (simp add: wm_drag_def split: option.splits)
  ultimately show ?thesis by (simp add: wm_handle_mouse_def Let_def)
qed

text \<open>The desktop without a back buffer, with the bytes of the screen as in \<open>m\<close>.\<close>

definition frozen :: "u64 \<Rightarrow> framebuffer \<Rightarrow> memory \<Rightarrow> ui \<Rightarrow> bool" where
  "frozen kend fb m s \<longleftrightarrow> g_state s = UI_STATE_DESKTOP \<and> wm_fresh kend fb (ui_wm s) \<and> (\<forall>z \<in> fb_region fb. vmem (ui_wm s) z = m z)"

lemma frozen_step:
  assumes "frozen kend fb m s" "screen_ok kend fb"
  shows "frozen kend fb m (ui_do kend a s)"
proof (cases a)
  case (Irq i)
  then show ?thesis using assms(1) on_irq_wm [of i s] fresh_moved by (auto simp: frozen_def)
next
  case Turn
  have f: "wm_fresh kend fb (ui_wm s)" and d: "g_state s = UI_STATE_DESKTOP" using assms(1) by (simp_all add: frozen_def)
  have "wm_fresh kend fb (ui_wm (ui_turn kend s)) \<and> (\<forall>z \<in> fb_region fb. vmem (ui_wm (ui_turn kend s)) z = vmem (ui_wm s) z)"
    using f d fresh_composite [OF f] handle_fresh [OF f, of _ "ui_ura s"] dock_screen [OF f assms(2)]
    by (auto simp: ui_turn_def nanaura_event_def nanaura_handle_event_def mouse_vmem wm_handle_key_def Let_def split_beta)
  then show ?thesis using assms(1) desktop_stays [OF d, of kend Turn] Turn by (simp add: frozen_def)
qed

text \<open>
  C40: on a screen whose back buffer does not fit the kernel heap of 8 MiB the desktop never appears.
  \<open>wm_init\<close> fails, \<open>ui_system_run\<close> ignores it and enters the desktop loop: from then on no pixel of the
  screen changes any more, whatever events arrive; the last picture of the login screen stays.
\<close>

theorem ui_desktop_frozen:
  assumes "screen_ok kend fb" "wm_fresh kend fb (ui_wm t)" "g_state t \<noteq> UI_STATE_DESKTOP"
    "8388608 < 4 * (unat (fb_width fb) * unat (fb_height fb))" "g_state (ui_run kend acts t) = UI_STATE_DESKTOP" "x < fb_width fb" "y < fb_height fb"
  shows "fb_pixel (ui_wm (ui_run kend (acts @ acts') t)) (x, y) = fb_pixel (ui_wm (ui_run kend acts t)) (x, y)"
proof -
  let ?u = "ui_run kend acts t"
  have en: "fb_enabled fb" "fb_ok fb" using assms(1) by (simp_all add: screen_ok_def)
  have "\<not> wm_reach kend fb (ui_wm ?u)"
  proof
    assume "wm_reach kend fb (ui_wm ?u)"
    then have i: "wm_inv kend fb (ui_wm ?u)" by (rule wm_reach_inv [OF _ assms(1)])
    note k = wm_invD(2,3,4,7,8) [OF i]
    show False using k assms(4) wm_brk_limit [OF k(1)] by (simp add: bb_count_def)
  qed
  moreover have "ui_inv kend fb ?u" by (rule run_inv [OF login_fresh_inv [OF assms(2,3)] en])
  ultimately have u: "frozen kend fb (vmem (ui_wm ?u)) ?u" using assms(5) by (simp add: ui_inv_def frozen_def)
  have "frozen kend fb (vmem (ui_wm ?u)) (ui_run kend acts' ?u)" unfolding ui_run_def [of kend acts' ?u]
    by (rule fold_induct [where P = "frozen kend fb (vmem (ui_wm ?u))", OF u]) (rule frozen_step [OF _ assms(1)])
  then have v: "frozen kend fb (vmem (ui_wm ?u)) (ui_run kend (acts @ acts') t)" by (simp add: ui_run_def)
  have g: "g_fb (ui_wm (ui_run kend (acts @ acts') t)) = fb" "g_fb (ui_wm ?u) = fb" using v u by (simp_all add: frozen_def wm_fresh_def)
  have "fb_pos fb x y + of_nat k \<in> fb_region fb" if "k < 3" for k
    using fb_pos_region [OF en(2,1) assms(6,7)] that assms(1) by (simp add: screen_ok_def fb_stride_def)
  from this [of 0] this [of 1] this [of 2] v show ?thesis by (simp add: fb_pixel_def g frozen_def Let_def)
qed

definition big_wm :: wm where
  "big_wm = demo_wm\<lparr>g_fb := \<lparr>fb_addr = 0xE0000000, fb_width = 2048, fb_height = 1536, fb_pitch = 8192, fb_bpp = 32, fb_enabled = True\<rparr>\<rparr>"

theorem ui_desktop_frozen_witness:
  "fb_pixel (ui_wm (ui_run 0x200000 ([Irq (Irq_key newline), Turn] @ [Turn, Irq (Irq_mouse 9), Turn]) (demo_login\<lparr>ui_wm := big_wm\<rparr>))) (1024, 768) =
   fb_pixel (ui_wm (ui_run 0x200000 [Irq (Irq_key newline), Turn] (demo_login\<lparr>ui_wm := big_wm\<rparr>))) (1024, 768)"
proof (rule ui_desktop_frozen)
  show "screen_ok 0x200000 (g_fb big_wm)"
    by (auto simp: big_wm_def screen_ok_def fb_ok_def fb_stride_def fb_size_def fb_region_def)
  show "wm_fresh 0x200000 (g_fb big_wm) (ui_wm (demo_login\<lparr>ui_wm := big_wm\<rparr>))"
    using heap_inv_static [of "0x200000"] by (simp add: wm_fresh_def big_wm_def) (simp add: demo_wm_def kend_ok_def)
  show "g_state (ui_run 0x200000 [Irq (Irq_key newline), Turn] (demo_login\<lparr>ui_wm := big_wm\<rparr>)) = UI_STATE_DESKTOP"
    using enter_opens [of big_wm "0x200000"] by (simp add: big_wm_def)
qed (simp_all add: big_wm_def demo_login_def)

end
