(* ===== verification/Shell.thy ===== *)
theory Shell
  imports Syscall Pmm
begin

text \<open>
  The text shell (\<open>kernel/core/shell.c\<close>), with the comparison of command names it calls
  (\<open>rust/nanarust/src/lib.rs\<close>) and the memory report (\<open>kernel/memory/memory.c\<close>): a line editor fed by
  the keyboard handler, and the commands. A command that never returns is \<open>None\<close>; one that gives the
  processor to a program is \<open>Switched\<close>, since nothing resumes the kernel after that (see
  \<open>Scheduler\<close>). The arrays \<open>arg\<close> and \<open>buf\<close> of a handler, whose addresses are passed to system calls,
  lie at addresses of the environment.
\<close>

subsection \<open>State\<close>

text \<open>What the commands work on: the working directory, the kernel's state, the frame allocator.\<close>

record shell_core =
  cwd :: u64
  cwd_path :: string
  sh_sys :: sys
  sh_pmm :: pmm

record shell =
  linebuf :: string
  linepos :: nat
  sh_core :: shell_core

text \<open>
  The heap's start, the kernel's address space, the heap memory a new process finds, whether
  interrupts are on, and the stack addresses of \<open>arg\<close> and \<open>buf\<close>.
\<close>

record shell_env =
  env_kend :: u64
  env_kas :: u64
  env_uninit :: string
  env_iflag :: bool
  env_arg :: u64
  env_buf :: u64

datatype outcome = Returned | Switched

type_synonym cmdres = "(outcome \<times> console_op list \<times> shell_core) option"

definition done_with :: "console_op list \<Rightarrow> shell_core \<Rightarrow> cmdres" where
  "done_with ops c = Some (Returned, ops, c)"

definition sh_vfs :: "shell_core \<Rightarrow> vfs" where "sh_vfs c = sc_vfs (sh_sys c)"

definition put_sh_vfs :: "vfs \<Rightarrow> shell_core \<Rightarrow> shell_core" where
  "put_sh_vfs v c = c\<lparr>sh_sys := put_vfs v (sh_sys c)\<rparr>"

subsection \<open>Comparing command names\<close>

definition to_upper_ascii :: "u8 \<Rightarrow> u8" where
  "to_upper_ascii b = (if 97 \<le> b \<and> b \<le> 122 then b - 32 else b)"

definition nanarust_cmd_eq :: "string \<Rightarrow> string \<Rightarrow> bool" where
  "nanarust_cmd_eq a b \<longleftrightarrow> strlen a = strlen b \<and>
     (\<forall>i < strlen a. to_upper_ascii (of_char (cs_at a i)) = to_upper_ascii (of_char (cs_at b i)))"

subsection \<open>Reports\<close>

definition print_number :: "string \<Rightarrow> u64 \<Rightarrow> string \<Rightarrow> console_op list option" where
  "print_number before n after = map_option (\<lambda>buf. [TermString before, TermString buf, TermString after]) (itoa n 10)"

definition print_meminfo :: "pmm \<Rightarrow> console_op list option" where
  "print_meminfo p =
     (let total = pmm_total_memory p; free = pmm_free_memory p; used = pmm_used_memory p;
          free_frames = free div 4096; used_frames = used div 4096
      in case print_number ''Total Memory: '' (total div 1024) ('' KB'' @ [newline]) of None \<Rightarrow> None | Some o1 \<Rightarrow>
         case print_number ''Free Memory : '' (free div 1024) ('' KB'' @ [newline]) of None \<Rightarrow> None | Some o2 \<Rightarrow>
         case print_number ''Used Memory : '' (used div 1024) ('' KB'' @ [newline]) of None \<Rightarrow> None | Some o3 \<Rightarrow>
         case print_number ''Free frames : '' free_frames [newline] of None \<Rightarrow> None | Some o4 \<Rightarrow>
         case print_number ''Used frames : '' used_frames [newline] of None \<Rightarrow> None | Some o5 \<Rightarrow>
         Some (o1 @ o2 @ o3 @ o4 @ o5))"

definition print_uptime :: "pit \<Rightarrow> console_op list option" where
  "print_uptime p = print_number ''Uptime: '' (uptime_seconds p) ('' segundos'' @ [newline])"

subsection \<open>Parsing a line\<close>

text \<open>The name is the first word, cut at 31 characters; the argument is the rest after the spaces.\<close>

fun scan_word :: "nat \<Rightarrow> string \<Rightarrow> string \<times> string" where
  "scan_word 0 s = ('''', s)"
| "scan_word (Suc k) [] = ('''', [])"
| "scan_word (Suc k) (c # s) =
     (if c = NUL \<or> c = CHR '' '' then ('''', c # s) else let (w, r) = scan_word k s in (c # w, r))"

definition skip_spaces :: "string \<Rightarrow> string" where
  "skip_spaces s = dropWhile (\<lambda>c. c = CHR '' '') s"

definition parse_command :: "string \<Rightarrow> string \<times> string" where
  "parse_command cmd = (let (name, rest) = scan_word 31 (skip_spaces cmd) in (name, List.take 127 (c_str (skip_spaces rest))))"

subsection \<open>Commands\<close>

definition update_cwd_path :: "shell_core \<Rightarrow> shell_core option" where
  "update_cwd_path c =
     (if cwd c \<noteq> 0 then
        case vfs_get_path (cwd c) 256 (sh_vfs c) of None \<Rightarrow> None
        | Some None \<Rightarrow> Some c
        | Some (Some p) \<Rightarrow> Some (c\<lparr>cwd_path := p\<rparr>)
      else Some (c\<lparr>cwd_path := ''/''\<rparr>))"

definition cmd_uptime :: "shell_core \<Rightarrow> cmdres" where
  "cmd_uptime c = map_option (\<lambda>ops. (Returned, ops, c))
     (print_number ''Uptime: '' (uptime_seconds (sc_pit (sh_sys c))) ('' seconds'' @ [newline]))"

definition cmd_ls :: "shell_env \<Rightarrow> string \<Rightarrow> shell_core \<Rightarrow> cmdres" where
  "cmd_ls e arg c =
     (case vfs_list_dir (env_kend e) (Some (if arg \<noteq> '''' then arg else ''.'')) (cwd c) (sh_vfs c) of None \<Rightarrow> None
      | Some ((r, ops), v) \<Rightarrow>
        done_with (ops @ (if r < 0 then [TermString (''ls: not a directory'' @ [newline])] else [])) (put_sh_vfs v c))"

text \<open>The read loop of \<open>cat\<close>: chunks of at most 127 bytes through the array \<open>buf\<close>.\<close>

partial_function (option) cat_loop :: "shell_env \<Rightarrow> u64 \<Rightarrow> console_op list \<Rightarrow> sys \<Rightarrow> (console_op list \<times> sys) option" where
  "cat_loop e d out s =
     (case syscall_dispatch (env_kend e) (env_iflag e) 2 d (env_buf e) 127 s of None \<Rightarrow> None
      | Some (n, ops, s1) \<Rightarrow>
        if int_of n \<le> 0 then Some (out @ ops, s1)
        else let s2 = s1\<lparr>sc_mem := (sc_mem s1)(env_buf e + of_int (int_of n) := 0)\<rparr>
        in case syscall_dispatch (env_kend e) (env_iflag e) 1 1 (env_buf e) (of_int (int_of n)) s2 of None \<Rightarrow> None
        | Some (m, ops', s3) \<Rightarrow> cat_loop e d (out @ ops @ ops') s3)"

text \<open>\<open>arg\<close> is an array of 128 characters, cleared before the argument is copied into it.\<close>

definition store_arg :: "shell_env \<Rightarrow> string \<Rightarrow> sys \<Rightarrow> sys" where
  "store_arg e arg s = s\<lparr>sc_mem := store_bytes (env_arg e) (c_bytes arg @ replicate (128 - length arg) 0) (sc_mem s)\<rparr>"

definition cmd_cat :: "shell_env \<Rightarrow> string \<Rightarrow> shell_core \<Rightarrow> cmdres" where
  "cmd_cat e arg c =
     (if arg = '''' then done_with [TermString (''cat: missing path'' @ [newline])] c
      else case syscall_dispatch (env_kend e) (env_iflag e) 5 (env_arg e) 0 0 (store_arg e arg (sh_sys c)) of None \<Rightarrow> None
      | Some (r, ops, s1) \<Rightarrow>
        let d = int_of r
        in if d < 0 then done_with (ops @ [TermString (''cat: file not found'' @ [newline])]) (c\<lparr>sh_sys := s1\<rparr>)
        else case cat_loop e (of_int d) ops s1 of None \<Rightarrow> None
        | Some (out, s2) \<Rightarrow>
          case syscall_dispatch (env_kend e) (env_iflag e) 6 (of_int d) 0 0 s2 of None \<Rightarrow> None
          | Some (_, ops', s3) \<Rightarrow> done_with (out @ ops') (c\<lparr>sh_sys := s3\<rparr>))"

definition cmd_create :: "shell_env \<Rightarrow> string \<Rightarrow> bool \<Rightarrow> string \<Rightarrow> shell_core \<Rightarrow> cmdres" where
  "cmd_create e what is_dir arg c =
     (if arg = '''' then done_with [TermString (what @ '': missing path'' @ [newline])] c
      else case vfs_create (env_kend e) (Some arg) is_dir (cwd c) (sh_vfs c) of None \<Rightarrow> None
      | Some (n, v) \<Rightarrow> done_with (if n = 0 then [TermString (what @ '': failed'' @ [newline])] else []) (put_sh_vfs v c))"

definition cmd_cd :: "shell_env \<Rightarrow> string \<Rightarrow> shell_core \<Rightarrow> cmdres" where
  "cmd_cd e arg c =
     (if arg = '''' then map_option (\<lambda>c'. (Returned, [], c')) (update_cwd_path (c\<lparr>cwd := vfs_get_root (sh_vfs c)\<rparr>))
      else case vfs_resolve (env_kend e) (Some arg) (cwd c) (sh_vfs c) of None \<Rightarrow> None
      | Some (n, v) \<Rightarrow>
        let c1 = put_sh_vfs v c
        in if n = 0 then done_with [TermString (''cd: not found'' @ [newline])] c1
        else case vfs_list_dir (env_kend e) (Some arg) (cwd c1) (sh_vfs c1) of None \<Rightarrow> None
        | Some ((r, ops), v') \<Rightarrow>
          let c2 = put_sh_vfs v' c1
          in if r = 0 then map_option (\<lambda>c'. (Returned, ops, c')) (update_cwd_path (c2\<lparr>cwd := n\<rparr>))
             else done_with (ops @ [TermString (''cd: not a directory'' @ [newline])]) c2)"

text \<open>
  Waiting for process \<open>p\<close>: until it is terminated, yield. A yield that finds no other process comes
  straight back; one that switches leaves this loop for good.
\<close>

partial_function (option) wait_loop :: "u64 \<Rightarrow> sched \<Rightarrow> (outcome \<times> console_op list \<times> sched) option" where
  "wait_loop p s =
     (case procs s p of None \<Rightarrow> None
      | Some n \<Rightarrow>
        case process_find_by_pid (pid n) s of None \<Rightarrow> None
        | Some pp \<Rightarrow>
          if pp \<noteq> 0 \<and> state_of (procs s) pp = Some PROC_TERMINATED then
            case procs s pp of None \<Rightarrow> None
            | Some m \<Rightarrow> map_option (\<lambda>ops. (Returned, ops, s)) (print_number ''process exited with code '' (of_int (exit_code m)) [newline])
          else case pick_next s of None \<Rightarrow> None
          | Some nx \<Rightarrow>
            case scheduler_yield s of None \<Rightarrow> None
            | Some s' \<Rightarrow> if nx = 0 \<or> nx = current s then wait_loop p s' else Some (Switched, [], s'))"

definition exec_and_wait :: "shell_env \<Rightarrow> string \<Rightarrow> shell_core \<Rightarrow> cmdres" where
  "exec_and_wait e path c =
     (case process_exec (env_kend e) (env_kas e) (env_uninit e) (Some path) None 1 (sc_sched (sh_sys c), sh_vfs c) of None \<Rightarrow> None
      | Some (p, ops, s, v) \<Rightarrow>
        let c1 = c\<lparr>sh_sys := (sh_sys c)\<lparr>sc_sched := s, sc_vfs := v\<rparr>\<rparr>
        in if p = 0 then done_with (ops @ [TermString (''exec: failed'' @ [newline])]) c1
        else case wait_loop p s of None \<Rightarrow> None
        | Some (r, ops', s') \<Rightarrow> Some (r, ops @ ops', c1\<lparr>sh_sys := (sh_sys c1)\<lparr>sc_sched := s'\<rparr>\<rparr>))"

definition cmd_exec :: "shell_env \<Rightarrow> string \<Rightarrow> shell_core \<Rightarrow> cmdres" where
  "cmd_exec e arg c = (if arg = '''' then done_with [TermString (''exec: missing path'' @ [newline])] c else exec_and_wait e arg c)"

definition cmd_ps :: "shell_core \<Rightarrow> cmdres" where
  "cmd_ps c = map_option (\<lambda>ops. (Returned, ops, c)) (process_list (sc_sched (sh_sys c)))"

definition cmd_kill :: "string \<Rightarrow> shell_core \<Rightarrow> cmdres" where
  "cmd_kill arg c =
     (if arg = '''' then done_with [TermString (''kill: missing pid'' @ [newline])] c
      else case atoi arg of None \<Rightarrow> None
      | Some k \<Rightarrow>
        case process_kill (of_int k) (sc_sched (sh_sys c)) of None \<Rightarrow> None
        | Some (r, s) \<Rightarrow>
          done_with [TermString ((if r = 0 then ''killed'' else ''kill: failed'') @ [newline])] (c\<lparr>sh_sys := put_sched s (sh_sys c)\<rparr>))"

text \<open>Any other name: a program of \<open>/bin\<close>, if there is one.\<close>

definition cmd_other :: "shell_env \<Rightarrow> string \<Rightarrow> string \<Rightarrow> shell_core \<Rightarrow> cmdres" where
  "cmd_other e cmd name c =
     (let binpath = ''/bin/'' @ List.take 58 name
      in case vfs_read_file (env_kend e) (Some binpath) (cwd c) (sh_vfs c) of None \<Rightarrow> None
      | Some ((bdata, blen), v) \<Rightarrow>
        let c1 = put_sh_vfs v c
        in if bdata \<noteq> None \<and> (case blen of None \<Rightarrow> 0 | Some l \<Rightarrow> l) > 0 then exec_and_wait e binpath c1
           else done_with [TermString ''Unknown command: '', TermString cmd, TermString [newline]] c1)"

definition help_text :: string where
  "help_text = ''Commands: help clear version about uptime echo ls cat touch mkdir pwd cd meminfo'' @ [newline]"

definition shell_about :: string where
  "shell_about = ''nanaos '' @ [CHR 0xE2, CHR 0x80, CHR 0x94] @ '' simple educational kernel'' @ [newline]"

text \<open>Some commands are compared with the first word, others with the whole line.\<close>

definition handle_command :: "shell_env \<Rightarrow> string \<Rightarrow> shell_core \<Rightarrow> cmdres" where
  "handle_command e cmd c =
     (if cs_at cmd 0 = NUL then done_with [] c
      else let (name, arg) = parse_command cmd
      in if nanarust_cmd_eq name ''help'' then done_with [TermString help_text] c
      else if nanarust_cmd_eq cmd ''clear'' then done_with [TermClear] c
      else if nanarust_cmd_eq cmd ''version'' then done_with [TermString (''nanaos v0.1'' @ [newline])] c
      else if nanarust_cmd_eq cmd ''about'' then done_with [TermString shell_about] c
      else if nanarust_cmd_eq cmd ''uptime'' then cmd_uptime c
      else if nanarust_cmd_eq name ''echo'' then done_with [TermString arg, TermString [newline]] c
      else if nanarust_cmd_eq name ''ls'' then cmd_ls e arg c
      else if nanarust_cmd_eq name ''cat'' then cmd_cat e arg c
      else if nanarust_cmd_eq name ''touch'' then cmd_create e ''touch'' False arg c
      else if nanarust_cmd_eq name ''mkdir'' then cmd_create e ''mkdir'' True arg c
      else if nanarust_cmd_eq name ''pwd'' then done_with [TermString (cwd_path c), TermString [newline]] c
      else if nanarust_cmd_eq name ''cd'' then cmd_cd e arg c
      else if nanarust_cmd_eq cmd ''meminfo'' then map_option (\<lambda>ops. (Returned, ops, c)) (print_meminfo (sh_pmm c))
      else if nanarust_cmd_eq name ''exec'' then cmd_exec e arg c
      else if nanarust_cmd_eq name ''ps'' then cmd_ps c
      else if nanarust_cmd_eq name ''kill'' then cmd_kill arg c
      else cmd_other e cmd name c)"

subsection \<open>The line editor\<close>

definition shell_prompt :: "console_op list" where
  "shell_prompt = [TermString ([newline] @ ''> '')]"

definition shell_init :: "shell \<Rightarrow> (console_op list \<times> shell) option" where
  "shell_init s =
     map_option (\<lambda>c. ([TermString ([newline] @ ''nanaos shell v0.1'' @ [newline])] @ shell_prompt, s\<lparr>sh_core := c\<rparr>))
       (update_cwd_path ((sh_core s)\<lparr>cwd := vfs_get_root (sh_vfs (sh_core s))\<rparr>))"

definition shell_receive_char :: "shell_env \<Rightarrow> char \<Rightarrow> shell \<Rightarrow> (outcome \<times> console_op list \<times> shell) option" where
  "shell_receive_char e ch s =
     (if ch = newline then
        let s1 = s\<lparr>linebuf := (linebuf s)[linepos s := NUL]\<rparr>
        in case handle_command e (c_str (linebuf s1)) (sh_core s1) of None \<Rightarrow> None
        | Some (Switched, ops, c) \<Rightarrow> Some (Switched, ops, s1\<lparr>sh_core := c\<rparr>)
        | Some (Returned, ops, c) \<Rightarrow> Some (Returned, ops @ shell_prompt, s1\<lparr>sh_core := c, linepos := 0\<rparr>)
      else if ch = backspace then
        if linepos s > 0 then Some (Returned, [TermChar backspace], s\<lparr>linepos := linepos s - 1\<rparr>) else Some (Returned, [], s)
      else if linepos s < 127
        then Some (Returned, [TermChar ch], s\<lparr>linebuf := (linebuf s)[linepos s := ch], linepos := linepos s + 1\<rparr>)
      else Some (Returned, [], s))"

subsection \<open>The line editor refines a line of text\<close>

text \<open>
  What the user means by a session: a line of at most 127 characters, edited by the keys; a newline gives
  it to the commands and starts an empty one, unless a command hands the processor away.
\<close>

definition sh_edit :: "char \<Rightarrow> string \<Rightarrow> string" where
  "sh_edit ch l = (if ch = backspace then butlast l else if length l < 127 then l @ [ch] else l)"

definition sh_echo :: "char \<Rightarrow> string \<Rightarrow> console_op list" where
  "sh_echo ch l =
     (if (if ch = backspace then l \<noteq> [] else length l < 127) then [TermChar ch] else [])"

type_synonym session = "(outcome \<times> console_op list \<times> string \<times> shell_core) option"

fun session :: "shell_env \<Rightarrow> string \<Rightarrow> string \<Rightarrow> shell_core \<Rightarrow> session" where
  "session e [] l c = Some (Returned, [], l, c)"
| "session e (ch # cs) l c =
     (if ch = newline then
        case handle_command e l c of None \<Rightarrow> None
        | Some (Switched, ops, c') \<Rightarrow> Some (Switched, ops, l, c')
        | Some (Returned, ops, c') \<Rightarrow>
          map_option (\<lambda>(r, ops', x). (r, ops @ shell_prompt @ ops', x)) (session e cs [] c')
      else map_option (\<lambda>(r, ops, x). (r, sh_echo ch l @ ops, x)) (session e cs (sh_edit ch l) c))"

fun shell_type :: "shell_env \<Rightarrow> string \<Rightarrow> shell \<Rightarrow> (outcome \<times> console_op list \<times> shell) option" where
  "shell_type e [] s = Some (Returned, [], s)"
| "shell_type e (ch # cs) s =
     (case shell_receive_char e ch s of None \<Rightarrow> None
      | Some (Switched, ops, s') \<Rightarrow> Some (Switched, ops, s')
      | Some (Returned, ops, s') \<Rightarrow> map_option (\<lambda>(r, ops', t). (r, ops @ ops', t)) (shell_type e cs s'))"

definition shell_line :: "shell \<Rightarrow> string" where
  "shell_line s = List.take (linepos s) (linebuf s)"

definition sh_ok :: "shell \<Rightarrow> bool" where
  "sh_ok s \<longleftrightarrow> length (linebuf s) = 128 \<and> linepos s < 128 \<and> is_cstr (shell_line s)"

lemma c_str_end: "is_cstr l \<Longrightarrow> c_str (l @ NUL # t) = l"
  by (induction l) (auto simp: c_str_def)

lemma buffer_end: "n < length b \<Longrightarrow> b[n := c] = List.take n b @ c # drop (Suc n) b"
  by (simp add: upd_conv_take_nth_drop)

lemma shell_commits: "sh_ok s \<Longrightarrow> c_str ((linebuf s)[linepos s := NUL]) = shell_line s"
  by (simp add: sh_ok_def buffer_end c_str_end shell_line_def)

lemma shell_pushes:
  assumes "sh_ok s" "linepos s < 127" "ch \<noteq> NUL"
  shows "shell_line (s\<lparr>linebuf := (linebuf s)[linepos s := ch], linepos := linepos s + 1\<rparr>) = shell_line s @ [ch] \<and>
    sh_ok (s\<lparr>linebuf := (linebuf s)[linepos s := ch], linepos := linepos s + 1\<rparr>)"
  using assms by (auto simp: sh_ok_def shell_line_def take_Suc_conv_app_nth is_cstr_def)

lemma shell_pops:
  assumes "sh_ok s" "linepos s > 0"
  shows "shell_line (s\<lparr>linepos := linepos s - 1\<rparr>) = butlast (shell_line s) \<and> sh_ok (s\<lparr>linepos := linepos s - 1\<rparr>)"
proof -
  have "set (List.take (linepos s - 1) (linebuf s)) \<subseteq> set (List.take (linepos s) (linebuf s))" by (rule set_take_subset_set_take) simp
  then show ?thesis using assms by (auto simp: sh_ok_def shell_line_def butlast_take is_cstr_def)
qed

lemma length_shell_line: "sh_ok s \<Longrightarrow> length (shell_line s) = linepos s"
  by (simp add: sh_ok_def shell_line_def)

lemma shell_key:
  assumes "sh_ok s" "ch \<noteq> newline" "ch \<noteq> NUL"
  shows "\<exists>s'. shell_receive_char e ch s = Some (Returned, sh_echo ch (shell_line s), s') \<and>
    shell_line s' = sh_edit ch (shell_line s) \<and> sh_core s' = sh_core s \<and> sh_ok s'"
  using assms shell_pushes [OF assms(1)] shell_pops [OF assms(1)] length_shell_line [OF assms(1)]
  by (auto simp: shell_receive_char_def sh_edit_def sh_echo_def)

text \<open>
  C13: the line editor. Whatever is typed after the prompt, with any number of lines, the 128-byte buffer
  and its index behave like a line of text: what is echoed, which command runs with which line, in which
  state, and the line under edit at the end are those of the session, and no line grows beyond 127
  characters, so the terminating NUL always fits.
\<close>

theorem shell_session_refines:
  assumes "sh_ok s" "NUL \<notin> set cs"
  shows "map_option (\<lambda>(r, ops, t). (r, ops, shell_line t, sh_core t)) (shell_type e cs s) =
    session e cs (shell_line s) (sh_core s)"
  using assms
proof (induction cs arbitrary: s)
  case (Cons ch cs)
  show ?case
  proof (cases "ch = newline")
    case True
    show ?thesis
    proof (cases "handle_command e (shell_line s) (sh_core s)")
      case (Some z)
      obtain r ops c where z: "z = (r, ops, c)" by (cases z)
      let ?t = "s\<lparr>linebuf := (linebuf s)[linepos s := NUL], sh_core := c, linepos := 0\<rparr>"
      have "sh_ok ?t" "shell_line ?t = []" using Cons.prems(1) by (simp_all add: sh_ok_def shell_line_def)
      then have t: "map_option (\<lambda>(r, ops, t). (r, ops, shell_line t, sh_core t)) (shell_type e cs ?t) = session e cs [] c"
        using Cons.IH [of ?t] Cons.prems(2) by simp
      show ?thesis
      proof (cases r)
        case Returned
        then show ?thesis using True Some z Cons.prems(1) t [symmetric]
          by (simp add: shell_receive_char_def shell_commits option.map_comp comp_def split_beta)
      next
        case Switched
        then show ?thesis using True Some z Cons.prems(1)
          by (simp add: shell_receive_char_def shell_commits shell_line_def)
      qed
    qed (use True Cons.prems in \<open>simp add: shell_receive_char_def shell_commits\<close>)
  next
    case False
    then obtain s' where s': "shell_receive_char e ch s = Some (Returned, sh_echo ch (shell_line s), s')"
      "shell_line s' = sh_edit ch (shell_line s)" "sh_core s' = sh_core s" "sh_ok s'"
      using shell_key [OF Cons.prems(1)] Cons.prems(2) by (metis list.set_intros(1))
    have t: "map_option (\<lambda>(r, ops, t). (r, ops, shell_line t, sh_core t)) (shell_type e cs s') =
      session e cs (sh_edit ch (shell_line s)) (sh_core s)"
      using Cons.IH [OF s'(4)] Cons.prems(2) s'(2,3) by simp
    show ?thesis using False s'(1) t [symmetric] by (simp add: option.map_comp comp_def split_beta)
  qed
qed (simp add: shell_line_def)

subsection \<open>Command names\<close>

text \<open>Two letters that differ in case only.\<close>

definition same_letter :: "char \<Rightarrow> char \<Rightarrow> bool" where
  "same_letter c d \<longleftrightarrow> c = d \<or> (\<exists>k < 26. {c, d} = {char_of (65 + k :: nat), char_of (97 + k :: nat)})"

lemma unat_of_char: "unat (of_char c :: u8) = of_char c"
proof -
  have "(of_char c :: nat) < 256" by simp
  then show ?thesis using unat_of_nat_small [of "of_char c", where 'a = 8] by (simp add: of_char_def horner_sum_foldr)
qed

lemma byte_char_of_char [simp]: "byte_char (of_char c) = c"
  by (simp add: byte_char_def unat_of_char)

lemma upper_nat: "unat (to_upper_ascii (of_char c)) = (let x = of_char c in if 97 \<le> x \<and> x \<le> 122 then x - 32 else x)"
proof -
  show ?thesis by (auto simp: to_upper_ascii_def word_le_nat_alt Let_def unat_minus_exact unat_of_char)
qed

lemma upper_same: "to_upper_ascii (of_char c) = to_upper_ascii (of_char d) \<longleftrightarrow> same_letter c d"
proof -
  define x y :: nat where "x = of_char c" and "y = of_char d"
  have b: "x < 256" "y < 256" by (simp_all add: x_def y_def)
  have cd: "c = char_of x" "d = char_of y" by (simp_all add: x_def y_def)
  have e: "c = char_of k \<longleftrightarrow> x = k" "d = char_of k \<longleftrightarrow> y = k" if "k < 256" for k
    using that by (auto simp: x_def y_def char_of_eq_iff)
  have "same_letter c d \<longleftrightarrow> x = y \<or> (\<exists>k < 26. (x = 65 + k \<and> y = 97 + k) \<or> (x = 97 + k \<and> y = 65 + k))"
    unfolding same_letter_def doubleton_eq_iff by (auto simp: e x_def y_def)
  also have "\<dots> \<longleftrightarrow> (if 97 \<le> x \<and> x \<le> 122 then x - 32 else x) = (if 97 \<le> y \<and> y \<le> 122 then y - 32 else y)"
    by (rule iffI, force, cases "x = y", simp, cases "97 \<le> x \<and> x \<le> 122")
      (rule disjI2, rule exI [of _ "x - 97"], force split: if_splits, rule disjI2, rule exI [of _ "y - 97"], force split: if_splits)
  finally show ?thesis by (simp add: word_unat_eq_iff upper_nat x_def y_def Let_def)
qed

lemma cmd_eq_iff: "is_cstr a \<Longrightarrow> is_cstr b \<Longrightarrow> nanarust_cmd_eq a b \<longleftrightarrow> list_all2 same_letter a b"
  by (auto simp: nanarust_cmd_eq_def list_all2_conv_all_nth cs_at_def upper_same)

text \<open>For words on the page the comparison is one of lists.\<close>

lemma cmd_eq_map:
  "is_cstr a \<Longrightarrow> is_cstr b \<Longrightarrow>
     nanarust_cmd_eq a b \<longleftrightarrow> map (\<lambda>c. to_upper_ascii (of_char c)) a = map (\<lambda>c. to_upper_ascii (of_char c)) b"
  by (auto simp: cmd_eq_iff upper_same [symmetric] list_all2_conv_all_nth list_eq_iff_nth_eq)

lemmas cmd_words = cmd_eq_map to_upper_ascii_def

lemma space_differs: "CHR '' '' \<in> set a \<Longrightarrow> CHR '' '' \<notin> set b \<Longrightarrow> is_cstr a \<Longrightarrow> is_cstr b \<Longrightarrow> \<not> nanarust_cmd_eq a b"
proof
  assume a: "CHR '' '' \<in> set a" "CHR '' '' \<notin> set b" and "is_cstr a" "is_cstr b" "nanarust_cmd_eq a b"
  then have "list_all2 same_letter a b" by (simp add: cmd_eq_iff)
  then obtain d where "d \<in> set b" "same_letter CHR '' '' d" using a(1) by (metis in_set_conv_nth list_all2_conv_all_nth)
  moreover have "to_upper_ascii (of_char d) = 32 \<longleftrightarrow> d = CHR '' ''" for d :: char
  proof -
    have "of_char d = (32 :: nat) \<longleftrightarrow> d = CHR '' ''" using of_char_eq_iff [of d "CHR '' ''", where 'a = nat] by simp
    then show ?thesis using upper_nat [of d] by (auto simp: Let_def word_unat_eq_iff split: if_splits)
  qed
  ultimately show False using a(2) upper_same [of "CHR '' ''" d] by (simp add: to_upper_ascii_def)
qed

lemma scan_word_plain: "is_cstr w \<Longrightarrow> CHR '' '' \<notin> set w \<Longrightarrow> length w \<le> k \<Longrightarrow> scan_word k (w @ replicate b CHR '' '') =
    (w, replicate b CHR '' '')"
proof (induction w arbitrary: k)
  case Nil
  then show ?case by (cases k; cases b) simp_all
next
  case (Cons c w)
  then show ?case by (cases k) auto
qed

lemma skip_spaces_replicate: "skip_spaces (replicate a CHR '' '' @ w) = skip_spaces w"
  by (induction a) (simp_all add: skip_spaces_def)

lemma skip_spaces_word: "w \<noteq> [] \<Longrightarrow> CHR '' '' \<notin> set w \<Longrightarrow> skip_spaces (w @ t) = w @ t"
  by (cases w) (auto simp: skip_spaces_def)

lemma parse_padded:
  assumes "is_cstr w" "CHR '' '' \<notin> set w" "w \<noteq> []" "length w \<le> 31"
  shows "parse_command (replicate a CHR '' '' @ w @ replicate b CHR '' '') = (w, '''')"
  using assms skip_spaces_replicate [of b "[]"]
  by (simp add: parse_command_def skip_spaces_replicate skip_spaces_word scan_word_plain c_str_def) (simp add: skip_spaces_def)

definition whole_line_commands :: "string list" where
  "whole_line_commands = [''clear'', ''version'', ''about'', ''uptime'', ''meminfo'']"

definition first_word_commands :: "string list" where
  "first_word_commands = [''help'', ''echo'', ''ls'', ''cat'', ''touch'', ''mkdir'', ''pwd'', ''cd'', ''exec'', ''ps'', ''kill'']"

text \<open>
  \<open>clear\<close>, \<open>version\<close>, \<open>about\<close>, \<open>uptime\<close> and \<open>meminfo\<close> are compared with the whole line, not with the
  first word: with a space before or after it the command is not found, and unless \<open>/bin\<close> has a program of
  that name the shell answers that it is unknown.
\<close>

theorem shell_space_breaks_command:
  assumes "w \<in> set whole_line_commands" "a + b > 0"
    "vfs_read_file (env_kend e) (Some (''/bin/'' @ w)) (cwd c) (sh_vfs c) = Some ((None, n), v)"
  defines "line \<equiv> replicate a CHR '' '' @ w @ replicate b CHR '' ''"
  shows "handle_command e line c = Some (Returned, [TermString ''Unknown command: '', TermString line, TermString [newline]], put_sh_vfs v c)"
proof -
  have w: "is_cstr w" "CHR '' '' \<notin> set w" "w \<noteq> []" "length w \<le> 31" using assms(1) by (auto simp: whole_line_commands_def)
  have p: "parse_command line = (w, '''')" unfolding line_def by (rule parse_padded [OF w])
  have l: "CHR '' '' \<in> set line" "is_cstr line" using assms(2) w(1) by (auto simp: line_def is_cstr_def)
  have z: "cs_at line 0 \<noteq> NUL" using l cs_at_nonzero [OF l(2), of 0] w(3) by (simp add: line_def)
  have d: "\<not> nanarust_cmd_eq line x" if "x \<in> set whole_line_commands" for x
    by (rule space_differs [OF l(1) _ l(2)]) (use that in \<open>auto simp: whole_line_commands_def\<close>)
  note d = d [unfolded whole_line_commands_def, simplified]
  have n: "\<forall>w \<in> set whole_line_commands. \<forall>x \<in> set first_word_commands. \<not> nanarust_cmd_eq w x"
    by (simp add: whole_line_commands_def first_word_commands_def cmd_words)
  have "\<not> nanarust_cmd_eq w x" if "x \<in> set first_word_commands" for x using n assms(1) that by blast
  note n = this [unfolded first_word_commands_def, simplified]
  have o: "handle_command e line c = cmd_other e line w c"
    unfolding handle_command_def p Let_def prod.case using z d n by simp
  have "List.take 58 w = w" using w(4) by simp
  with assms(3) o show ?thesis by (simp add: cmd_other_def done_with_def)
qed

subsection \<open>Printing a file\<close>

definition echo_bytes :: "u8 list \<Rightarrow> console_op list" where
  "echo_bytes bs = concat (map (\<lambda>b. echo_char (byte_char b)) bs)"

lemma echo_bytes_append: "echo_bytes (xs @ ys) = echo_bytes xs @ echo_bytes ys"
  by (simp add: echo_bytes_def)

lemma dispatch_write: "b \<noteq> 0 \<Longrightarrow> syscall_dispatch kend iflag 1 1 b n s = Some (n, echo_bytes (bytes_at (sc_mem s) b (unat n)), s)"
  by (simp add: syscall_dispatch_def syscall_table_def run_entry_def sys_write_impl_def echo_bytes_def)

lemma cur_fds_mem [simp]: "cur_fds (s\<lparr>sc_mem := m\<rparr>) = cur_fds s"
  by (simp add: cur_fds_def Let_def)

lemma fd_open_mem [simp]: "fd_open (s\<lparr>sc_mem := m\<rparr>) i path k = fd_open s i path k"
  by (simp add: fd_open_def)

lemma bytes_at_beyond: "n < 2 ^ 64 \<Longrightarrow> bytes_at (m(b + of_nat n := x)) b n = bytes_at m b n"
proof -
  assume n: "n < 2 ^ 64"
  have "(of_nat i :: u64) \<noteq> of_nat n" if "i < n" for i
  proof
    assume "(of_nat i :: u64) = of_nat n"
    then have "unat (of_nat i :: u64) = unat (of_nat n :: u64)" by simp
    then show False using n that unat_of_nat_small [of i, where 'a = 64] unat_of_nat_small [of n, where 'a = 64] by simp
  qed
  then show ?thesis by (simp add: bytes_at_def)
qed

text \<open>The reads a rest of \<open>n\<close> bytes takes, the last one to see the end.\<close>

definition cat_reads :: "nat \<Rightarrow> nat" where
  "cat_reads n = (n + 126) div 127 + 1"

lemma cat_reads_step: "0 < n \<Longrightarrow> cat_reads n = cat_reads (n - min 127 n) + 1"
proof (cases "n \<le> 127")
  case True
  assume "0 < n"
  then have "(n + 126) div 127 = 1" using True by (intro div_nat_eqI) simp_all
  then show ?thesis using True by (simp add: cat_reads_def)
next
  case False
  then have "n + 126 = n - 127 + 126 + 127" by simp
  then have "(n + 126) div 127 = (n - 127 + 126) div 127 + 1" by (metis div_add_self2 zero_neq_numeral)
  then show ?thesis using False by (simp add: cat_reads_def)
qed

lemma cat_loop_prints:
  assumes "fd_open s i path k" "file_at (sc_vfs s) path d" "is_cstr path" "length d < 2 ^ 31" "k \<le> length d"
    "room (env_kend e) (sc_vfs s) (9 * length path * cat_reads (length d - k))" "env_buf e \<noteq> 0"
  shows "\<exists>s' h. cat_loop e (of_nat i) out s = Some (out @ echo_bytes (drop k d), s') \<and>
    fd_open s' i path (length d) \<and> sc_vfs s' = (sc_vfs s)\<lparr>vheap := h\<rparr>"
  using assms
proof (induction "length d - k" arbitrary: k s out rule: less_induct)
  case less
  let ?n = "length d - k" and ?b = "env_buf e"
  define r where "r = min 127 ?n"
  have d64: "length d < 2 ^ 64" using less.prems(4) by simp
  have "9 * length path * cat_reads ?n = 9 * length path + 9 * length path * (cat_reads ?n - 1)"
    by (simp add: cat_reads_def algebra_simps)
  then have rm: "room (env_kend e) (sc_vfs s) (9 * length path + 9 * length path * (cat_reads ?n - 1))" using less.prems(6) by simp
  have u: "unat (127 :: u64) = 127" by simp
  obtain s1 h where s1: "sys_read_impl (env_kend e) (of_nat i) ?b 127 s = Some (of_nat r, [], s1)"
      "bytes_at (sc_mem s1) ?b r = List.take 127 (drop k d)" "fd_open s1 i path (k + r)"
      "sc_vfs s1 = (sc_vfs s)\<lparr>vheap := h\<rparr>" "room (env_kend e) (sc_vfs s1) (9 * length path * (cat_reads ?n - 1))"
    using read_step [OF less.prems(1-3) d64 less.prems(5) rm less.prems(7), of 127] unfolding u r_def by auto
  have io: "int_of (of_nat r) = int r" by (rule int_of_small) (simp add: r_def)
  show ?case
  proof (cases "?n = 0")
    case True
    then have "cat_loop e (of_nat i) out s = Some (out, s1)" using s1(1) io
      by (subst cat_loop.simps) (simp add: dispatch_read r_def)
    then show ?thesis using True s1(3,4) less.prems(5) by (auto simp: echo_bytes_def r_def)
  next
    case False
    have r: "0 < r" "r < 2 ^ 64" using False by (simp_all add: r_def)
    let ?s2 = "s1\<lparr>sc_mem := (sc_mem s1)(?b + of_nat r := 0)\<rparr>"
    have un: "unat (of_nat r :: u64) = r" by (rule unat_of_nat_small) (simp add: r_def)
    have w: "syscall_dispatch (env_kend e) (env_iflag e) 1 1 ?b (of_nat r) ?s2 = Some (of_nat r, echo_bytes (List.take 127 (drop k d)), ?s2)"
      using s1(2) less.prems(7) bytes_at_beyond [OF r(2)] by (simp add: dispatch_write un)
    have st: "cat_loop e (of_nat i) out s = cat_loop e (of_nat i) (out @ echo_bytes (List.take 127 (drop k d))) ?s2"
      using s1(1) io w r(1) by (subst cat_loop.simps) (simp add: dispatch_read)
    have lt: "length d - (k + r) < ?n" using r(1) False by simp
    have kr: "k + r \<le> length d" using less.prems(5) by (simp add: r_def)
    have cr: "cat_reads ?n - 1 = cat_reads (length d - (k + r))" using False cat_reads_step [of ?n] by (simp add: r_def)
    have "\<exists>s' h'. cat_loop e (of_nat i) (out @ echo_bytes (List.take 127 (drop k d))) ?s2 =
        Some ((out @ echo_bytes (List.take 127 (drop k d))) @ echo_bytes (drop (k + r) d), s') \<and>
      fd_open s' i path (length d) \<and> sc_vfs s' = (sc_vfs ?s2)\<lparr>vheap := h'\<rparr>"
    proof (rule less.hyps [OF lt])
      show "room (env_kend e) (sc_vfs ?s2) (9 * length path * cat_reads (length d - (k + r)))" using s1(5) unfolding cr by simp
      show "file_at (sc_vfs ?s2) path d" using less.prems(2) by (simp add: s1(4))
    qed (use s1(3) kr less.prems(3,4,7) in simp_all)
    then obtain s' h' where f: "cat_loop e (of_nat i) (out @ echo_bytes (List.take 127 (drop k d))) ?s2 =
        Some ((out @ echo_bytes (List.take 127 (drop k d))) @ echo_bytes (drop (k + r) d), s')"
      "fd_open s' i path (length d)" "sc_vfs s' = (sc_vfs ?s2)\<lparr>vheap := h'\<rparr>" by blast
    have "List.take 127 (drop k d) @ drop (k + r) d = drop k d"
    proof -
      have "drop (k + r) d = drop r (drop k d)" by (simp add: add.commute)
      moreover have "drop r (drop k d) = drop 127 (drop k d)" by (cases "127 \<le> ?n") (simp_all add: r_def min_def)
      ultimately show ?thesis by (metis append_take_drop_id)
    qed
    then have "out @ echo_bytes (drop k d) = (out @ echo_bytes (List.take 127 (drop k d))) @ echo_bytes (drop (k + r) d)"
      by (simp add: echo_bytes_append [symmetric])
    then show ?thesis using f s1(4) unfolding st by (intro exI [of _ s'] exI [of _ h']) simp
  qed
qed

lemma stored_byte:
  assumes "j < length bs" "length bs \<le> 2 ^ 64"
  shows "store_bytes a bs m (a + of_nat j) = bs ! j"
  using assms
proof (induction bs arbitrary: a m j)
  case (Cons b bs)
  show ?case
  proof (cases j)
    case 0
    have "a \<noteq> a + 1 + of_nat i" if "i < length bs" for i
    proof
      assume "a = a + 1 + of_nat i"
      then have "(of_nat (Suc i) :: u64) = 0" by (simp add: algebra_simps)
      then have "unat (of_nat (Suc i) :: u64) = 0" by (simp del: of_nat_Suc)
      moreover have "unat (of_nat (Suc i) :: u64) = Suc i" by (rule unat_of_nat_small) (use that Cons.prems in simp)
      ultimately show False by simp
    qed
    then show ?thesis using 0 by (simp add: store_bytes_other)
  next
    case (Suc i)
    have "store_bytes (a + 1) bs (m(a := b)) (a + 1 + of_nat i) = bs ! i" using Cons Suc by simp
    then show ?thesis using Suc by (simp add: add.assoc)
  qed
qed simp

lemma cstr_at_bytes:
  assumes "is_cstr p" "\<forall>j \<le> length p. m (a + of_nat j) = (c_bytes p @ [0]) ! j"
  shows "cstr_at m a = Some p"
  using assms
proof (induction p arbitrary: a)
  case Nil
  moreover have "byte_char 0 = NUL" unfolding byte_char_def by code_simp
  ultimately show ?case by (subst cstr_at.simps) (simp add: c_bytes_def)
next
  case (Cons c p)
  have c: "byte_char (m a) = c" using Cons.prems(2) [THEN spec, of 0] by (simp add: c_bytes_def)
  have "\<forall>j \<le> length p. m (a + 1 + of_nat j) = (c_bytes p @ [0]) ! j"
    using Cons.prems(2) by (auto simp: add.assoc c_bytes_def dest: spec [of _ "Suc _"])
  with Cons have "cstr_at m (a + 1) = Some p" by simp
  then show ?case using c Cons.prems(1) by (subst cstr_at.simps) simp
qed

lemma sys_vfs_mem [simp]: "sys_current_process (s\<lparr>sc_mem := m\<rparr>) = (sys_current_process s)\<lparr>sc_mem := m\<rparr>"
  by (simp add: sys_current_process_def)

lemma close_call:
  assumes "fd_open s i path k"
  shows "\<exists>s' t. syscall_dispatch kend iflag 6 (of_nat i) x y s = Some (0, [], s') \<and> cur_fds s' = Some t \<and> \<not> used (t ! i) \<and>
    sc_vfs s' = sc_vfs s"
proof -
  obtain t where t: "cur_fds s = Some t" "length t = PROC_MAX_FDS" and i: "3 \<le> i" "i < PROC_MAX_FDS"
    using assms by (auto simp: fd_open_def)
  have "int_of (of_nat i) = int i" using i by (intro int_of_small) (simp add: PROC_MAX_FDS_def)
  then have "syscall_dispatch kend iflag 6 (of_nat i) x y s =
      Some (0, [], set_fds (t[i := (t ! i)\<lparr>used := False, offset := 0, fpath := ''''\<rparr>]) s)"
    using i by (simp add: syscall_dispatch_def syscall_table_def run_entry_def sys_close_impl_def sys_current_open [OF t(1)] t(1))
  moreover have "sc_vfs (set_fds u s) = sc_vfs s" for u using cur_fds_set(2) [OF t(1), of u "sc_mem s"] by simp
  ultimately show ?thesis using cur_fds_replaced [OF t(1)] i t(2) by auto
qed

lemma arg_stored:
  assumes "is_cstr arg" "length arg < 128"
  shows "cstr_at (sc_mem (store_arg e arg s)) (env_arg e) = Some arg"
proof (rule cstr_at_bytes [OF assms(1)], intro allI impI)
  fix j assume j: "j \<le> length arg"
  show "sc_mem (store_arg e arg s) (env_arg e + of_nat j) = (c_bytes arg @ [0]) ! j"
    unfolding store_arg_def using j assms(2)
    by (auto simp: stored_byte c_bytes_def nth_append)
qed

text \<open>
  C29: \<open>cat\<close> prints the file. If the path, looked up from the root whatever the working directory is,
  names a file and a descriptor is free, \<open>cat\<close> returns and has written the bytes of the file to the
  terminal and the serial line, complete and in order, in as many chunks of 127 bytes as it takes; it
  leaves the files as they were and the descriptor free again.
\<close>

theorem shell_cat_prints:
  assumes "is_cstr arg" "arg \<noteq> ''''" "length arg < 128" "file_at (sh_vfs c) arg d" "length d < 2 ^ 31"
    "tables_ok (sh_sys c)" "cur_fds (sys_current_process (sh_sys c)) = Some t" "free_slot t = Some i"
    "env_arg e \<noteq> 0" "env_buf e \<noteq> 0"
    "room (env_kend e) (sh_vfs c) (9 * length arg * (cat_reads (length d) + 1))"
  shows "\<exists>c' t' h. cmd_cat e arg c = Some (Returned, echo_bytes d, c') \<and> cwd c' = cwd c \<and>
    sh_vfs c' = (sh_vfs c)\<lparr>vheap := h\<rparr> \<and> cur_fds (sh_sys c') = Some t' \<and> \<not> used (t' ! i)"
proof -
  let ?s = "store_arg e arg (sh_sys c)" and ?k = "env_kend e"
  have s: "sc_vfs ?s = sh_vfs c" "cur_fds (sys_current_process ?s) = Some t"
    using assms(7) by (simp_all add: store_arg_def sh_vfs_def)
  have rm: "room ?k (sc_vfs ?s) (9 * length arg + 9 * length arg * cat_reads (length d))"
    using assms(11) by (simp add: s algebra_simps)
  have fs: "file_at (sc_vfs ?s) arg d" using assms(4) by (simp add: s)
  from open_call [OF s(2) assms(9) arg_stored [OF assms(1,3)] assms(2,1) fs rm, of "env_iflag e" 0 0]
  obtain s2 h where s2: "cur_fds s2 = Some t" "sc_vfs s2 = (sh_vfs c)\<lparr>vheap := h\<rparr>" "room ?k (sc_vfs s2) (9 * length arg * cat_reads (length d))"
    "syscall_dispatch ?k (env_iflag e) 5 (env_arg e) 0 0 ?s =
      Some (of_nat i, [], set_fds (t[i := (t ! i)\<lparr>used := True, offset := 0, fpath := List.take 127 arg\<rparr>]) s2)"
    using assms(8) s(1) by auto
  let ?s3 = "set_fds (t[i := (t ! i)\<lparr>used := True, offset := 0, fpath := List.take 127 arg\<rparr>]) s2"
  note i = free_slot_Some [OF assms(8)]
  have "tables_ok (sys_current_process (sh_sys c))" by (rule tables_current [OF assms(6)])
  then have l: "length t = PROC_MAX_FDS" using cur_fds_ok assms(7) by (auto simp: fds_ok_def)
  have v3: "sc_vfs ?s3 = (sh_vfs c)\<lparr>vheap := h\<rparr>" using cur_fds_set(2) [OF s2(1), of _ "sc_mem s2"] s2(2) by simp
  have o: "fd_open ?s3 i arg 0" using i l assms(3) cur_fds_replaced [OF s2(1)] by (simp add: fd_open_def)
  have "\<exists>s' h. cat_loop e (of_nat i) [] ?s3 = Some ([] @ echo_bytes (drop 0 d), s') \<and>
    fd_open s' i arg (length d) \<and> sc_vfs s' = (sc_vfs ?s3)\<lparr>vheap := h\<rparr>"
    by (rule cat_loop_prints [OF o _ assms(1,5)]) (use assms(4,10) s2(2,3) v3 in simp_all)
  then obtain s4 h4 where s4: "cat_loop e (of_nat i) [] ?s3 = Some (echo_bytes d, s4)" "fd_open s4 i arg (length d)"
    "sc_vfs s4 = (sh_vfs c)\<lparr>vheap := h4\<rparr>" using v3 by auto
  obtain s5 t' where s5: "syscall_dispatch ?k (env_iflag e) 6 (of_nat i) 0 0 s4 = Some (0, [], s5)" "cur_fds s5 = Some t'" "\<not> used (t' ! i)"
    "sc_vfs s5 = sc_vfs s4" using close_call [OF s4(2)] by blast
  have io: "int_of (of_nat i) = int i" using i(2) by (intro int_of_small) (simp add: PROC_MAX_FDS_def)
  have "cmd_cat e arg c = Some (Returned, echo_bytes d, c\<lparr>sh_sys := s5\<rparr>)"
    using assms(2) s2(4) s4(1) s5(1) io by (simp add: cmd_cat_def done_with_def Let_def)
  then show ?thesis using s5 s4(3) by (intro exI [of _ "c\<lparr>sh_sys := s5\<rparr>"] exI [of _ t'] exI [of _ h4]) (simp add: sh_vfs_def)
qed

subsection \<open>Running a program\<close>

lemma find_queued:
  assumes "sched_ok s qs zs" "p \<in> set qs" "procs s p = Some n"
  shows "\<exists>r. process_find_by_pid (pid n) s = Some r \<and> r \<in> set qs"
proof -
  note D = sched_okD [OF assms(1)]
  let ?P = "\<lambda>p. map_option pid (procs s p) = Some (pid n)"
  have "find ?P qs \<noteq> None" using assms(2,3) by (auto simp: find_None_iff)
  then obtain r where r: "find ?P qs = Some r" by blast
  then have "r \<in> set qs" by (auto simp: find_Some_iff)
  moreover have "r \<noteq> 0" using chain_nonzero [OF D(1)] \<open>r \<in> set qs\<close> by auto
  ultimately show ?thesis using find_pid_chain [OF D(1), of "pid n"] r
    by (simp add: process_find_by_pid_def scheduler_find_by_pid_def)
qed

text \<open>While no process runs, waiting for one that is queued hands the processor over in the first round.\<close>

lemma wait_switches:
  assumes ok: "sched_ok s qs zs" and c: "current s = 0" and p: "p \<in> set qs" "procs s p = Some n"
  shows "\<exists>s'. wait_loop p s = Some (Switched, [], s') \<and> current s' \<in> set qs"
proof -
  note D = sched_okD [OF ok]
  have q: "queues s qs zs" using ok by (simp add: sched_ok_def)
  have ready: "pstate m = PROC_READY" if "procs s a = Some m" "a \<in> set qs" for a m
  proof -
    have "a \<noteq> 0" using chain_nonzero [OF D(1)] that(2) by auto
    then show ?thesis using ok that c by (auto simp: sched_ok_def states_ok_def)
  qed
  obtain r where r: "process_find_by_pid (pid n) s = Some r" "r \<in> set qs" using find_queued [OF ok p] by blast
  obtain m where m: "procs s r = Some m" using chain_in_dom [OF D(1) r(2)] by blast
  have st: "state_of (procs s) r \<noteq> Some PROC_TERMINATED" using ready [OF m r(2)] m by (simp add: state_of_def)
  have pk: "pick_next s = Some (spec_pick 0 qs)" using pick_next_ok [OF q] ready unfolding c by blast
  obtain h t where qs: "qs = h # t" using p(1) by (cases qs) auto
  have h: "runqueue_head s = h" "h \<noteq> 0" using D(1) qs by auto
  have nx: "spec_pick 0 qs = h" using pk h c by (simp add: pick_next_def)
  then obtain s' where "scheduler_yield s = Some s'" "current s' = h" using yield_ok [OF ok] h(2) c by auto
  then show ?thesis using p(2) r st pk nx h(2) c qs by (subst wait_loop.simps) auto
qed

lemma exec_gives_away:
  assumes "sched_inv (env_kend e) (sc_sched (sh_sys c))" "current (sc_sched (sh_sys c)) = 0" "is_cstr path"
    "room (env_kend e) ((sh_vfs c)\<lparr>vheap := vm_heap (vm (sc_sched (sh_sys c)))\<rparr>) (9 * length path)"
    "process_exec (env_kend e) (env_kas e) (env_uninit e) (Some path) None 1 (sc_sched (sh_sys c), sh_vfs c) = Some (p, ops, s', v')"
    "p \<noteq> 0"
  shows "\<exists>c'. exec_and_wait e path c = Some (Switched, ops, c') \<and> current (sc_sched (sh_sys c')) \<noteq> 0"
proof -
  obtain qs zs where ok: "sched_ok (sc_sched (sh_sys c)) qs zs" "sched_heap (env_kend e) (sc_sched (sh_sys c))"
    using assms(1) by (auto simp: sched_inv_def)
  note x = exec_ok [OF ok assms(3-6)]
  then obtain n where n: "procs s' p = Some n" by blast
  have k: "sched_ok s' (qs @ [p]) zs" "current s' = 0" using x assms(2) by simp_all
  obtain s2 where s2: "wait_loop p s' = Some (Switched, [], s2)" "current s2 \<in> set (qs @ [p])"
    using wait_switches [OF k _ n] by auto
  have "0 \<notin> set (qs @ [p])" using sched_okD(1) [OF k(1)] chain_nonzero by blast
  then have "current s2 \<noteq> 0" using s2(2) by metis
  then show ?thesis using assms(5,6) s2(1) by (simp add: exec_and_wait_def Let_def)
qed


lemma vheap_inject: "v\<lparr>vheap := a\<rparr> = v\<lparr>vheap := b\<rparr> \<longleftrightarrow> a = b"
  by (cases v) simp

text \<open>A well-formed program that fits the heap is started.\<close>

lemma kmalloc_gives:
  assumes "heap_inv kend h" "0 < n" "unat n mod 8 = 0" "heap_brk kend h + unat n \<le> unat kend + 8388608"
  obtains p h' where "kmalloc kend n h = (p, h')" "p \<noteq> 0" "heap_inv kend h'" "heap_brk kend h' = heap_brk kend h + unat n"
proof -
  have "kend_ok kend" using assms(1) by (simp add: heap_inv_def)
  then have s: "unat n \<le> 2 ^ 63" using assms(4) by (simp add: kend_ok_def)
  have e: "(unat n + 7) div 8 * 8 = unat n" using assms(3) by auto
  obtain p h' where k: "kmalloc kend n h = (p, h')" by (cases "kmalloc kend n h")
  show ?thesis using kmalloc_cases [OF assms(1) s k] assms(2,4) k that unfolding e by auto
qed

lemma exec_starts:
  assumes ok: "sched_ok s qs zs" "sched_heap kend s" and f: "file_at v path d" "is_cstr path" and elf: "elf_ok d"
    and segs: "segs = loads d (ehdr_of d) [0..<unat (e_phnum (ehdr_of d))]"
    and b: "\<forall>p \<in> set segs. lo \<le> p_vaddr p \<and> seg_end p \<le> hi" "\<exists>p \<in> set segs. p_vaddr p = lo" "\<exists>p \<in> set segs. seg_end p = hi"
      "unat lo < hi" "len = (hi - unat lo + 4095) div 4096 * 4096"
    and en: "lo \<le> e_entry (ehdr_of d)" "unat (e_entry (ehdr_of d)) < hi"
    and rm: "room kend (v\<lparr>vheap := vm_heap (vm s)\<rparr>) (9 * length path + (len + 18808))"
  shows "\<exists>p s' v'. process_exec kend kas uninit (Some path) nm prio (s, v) = Some (p, [], s', v') \<and> p \<noteq> 0"
proof -
  let ?v = "v\<lparr>vheap := vm_heap (vm s)\<rparr>"
  have "file_at ?v path d" using f(1) by simp
  from read_file_at [OF this f(2) rm] obtain h where
    rd: "vfs_read_file kend (Some path) (vfs_get_root ?v) ?v = Some ((Some d, Some (of_nat (length d))), ?v\<lparr>vheap := h\<rparr>)"
    and h: "room kend (?v\<lparr>vheap := h\<rparr>) (len + 18808)" by blast
  have hi: "heap_inv kend h" "heap_brk kend h + (len + 18808) \<le> unat kend + 8388608" using h by (simp_all add: room_def)
  have room: "heap_brk kend h + len \<le> unat kend + 8388608" using hi(2) by simp
  obtain h1 img where ld: "elf_load_from_buffer kend (Some d) (of_nat (length d)) h = Some (h1, [], Inr img)"
    "unat (img_base img) = heap_brk kend h" "heap_brk kend h1 = heap_brk kend h + len"
    "img_entry img = img_base img + (e_entry (ehdr_of d) - lo)"
    using elf_loads [OF elf segs b hi(1) room] by blast
  have h1: "heap_inv kend h1" using elf_heap_kept [OF hi(1) ld(1)] by simp
  obtain p h2 where k1: "kmalloc kend SIZEOF_PROCESS h1 = (p, h2)" "p \<noteq> 0" "heap_inv kend h2" "heap_brk kend h2 = heap_brk kend h1 + unat SIZEOF_PROCESS"
    by (rule kmalloc_gives [OF h1, of SIZEOF_PROCESS]) (use hi(2) ld(3) in \<open>simp_all add: SIZEOF_PROCESS_def\<close>)
  obtain st h3 where k2: "kmalloc kend (16 * 1024) h2 = (st, h3)" "st \<noteq> 0"
    by (rule kmalloc_gives [OF k1(3), of "16 * 1024"]) (use hi(2) ld(3) k1(4) in \<open>simp_all add: SIZEOF_PROCESS_def\<close>)
  have e0: "img_entry img \<noteq> 0"
  proof
    assume z: "img_entry img = 0"
    have d: "unat (e_entry (ehdr_of d) - lo) = unat (e_entry (ehdr_of d)) - unat lo" using en(1) by (rule unat_minus_exact)
    have "unat (e_entry (ehdr_of d)) - unat lo \<le> len" unfolding b(5) using en(2) by linarith
    moreover have "kend_ok kend" "unat kend \<le> heap_brk kend h"
      using hi(1) by (auto simp: heap_inv_def heap_brk_def word_le_nat_alt)
    ultimately have "unat (img_entry img) = heap_brk kend h + (unat (e_entry (ehdr_of d)) - unat lo)"
      unfolding ld(4) using hi(2) d ld(2) by (subst unat_plus_exact) (simp_all add: kend_ok_def)
    then show False using z \<open>kend_ok kend\<close> \<open>unat kend \<le> heap_brk kend h\<close> by (simp add: kend_ok_def unat_eq_0)
  qed
  let ?s = "with_heap h1 s"
  have ok1: "sched_ok ?s qs zs" using ok(1) by (subst sched_ok_frame) (simp_all add: with_heap_def)
  have "brk kend ?v \<le> heap_brk kend h"
    using vfs_resolve_eq [OF f(2) room_mono [OF rm], of "vfs_get_root ?v"] rd
    by (auto simp: vfs_read_file_def vheap_inject split: option.splits if_splits)
  then have hp1: "sched_heap kend ?s" using h1 ld(3) ok(2) by (force simp: sched_heap_def with_heap_def)
  have c: "\<exists>s2. process_create kend kas uninit (Some x) (img_entry img) 0 prio ?s = Some (p, s2)" for x
  proof -
    obtain r s2 where r: "process_create kend kas uninit (Some x) (img_entry img) 0 prio ?s = Some (r, s2)"
      using create_ok [OF ok1 hp1] by blast
    then have "r = p" by (rule create_pointer [OF _ e0 _ k1(2) k2]) (simp add: with_heap_def k1(1))
    with r show ?thesis by blast
  qed
  obtain s2 where s2: "process_create kend kas uninit (Some (List.take (PROC_NAME_LEN - 1)
      (case nm of Some n \<Rightarrow> if c_str n \<noteq> [] then c_str n else path_basename (c_str path) | None \<Rightarrow> path_basename (c_str path))))
    (img_entry img) 0 prio ?s = Some (p, s2)" using c by blast
  show ?thesis using k1(2) by (simp add: process_exec_def elf_load_from_path_def Let_def rd ld(1) s2 del: One_nat_def)
qed

subsection \<open>An example\<close>

definition demo_program :: "u8 list" where
  "demo_program = demo_elf 4 16 [0x90, 0xC3, 0xAA, 0xBB]"

text \<open>The files of \<open>Syscall\<close> with a program in place of the text; no process yet.\<close>

definition demo_core :: shell_core where
  "demo_core = \<lparr>cwd = 0x200040, cwd_path = ''/a'', sh_sys = demo_sys\<lparr>sc_vfs := demo_files\<lparr>nodes := (nodes demo_files)
     (0x200040 \<mapsto> (the (nodes demo_files 0x200040))\<lparr>vdata := Some demo_program, vsize := of_nat (length demo_program)\<rparr>)\<rparr>,
       sc_sched := demo_blank\<lparr>vm := (vm demo_blank)\<lparr>vm_heap := vheap demo_files\<rparr>\<rparr>\<rparr>, sh_pmm = pmm_static\<rparr>"

definition demo_env :: shell_env where
  "demo_env = \<lparr>env_kend = 0x200000, env_kas = 0, env_uninit = '''', env_iflag = False, env_arg = 0x9000, env_buf = 0x9100\<rparr>"

lemma demo_core_file: "file_at (sh_vfs demo_core) ''/a'' demo_program"
proof -
  have "strcmp ''a'' ''..'' \<noteq> 0" "strcmp ''a'' ''.'' \<noteq> 0" "strcmp ''a'' ''a'' = 0" by code_simp+
  then show ?thesis
    by (simp add: file_at_def sh_vfs_def demo_core_def resolve_spec_def path_tokens_def MAX_TOKENS_def demo_files_def vfs_get_root_def vfs_find_child_def
        find_sibling.simps)
qed

lemma demo_core_room: "n \<le> 8000000 \<Longrightarrow> room 0x200000 ((sh_vfs demo_core)\<lparr>vheap := vm_heap (vm (sc_sched (sh_sys demo_core)))\<rparr>) n"
  "n \<le> 8000000 \<Longrightarrow> room 0x200000 (sh_vfs demo_core) n"
  using demo_files_room [of n] by (simp_all add: room_def sh_vfs_def demo_core_def)

lemma demo_core_sched:
  "sched_ok (sc_sched (sh_sys demo_core)) [] []" "sched_heap 0x200000 (sc_sched (sh_sys demo_core))" "current (sc_sched (sh_sys demo_core)) = 0"
  "sched_inv 0x200000 (sc_sched (sh_sys demo_core))"
proof -
  show a: "sched_ok (sc_sched (sh_sys demo_core)) [] []" "current (sc_sched (sh_sys demo_core)) = 0"
    using demo_blank_ok by (simp_all add: demo_core_def sched_ok_def queues_def states_ok_def)
  have "heap_inv 0x200000 (vheap demo_files)" by (simp add: demo_files_def heap_inv_def kend_ok_def KERNEL_HEAP_SIZE_def)
  then show b: "sched_heap 0x200000 (sc_sched (sh_sys demo_core))"
    by (simp add: demo_core_def sched_heap_def demo_blank_def scheduler_init_def)
  show "sched_inv 0x200000 (sc_sched (sh_sys demo_core))" using a b
    by (auto simp: sched_inv_def) (simp add: demo_core_def demo_blank_def scheduler_init_def)
qed

lemma demo_exec:
  assumes "sched_ok s [] []" "sched_heap 0x200000 s" "vm_heap (vm s) = vheap demo_files"
  shows "\<exists>p s' v'. process_exec 0x200000 0 [] (Some ''/a'') None 1 (s, sh_vfs demo_core) = Some (p, [], s', v') \<and> p \<noteq> 0"
proof -
  let ?d = demo_program
  have ls: "loads ?d (ehdr_of ?d) [0..<unat (e_phnum (ehdr_of ?d))] = [phdr_of ?d 64]"
    by (simp add: demo_program_def loads_def demo_ehdr phdr_pos_def demo_phdr PT_LOAD_def)
  have h: "vm_heap (vm (sc_sched (sh_sys demo_core))) = vheap demo_files" by (simp add: demo_core_def)
  show ?thesis
    by (rule exec_starts [OF assms(1,2) demo_core_file _ _ ls [symmetric], where lo = "0x400000" and hi = "0x400010" and len = 4096])
      (use demo_elf_ok demo_core_room(1) [unfolded h] in \<open>simp_all add: demo_program_def demo_phdr demo_ehdr seg_end_def assms(3)\<close>)
qed

lemma demo_env_simps [simp]: "env_kend demo_env = 0x200000" "env_kas demo_env = 0" "env_uninit demo_env = []" "env_iflag demo_env = False"
  by (simp_all add: demo_env_def)


theorem shell_cat_prints_witness:
  "\<exists>c'. cmd_cat demo_env ''/a'' demo_core = Some (Returned, echo_bytes demo_program, c') \<and> cwd c' = 0x200040"
proof -
  have t: "tables_ok (sh_sys demo_core)" "cur_fds (sys_current_process (sh_sys demo_core)) = Some demo_table"
    using demo_sys_tables demo_cur_fds demo_blank_ok(3)
    by (simp_all add: tables_ok_def demo_core_def demo_sys_def cur_fds_def sys_current_process_def process_get_current_def scheduler_get_current_def Let_def)
  have f: "free_slot demo_table = Some 4" using demo_table_facts by (simp add: free_slot_def PROC_MAX_FDS_def upt_rec)
  have "length demo_program = 124" by (simp add: demo_program_def)
  then have "room (env_kend demo_env) (sh_vfs demo_core) (9 * length ''/a'' * (cat_reads (length demo_program) + 1))"
    using demo_core_room(2) by (simp add: cat_reads_def demo_env_def)
  from shell_cat_prints [OF _ _ _ demo_core_file _ t f _ _ this] show ?thesis
    by (auto simp: demo_env_def demo_program_def) (auto simp: demo_core_def)
qed

theorem shell_session_refines_witness:
  "map_option (\<lambda>(r, ops, t). (r, shell_line t))
     (shell_type demo_env (''eczo'' @ [backspace, backspace] @ ''ho HI'' @ [newline] @ ''pw'') \<lparr>linebuf = replicate 128 NUL, linepos = 0, sh_core = demo_core\<rparr>) =
   Some (Returned, ''pw'')"
proof -
  let ?cs = "''eczo'' @ [backspace, backspace] @ ''ho HI'' @ [newline] @ ''pw''" and ?s = "\<lparr>linebuf = replicate 128 NUL, linepos = 0, sh_core = demo_core\<rparr>"
  have p: "parse_command ''echo HI'' = (''echo'', ''HI'')" by code_simp
  have h: "handle_command demo_env ''echo HI'' demo_core = Some (Returned, [TermString ''HI'', TermString [newline]], demo_core)"
    unfolding handle_command_def p by (simp add: cmd_words done_with_def)
  have "sh_ok ?s" "NUL \<notin> set ?cs" "shell_line ?s = ''''" by (simp_all add: sh_ok_def shell_line_def)
  from shell_session_refines [OF this(1,2), of demo_env] this(3)
  have r: "map_option (\<lambda>(r, ops, t). (r, ops, shell_line t, sh_core t)) (shell_type demo_env ?cs ?s) = session demo_env ?cs '''' demo_core" by simp
  have "map_option (\<lambda>(r, ops, l, c). (r, l)) (session demo_env ?cs '''' demo_core) = Some (Returned, ''pw'')"
    by (simp add: sh_edit_def h)
  then show ?thesis unfolding r [symmetric] by (simp add: option.map_comp comp_def split_beta)
qed

theorem shell_space_breaks_command_witness:
  "\<exists>c'. handle_command demo_env '' clear'' demo_core =
     Some (Returned, [TermString ''Unknown command: '', TermString '' clear'', TermString [newline]], c')"
proof -
  have "strcmp ''a'' ''bin'' \<noteq> 0" by code_simp
  moreover have "strcmp ''bin'' ''..'' \<noteq> 0" "strcmp ''bin'' ''.'' \<noteq> 0" by code_simp+
  ultimately have r: "resolve_spec (sh_vfs demo_core) ''/bin/clear'' (cwd demo_core) = Some 0"
    by (simp add: sh_vfs_def demo_core_def resolve_spec_def path_tokens_def MAX_TOKENS_def demo_files_def vfs_find_child_def find_sibling.simps)
  obtain h where "vfs_resolve 0x200000 (Some ''/bin/clear'') (cwd demo_core) (sh_vfs demo_core) = Some (0, (sh_vfs demo_core)\<lparr>vheap := h\<rparr>)"
    using vfs_resolve_eq [of "''/bin/clear''" "0x200000" "sh_vfs demo_core" "cwd demo_core"] demo_core_room(2) r by auto
  then have "vfs_read_file (env_kend demo_env) (Some (''/bin/'' @ ''clear'')) (cwd demo_core) (sh_vfs demo_core) = Some ((None, None), (sh_vfs demo_core)\<lparr>vheap := h\<rparr>)"
    by (simp add: vfs_read_file_def demo_env_def)
  from shell_space_breaks_command [of "''clear''" 1 0 demo_env demo_core, OF _ _ this] show ?thesis
    by (auto simp: whole_line_commands_def)
qed

end
