(* ===== verification/Interrupts.thy ===== *)
theory Interrupts
  imports Shell
begin

text \<open>
  What happens on an interrupt: the common assembly stub (\<open>arch/x86_64/idt/interrupt_stubs.S\<close>), the C
  dispatcher (\<open>arch/x86_64/irq/irq.c\<close>) and the exception handler
  (\<open>arch/x86_64/exceptions/exceptions.c\<close>). The keyboard handler runs the shell command of a finished
  line inside the interrupt. A handler that never returns is \<open>None\<close>; otherwise it ends in a return to
  the interrupted code, in another context, or in the halt of the machine.
\<close>

subsection \<open>State\<close>

record kernel =
  k_shell :: shell
  k_mouse :: mouse
  k_io :: io

datatype isr_end = Iret | Away | Halted

type_synonym isrres = "(isr_end \<times> console_op list \<times> kernel) option"

definition k_sys :: "kernel \<Rightarrow> sys" where
  "k_sys k = sh_sys (sh_core (k_shell k))"

definition put_sys :: "sys \<Rightarrow> kernel \<Rightarrow> kernel" where
  "put_sys s k = k\<lparr>k_shell := (k_shell k)\<lparr>sh_core := (sh_core (k_shell k))\<lparr>sh_sys := s\<rparr>\<rparr>\<rparr>"

definition k_cpu :: "kernel \<Rightarrow> cpu" where
  "k_cpu k = cpu (sc_sched (k_sys k))"

definition k_mem :: "kernel \<Rightarrow> wordmem" where
  "k_mem k = vm_mem (vm (sc_sched (k_sys k)))"

definition put_cpu :: "cpu \<Rightarrow> wordmem \<Rightarrow> kernel \<Rightarrow> kernel" where
  "put_cpu c m k = (let s = k_sys k; d = sc_sched s
     in put_sys (s\<lparr>sc_sched := d\<lparr>cpu := c, vm := (vm d)\<lparr>vm_mem := m\<rparr>\<rparr>\<rparr>) k)"

text \<open>A call that made another process current continues in that process.\<close>

definition resume :: "sys \<Rightarrow> sys \<Rightarrow> isr_end" where
  "resume s s' = (if process_get_current (sc_sched s') = process_get_current (sc_sched s) then Iret else Away)"

subsection \<open>Device interrupts\<close>

definition on_timer :: "kernel \<Rightarrow> kernel" where
  "on_timer k = (let s = k_sys k; (p, eq, sc) = pit_on_interrupt (sc_pit s) (sc_events s) (sc_sched s)
     in put_sys (s\<lparr>sc_pit := p, sc_events := eq, sc_sched := sc\<rparr>) k)"

definition on_mouse :: "device \<Rightarrow> kernel \<Rightarrow> kernel" where
  "on_mouse dev k = (let s = k_sys k; (io, m, eq) = mouse_on_interrupt dev (k_io k) (k_mouse k) (sc_events s)
     in put_sys (s\<lparr>sc_events := eq\<rparr>) (k\<lparr>k_io := io, k_mouse := m\<rparr>))"

definition on_keyboard :: "shell_env \<Rightarrow> device \<Rightarrow> kernel \<Rightarrow> (outcome \<times> console_op list \<times> kernel) option" where
  "on_keyboard e dev k =
     (let s = k_sys k; (ch, io, eq) = keyboard_on_interrupt dev (k_io k) (sc_events s);
          k1 = put_sys (s\<lparr>sc_events := eq\<rparr>) (k\<lparr>k_io := io\<rparr>)
      in case ch of None \<Rightarrow> Some (Returned, [], k1)
         | Some c \<Rightarrow> map_option (\<lambda>(r, ops, sh). (r, ops, k1\<lparr>k_shell := sh\<rparr>))
             (shell_receive_char (e\<lparr>env_iflag := False\<rparr>) c (k_shell k1)))"

definition on_irq_line :: "shell_env \<Rightarrow> device \<Rightarrow> u8 \<Rightarrow> kernel \<Rightarrow> (outcome \<times> console_op list \<times> kernel) option" where
  "on_irq_line e dev irq k =
     (if irq = 0 then Some (Returned, [], on_timer k)
      else if irq = 1 then on_keyboard e dev k
      else if irq = 12 then Some (Returned, [], on_mouse dev k)
      else Some (Returned, [], k))"

subsection \<open>Exceptions\<close>

definition exception_names :: "string list" where
  "exception_names = [''Divide-by-Zero (#DE)'', ''Debug (#DB)'', ''Non-Maskable Interrupt'', ''Breakpoint (#BP)'',
     ''Overflow (#OF)'', ''Bound Range Exceeded (#BR)'', ''Invalid Opcode (#UD)'', ''Device Not Available (#NM)'',
     ''Double Fault (#DF)'', ''Coprocessor Segment Overrun'', ''Invalid TSS (#TS)'', ''Segment Not Present (#NP)'',
     ''Stack-Segment Fault (#SS)'', ''General Protection Fault (#GP)'', ''Page Fault (#PF)'', ''Reserved'',
     ''x87 FPU Exception (#MF)'', ''Alignment Check (#AC)'', ''Machine Check (#MC)'', ''SIMD FP Exception (#XM)'',
     ''Virtualisation Exception (#VE)'', ''Control Protection (#CP)'']"

definition vector_name :: "u64 \<Rightarrow> string" where
  "vector_name vec =
     (if unat vec < length exception_names then exception_names ! unat vec
      else if vec = 255 then ''Unhandled Interrupt'' else ''Unknown'')"

text \<open>The number is printed into an array of 12 characters.\<close>

definition exception_banner :: "u64 \<Rightarrow> u64 \<Rightarrow> console_op list option" where
  "exception_banner vec err =
     (case itoa (of_int (int_of vec)) 10 of None \<Rightarrow> None
      | Some vbuf \<Rightarrow>
        if length vbuf > 11 then None
        else Some ([TermColor 0x04 0x00, TermString ([newline, newline] @ ''*** KERNEL EXCEPTION ***'' @ [newline]),
          TermColor 0x0F 0x00, TermString ''  Vector : '', TermString vbuf, TermString ''  ('', TermString (vector_name vec),
          TermString ('')'' @ [newline]), TermString ''  ErrCode: ''] @ print_hex64 err @
          [TermString [newline], TermColor 0x0C 0x00, TermString ([newline] @ ''System halted.'' @ [newline])]))"

definition kernel_fault :: "u64 \<Rightarrow> u64 \<Rightarrow> console_op list" where
  "kernel_fault cr2 err =
     [TermString ([newline] @ ''[PF] kernel page fault at '')] @ print_hex64 cr2 @ [TermString '' err=''] @ print_hex64 err @
     [TermString [newline]]"

text \<open>\<open>cr2\<close> is the register with the faulting address.\<close>

definition exception_dispatch :: "u64 \<Rightarrow> u64 \<Rightarrow> u64 \<Rightarrow> kernel \<Rightarrow> isrres" where
  "exception_dispatch cr2 vec err k =
     (let s = k_sys k; cur = process_get_current (sc_sched s)
      in if vec = 14 \<and> cur \<noteq> 0 then
        (case procs (sc_sched s) cur of None \<Rightarrow> None
         | Some n \<Rightarrow>
           case process_exit_current_status (- 14) (sc_sched s) of None \<Rightarrow> None
           | Some sc \<Rightarrow>
             let s' = put_sched sc s
             in Some (resume s s', [TermString ''page fault in process '', TermString (c_str (pname n)),
                    TermString ([newline] @ ''process killed'' @ [newline] @ ''system stable'' @ [newline])], put_sys s' k))
      else map_option (\<lambda>ops. (Halted, (if vec = 14 then kernel_fault cr2 err else []) @ ops, k)) (exception_banner vec err))"

subsection \<open>The dispatcher\<close>

text \<open>
  A system call: the words are read relative to the stack pointer of the C function itself, and the
  result is written back there.
\<close>

definition isr_syscall :: "shell_env \<Rightarrow> kernel \<Rightarrow> isrres" where
  "isr_syscall e k =
     (let stackptr = rsp (k_cpu k); word = (\<lambda>i. k_mem k (entry_at stackptr i)); s = k_sys k
      in case syscall_dispatch (env_kend e) False (word 0) (word 5) (word 4) (word 3) s of None \<Rightarrow> None
      | Some (ret, ops, s') \<Rightarrow>
        let k' = put_sys s' k
        in Some (resume s s', ops,
             if resume s s' = Iret then put_cpu (k_cpu k') ((k_mem k')(entry_at stackptr 0 := ret)) k' else k'))"

definition isr_common_c :: "shell_env \<Rightarrow> device \<Rightarrow> u64 \<Rightarrow> u64 \<Rightarrow> u64 \<Rightarrow> kernel \<Rightarrow> isrres" where
  "isr_common_c e dev cr2 vec err k =
     (if 32 \<le> vec \<and> vec < 48 then
        let irq = ucast (vec - 32)
        in case on_irq_line e dev irq k of None \<Rightarrow> None
        | Some (Switched, ops, k') \<Rightarrow> Some (Away, ops, k')
        | Some (Returned, ops, k') \<Rightarrow> Some (Iret, ops, k'\<lparr>k_io := pic_send_eoi irq (k_io k')\<rparr>)
      else if vec = 128 then isr_syscall e k
      else exception_dispatch cr2 vec err k)"

text \<open>
  The stub. The vector and the error code lie on the stack, above them the frame of the processor (rip,
  cs, rflags, rsp, ss). The stub pushes the registers and calls the dispatcher, whose own frame takes
  \<open>d\<close> words below the return address \<open>ret\<close>; then it pops the registers and returns from the interrupt.
\<close>

definition isr_common :: "shell_env \<Rightarrow> device \<Rightarrow> u64 \<Rightarrow> u64 \<Rightarrow> nat \<Rightarrow> kernel \<Rightarrow> isrres" where
  "isr_common e dev cr2 ret d k =
     (let c = k_cpu k; sp = rsp c; (top_sp, m) = push_all (rev (regs c)) sp (k_mem k); m1 = m(top_sp - 8 := ret);
          vec = m1 (top_sp + 120); err = m1 (top_sp + 128)
      in case isr_common_c e dev cr2 vec err (put_cpu (c\<lparr>rsp := top_sp - 8 - 8 * of_nat d\<rparr>) m1 k) of None \<Rightarrow> None
      | Some (Iret, ops, k') \<Rightarrow>
        let m' = k_mem k'
        in Some (Iret, ops, put_cpu \<lparr>regs = pop_n 15 top_sp m', rip = m' (entry_at sp 2), rsp = m' (entry_at sp 5)\<rparr> m' k')
      | Some (r, ops, k') \<Rightarrow> Some (r, ops, k'))"

subsection \<open>What a system call leaves alone\<close>

text \<open>The processor, the words of memory and the current process.\<close>

definition sys_context :: "sys \<Rightarrow> cpu \<times> wordmem \<times> u64" where
  "sys_context s = (cpu (sc_sched s), vm_mem (vm (sc_sched s)), current (sc_sched s))"

lemma context_simps [simp]:
  "sys_context (put_vfs v s) = sys_context s" "sys_context (set_fds t s) = sys_context s"
  "sys_context (sys_current_process s) = sys_context s" "sys_context (s\<lparr>sc_mem := m\<rparr>) = sys_context s"
  by (simp_all add: sys_context_def put_vfs_def with_heap_def set_fds_def sys_current_process_def Let_def)

lemma hlt_context: "hlt iflag s = Some s' \<Longrightarrow> sys_context s' = sys_context s"
  by (auto simp: hlt_def pit_on_interrupt_def scheduler_tick_def Let_def sys_context_def split: if_splits)

lemma sleep_context: "sleep_loop iflag start w s = Some s' \<Longrightarrow> sys_context s' = sys_context s"
proof (induction rule: sleep_loop.raw_induct [rotated, consumes 1])
  case (1 sl iflag start w s s')
  then show ?case by (auto split: if_splits option.splits dest: hlt_context)
qed

text \<open>Every call but number 4, \<open>exit\<close>.\<close>

lemma dispatch_context:
  assumes "syscall_dispatch kend iflag num a1 a2 a3 s = Some (r, out, s')" "num \<noteq> 4"
  shows "sys_context s' = sys_context s"
proof (cases "unat num < length syscall_table \<and> syscall_table ! unat num \<noteq> None")
  case False
  with assms show ?thesis by (auto simp: syscall_dispatch_def split: option.splits)
next
  case True
  then obtain x where x: "syscall_table ! unat num = Some x" by blast
  have n4: "unat num \<noteq> 4" using assms(2) by (simp add: word_unat_eq_iff)
  have "x \<noteq> sys_exit_entry"
  proof
    assume "x = sys_exit_entry"
    with x True n4 show False by (auto simp: syscall_table_def nth_Cons' split: if_splits)
  qed
  moreover have "run_entry kend iflag x a1 a2 a3 s = Some (r, out, s')"
    using assms(1) True x by (simp add: syscall_dispatch_def)
  ultimately show ?thesis
    by (cases x)
      (auto simp: run_entry_def sys_write_impl_def sys_read_impl_def sys_get_ticks_impl_def sys_open_impl_def sys_close_impl_def
        sys_lseek_impl_def sys_getpid_impl_def sys_sleep_impl_def sys_uptime_impl_def Let_def
        split: if_split_asm option.splits prod.splits dest!: sleep_context)
qed

subsection \<open>The frame of the stub\<close>

lemma put_simps [simp]:
  "k_sys (put_sys s k) = s" "k_io (put_sys s k) = k_io k" "k_cpu (put_cpu c m k) = c" "k_mem (put_cpu c m k) = m"
  "k_io (put_cpu c m k) = k_io k" "k_cpu (k\<lparr>k_io := io\<rparr>) = k_cpu k" "k_mem (k\<lparr>k_io := io\<rparr>) = k_mem k"
  "k_cpu (k\<lparr>k_mouse := x\<rparr>) = k_cpu k" "k_mem (k\<lparr>k_mouse := x\<rparr>) = k_mem k" "k_sys (k\<lparr>k_io := io\<rparr>) = k_sys k"
  "k_sys (k\<lparr>k_mouse := x\<rparr>) = k_sys k"
  by (simp_all add: k_sys_def put_sys_def put_cpu_def k_cpu_def k_mem_def Let_def)

text \<open>The stub writes the sixteen words below the stack pointer; the rest keeps its content.\<close>

definition stub_words :: "u64 \<Rightarrow> u64 set" where
  "stub_words sp = {entry_at (sp - 128) i | i. i < 16}"

lemma stub_frame:
  assumes "length (regs c) = 15" "push_all (rev (regs c)) sp m = (a, m0)" and m1_def: "m1 = m0(a - 8 := ret)"
  shows "a = sp - 120" "pop_n 15 a m1 = regs c" "\<And>x. x \<notin> stub_words sp \<Longrightarrow> m1 x = m x"
    "\<And>i. i < 2 ^ 32 \<Longrightarrow> m1 (entry_at sp i) = m (entry_at sp i)"
proof -
  have l: "15 = length (rev (regs c))" "(15 :: nat) < 2 ^ 60" using assms(1) by simp_all
  note pa = push_all_at [OF l assms(2)]
  show a: "a = sp - 120" using pa(1) by simp
  have e: "entry_at a i = entry_at (sp - 128) (Suc i)" "a - 8 = entry_at (sp - 128) 0" for i
    by (simp_all add: a entry_at_def)
  have m1: "m1 (entry_at a i) = regs c ! i" if "i < 15" for i
    using pa(2) [OF that] that assms(1) entry_at_eq [of "Suc i" 0 "sp - 128"] by (simp add: m1_def e rev_nth)
  then show "pop_n 15 a m1 = regs c" by (simp add: pop_n_at list_eq_iff_nth_eq assms(1))
  show out: "m1 x = m x" if "x \<notin> stub_words sp" for x
  proof -
    have "x \<noteq> entry_at (sp - 128) i" if "i < 16" for i using \<open>x \<notin> stub_words sp\<close> that by (auto simp: stub_words_def)
    then have "m0 x = m x" "x \<noteq> a - 8" using pa(3) [of x] unfolding e by simp_all
    then show ?thesis by (simp add: m1_def)
  qed
  show "m1 (entry_at sp i) = m (entry_at sp i)" if "i < 2 ^ 32" for i
  proof (rule out)
    have "entry_at sp i = entry_at (sp - 128) (16 + i)" by (simp add: entry_at_def)
    then show "entry_at sp i \<notin> stub_words sp" using that by (auto simp: stub_words_def entry_at_eq)
  qed
qed
subsection \<open>Device interrupts are transparent and acknowledged\<close>

definition eois :: "kernel \<Rightarrow> u8 list \<times> u8 list" where
  "eois k = (written PIC1_CMD (k_io k), written PIC2_CMD (k_io k))"

lemma inb_io: "inb dev x io = (v, io') \<Longrightarrow> written p io' = written p io"
  using written_inb [of p dev x io] by simp

lemma keyboard_io: "keyboard_on_interrupt dev io eq = (ch, io', eq') \<Longrightarrow> written p io' = written p io"
  by (auto dest: inb_io simp: keyboard_on_interrupt_def Let_def split: prod.splits if_splits)

lemma mouse_io: "mouse_on_interrupt dev io m eq = (io', m', eq') \<Longrightarrow> written p io' = written p io"
  by (auto dest: inb_io simp: mouse_on_interrupt_def Let_def split: prod.splits)

lemma line_eois:
  assumes "on_irq_line e dev irq k = Some (r, ops, k')"
  shows "eois k' = eois k" "irq \<noteq> 1 \<Longrightarrow> r = Returned \<and> ops = []"
  using assms
  by (auto simp: on_irq_line_def on_timer_def on_mouse_def on_keyboard_def eois_def Let_def keyboard_io mouse_io
      split: if_splits option.splits prod.splits)

lemma eoi_written:
  "eois (k\<lparr>k_io := pic_send_eoi irq (k_io k)\<rparr>) = (fst (eois k) @ [PIC_EOI], snd (eois k) @ (if irq \<ge> 8 then [PIC_EOI] else []))"
  by (simp add: eois_def pic_send_eoi_def PIC1_CMD_def PIC2_CMD_def)


lemma timer_context: "k_cpu (on_timer k) = k_cpu k" "k_mem (on_timer k) = k_mem k"
  by (simp_all add: on_timer_def pit_on_interrupt_def scheduler_tick_def k_cpu_def k_mem_def Let_def)

lemma mouse_context: "k_cpu (on_mouse dev k) = k_cpu k" "k_mem (on_mouse dev k) = k_mem k"
  by (simp_all add: on_mouse_def k_cpu_def k_mem_def Let_def split: prod.splits)

text \<open>The stub with the frame it pushed.\<close>

lemma isr_common_runs:
  assumes "push_all (rev (regs (k_cpu k))) (rsp (k_cpu k)) (k_mem k) = (a, m0)" "m1 = m0(a - 8 := ret)"
  shows "isr_common e dev cr2 ret d k =
    (case isr_common_c e dev cr2 (m1 (a + 120)) (m1 (a + 128)) (put_cpu ((k_cpu k)\<lparr>rsp := a - 8 - 8 * of_nat d\<rparr>) m1 k) of None \<Rightarrow> None
     | Some (Iret, ops, k') \<Rightarrow> Some (Iret, ops, put_cpu \<lparr>regs = pop_n 15 a (k_mem k'),
         rip = k_mem k' (entry_at (rsp (k_cpu k)) 2), rsp = k_mem k' (entry_at (rsp (k_cpu k)) 5)\<rparr> (k_mem k') k')
     | Some (r, ops, k') \<Rightarrow> Some (r, ops, k'))"
  unfolding isr_common_def Let_def assms prod.case ..

text \<open>
  C14: the other device interrupts are transparent. Whatever code they interrupt, and however deep the
  frame of the dispatcher, the timer, the mouse and the unhandled lines return to the rip and rsp of the
  processor's frame with all fifteen registers as they were, and outside the sixteen words the stub wrote
  below the stack pointer no word of memory has changed.
\<close>

theorem irq_transparent:
  assumes "length (regs (k_cpu k)) = 15" "k_mem k (rsp (k_cpu k)) = vec" "32 \<le> vec" "vec < 48" "vec \<noteq> 33"
  shows "\<exists>k'. isr_common e dev cr2 ret d k = Some (Iret, [], k') \<and>
    k_cpu k' = \<lparr>regs = regs (k_cpu k), rip = k_mem k (entry_at (rsp (k_cpu k)) 2), rsp = k_mem k (entry_at (rsp (k_cpu k)) 5)\<rparr> \<and>
    (\<forall>a. a \<notin> stub_words (rsp (k_cpu k)) \<longrightarrow> k_mem k' a = k_mem k a)"
proof -
  let ?c = "k_cpu k" and ?sp = "rsp (k_cpu k)"
  obtain a m0 where pa: "push_all (rev (regs ?c)) ?sp (k_mem k) = (a, m0)" by (cases "push_all (rev (regs ?c)) ?sp (k_mem k)")
  define m1 where "m1 = m0(a - 8 := ret)"
  note f = stub_frame [OF assms(1) pa m1_def]
  have v: "m1 (a + 120) = vec" 
  proof -
    have "a + 120 = entry_at ?sp 0" unfolding f(1) by (simp add: entry_at_def)
    moreover have "entry_at ?sp 0 = ?sp" by (simp add: entry_at_def)
    ultimately show ?thesis using f(4) [of 0] assms(2) by simp
  qed
  let ?k = "put_cpu (?c\<lparr>rsp := a - 8 - 8 * of_nat d\<rparr>) m1 k" and ?irq = "ucast (vec - 32) :: u8"
  have "?irq \<noteq> 1"
  proof -
    have "unat vec < 48" "32 \<le> unat vec" using assms(3,4) by (simp_all add: word_le_nat_alt word_less_nat_alt)
    moreover have "unat (vec - 32) = unat vec - 32" using assms(3) by (simp add: unat_minus_exact)
    moreover have "unat vec \<noteq> 33" using assms(5) by (simp add: word_unat_eq_iff)
    ultimately have "unat ?irq = unat vec - 32" "unat vec - 32 \<noteq> 1" by (simp_all add: unsigned_ucast_eq take_bit_nat_eq_self)
    then show ?thesis by (metis unat_1)
  qed
  then have "\<exists>k1. on_irq_line e dev ?irq ?k = Some (Returned, [], k1) \<and> k_mem k1 = m1"
    by (auto simp: on_irq_line_def timer_context mouse_context)
  then obtain k1 where k1: "on_irq_line e dev ?irq ?k = Some (Returned, [], k1)" "k_mem k1 = m1" by blast
  have "isr_common_c e dev cr2 vec (m1 (a + 128)) ?k = Some (Iret, [], k1\<lparr>k_io := pic_send_eoi ?irq (k_io k1)\<rparr>)"
    using assms(3,4) k1(1) by (simp add: isr_common_c_def Let_def)
  then have r: "isr_common e dev cr2 ret d k = Some (Iret, [], put_cpu \<lparr>regs = pop_n 15 a m1, rip = m1 (entry_at ?sp 2),
      rsp = m1 (entry_at ?sp 5)\<rparr> m1 (k1\<lparr>k_io := pic_send_eoi ?irq (k_io k1)\<rparr>))"
    using k1(2) unfolding isr_common_runs [OF pa m1_def] v by simp
  then show ?thesis using f(2,3) f(4) [of 2] f(4) [of 5] by simp
qed

lemma below_stub:
  assumes "0 < d" "d < 2 ^ 32"
  shows "entry_at (sp - 128 - 8 * of_nat d) 0 \<notin> stub_words sp"
proof -
  let ?t = "sp - 128 - 8 * of_nat d"
  have e: "entry_at (sp - 128) i = entry_at ?t (d + i)" for i unfolding entry_at_def by (simp add: algebra_simps)
  have "entry_at ?t 0 \<noteq> entry_at ?t (d + i)" if "i < 16" for i using entry_at_eq [of 0 "d + i" ?t] assms that by simp
  then show ?thesis by (auto simp: stub_words_def e)
qed

text \<open>
  C27: a system call made through \<open>int 0x80\<close> does not work. The dispatcher takes the number and the
  arguments from the words at its own stack pointer, below the return address and the saved registers, and
  writes the result there: whatever number and arguments the caller passed, and whatever the call that the
  stray words select returns, every register of the caller, rax included, is what it was before (unless
  the stray number selects \<open>exit\<close>).
\<close>

theorem syscall_result_lost:
  assumes "length (regs (k_cpu k)) = 15" "k_mem k (rsp (k_cpu k)) = 128" "0 < d" "d < 2 ^ 32"
    "k_mem k (rsp (k_cpu k) - 128 - 8 * of_nat d) \<noteq> 4" "isr_common e dev cr2 ret d k = Some (r, ops, k')"
  shows "r = Iret \<and> regs (k_cpu k') = regs (k_cpu k)"
proof -
  let ?c = "k_cpu k" and ?sp = "rsp (k_cpu k)"
  obtain a m0 where pa: "push_all (rev (regs ?c)) ?sp (k_mem k) = (a, m0)" by (cases "push_all (rev (regs ?c)) ?sp (k_mem k)")
  define m1 where "m1 = m0(a - 8 := ret)"
  note f = stub_frame [OF assms(1) pa m1_def]
  have v: "m1 (a + 120) = 128" 
  proof -
    have "a + 120 = entry_at ?sp 0" unfolding f(1) by (simp add: entry_at_def)
    moreover have "entry_at ?sp 0 = ?sp" by (simp add: entry_at_def)
    ultimately show ?thesis using f(4) [of 0] assms(2) by simp
  qed
  let ?t = "a - 8 - 8 * of_nat d"
  let ?k = "put_cpu (?c\<lparr>rsp := ?t\<rparr>) m1 k"
  have t: "?t = ?sp - 128 - 8 * of_nat d" by (simp add: f(1))
  have no: "entry_at ?t 0 \<notin> stub_words ?sp" unfolding t by (rule below_stub [OF assms(3,4)])
  have "entry_at ?t 0 = ?sp - 128 - 8 * of_nat d" unfolding t by (simp add: entry_at_def)
  then have n4: "m1 (entry_at ?t 0) \<noteq> 4" using f(3) [OF no] assms(5) by simp
  have c: "isr_common_c e dev cr2 128 x ?k = isr_syscall e ?k" for x by (simp add: isr_common_c_def)
  obtain k2 where sc: "isr_syscall e ?k = Some (r, ops, k2)" and kk: "r = Iret \<Longrightarrow> regs (k_cpu k') = pop_n 15 a (k_mem k2)"
    using assms(6) unfolding isr_common_runs [OF pa m1_def] v c by (auto split: option.splits isr_end.splits)
  obtain nr s' where d: "syscall_dispatch (env_kend e) False (m1 (entry_at ?t 0)) (m1 (entry_at ?t 5)) (m1 (entry_at ?t 4)) (m1 (entry_at ?t 3)) (k_sys ?k)
      = Some (nr, ops, s')" and k2: "r = resume (k_sys ?k) s'"
      "r = Iret \<Longrightarrow> k2 = put_cpu (k_cpu (put_sys s' ?k)) ((k_mem (put_sys s' ?k))(entry_at ?t 0 := nr)) (put_sys s' ?k)"
    using sc unfolding isr_syscall_def Let_def by (auto split: option.splits)
  have x: "sys_context s' = sys_context (k_sys ?k)" by (rule dispatch_context [OF d n4])
  then have r: "r = Iret" by (simp add: k2(1) resume_def sys_context_def process_get_current_def scheduler_get_current_def)
  have "k_mem (put_sys s' ?k) = k_mem ?k" using x by (simp add: k_mem_def sys_context_def)
  then have "k_mem k2 = m1(entry_at ?t 0 := nr)" using k2(2) [OF r] by simp
  moreover have "pop_n 15 a (m1(entry_at ?t 0 := nr)) = pop_n 15 a m1"
  proof -
    have "entry_at a i = entry_at (?sp - 128) (Suc i)" for i by (simp add: f(1) entry_at_def)
    moreover have "entry_at (?sp - 128) (Suc i) \<noteq> entry_at ?t 0" if "i < 15" for i
    proof
      assume "entry_at (?sp - 128) (Suc i) = entry_at ?t 0"
      then have "entry_at ?t 0 = entry_at (?sp - 128) (Suc i)" "Suc i < 16" using that by simp_all
      then show False using no unfolding stub_words_def by blast
    qed
    ultimately show ?thesis by (simp add: pop_n_at)
  qed
  ultimately show ?thesis using kk [OF r] r f(2) by simp
qed

subsection \<open>An example\<close>

text \<open>
  An interrupt taken at \<open>0x100000\<close>: the vector, the error code and the frame of the processor on the stack
  at \<open>0x9000\<close>, and the line \<open>exec /a\<close> typed but for its Enter.
\<close>

definition demo_kernel :: "u64 \<Rightarrow> kernel" where
  "demo_kernel vec = put_cpu \<lparr>regs = replicate 15 7, rip = 0, rsp = 0x9000\<rparr>
     (\<lambda>a. if a = 0x9000 then vec else if a = 0x9010 then 0x100000 else if a = 0x9028 then 0x8000 else 0)
     \<lparr>k_shell = \<lparr>linebuf = ''exec /a'' @ replicate 121 NUL, linepos = 7, sh_core = demo_core\<rparr>, k_mouse = mouse_static, k_io = []\<rparr>"

text \<open>A keyboard that delivers the scan code of Enter.\<close>

definition enter_key :: device where
  "enter_key io port = (if port = 0x60 then 28 else 0)"

theorem irq_transparent_witness:
  "\<exists>k'. isr_common demo_env enter_key 0 0x5000 3 (demo_kernel 32) = Some (Iret, [], k') \<and>
     k_cpu k' = \<lparr>regs = replicate 15 7, rip = 0x100000, rsp = 0x8000\<rparr>"
proof -
  have l: "length (regs (k_cpu (demo_kernel 32))) = 15" by (simp add: demo_kernel_def)
  have m: "k_mem (demo_kernel 32) (rsp (k_cpu (demo_kernel 32))) = 32" "k_mem (demo_kernel 32) (entry_at (rsp (k_cpu (demo_kernel 32))) 2) = 0x100000"
    "k_mem (demo_kernel 32) (entry_at (rsp (k_cpu (demo_kernel 32))) 5) = 0x8000" "regs (k_cpu (demo_kernel 32)) = replicate 15 7"
    by (simp_all add: demo_kernel_def entry_at_def)
  from irq_transparent [OF l m(1), of demo_env enter_key 0 "0x5000" 3] show ?thesis unfolding m by auto
qed

theorem syscall_result_lost_witness:
  "case isr_common demo_env enter_key 0 0x5000 3 (demo_kernel 128) of None \<Rightarrow> False | Some (r, ops, k') \<Rightarrow> r = Iret \<and> regs (k_cpu k') = replicate 15 7"
proof -
  have l: "length (regs (k_cpu (demo_kernel 128))) = 15" by (simp add: demo_kernel_def)
  have m: "k_mem (demo_kernel 128) (rsp (k_cpu (demo_kernel 128))) = 128" "regs (k_cpu (demo_kernel 128)) = replicate 15 7"
    "k_mem (demo_kernel 128) (rsp (k_cpu (demo_kernel 128)) - 128 - 8 * of_nat 3) \<noteq> 4"
    by (simp_all add: demo_kernel_def)
  have "isr_common demo_env enter_key 0 0x5000 3 (demo_kernel 128) \<noteq> None"
  proof -
    let ?k = "demo_kernel 128" and ?c = "k_cpu (demo_kernel 128)"
    obtain a m0 where pa: "push_all (rev (regs ?c)) (rsp ?c) (k_mem ?k) = (a, m0)" by (cases "push_all (rev (regs ?c)) (rsp ?c) (k_mem ?k)")
    define m1 where "m1 = m0(a - 8 := 0x5000)"
    note f = stub_frame [OF l pa m1_def]
    have r: "rsp ?c = 0x9000" by (simp add: demo_kernel_def)
    have v: "m1 (a + 120) = 128" using f(4) [of 0] m(1) by (simp add: f(1) r entry_at_def)
    have t: "a - 8 - 8 * of_nat 3 = rsp ?c - 128 - 8 * of_nat 3" by (simp add: f(1))
    have "entry_at (a - 8 - 8 * of_nat 3) 0 \<notin> stub_words (rsp ?c)" unfolding t by (rule below_stub) simp_all
    from f(3) [OF this] have w: "m1 (entry_at (a - 8 - 8 * of_nat 3) 0) = 0" by (simp add: f(1) r entry_at_def) (simp add: demo_kernel_def)
    show ?thesis unfolding isr_common_runs [OF pa m1_def] v
      by (simp add: isr_common_c_def isr_syscall_def w [simplified] syscall_dispatch_def syscall_table_def resume_def Let_def)
  qed
  then obtain r ops k' where i: "isr_common demo_env enter_key 0 0x5000 3 (demo_kernel 128) = Some (r, ops, k')" by auto
  from syscall_result_lost [OF l m(1) _ _ m(3) i] show ?thesis unfolding i m by simp
qed


subsection \<open>Faults\<close>



end
