(* ===== verification/InitialTree.thy ===== *)
theory InitialTree
  imports Vfs
begin

text \<open>
  The tree \<open>vfs_init\<close> builds (\<open>kernel/fs/vfs.c\<close>): directories and text files made one after the
  other on an empty file system. \<open>built\<close> describes a tree under construction; making a directory or a
  file of a new name adds an entry and keeps the ones that are there.
\<close>

subsection \<open>Entries\<close>

text \<open>
  \<open>tree_has s path c\<close>: the path leads to a directory (\<open>c\<close> is \<open>None\<close>) or to a file with the given bytes.
  \<open>node_names\<close> are the names in use anywhere in the tree.
\<close>

definition node_is :: "vfs_node \<Rightarrow> u8 list option \<Rightarrow> bool" where
  "node_is m c \<longleftrightarrow> (case c of None \<Rightarrow> vtype m = VFS_DIR
     | Some d \<Rightarrow> vtype m = VFS_FILE \<and> vdata m = Some d \<and> vsize m = of_nat (length d))"

definition tree_has :: "vfs \<Rightarrow> string \<Rightarrow> u8 list option \<Rightarrow> bool" where
  "tree_has s path c \<longleftrightarrow> (\<exists>r m. resolve_spec s path (vfs_root s) = Some r \<and> r \<noteq> 0 \<and> nodes s r = Some m \<and> node_is m c)"

definition node_names :: "vfs \<Rightarrow> string set" where
  "node_names s = {nm. \<exists>a n. nodes s a = Some n \<and> vname n = Some nm}"

lemma tree_has_tokens:
  assumes "tree_has s path c" "path_tokens path' = path_tokens path" "cs_at path 0 = slash" "cs_at path' 0 = slash"
    "cs_at path 1 \<noteq> NUL" "cs_at path 1 \<noteq> newline" "cs_at path' 1 \<noteq> NUL" "cs_at path' 1 \<noteq> newline"
  shows "tree_has s path' c"
  using assms by (simp add: tree_has_def resolve_spec_def)

lemma fresh_name:
  assumes "vfs_inv kend s" "plain_path dir nm" "dir \<noteq> []" "tree_has s dir None" "nm \<notin> node_names s"
  obtains p pn where "resolve_spec s (if dir = [] then ''.'' else dir) (vfs_root s) = Some p" "nodes s p = Some pn" "vtype pn = VFS_DIR"
    "resolve_spec s (dir @ nm) (vfs_root s) = Some 0" "vfs_find_child (nodes s) p nm = Some 0"
proof -
  obtain p pn where p: "resolve_spec s dir (vfs_root s) = Some p" "p \<noteq> 0" "nodes s p = Some pn" "vtype pn = VFS_DIR"
    using assms(4) by (auto simp: tree_has_def node_is_def)
  have t: "tree_ok (nodes s) (vfs_root s)" using assms(1) by (simp add: vfs_inv_def)
  have "is_cstr nm" using assms(2) by (simp add: plain_path_def is_cstr_def)
  then obtain c where c: "vfs_find_child (nodes s) p nm = Some c" "c = 0 \<or> (\<exists>m. nodes s c = Some m \<and> vparent m = p \<and> vname m = Some nm)"
    by (rule find_child_some [OF t p(3)])
  then have f: "vfs_find_child (nodes s) p nm = Some 0" using assms(5) by (auto simp: node_names_def)
  from p(1) assms(3) have q: "resolve_spec s (if dir = [] then ''.'' else dir) (vfs_root s) = Some p" by simp
  show ?thesis using resolve_plain [OF assms(2) q p(2)] f by (intro that [OF q p(3,4)]) simp_all
qed

text \<open>Making a directory or a file of a new name in a directory that is there.\<close>

lemma names_insert:
  assumes c: "can_insert (nodes s) root p pn a nm"
  shows "node_names (vfs_with s h (insert_node (nodes s) p pn a nm ty)) \<subseteq> insert nm (node_names s)"
  using can_insertD(2) [OF c] unfolding node_names_def insert_node_def by (fastforce split: if_splits)

lemma create_names:
  assumes inv: "vfs_inv kend s" and pl: "plain_path dir nm" and rm: "room kend s (10 * length (dir @ nm) + 100)"
    and cr: "vfs_create kend (Some (dir @ nm)) is_dir (vfs_root s) s = Some (n, s')"
  shows "node_names s' \<subseteq> insert nm (node_names s)"
proof -
  have root: "vfs_root s = 0 \<or> vfs_root s \<in> dom (nodes s)" using inv by (simp add: vfs_inv_def tree_ok_def)
  have pos: "drop (path_pos (dir @ nm)) (dir @ nm) = nm" using path_pos_plain [OF pl] by simp
  show ?thesis
    by (rule vfs_create_eq [OF inv plain_cstr [OF pl] root rm, of is_dir, unfolded pos cr])
      (auto dest: names_insert [THEN subsetD] simp: node_names_def [of "vfs_with s _ (nodes s)"] node_names_def [of s])
qed

lemma write_names:
  assumes inv: "vfs_inv kend s" and pl: "plain_path dir nm" and rm: "room kend s (10 * length (dir @ nm) + 100)"
    and w: "vfs_write_file kend (Some (dir @ nm)) data len (vfs_root s) s = Some (rc, s')"
  shows "node_names s' \<subseteq> insert nm (node_names s)"
proof -
  obtain n s1 where cr: "vfs_create kend (Some (dir @ nm)) False (vfs_root s) s = Some (n, s1)"
    using w by (auto simp: vfs_write_file_def split: option.splits)
  have "node_names s' \<subseteq> node_names s1"
    using w cr by (auto simp: vfs_write_file_def vfs_kmalloc_def node_names_def split: if_splits option.splits prod.splits) blast+
  with create_names [OF inv pl rm cr] show ?thesis by blast
qed

lemma create_step:
  assumes inv: "vfs_inv kend s" and pl: "plain_path dir nm" "dir \<noteq> []" and d: "tree_has s dir None" and nm: "nm \<notin> node_names s"
    and rm: "room kend s (N + 10 * length (dir @ nm) + 100)"
  obtains n s' nn where "vfs_create kend (Some (dir @ nm)) is_dir (vfs_root s) s = Some (n, s')" "vfs_inv kend s'" "vfs_root s' = vfs_root s"
    "room kend s' N" "n \<noteq> 0" "resolve_spec s' (dir @ nm) (vfs_root s) = Some n" "nodes s' n = Some nn"
    "vtype nn = (if is_dir then VFS_DIR else VFS_FILE)"
    "\<And>q c. is_cstr q \<Longrightarrow> tree_has s q c \<Longrightarrow> \<exists>r m. resolve_spec s' q (vfs_root s) = Some r \<and> r \<noteq> 0 \<and> r \<noteq> n \<and> nodes s' r = Some m \<and> node_is m c"
proof -
  have root: "vfs_root s = 0 \<or> vfs_root s \<in> dom (nodes s)" using inv by (simp add: vfs_inv_def tree_ok_def)
  obtain p pn where p: "resolve_spec s (if dir = [] then ''.'' else dir) (vfs_root s) = Some p" "nodes s p = Some pn" "vtype pn = VFS_DIR"
    "resolve_spec s (dir @ nm) (vfs_root s) = Some 0" by (rule fresh_name [OF inv pl d nm])
  have rm1: "room kend s (10 * length (dir @ nm) + 100)" by (rule room_mono [OF rm]) simp
  obtain n s' p' where cr: "vfs_create kend (Some (dir @ nm)) is_dir (vfs_root s) s = Some (n, s')"
    "resolve_spec s (if dir = [] then ''.'' else dir) (vfs_root s) = Some p'" "n \<noteq> 0 \<longleftrightarrow> (\<exists>pn. nodes s p' = Some pn \<and> vtype pn = VFS_DIR)"
    "n \<noteq> 0 \<Longrightarrow> resolve_spec s' (dir @ nm) (vfs_root s) = Some n"
    and keep: "\<And>q st r. is_cstr q \<Longrightarrow> st = 0 \<or> st \<in> dom (nodes s) \<Longrightarrow> resolve_spec s q st = Some r \<Longrightarrow> r \<noteq> 0 \<Longrightarrow> resolve_spec s' q st = Some r"
    and kept: "\<And>b m. nodes s b = Some m \<Longrightarrow> \<exists>m'. nodes s' b = Some m' \<and> vtype m' = vtype m \<and> vdata m' = vdata m \<and> vsize m' = vsize m"
    and new: "\<And>m. n \<notin> dom (nodes s) \<Longrightarrow> nodes s' n = Some m \<Longrightarrow> vtype m = (if is_dir then VFS_DIR else VFS_FILE)"
    and same: "n \<in> dom (nodes s) \<Longrightarrow> nodes s' n = nodes s n \<and> resolve_spec s (dir @ nm) (vfs_root s) = Some n"
    by (rule vfs_create_spec [OF inv pl(1) root rm1, of is_dir]) blast
  have n: "n \<noteq> 0" using cr(2,3) p by auto
  then have nd: "n \<notin> dom (nodes s)" using same p(4) by auto
  have i: "vfs_inv kend s'" "vfs_root s' = vfs_root s" "n \<in> dom (nodes s')" "brk kend s' \<le> brk kend s + 10 * length (dir @ nm) + 100"
    using vfs_create_inv [OF inv plain_cstr [OF pl(1)] root rm1 cr(1)] n by auto
  from i(3) obtain nn where nn: "nodes s' n = Some nn" by blast
  have "room kend s' N" using rm i(1,4) unfolding room_def vfs_inv_def by linarith
  moreover have "\<exists>r m. resolve_spec s' q (vfs_root s) = Some r \<and> r \<noteq> 0 \<and> r \<noteq> n \<and> nodes s' r = Some m \<and> node_is m c"
    if q: "is_cstr q" "tree_has s q c" for q c
  proof -
    obtain r m where r: "resolve_spec s q (vfs_root s) = Some r" "r \<noteq> 0" "nodes s r = Some m" "node_is m c"
      using q(2) by (auto simp: tree_has_def)
    from kept [OF r(3)] obtain m' where m': "nodes s' r = Some m'" "vtype m' = vtype m" "vdata m' = vdata m" "vsize m' = vsize m" by blast
    then have "node_is m' c" using r(4) by (simp add: node_is_def split: option.splits)
    with m'(1) keep [OF q(1) root r(1,2)] r(2,3) nd show ?thesis by blast
  qed
  ultimately show ?thesis using that [OF cr(1) i(1,2) _ n cr(4) [OF n] nn new [OF nd nn]] by blast
qed

lemma mkdir_step:
  assumes inv: "vfs_inv kend s" and pl: "plain_path dir nm" "dir \<noteq> []" and d: "tree_has s dir None" and nm: "nm \<notin> node_names s"
    and rm: "room kend s (N + 10 * length (dir @ nm) + 100)"
  obtains n s' where "vfs_create kend (Some (dir @ nm)) True (vfs_root s) s = Some (n, s')" "vfs_inv kend s'" "vfs_root s' = vfs_root s"
    "room kend s' N" "tree_has s' (dir @ nm) None" "\<And>q c. is_cstr q \<Longrightarrow> tree_has s q c \<Longrightarrow> tree_has s' q c"
    "node_names s' \<subseteq> insert nm (node_names s)"
proof -
  obtain n s' nn where c: "vfs_create kend (Some (dir @ nm)) True (vfs_root s) s = Some (n, s')" "vfs_inv kend s'" "vfs_root s' = vfs_root s"
    "room kend s' N" "n \<noteq> 0" "resolve_spec s' (dir @ nm) (vfs_root s) = Some n" "nodes s' n = Some nn"
    "vtype nn = (if True then VFS_DIR else VFS_FILE)"
    "\<And>q c. is_cstr q \<Longrightarrow> tree_has s q c \<Longrightarrow> \<exists>r m. resolve_spec s' q (vfs_root s) = Some r \<and> r \<noteq> 0 \<and> r \<noteq> n \<and> nodes s' r = Some m \<and> node_is m c"
    by (rule create_step [OF assms, of True]) blast
  have "node_names s' \<subseteq> insert nm (node_names s)" by (rule create_names [OF inv pl(1) room_mono [OF rm] c(1)]) simp
  moreover have "tree_has s' (dir @ nm) None" using c(3,5-8) by (auto simp: tree_has_def node_is_def)
  moreover have "tree_has s' q e" if "is_cstr q" "tree_has s q e" for q e using c(9) [OF that] c(3) by (auto simp: tree_has_def)
  ultimately show ?thesis using that [OF c(1-4)] by blast
qed

lemma write_step:
  assumes inv: "vfs_inv kend s" and pl: "plain_path dir nm" "dir \<noteq> []" and d: "tree_has s dir None" and nm: "nm \<notin> node_names s"
    and rm: "room kend s (N + 10 * length (dir @ nm) + length data + 110)"
  obtains s' where "vfs_write_file kend (Some (dir @ nm)) data (of_nat (length data)) (vfs_root s) s = Some (0, s')" "vfs_inv kend s'"
    "vfs_root s' = vfs_root s" "room kend s' N" "tree_has s' (dir @ nm) (Some data)"
    "\<And>q c. is_cstr q \<Longrightarrow> tree_has s q c \<Longrightarrow> tree_has s' q c" "node_names s' \<subseteq> insert nm (node_names s)"
proof -
  have root: "vfs_root s = 0 \<or> vfs_root s \<in> dom (nodes s)" using inv by (simp add: vfs_inv_def tree_ok_def)
  have "length data \<le> 8388608" using room_small [OF rm] by simp
  then have l: "unat (of_nat (length data) :: u64) = length data" by (simp add: unat_of_nat_small)
  have rm1: "room kend s (length data + 8 + N + 10 * length (dir @ nm) + 100)" by (rule room_mono [OF rm]) simp
  have rm2: "room kend s (10 * length (dir @ nm) + unat (of_nat (length data) :: u64) + 110)" using rm by (rule room_mono) (simp add: l)
  obtain n s1 nn where c: "vfs_create kend (Some (dir @ nm)) False (vfs_root s) s = Some (n, s1)" "vfs_inv kend s1" "vfs_root s1 = vfs_root s"
    "room kend s1 (length data + 8 + N)" "n \<noteq> 0" "resolve_spec s1 (dir @ nm) (vfs_root s) = Some n" "nodes s1 n = Some nn"
    "vtype nn = (if False then VFS_DIR else VFS_FILE)"
    "\<And>q c. is_cstr q \<Longrightarrow> tree_has s q c \<Longrightarrow> \<exists>r m. resolve_spec s1 q (vfs_root s) = Some r \<and> r \<noteq> 0 \<and> r \<noteq> n \<and> nodes s1 r = Some m \<and> node_is m c"
    by (rule create_step [OF inv pl d nm rm1, of False]) blast
  have "room kend s1 (Suc (length data) + 7)" by (rule room_mono [OF c(4)]) simp
  then obtain a h where a: "vfs_kmalloc kend (of_nat (Suc (length data))) s1 = (a, s1\<lparr>vheap := h\<rparr>)" "a \<noteq> 0"
    by (rule vfs_kmalloc_room) simp
  let ?s = "s1\<lparr>vheap := h, nodes := set_data (nodes s1) n nn data (of_nat (length data))\<rparr>"
  have w: "vfs_write_file kend (Some (dir @ nm)) data (of_nat (length data)) (vfs_root s) s = Some (0, ?s)"
    using a c(1,5,7,8) by (simp add: vfs_write_file_def set_data_def l add.commute)
  obtain rc s' where i: "vfs_write_file kend (Some (dir @ nm)) data (of_nat (length data)) (vfs_root s) s = Some (rc, s')" "vfs_inv kend s'"
    "brk kend s' \<le> brk kend s + 10 * length (dir @ nm) + length data + 110"
    by (rule vfs_write_spec [OF inv pl(1) root rm2, of data]) (simp_all add: l)
  have i: "vfs_inv kend ?s" "brk kend ?s \<le> brk kend s + 10 * length (dir @ nm) + length data + 110" using i unfolding w by simp_all
  have root1: "vfs_root s = 0 \<or> vfs_root s \<in> dom (nodes s1)" using c(2,3) by (simp add: vfs_inv_def tree_ok_def)
  have v: "?s = vfs_with s1 h (set_data (nodes s1) n nn data (of_nat (length data)))" by (simp add: vfs_with_def)
  have sh: "resolve_spec ?s q (vfs_root s) = resolve_spec s1 q (vfs_root s)" if "is_cstr q" for q
    unfolding v using c(2) i(1) by (intro resolve_spec_same same_shape_set_data c(7) that root1) (simp_all add: vfs_inv_def)
  show ?thesis
  proof (rule that [OF w i(1)])
    show "room kend ?s N" using rm i unfolding room_def vfs_inv_def by linarith
    show "tree_has ?s (dir @ nm) (Some data)" using c(3,5,6,8) sh [OF plain_cstr [OF pl(1)]] by (simp add: tree_has_def node_is_def set_data_def)
    show "node_names ?s \<subseteq> insert nm (node_names s)" by (rule write_names [OF inv pl(1) room_mono [OF rm] w]) simp
    show "tree_has ?s q e" if "is_cstr q" "tree_has s q e" for q e
      using c(9) [OF that] c(3) sh [OF that(1)] by (auto simp: tree_has_def set_data_def)
  qed (simp add: c(3))
qed

lemma root_step:
  assumes "room kend (vfs_static h) (N + 71)"
  obtains r s where "vfs_node_new kend '''' VFS_DIR (vfs_static h) = (r, s)" "r \<noteq> 0" "vfs_inv kend (s\<lparr>vfs_root := r\<rparr>)"
    "room kend (s\<lparr>vfs_root := r\<rparr>) N" "tree_has (s\<lparr>vfs_root := r\<rparr>) ''/'' None" "node_names (s\<lparr>vfs_root := r\<rparr>) = {''''}"
proof -
  have "room kend (vfs_static h) (length '''' + 71)" using assms by (rule room_mono) simp
  then obtain a h' where n: "vfs_node_new kend '''' VFS_DIR (vfs_static h) =
      (a, (vfs_static h)\<lparr>vheap := h', nodes := (nodes (vfs_static h))(a \<mapsto> \<lparr>vname = Some '''', vtype = VFS_DIR, vparent = 0,
        vchildren = 0, vnext = 0, vdata = None, vsize = 0\<rparr>)\<rparr>)"
    "a \<noteq> 0" "heap_inv kend h'" "unat a < heap_brk kend h'" "heap_brk kend h' \<le> brk kend (vfs_static h) + length '''' + 71"
    by (rule node_new_room [where ty = VFS_DIR]) (simp_all add: is_cstr_def)
  let ?s = "(vfs_static h)\<lparr>vheap := h', nodes := (nodes (vfs_static h))(a \<mapsto> \<lparr>vname = Some '''', vtype = VFS_DIR, vparent = 0,
        vchildren = 0, vnext = 0, vdata = None, vsize = 0\<rparr>), vfs_root := a\<rparr>"
  have "kids (nodes ?s) a []" by (simp add: kids_def)
  then have "tree_ok (nodes ?s) a"
    using n(2) by (auto simp: tree_ok_def node_ok_def vfs_static_def split: if_splits intro!: exI [where x = "[]"])
  then have "vfs_inv kend ?s" using n(3,4) by (simp add: vfs_inv_def vfs_static_def)
  moreover have "room kend ?s N" using n(3,5) assms by (simp add: room_def)
  moreover have "tree_has ?s ''/'' None" using n(2) by (simp add: tree_has_def resolve_spec_def node_is_def)
  moreover have "node_names ?s = {''''}" by (simp add: node_names_def vfs_static_def)
  ultimately show ?thesis using that [OF n(1,2)] by simp
qed

text \<open>A tree under construction: what it holds so far, the names used, the room left.\<close>

definition built :: "u64 \<Rightarrow> u64 \<Rightarrow> nat \<Rightarrow> (string \<times> u8 list option) set \<Rightarrow> string set \<Rightarrow> vfs \<Rightarrow> bool" where
  "built kend r N es names s \<longleftrightarrow> vfs_inv kend s \<and> vfs_root s = r \<and> room kend s N \<and>
     (\<forall>(p, c) \<in> es. is_cstr p \<and> tree_has s p c) \<and> node_names s \<subseteq> names"

lemma built_mkdir:
  assumes "built kend r (N + 10 * length (dir @ nm) + 100) es names s" "(dir, None) \<in> es" "plain_path dir nm" "dir \<noteq> []" "nm \<notin> names"
  shows "\<exists>n s'. vfs_create kend (Some (dir @ nm)) True r s = Some (n, s') \<and> built kend r N (insert (dir @ nm, None) es) (insert nm names) s'"
proof -
  have s: "vfs_inv kend s" "vfs_root s = r" "room kend s (N + 10 * length (dir @ nm) + 100)" "tree_has s dir None" "nm \<notin> node_names s"
    using assms(1,2,5) by (auto simp: built_def)
  obtain n s' where c: "vfs_create kend (Some (dir @ nm)) True (vfs_root s) s = Some (n, s')" "vfs_inv kend s'" "vfs_root s' = vfs_root s"
    "room kend s' N" "tree_has s' (dir @ nm) None" "\<And>q c. is_cstr q \<Longrightarrow> tree_has s q c \<Longrightarrow> tree_has s' q c"
    "node_names s' \<subseteq> insert nm (node_names s)" by (rule mkdir_step [OF s(1) assms(3,4) s(4,5,3)]) blast
  then have "built kend r N (insert (dir @ nm, None) es) (insert nm names) s'"
    using assms(1) plain_cstr [OF assms(3)] s(2) unfolding built_def by auto
  with c(1) s(2) show ?thesis by blast
qed

lemma built_write:
  assumes "built kend r (N + 10 * length (dir @ nm) + length data + 110) es names s" "(dir, None) \<in> es" "plain_path dir nm" "dir \<noteq> []"
    "nm \<notin> names"
  shows "\<exists>s'. vfs_write_file kend (Some (dir @ nm)) data (of_nat (length data)) r s = Some (0, s') \<and>
    built kend r N (insert (dir @ nm, Some data) es) (insert nm names) s'"
proof -
  have s: "vfs_inv kend s" "vfs_root s = r" "room kend s (N + 10 * length (dir @ nm) + length data + 110)" "tree_has s dir None"
    "nm \<notin> node_names s" using assms(1,2,5) by (auto simp: built_def)
  obtain s' where c: "vfs_write_file kend (Some (dir @ nm)) data (of_nat (length data)) (vfs_root s) s = Some (0, s')" "vfs_inv kend s'"
    "vfs_root s' = vfs_root s" "room kend s' N" "tree_has s' (dir @ nm) (Some data)"
    "\<And>q c. is_cstr q \<Longrightarrow> tree_has s q c \<Longrightarrow> tree_has s' q c" "node_names s' \<subseteq> insert nm (node_names s)"
    by (rule write_step [OF s(1) assms(3,4) s(4,5,3)]) blast
  then have "built kend r N (insert (dir @ nm, Some data) es) (insert nm names) s'"
    using assms(1) plain_cstr [OF assms(3)] s(2) unfolding built_def by auto
  with c(1) s(2) show ?thesis by blast
qed

text \<open>A trailing slash makes no difference.\<close>

lemma built_dir:
  assumes "built kend r N es names s" "(slash # d, None) \<in> es" "d \<noteq> []" "hd d \<noteq> newline" "hd d \<noteq> slash"
  shows "built kend r N (insert (slash # d @ ''/'', None) es) names s"
proof -
  have t: "is_cstr (slash # d)" "tree_has s (slash # d) None" using assms(1,2) by (auto simp: built_def)
  then have z: "is_cstr (slash # d @ ''/'')" by (simp add: is_cstr_def)
  have "tree_has s (slash # d @ ''/'') None"
    using t assms(3-5) path_tokens_append [of d "[]"]
    by (intro tree_has_tokens [OF t(2)]) (cases d; auto simp: is_cstr_def)+
  with z assms(1) show ?thesis unfolding built_def by auto
qed

lemma built_mono:
  "built kend r M es ns s \<Longrightarrow> M' \<le> M \<Longrightarrow> es' \<subseteq> es \<Longrightarrow> ns \<subseteq> ns' \<Longrightarrow> built kend r M' es' ns' s"
  unfolding built_def by (blast intro: room_mono)

lemma built_root: "built kend r N es ns s \<Longrightarrow> vfs_root s = r"
  by (simp add: built_def)

definition dirs_of_boot :: "(string \<times> u8 list option) set" where
  "dirs_of_boot = {(''/home/'', None), (''/system/'', None), (''/home'', None), (''/system'', None), (''/'', None)}"

lemma init_dirs:
  assumes "room kend (vfs_static h) (N + 571)"
  obtains r s0 n2 s2 n3 s3 where "vfs_node_new kend '''' VFS_DIR (vfs_static h) = (r, s0)" "r \<noteq> 0"
    "vfs_create kend (Some ''/system'') True r (s0\<lparr>vfs_root := r\<rparr>) = Some (n2, s2)"
    "vfs_create kend (Some ''/home'') True r s2 = Some (n3, s3)" "built kend r N dirs_of_boot {''home'', ''system'', ''''} s3"
proof -
  have "room kend (vfs_static h) ((N + 500) + 71)" using assms by (rule room_mono) simp
  then obtain r s0 where r: "vfs_node_new kend '''' VFS_DIR (vfs_static h) = (r, s0)" "r \<noteq> 0" "vfs_inv kend (s0\<lparr>vfs_root := r\<rparr>)"
    "room kend (s0\<lparr>vfs_root := r\<rparr>) (N + 500)" "tree_has (s0\<lparr>vfs_root := r\<rparr>) ''/'' None" "node_names (s0\<lparr>vfs_root := r\<rparr>) = {''''}"
    by (rule root_step)
  have pl: "plain_path ''/'' ''system''" "plain_path ''/'' ''home''" by (simp_all add: plain_path_def path_tokens_def)
  have b1: "built kend r (N + 500) {(''/'', None)} {''''} (s0\<lparr>vfs_root := r\<rparr>)" using r(3-6) by (simp add: built_def is_cstr_def)
  have "\<exists>n s'. vfs_create kend (Some (''/'' @ ''system'')) True r (s0\<lparr>vfs_root := r\<rparr>) = Some (n, s') \<and>
      built kend r (N + 300) (insert (''/'' @ ''system'', None) {(''/'', None)}) (insert ''system'' {''''}) s'"
    by (rule built_mkdir [OF built_mono [OF b1] _ pl(1)]) simp_all
  then obtain n2 s2 where s2: "vfs_create kend (Some ''/system'') True r (s0\<lparr>vfs_root := r\<rparr>) = Some (n2, s2)"
    "built kend r (N + 300) {(''/system'', None), (''/'', None)} {''system'', ''''} s2" by auto
  have "\<exists>n s'. vfs_create kend (Some (''/'' @ ''home'')) True r s2 = Some (n, s') \<and>
      built kend r N (insert (''/'' @ ''home'', None) {(''/system'', None), (''/'', None)}) (insert ''home'' {''system'', ''''}) s'"
    by (rule built_mkdir [OF built_mono [OF s2(2)] _ pl(2)]) simp_all
  then obtain n3 s3 where s3: "vfs_create kend (Some ''/home'') True r s2 = Some (n3, s3)"
    "built kend r N {(''/home'', None), (''/system'', None), (''/'', None)} {''home'', ''system'', ''''} s3" by auto
  have "built kend r N dirs_of_boot {''home'', ''system'', ''''} s3"
    unfolding dirs_of_boot_def using built_dir [OF built_dir [OF s3(2), of "''system''"], of "''home''"] by simp
  then show ?thesis by (rule that [OF r(1,2) s2(1) s3(1)])
qed

lemma init_text:
  assumes "built kend r (N + 10 * length (dir @ nm) + length text + 110) es names s" "(dir, None) \<in> es" "plain_path dir nm" "dir \<noteq> []"
    "nm \<notin> names" "is_cstr text"
  shows "\<exists>s'. write_text kend (dir @ nm) text s = Some (0, s') \<and> built kend r N (insert (dir @ nm, Some (c_bytes text)) es) (insert nm names) s'"
  using built_write [of kend r N dir nm "c_bytes text" es names s] assms
  by (simp add: write_text_def built_root [OF assms(1)] c_bytes_def)

text \<open>The tree the boot leaves: three text files and, when there is one, the embedded program.\<close>

definition initial_entries :: "u8 list \<Rightarrow> (string \<times> u8 list option) list" where
  "initial_entries hello =
     [(''/'', None), (''/system'', None), (''/home'', None), (''/system/version'', Some (c_bytes version_text)),
      (''/system/about'', Some (c_bytes about_text)), (''/home/readme.txt'', Some (c_bytes readme_text))] @
     (if hello = [] then [] else [(''/bin'', None), (''/bin/hello'', Some hello)])"

lemma init_files:
  assumes "built kend r (N + 1000) dirs_of_boot {''home'', ''system'', ''''} s"
  obtains s4 s5 s6 where "write_text kend ''/system/version'' version_text s = Some (0, s4)"
    "write_text kend ''/system/about'' about_text s4 = Some (0, s5)" "write_text kend ''/home/readme.txt'' readme_text s5 = Some (0, s6)"
    "built kend r N (set (initial_entries [])) {''readme.txt'', ''about'', ''version'', ''home'', ''system'', ''''} s6"
proof -
  note D = dirs_of_boot_def
  have pl: "plain_path ''/system/'' ''version''" "plain_path ''/system/'' ''about''" "plain_path ''/home/'' ''readme.txt''"
    by (simp_all add: plain_path_def path_tokens_def)
  have t: "is_cstr version_text" "is_cstr about_text" "is_cstr readme_text"
    by (simp_all add: version_text_def about_text_def readme_text_def is_cstr_def)
  have "\<exists>s'. write_text kend (''/system/'' @ ''version'') version_text s = Some (0, s') \<and>
      built kend r (N + 700) (insert (''/system/'' @ ''version'', Some (c_bytes version_text)) dirs_of_boot) (insert ''version'' {''home'', ''system'', ''''}) s'"
    by (rule init_text [OF built_mono [OF assms] _ pl(1) _ _ t(1)]) (simp_all add: D version_text_def)
  then obtain s4 where s4: "write_text kend (''/system/'' @ ''version'') version_text s = Some (0, s4)"
    "built kend r (N + 700) (insert (''/system/'' @ ''version'', Some (c_bytes version_text)) dirs_of_boot) (insert ''version'' {''home'', ''system'', ''''}) s4" by blast
  have "\<exists>s'. write_text kend (''/system/'' @ ''about'') about_text s4 = Some (0, s') \<and>
      built kend r (N + 350) (insert (''/system/'' @ ''about'', Some (c_bytes about_text)) (insert (''/system/'' @ ''version'', Some (c_bytes version_text)) dirs_of_boot))
        (insert ''about'' (insert ''version'' {''home'', ''system'', ''''})) s'"
    by (rule init_text [OF built_mono [OF s4(2)] _ pl(2) _ _ t(2)]) (simp_all add: D about_text_def)
  then obtain s5 where s5: "write_text kend (''/system/'' @ ''about'') about_text s4 = Some (0, s5)"
    "built kend r (N + 350) (insert (''/system/'' @ ''about'', Some (c_bytes about_text)) (insert (''/system/'' @ ''version'', Some (c_bytes version_text)) dirs_of_boot))
        (insert ''about'' (insert ''version'' {''home'', ''system'', ''''})) s5" by blast
  have "\<exists>s'. write_text kend (''/home/'' @ ''readme.txt'') readme_text s5 = Some (0, s') \<and>
      built kend r N (insert (''/home/'' @ ''readme.txt'', Some (c_bytes readme_text)) (insert (''/system/'' @ ''about'', Some (c_bytes about_text))
        (insert (''/system/'' @ ''version'', Some (c_bytes version_text)) dirs_of_boot)))
        (insert ''readme.txt'' (insert ''about'' (insert ''version'' {''home'', ''system'', ''''}))) s'"
    by (rule init_text [OF built_mono [OF s5(2)] _ pl(3) _ _ t(3)]) (simp_all add: D readme_text_def)
  then obtain s6 where s6: "write_text kend (''/home/'' @ ''readme.txt'') readme_text s5 = Some (0, s6)"
    "built kend r N (insert (''/home/'' @ ''readme.txt'', Some (c_bytes readme_text)) (insert (''/system/'' @ ''about'', Some (c_bytes about_text))
        (insert (''/system/'' @ ''version'', Some (c_bytes version_text)) dirs_of_boot)))
        (insert ''readme.txt'' (insert ''about'' (insert ''version'' {''home'', ''system'', ''''}))) s6" by blast
  have "built kend r N (set (initial_entries [])) {''readme.txt'', ''about'', ''version'', ''home'', ''system'', ''''} s6"
    by (rule built_mono [OF s6(2)]) (simp_all add: initial_entries_def D)
  then show ?thesis using that s4(1) s5(1) s6(1) by simp
qed

lemma init_program:
  assumes "built kend r (N + length hello + 500) (set (initial_entries [])) names s" "''bin'' \<notin> names" "''hello'' \<notin> names" "hello \<noteq> []"
  obtains n s7 s8 where "vfs_create kend (Some ''/bin'') True r s = Some (n, s7)"
    "vfs_write_file kend (Some ''/bin/hello'') hello (of_nat (length hello)) r s7 = Some (0, s8)"
    "built kend r N (set (initial_entries hello)) UNIV s8"
proof -
  have pl: "plain_path ''/'' ''bin''" "plain_path ''/bin/'' ''hello''" by (simp_all add: plain_path_def path_tokens_def)
  have "\<exists>n s'. vfs_create kend (Some (''/'' @ ''bin'')) True r s = Some (n, s') \<and>
      built kend r (N + length hello + 250) (insert (''/'' @ ''bin'', None) (set (initial_entries []))) (insert ''bin'' names) s'"
    by (rule built_mkdir [OF built_mono [OF assms(1)] _ pl(1)]) (simp_all add: initial_entries_def assms)
  then obtain n s7 where s7: "vfs_create kend (Some (''/'' @ ''bin'')) True r s = Some (n, s7)"
    "built kend r (N + length hello + 250) (insert (''/bin'', None) (set (initial_entries []))) (insert ''bin'' names) s7" by auto
  have b: "built kend r (N + length hello + 250) (insert (''/bin/'', None) (insert (''/bin'', None) (set (initial_entries [])))) (insert ''bin'' names) s7"
    using built_dir [OF s7(2), of "''bin''"] by simp
  have "\<exists>s'. vfs_write_file kend (Some (''/bin/'' @ ''hello'')) hello (of_nat (length hello)) r s7 = Some (0, s') \<and>
      built kend r N (insert (''/bin/'' @ ''hello'', Some hello) (insert (''/bin/'', None) (insert (''/bin'', None) (set (initial_entries [])))))
        (insert ''hello'' (insert ''bin'' names)) s'"
    by (rule built_write [OF built_mono [OF b] _ pl(2)]) (simp_all add: assms)
  then obtain s8 where s8: "vfs_write_file kend (Some (''/bin/'' @ ''hello'')) hello (of_nat (length hello)) r s7 = Some (0, s8)"
    "built kend r N (insert (''/bin/'' @ ''hello'', Some hello) (insert (''/bin/'', None) (insert (''/bin'', None) (set (initial_entries [])))))
        (insert ''hello'' (insert ''bin'' names)) s8" by blast
  have "built kend r N (set (initial_entries hello)) UNIV s8"
    by (rule built_mono [OF s8(2)]) (auto simp: initial_entries_def)
  then show ?thesis using that s7(1) s8(1) by simp
qed

lemma vfs_init_works:
  assumes "room kend (vfs_static h) (N + length hello + 2100)"
  shows "\<exists>s. vfs_init kend hello (vfs_static h) = Some (log_info ''[OK] vfs initialized'', s) \<and>
    built kend (vfs_root s) N (set (initial_entries hello)) UNIV s"
proof -
  have rm: "room kend (vfs_static h) (((N + length hello + 500) + 1000) + 571)" using assms by (rule room_mono) simp
  obtain r s0 n2 s2 n3 s3 where d: "vfs_node_new kend '''' VFS_DIR (vfs_static h) = (r, s0)" "r \<noteq> 0"
    "vfs_create kend (Some ''/system'') True r (s0\<lparr>vfs_root := r\<rparr>) = Some (n2, s2)"
    "vfs_create kend (Some ''/home'') True r s2 = Some (n3, s3)"
    "built kend r ((N + length hello + 500) + 1000) dirs_of_boot {''home'', ''system'', ''''} s3" by (rule init_dirs [OF rm])
  obtain s4 s5 s6 where t: "write_text kend ''/system/version'' version_text s3 = Some (0, s4)"
    "write_text kend ''/system/about'' about_text s4 = Some (0, s5)" "write_text kend ''/home/readme.txt'' readme_text s5 = Some (0, s6)"
    "built kend r (N + length hello + 500) (set (initial_entries [])) {''readme.txt'', ''about'', ''version'', ''home'', ''system'', ''''} s6"
    by (rule init_files [OF d(5)])
  have i: "vfs_root (vfs_static h) = 0" by (simp add: vfs_static_def)
  note I = vfs_init_def bind_state_def
  show ?thesis
  proof (cases "hello = []")
    case True
    have "built kend r N (set (initial_entries hello)) UNIV s6" by (rule built_mono [OF t(4)]) (simp_all add: True)
    then show ?thesis using d t True i built_root [OF t(4)] by (auto simp: I)
  next
    case False
    obtain n s7 s8 where p: "vfs_create kend (Some ''/bin'') True r s6 = Some (n, s7)"
      "vfs_write_file kend (Some ''/bin/hello'') hello (of_nat (length hello)) r s7 = Some (0, s8)"
      "built kend r N (set (initial_entries hello)) UNIV s8" by (rule init_program [OF t(4) _ _ False]) simp_all
    then show ?thesis using d t False i built_root [OF p(3)] by (auto simp: I)
  qed
qed

subsection \<open>The property\<close>

text \<open>
  C10: the initial tree. On an empty file system with room on the heap \<open>vfs_init\<close> returns, the tree is well
  formed, the directories of the boot are there, and reading each file gives exactly its bytes: the three
  texts and, when one is embedded, the program.
\<close>

theorem vfs_init_tree:
  assumes "room kend (vfs_static h) (length hello + 2500)"
  shows "\<exists>s. vfs_init kend hello (vfs_static h) = Some (log_info ''[OK] vfs initialized'', s) \<and> vfs_inv kend s \<and>
    (\<forall>(p, c) \<in> set (initial_entries hello). case c of
       None \<Rightarrow> \<exists>r m. resolves kend s p 0 r \<and> nodes s r = Some m \<and> vtype m = VFS_DIR
     | Some d \<Rightarrow> reads kend s p 0 (Some d, Some (of_nat (length d))))"
proof -
  have "room kend (vfs_static h) (400 + length hello + 2100)" using assms by (rule room_mono) simp
  from vfs_init_works [OF this] obtain s where s: "vfs_init kend hello (vfs_static h) = Some (log_info ''[OK] vfs initialized'', s)"
    "built kend (vfs_root s) 400 (set (initial_entries hello)) UNIV s" by blast
  have b: "vfs_inv kend s" "room kend s 400" using s(2) by (simp_all add: built_def)
  have "case c of None \<Rightarrow> \<exists>r m. resolves kend s p 0 r \<and> nodes s r = Some m \<and> vtype m = VFS_DIR
     | Some d \<Rightarrow> reads kend s p 0 (Some d, Some (of_nat (length d)))" if e: "(p, c) \<in> set (initial_entries hello)" for p c
  proof -
    have "is_cstr p" "tree_has s p c" using e s(2) by (auto simp: built_def)
    moreover have "length p \<le> 20" using e by (auto simp: initial_entries_def split: if_splits)
    then have "room kend s (9 * length p)" using b(2) by (elim room_mono) simp
    moreover have "resolve_spec s p (vfs_root s) = resolve_spec s p 0" using resolve_spec_null [of s p 0] by simp
    ultimately show ?thesis by (auto simp: tree_has_def node_is_def resolves_iff reads_iff split: option.splits)
  qed
  then show ?thesis using s(1) b(1) by blast
qed

theorem vfs_init_tree_witness:
  "\<exists>s. vfs_init 0x200000 [1, 2, 3] (vfs_static heap_static) = Some (log_info ''[OK] vfs initialized'', s) \<and>
     reads 0x200000 s ''/bin/hello'' 0 (Some [1, 2, 3], Some 3) \<and> reads 0x200000 s ''/system/version'' 0 (Some (c_bytes version_text), Some 12)"
proof -
  have "room 0x200000 (vfs_static heap_static) (length [1, 2, 3 :: u8] + 2500)"
    by (simp add: room_def vfs_static_def heap_static_def heap_inv_def heap_brk_def kend_ok_def)
  from vfs_init_tree [OF this] obtain s where s: "vfs_init 0x200000 [1, 2, 3] (vfs_static heap_static) = Some (log_info ''[OK] vfs initialized'', s)"
    "\<forall>(p, c) \<in> set (initial_entries [1, 2, 3]). case c of
       None \<Rightarrow> \<exists>r m. resolves 0x200000 s p 0 r \<and> nodes s r = Some m \<and> vtype m = VFS_DIR
     | Some d \<Rightarrow> reads 0x200000 s p 0 (Some d, Some (of_nat (length d)))" by blast
  have "length (c_bytes version_text) = 12" by (simp add: c_bytes_def version_text_def)
  with s show ?thesis by (intro exI [of _ s]) (simp add: initial_entries_def)
qed

end
