(* ===== verification/Kernel.thy ===== *)
theory Kernel
  imports Interrupts Desktop Fat32 Descriptors InitialTree "HOL-Library.Monad_Syntax"
begin

text \<open>
  \<open>kernel_main\<close> (\<open>kernel/core/kernel.c\<close>): the boot as the composition of what the other theories model,
  in the order of the code, with all output going through the console. The result is \<open>None\<close> when a step
  never returns. Interrupts between \<open>sti\<close> and the final loop are those of \<open>ui_system_init\<close> only; the ones
  before it would be steps of \<open>Interrupts\<close>.
\<close>

subsection \<open>State\<close>

record machine =
  mc_kernel :: kernel
  mc_term :: terminal
  mc_segments :: segments
  mc_gates :: interrupts
  mc_wm :: wm
  mc_disk :: "block_device option"
  mc_iflag :: bool

text \<open>
  What is fixed: the devices, the addresses the linker chooses, the entry points of the interrupt stubs, the
  embedded program, a bound on the depth of directories on the disk, the interrupts during the splash screen.
\<close>

record platform =
  pf_dev :: device
  pf_kstart :: u64
  pf_kend :: u64
  pf_kas :: u64
  pf_gdt :: u64
  pf_tss :: u64
  pf_idt :: u64
  pf_isr :: "nat \<Rightarrow> u64"
  pf_isr_default :: u64
  pf_hello :: "u8 list"
  pf_fuel :: nat
  pf_irqs :: "nat \<Rightarrow> irq"

definition mc_sys :: "machine \<Rightarrow> sys" where
  "mc_sys m = k_sys (mc_kernel m)"

definition mc_io :: "machine \<Rightarrow> io" where
  "mc_io m = k_io (mc_kernel m)"

definition put_mc_sys :: "sys \<Rightarrow> machine \<Rightarrow> machine" where
  "put_mc_sys s m = m\<lparr>mc_kernel := put_sys s (mc_kernel m)\<rparr>"

definition put_io :: "io \<Rightarrow> machine \<Rightarrow> machine" where
  "put_io io m = m\<lparr>mc_kernel := (mc_kernel m)\<lparr>k_io := io\<rparr>\<rparr>"

definition put_pmm :: "pmm \<Rightarrow> machine \<Rightarrow> machine" where
  "put_pmm p m = m\<lparr>mc_kernel := (mc_kernel m)\<lparr>k_shell := (k_shell (mc_kernel m))\<lparr>sh_core := (sh_core (k_shell (mc_kernel m)))\<lparr>sh_pmm := p\<rparr>\<rparr>\<rparr>\<rparr>"

definition shown :: "terminal \<Rightarrow> io \<Rightarrow> machine \<Rightarrow> machine" where
  "shown t io m = (put_io io m)\<lparr>mc_term := t\<rparr>"

text \<open>Output goes to the screen and to the serial line, whose writes are port accesses like any other.\<close>

definition say :: "platform \<Rightarrow> console_op list \<Rightarrow> machine \<Rightarrow> machine option" where
  "say pf ops m = map_option (\<lambda>c. shown (con_term c) (con_io c) m)
     (console_run (pf_dev pf) ops \<lparr>con_term = mc_term m, con_io = mc_io m\<rparr>)"

subsection \<open>The steps of the boot\<close>

definition start_console :: "platform \<Rightarrow> machine \<Rightarrow> machine option" where
  "start_console pf m = do {
     let m1 = m\<lparr>mc_term := terminal_writeln ''nanaos booting...'' (terminal_clear (terminal_initialize (mc_term m)))\<rparr>;
     let m2 = put_io (serial_init (mc_io m1)) m1;
     m3 \<leftarrow> say pf (log_info ''[OK] serial ready'' @ log_info ''[OK] terminal ready'' @ log_info ''[OK] nanacore initialized'') m2;
     Some (put_mc_sys ((mc_sys m3)\<lparr>sc_events := events_init (sc_events (mc_sys m3))\<rparr>) m3)
   }"

definition start_memory :: "platform \<Rightarrow> u64 \<Rightarrow> machine \<Rightarrow> machine option" where
  "start_memory pf info m = do {
     (p, ops) \<leftarrow> pmm_init (pf_kstart pf) (pf_kend pf) (sc_mem (mc_sys m)) info;
     m1 \<leftarrow> say pf (ops @ log_info ''[OK] memory ready'') (put_pmm p m);
     let (ops, v) = vmm_init (pf_kas pf) (vm (sc_sched (mc_sys m1)));
     say pf ops (put_mc_sys ((mc_sys m1)\<lparr>sc_sched := (sc_sched (mc_sys m1))\<lparr>vm := v\<rparr>\<rparr>) m1)
   }"

definition start_interrupts :: "platform \<Rightarrow> machine \<Rightarrow> machine option" where
  "start_interrupts pf m = do {
     m1 \<leftarrow> say pf (log_info ''[OK] gdt loaded'') (m\<lparr>mc_segments := gdt_init (pf_gdt pf) (pf_tss pf) (mc_segments m)\<rparr>);
     m2 \<leftarrow> say pf (log_info ''[OK] idt loaded'' @ log_info ''[OK] exceptions ready'')
       (m1\<lparr>mc_gates := idt_init (pf_idt pf) (pf_isr pf) (pf_isr_default pf) (mc_gates m1)\<rparr>);
     m3 \<leftarrow> say pf (log_info ''[OK] pic ready'') (put_io (pic_init (pf_dev pf) (mc_io m2)) m2);
     (p, io) \<leftarrow> pit_init 100 (mc_io m3);
     m4 \<leftarrow> say pf (log_info ''[OK] timer ready'') (put_io io (put_mc_sys ((mc_sys m3)\<lparr>sc_pit := p\<rparr>) m3));
     io \<leftarrow> keyboard_init (pf_dev pf) (mc_io m4);
     m5 \<leftarrow> say pf (log_info ''[OK] keyboard ready'') (put_io io m4);
     let (ops, io) = mouse_init (pf_dev pf) (mc_io m5);
     say pf ops (put_io io m5)
   }"

text \<open>The framebuffer is looked for in the memory the loader left; from then on \<open>mc_wm\<close> holds it.\<close>

definition start_graphics :: "platform \<Rightarrow> u64 \<Rightarrow> machine \<Rightarrow> (bool \<times> machine) option" where
  "start_graphics pf info m = do {
     (r, ops, w) \<leftarrow> fb_init info ((mc_wm m)\<lparr>vmem := sc_mem (mc_sys m)\<rparr>);
     m1 \<leftarrow> say pf ops (m\<lparr>mc_wm := w\<rparr>);
     Some (r = 0, if r = 0 then m1\<lparr>mc_wm := fb_clear 0x00102030 (mc_wm m1)\<rparr> else m1)
   }"

definition start_files :: "platform \<Rightarrow> machine \<Rightarrow> machine option" where
  "start_files pf m = do {
     (ops, v) \<leftarrow> vfs_init (pf_kend pf) (pf_hello pf) (sc_vfs (mc_sys m));
     say pf (ops @ log_info ''[OK] vfs ready'') (put_mc_sys (put_vfs v (mc_sys m)) m)
   }"

definition mount_disk :: "platform \<Rightarrow> machine \<Rightarrow> machine option" where
  "mount_disk pf m = do {
     m1 \<leftarrow> say pf (log_info ''[OK] disk ready'') m;
     (_, ops, io) \<leftarrow> ata_selftest_sector0 (pf_dev pf) (mc_io m1);
     m2 \<leftarrow> say pf ops (put_io io m1);
     let b = block_get_primary (mc_disk m2);
     (r, part, ops, io) \<leftarrow> mbr_find_fat32_partition b (mc_io m2);
     m3 \<leftarrow> say pf ops (put_io io m2);
     if r = 0 then do {
       let lba = (case part of None \<Rightarrow> 0 | Some (l, n) \<Rightarrow> l);
       (r, ops, v, io) \<leftarrow> fat32_mount_partition (pf_fuel pf) (pf_kend pf) (sc_mem (mc_sys m3)) b lba (Some ''/disk'') (sc_vfs (mc_sys m3), mc_io m3);
       m4 \<leftarrow> say pf ops (put_io io (put_mc_sys (put_vfs v (mc_sys m3)) m3));
       say pf (if r = 0 then log_info ''[OK] fat32 mounted'' else log_warn ''FAT32 mount failed'') m4
     } else say pf (log_warn ''No FAT32 partition found'') m3
   }"

definition start_disk :: "platform \<Rightarrow> machine \<Rightarrow> machine option" where
  "start_disk pf m = do {
     (r, d, ops, io) \<leftarrow> ata_init (pf_dev pf) (mc_io m);
     m1 \<leftarrow> say pf ops (put_io io (m\<lparr>mc_disk := if r = 0 then d else mc_disk m\<rparr>));
     if r = 0 then mount_disk pf m1 else say pf (log_warn ''ATA init failed'') m1
   }"

text \<open>\<open>nanarust_init\<close> is a function of the Rust library; it prints one line.\<close>

definition nanarust_init :: "console_op list" where
  "nanarust_init = (let msg = ''[OK] nanarust initialized'' @ [newline] in [TermString msg, SerialString msg])"

definition kernel_prepare :: "platform \<Rightarrow> u64 \<Rightarrow> machine \<Rightarrow> (bool \<times> machine) option" where
  "kernel_prepare pf info m = do {
     m1 \<leftarrow> start_console pf m;
     m2 \<leftarrow> start_memory pf info m1;
     m3 \<leftarrow> start_interrupts pf m2;
     (graphics, m4) \<leftarrow> start_graphics pf info m3;
     m5 \<leftarrow> start_files pf m4;
     m6 \<leftarrow> start_disk pf m5;
     let m7 = m6\<lparr>mc_iflag := True\<rparr>;
     m8 \<leftarrow> say pf (log_info ''[OK] scheduler ready'' @ nanarust_init)
       (put_mc_sys ((mc_sys m7)\<lparr>sc_sched := scheduler_init (sc_sched (mc_sys m7))\<rparr>) m7);
     Some (graphics, m8)
   }"

text \<open>The interface takes over the kernel's queue, timer, scheduler, mouse and heap; its statics have their initial values.\<close>

definition interface_of :: "machine \<Rightarrow> ui" where
  "interface_of m = (let s = mc_sys m in
     \<lparr>g_state = UI_STATE_BOOT_SPLASH, ui_splash = splash_static, ui_login = login_static, ui_ura = ura_static,
      ui_wm = (mc_wm m)\<lparr>wm_heap := vm_heap (vm (sc_sched s)), wm_mouse := k_mouse (mc_kernel m)\<rparr>,
      ui_events = sc_events s, ui_pit = sc_pit s, ui_sched = sc_sched s, ui_ops = []\<rparr>)"

datatype boot_end = Interface ui machine | Text_mode machine

definition text_mode :: "platform \<Rightarrow> machine \<Rightarrow> boot_end option" where
  "text_mode pf m = do {
     (ops, sh) \<leftarrow> shell_init (k_shell (mc_kernel m));
     m1 \<leftarrow> say pf ops (m\<lparr>mc_kernel := (mc_kernel m)\<lparr>k_shell := sh\<rparr>\<rparr>);
     Some (Text_mode m1)
   }"

definition kernel_main :: "platform \<Rightarrow> u64 \<Rightarrow> machine \<Rightarrow> boot_end option" where
  "kernel_main pf info m = do {
     (graphics, m1) \<leftarrow> kernel_prepare pf info m;
     if graphics then do {
       (r, n, u) \<leftarrow> ui_system_init (pf_irqs pf) (interface_of m1);
       if r = 0 then Some (Interface u m1) else text_mode pf m1
     } else text_mode pf m1
   }"

subsection \<open>Output leaves everything else alone\<close>

lemma shown_simps [simp]:
  "mc_sys (shown t io m) = mc_sys m" "mc_io (shown t io m) = io" "mc_term (shown t io m) = t" "mc_segments (shown t io m) = mc_segments m"
  "mc_gates (shown t io m) = mc_gates m" "mc_wm (shown t io m) = mc_wm m" "mc_disk (shown t io m) = mc_disk m" "mc_iflag (shown t io m) = mc_iflag m"
  "k_shell (mc_kernel (shown t io m)) = k_shell (mc_kernel m)" "k_mouse (mc_kernel (shown t io m)) = k_mouse (mc_kernel m)"
  by (simp_all add: shown_def put_io_def mc_sys_def mc_io_def k_sys_def)

lemma put_io_simps [simp]:
  "mc_sys (put_io io m) = mc_sys m" "mc_io (put_io io m) = io" "mc_term (put_io io m) = mc_term m" "mc_segments (put_io io m) = mc_segments m"
  "mc_gates (put_io io m) = mc_gates m" "mc_wm (put_io io m) = mc_wm m" "mc_disk (put_io io m) = mc_disk m" "mc_iflag (put_io io m) = mc_iflag m"
  "k_shell (mc_kernel (put_io io m)) = k_shell (mc_kernel m)" "k_mouse (mc_kernel (put_io io m)) = k_mouse (mc_kernel m)"
  by (simp_all add: put_io_def mc_sys_def mc_io_def k_sys_def)

lemma put_mc_sys_simps [simp]:
  "mc_sys (put_mc_sys s m) = s" "mc_io (put_mc_sys s m) = mc_io m" "mc_term (put_mc_sys s m) = mc_term m"
  "mc_segments (put_mc_sys s m) = mc_segments m" "mc_gates (put_mc_sys s m) = mc_gates m" "mc_wm (put_mc_sys s m) = mc_wm m"
  "mc_disk (put_mc_sys s m) = mc_disk m" "mc_iflag (put_mc_sys s m) = mc_iflag m" "k_mouse (mc_kernel (put_mc_sys s m)) = k_mouse (mc_kernel m)"
  "linebuf (k_shell (mc_kernel (put_mc_sys s m))) = linebuf (k_shell (mc_kernel m))"
  "linepos (k_shell (mc_kernel (put_mc_sys s m))) = linepos (k_shell (mc_kernel m))"
  "cwd (sh_core (k_shell (mc_kernel (put_mc_sys s m)))) = cwd (sh_core (k_shell (mc_kernel m)))"
  "cwd_path (sh_core (k_shell (mc_kernel (put_mc_sys s m)))) = cwd_path (sh_core (k_shell (mc_kernel m)))"
  "sh_pmm (sh_core (k_shell (mc_kernel (put_mc_sys s m)))) = sh_pmm (sh_core (k_shell (mc_kernel m)))"
  by (simp_all add: put_mc_sys_def mc_sys_def mc_io_def put_sys_def k_sys_def)

lemma put_pmm_simps [simp]:
  "mc_sys (put_pmm p m) = mc_sys m" "mc_io (put_pmm p m) = mc_io m" "mc_term (put_pmm p m) = mc_term m"
  "mc_segments (put_pmm p m) = mc_segments m" "mc_gates (put_pmm p m) = mc_gates m" "mc_wm (put_pmm p m) = mc_wm m"
  "mc_disk (put_pmm p m) = mc_disk m" "mc_iflag (put_pmm p m) = mc_iflag m" "k_mouse (mc_kernel (put_pmm p m)) = k_mouse (mc_kernel m)"
  "linebuf (k_shell (mc_kernel (put_pmm p m))) = linebuf (k_shell (mc_kernel m))"
  "linepos (k_shell (mc_kernel (put_pmm p m))) = linepos (k_shell (mc_kernel m))"
  "cwd (sh_core (k_shell (mc_kernel (put_pmm p m)))) = cwd (sh_core (k_shell (mc_kernel m)))"
  "sh_pmm (sh_core (k_shell (mc_kernel (put_pmm p m)))) = p"
  by (simp_all add: put_pmm_def mc_sys_def mc_io_def k_sys_def)

lemma field_simps [simp]:
  "mc_sys (m\<lparr>mc_term := t\<rparr>) = mc_sys m" "mc_sys (m\<lparr>mc_segments := g\<rparr>) = mc_sys m" "mc_sys (m\<lparr>mc_gates := i\<rparr>) = mc_sys m"
  "mc_sys (m\<lparr>mc_wm := w\<rparr>) = mc_sys m" "mc_sys (m\<lparr>mc_disk := d\<rparr>) = mc_sys m" "mc_sys (m\<lparr>mc_iflag := b\<rparr>) = mc_sys m"
  "mc_io (m\<lparr>mc_term := t\<rparr>) = mc_io m" "mc_io (m\<lparr>mc_segments := g\<rparr>) = mc_io m" "mc_io (m\<lparr>mc_gates := i\<rparr>) = mc_io m"
  "mc_io (m\<lparr>mc_wm := w\<rparr>) = mc_io m" "mc_io (m\<lparr>mc_disk := d\<rparr>) = mc_io m" "mc_io (m\<lparr>mc_iflag := b\<rparr>) = mc_io m"
  by (simp_all add: mc_sys_def mc_io_def)

lemma say_live:
  assumes "uart_live (pf_dev pf)" "terminal_inv (mc_term m)"
  obtains t io where "say pf ops m = Some (shown t io m)" "terminal_inv t"
proof -
  obtain c where "console_run (pf_dev pf) ops \<lparr>con_term = mc_term m, con_io = mc_io m\<rparr> = Some c" "terminal_inv (con_term c)"
    using console_run_live [OF assms(1), of "\<lparr>con_term = mc_term m, con_io = mc_io m\<rparr>" ops] assms(2) by auto
  then show ?thesis using that [of "con_term c" "con_io c"] by (simp add: say_def)
qed

subsection \<open>The state a boot starts from and the one it reaches\<close>

definition loaded :: "machine \<Rightarrow> bool" where
  "loaded m \<longleftrightarrow> length (VGA_BUFFER (mc_term m)) = 2000 \<and> length (idt (mc_gates m)) = 256 \<and>
     linebuf (k_shell (mc_kernel m)) = replicate 128 NUL \<and> linepos (k_shell (mc_kernel m)) = 0 \<and>
     cwd (sh_core (k_shell (mc_kernel m))) = 0 \<and>
     sc_events (mc_sys m) = events_static \<and> sc_vfs (mc_sys m) = vfs_static heap_static \<and> kernel_io (mc_sys m) = None \<and>
     procs (sc_sched (mc_sys m)) = Map.empty \<and> vm_heap (vm (sc_sched (mc_sys m))) = heap_static \<and>
     length (regs (cpu (sc_sched (mc_sys m)))) = 15"

text \<open>Every component has been initialised and meets its invariant.\<close>

definition gates_set :: "platform \<Rightarrow> interrupts \<Rightarrow> bool" where
  "gates_set pf g \<longleftrightarrow> (\<exists>g0. length (idt g0) = 256 \<and> g = idt_init (pf_idt pf) (pf_isr pf) (pf_isr_default pf) g0)"

definition booted :: "platform \<Rightarrow> machine \<Rightarrow> bool" where
  "booted pf m \<longleftrightarrow> terminal_inv (mc_term m) \<and> gates_set pf (mc_gates m) \<and> mc_iflag m \<and>
     events_inv (sc_events (mc_sys m)) \<and> events_list (sc_events (mc_sys m)) = [] \<and> sc_pit (mc_sys m) = \<lparr>pit_ticks = 0, pit_frequency = 100\<rparr> \<and>
     pmm_inv (sh_pmm (sh_core (k_shell (mc_kernel m)))) \<and>
     sched_inv (pf_kend pf) (sc_sched (mc_sys m)) \<and> current (sc_sched (mc_sys m)) = 0 \<and> tables_ok (mc_sys m) \<and>
     built (pf_kend pf) (vfs_root (sc_vfs (mc_sys m))) 4000000 (set (initial_entries (pf_hello pf))) UNIV (sc_vfs (mc_sys m)) \<and>
     vheap (sc_vfs (mc_sys m)) = vm_heap (vm (sc_sched (mc_sys m))) \<and> sh_ok (k_shell (mc_kernel m))"

text \<open>What the boot needs of its surroundings: the serial line and the keyboard controller answer, and there is no drive.\<close>

definition boots_on :: "platform \<Rightarrow> bool" where
  "boots_on pf \<longleftrightarrow> uart_live (pf_dev pf) \<and> (\<forall>io. keyboard_init (pf_dev pf) io \<noteq> None) \<and>
     (\<forall>io. fst (read_status (pf_dev pf) io) = 0) \<and> kend_ok (pf_kend pf) \<and> kernel_ok (pf_kstart pf) (pf_kend pf) \<and>
     length (pf_hello pf) \<le> 4000000"
subsection \<open>Each step returns\<close>

definition kept :: "machine \<Rightarrow> string \<times> nat \<times> u64" where
  "kept m = (linebuf (k_shell (mc_kernel m)), linepos (k_shell (mc_kernel m)), cwd (sh_core (k_shell (mc_kernel m))))"

definition boot_pmm :: "machine \<Rightarrow> pmm" where
  "boot_pmm m = sh_pmm (sh_core (k_shell (mc_kernel m)))"

lemma boot_keeps [simp]:
  "kept (shown t io m) = kept m" "boot_pmm (shown t io m) = boot_pmm m" "kept (put_io io m) = kept m" "boot_pmm (put_io io m) = boot_pmm m"
  "kept (put_mc_sys s m) = kept m" "boot_pmm (put_mc_sys s m) = boot_pmm m" "kept (put_pmm p m) = kept m" "boot_pmm (put_pmm p m) = p"
  "kept (m\<lparr>mc_term := t\<rparr>) = kept m" "kept (m\<lparr>mc_segments := g\<rparr>) = kept m" "kept (m\<lparr>mc_gates := i\<rparr>) = kept m"
  "kept (m\<lparr>mc_wm := w\<rparr>) = kept m" "kept (m\<lparr>mc_disk := d\<rparr>) = kept m" "kept (m\<lparr>mc_iflag := b\<rparr>) = kept m"
  "boot_pmm (m\<lparr>mc_term := t\<rparr>) = boot_pmm m" "boot_pmm (m\<lparr>mc_segments := g\<rparr>) = boot_pmm m" "boot_pmm (m\<lparr>mc_gates := i\<rparr>) = boot_pmm m"
  "boot_pmm (m\<lparr>mc_wm := w\<rparr>) = boot_pmm m" "boot_pmm (m\<lparr>mc_disk := d\<rparr>) = boot_pmm m" "boot_pmm (m\<lparr>mc_iflag := b\<rparr>) = boot_pmm m"
  by (simp_all add: kept_def boot_pmm_def)

lemma console_step:
  assumes "uart_live (pf_dev pf)" "length (VGA_BUFFER (mc_term m)) = 2000"
  obtains m' where "start_console pf m = Some m'" "terminal_inv (mc_term m')" "mc_gates m' = mc_gates m" "kept m' = kept m" "mc_wm m' = mc_wm m"
    "mc_sys m' = (mc_sys m)\<lparr>sc_events := events_init (sc_events (mc_sys m))\<rparr>"
proof -
  let ?t = "terminal_writeln ''nanaos booting...'' (terminal_clear (terminal_initialize (mc_term m)))"
  let ?m = "put_io (serial_init (mc_io (m\<lparr>mc_term := ?t\<rparr>))) (m\<lparr>mc_term := ?t\<rparr>)"
  let ?ops = "log_info ''[OK] serial ready'' @ log_info ''[OK] terminal ready'' @ log_info ''[OK] nanacore initialized''"
  have "terminal_inv (terminal_initialize (mc_term m))" by (rule initialize_inv [OF assms(2)])
  then have "terminal_inv (terminal_clear (terminal_initialize (mc_term m)))"
    unfolding terminal_clear_def by (intro initialize_inv) (simp add: terminal_inv_def)
  then have t: "terminal_inv (mc_term ?m)" by (simp add: terminal_writeln_def putchar_inv write_string_inv)
  obtain t io where s: "say pf ?ops ?m = Some (shown t io ?m)" "terminal_inv t" by (rule say_live [OF assms(1) t])
  show ?thesis
    by (rule that [of "put_mc_sys ((mc_sys m)\<lparr>sc_events := events_init (sc_events (mc_sys m))\<rparr>) (shown t io ?m)"])
      (use s in \<open>simp_all add: start_console_def Let_def\<close>)
qed

lemma memory_step:
  assumes "uart_live (pf_dev pf)" "terminal_inv (mc_term m)" "memory_parse_mmap (sc_mem (mc_sys m)) info = Some es"
  obtains m' where "start_memory pf info m = Some m'" "terminal_inv (mc_term m')" "mc_gates m' = mc_gates m" "kept m' = kept m" "mc_wm m' = mc_wm m"
    "boot_pmm m' = pmm_load (pf_kstart pf) (pf_kend pf) es"
    "mc_sys m' = (mc_sys m)\<lparr>sc_sched := (sc_sched (mc_sys m))\<lparr>vm := snd (vmm_init (pf_kas pf) (vm (sc_sched (mc_sys m))))\<rparr>\<rparr>"
proof -
  let ?p = "pmm_load (pf_kstart pf) (pf_kend pf) es"
  obtain b where "itoa (total_memory ?p div 1024) 10 = Some b" using itoa_decimal by blast
  then obtain ops where p: "pmm_init (pf_kstart pf) (pf_kend pf) (sc_mem (mc_sys m)) info = Some (?p, ops)"
    using assms(3) by (simp add: pmm_init_def Let_def)
  have t: "terminal_inv (mc_term (put_pmm ?p m))" using assms(2) by simp
  obtain t io where s: "say pf (ops @ log_info ''[OK] memory ready'') (put_pmm ?p m) = Some (shown t io (put_pmm ?p m))" "terminal_inv t"
    by (rule say_live [OF assms(1) t])
  let ?v = "snd (vmm_init (pf_kas pf) (vm (sc_sched (mc_sys m))))" and ?ops = "fst (vmm_init (pf_kas pf) (vm (sc_sched (mc_sys m))))"
  let ?m = "put_mc_sys ((mc_sys m)\<lparr>sc_sched := (sc_sched (mc_sys m))\<lparr>vm := ?v\<rparr>\<rparr>) (shown t io (put_pmm ?p m))"
  have "terminal_inv (mc_term ?m)" using s(2) by simp
  then obtain t' io' where s': "say pf ?ops ?m = Some (shown t' io' ?m)" "terminal_inv t'" by (rule say_live [OF assms(1)])
  show ?thesis
    by (rule that [of "shown t' io' ?m"]) (use p s s' in \<open>simp_all add: start_memory_def case_prod_beta\<close>)
qed

lemma interrupts_step:
  assumes u: "uart_live (pf_dev pf)" "terminal_inv (mc_term m)" "\<forall>io. keyboard_init (pf_dev pf) io \<noteq> None"
  obtains m' where "start_interrupts pf m = Some m'" "terminal_inv (mc_term m')" "kept m' = kept m" "mc_wm m' = mc_wm m"
    "mc_gates m' = idt_init (pf_idt pf) (pf_isr pf) (pf_isr_default pf) (mc_gates m)" "boot_pmm m' = boot_pmm m"
    "mc_sys m' = (mc_sys m)\<lparr>sc_pit := \<lparr>pit_ticks = 0, pit_frequency = 100\<rparr>\<rparr>"
proof -
  let ?m1 = "m\<lparr>mc_segments := gdt_init (pf_gdt pf) (pf_tss pf) (mc_segments m)\<rparr>"
  have "terminal_inv (mc_term ?m1)" using u(2) by simp
  then obtain t1 io1 where 1: "say pf (log_info ''[OK] gdt loaded'') ?m1 = Some (shown t1 io1 ?m1)" "terminal_inv t1" by (rule say_live [OF u(1)])
  let ?m2 = "shown t1 io1 ?m1\<lparr>mc_gates := idt_init (pf_idt pf) (pf_isr pf) (pf_isr_default pf) (mc_gates m)\<rparr>"
  have "terminal_inv (mc_term ?m2)" using 1 by simp
  then obtain t2 io2 where 2: "say pf (log_info ''[OK] idt loaded'' @ log_info ''[OK] exceptions ready'') ?m2 = Some (shown t2 io2 ?m2)" "terminal_inv t2"
    by (rule say_live [OF u(1)])
  let ?m3 = "put_io (pic_init (pf_dev pf) io2) (shown t2 io2 ?m2)"
  have "terminal_inv (mc_term ?m3)" using 2 by simp
  then obtain t3 io3 where 3: "say pf (log_info ''[OK] pic ready'') ?m3 = Some (shown t3 io3 ?m3)" "terminal_inv t3" by (rule say_live [OF u(1)])
  obtain io where pit: "pit_init 100 io3 = Some (\<lparr>pit_ticks = 0, pit_frequency = 100\<rparr>, io)" by (simp add: pit_init_def Let_def)
  let ?m4 = "put_io io (put_mc_sys ((mc_sys m)\<lparr>sc_pit := \<lparr>pit_ticks = 0, pit_frequency = 100\<rparr>\<rparr>) (shown t3 io3 ?m3))"
  have "terminal_inv (mc_term ?m4)" using 3 by simp
  then obtain t4 io4 where 4: "say pf (log_info ''[OK] timer ready'') ?m4 = Some (shown t4 io4 ?m4)" "terminal_inv t4" by (rule say_live [OF u(1)])
  obtain kio where k: "keyboard_init (pf_dev pf) io4 = Some kio" using u(3) by blast
  let ?m5 = "put_io kio (shown t4 io4 ?m4)"
  have "terminal_inv (mc_term ?m5)" using 4 by simp
  then obtain t5 io5 where 5: "say pf (log_info ''[OK] keyboard ready'') ?m5 = Some (shown t5 io5 ?m5)" "terminal_inv t5" by (rule say_live [OF u(1)])
  let ?m6 = "put_io (snd (mouse_init (pf_dev pf) io5)) (shown t5 io5 ?m5)"
  have "terminal_inv (mc_term ?m6)" using 5 by simp
  then obtain t6 io6 where 6: "say pf (fst (mouse_init (pf_dev pf) io5)) ?m6 = Some (shown t6 io6 ?m6)" "terminal_inv t6" by (rule say_live [OF u(1)])
  show ?thesis
    by (rule that [of "shown t6 io6 ?m6"]) (use 1 2 3 4 5 6 k pit in \<open>simp_all add: start_interrupts_def case_prod_beta\<close>)
qed
lemma graphics_step:
  assumes u: "uart_live (pf_dev pf)" "terminal_inv (mc_term m)"
    and fb: "fb_init info ((mc_wm m)\<lparr>vmem := sc_mem (mc_sys m)\<rparr>) = Some (r, ops, w)"
  obtains m' where "start_graphics pf info m = Some (r = 0, m')" "terminal_inv (mc_term m')" "mc_gates m' = mc_gates m" "kept m' = kept m"
    "boot_pmm m' = boot_pmm m" "mc_sys m' = mc_sys m" "mc_wm m' = (if r = 0 then fb_clear 0x00102030 w else w)"
proof -
  have "terminal_inv (mc_term (m\<lparr>mc_wm := w\<rparr>))" using u(2) by simp
  then obtain t io where s: "say pf ops (m\<lparr>mc_wm := w\<rparr>) = Some (shown t io (m\<lparr>mc_wm := w\<rparr>))" "terminal_inv t" by (rule say_live [OF u(1)])
  let ?m = "shown t io (m\<lparr>mc_wm := w\<rparr>)"
  show ?thesis
    by (rule that [of "if r = 0 then ?m\<lparr>mc_wm := fb_clear 0x00102030 w\<rparr> else ?m"])
      (use s fb in \<open>simp_all add: start_graphics_def\<close>)
qed

lemma files_step:
  assumes u: "uart_live (pf_dev pf)" "terminal_inv (mc_term m)" and v: "vfs_init (pf_kend pf) (pf_hello pf) (sc_vfs (mc_sys m)) = Some (ops, v)"
  obtains m' where "start_files pf m = Some m'" "terminal_inv (mc_term m')" "mc_gates m' = mc_gates m" "kept m' = kept m" "mc_wm m' = mc_wm m"
    "boot_pmm m' = boot_pmm m" "mc_sys m' = put_vfs v (mc_sys m)"
proof -
  let ?m = "put_mc_sys (put_vfs v (mc_sys m)) m"
  have "terminal_inv (mc_term ?m)" using u(2) by simp
  then obtain t io where s: "say pf (ops @ log_info ''[OK] vfs ready'') ?m = Some (shown t io ?m)" "terminal_inv t" by (rule say_live [OF u(1)])
  show ?thesis by (rule that [of "shown t io ?m"]) (use s v in \<open>simp_all add: start_files_def\<close>)
qed

lemma no_disk_step:
  assumes u: "uart_live (pf_dev pf)" "terminal_inv (mc_term m)" "\<forall>io. fst (read_status (pf_dev pf) io) = 0"
  obtains m' where "start_disk pf m = Some m'" "terminal_inv (mc_term m')" "mc_gates m' = mc_gates m" "kept m' = kept m" "mc_wm m' = mc_wm m"
    "boot_pmm m' = boot_pmm m" "mc_sys m' = mc_sys m"
proof -
  obtain io ops where a: "ata_init (pf_dev pf) (mc_io m) = Some (- 1, None, ops, io)"
    using u(3) by (simp add: ata_init_def Let_def case_prod_beta)
  let ?m = "put_io io m"
  have "terminal_inv (mc_term ?m)" using u(2) by simp
  then obtain t io1 where s: "say pf ops ?m = Some (shown t io1 ?m)" "terminal_inv t" by (rule say_live [OF u(1)])
  let ?m1 = "shown t io1 ?m"
  have "terminal_inv (mc_term ?m1)" using s by simp
  then obtain t' io' where s': "say pf (log_warn ''ATA init failed'') ?m1 = Some (shown t' io' ?m1)" "terminal_inv t'" by (rule say_live [OF u(1)])
  show ?thesis by (rule that [of "shown t' io' ?m1"]) (use a s s' in \<open>simp_all add: start_disk_def\<close>)
qed

lemma init_sched_inv:
  assumes "procs s = Map.empty" "heap_inv kend (vm_heap (vm s))" "length (regs (cpu s)) = 15"
  shows "sched_inv kend (scheduler_init s)"
  by (rule reach_inv [OF sched_reach.Init]) (use assms in simp_all)

lemma heap_static_room: "kend_ok kend \<Longrightarrow> n \<le> 8388608 \<Longrightarrow> room kend (vfs_static heap_static) n"
  by (simp add: room_def vfs_static_def heap_static_def heap_inv_def heap_brk_def)

text \<open>What the boot makes of the kernel's state, \<open>v\<close> being the initial tree.\<close>

definition boot_sys :: "platform \<Rightarrow> vfs \<Rightarrow> sys \<Rightarrow> sys" where
  "boot_sys pf v s =
     (let s1 = s\<lparr>sc_events := events_init (sc_events s), sc_sched := (sc_sched s)\<lparr>vm := snd (vmm_init (pf_kas pf) (vm (sc_sched s)))\<rparr>,
            sc_pit := \<lparr>pit_ticks = 0, pit_frequency = 100\<rparr>\<rparr>;
          s2 = put_vfs v s1
      in s2\<lparr>sc_sched := scheduler_init (sc_sched s2)\<rparr>)"

lemma boot_sys_ok:
  assumes "procs (sc_sched s) = Map.empty" "kernel_io s = None" "length (regs (cpu (sc_sched s))) = 15" "heap_inv kend (vheap v)" "events_inv (sc_events s)"
  shows "sched_inv kend (sc_sched (boot_sys pf v s))" "current (sc_sched (boot_sys pf v s)) = 0" "tables_ok (boot_sys pf v s)"
    "sc_vfs (boot_sys pf v s) = v" "vm_heap (vm (sc_sched (boot_sys pf v s))) = vheap v"
    "sc_pit (boot_sys pf v s) = \<lparr>pit_ticks = 0, pit_frequency = 100\<rparr>"
    "events_inv (sc_events (boot_sys pf v s))" "events_list (sc_events (boot_sys pf v s)) = []"
proof -
  let ?s = "sc_sched (put_vfs v (s\<lparr>sc_events := events_init (sc_events s), sc_sched := (sc_sched s)\<lparr>vm := snd (vmm_init (pf_kas pf) (vm (sc_sched s)))\<rparr>,
    sc_pit := \<lparr>pit_ticks = 0, pit_frequency = 100\<rparr>\<rparr>))"
  have "sched_inv kend (scheduler_init ?s)" by (rule init_sched_inv) (use assms in \<open>simp_all add: put_vfs_def with_heap_def\<close>)
  then show "sched_inv kend (sc_sched (boot_sys pf v s))" by (simp add: boot_sys_def Let_def)
qed (use assms events_inv_init [OF assms(5)] in \<open>simp_all add: boot_sys_def put_vfs_def with_heap_def scheduler_init_def tables_ok_def Let_def\<close>)

text \<open>All steps together. The last argument of \<open>fb_init\<close> is the window manager's state with the loader's memory.\<close>

lemma prepare_runs:
  assumes l: "loaded m" and b: "boots_on pf" and mm: "memory_parse_mmap (sc_mem (mc_sys m)) info = Some es"
    and fb: "fb_init info ((mc_wm m)\<lparr>vmem := sc_mem (mc_sys m)\<rparr>) = Some (r, ops, w)"
  obtains m' v where "kernel_prepare pf info m = Some (r = 0, m')" "terminal_inv (mc_term m')" "mc_iflag m'" "kept m' = kept m"
    "mc_gates m' = idt_init (pf_idt pf) (pf_isr pf) (pf_isr_default pf) (mc_gates m)"
    "mc_wm m' = (if r = 0 then fb_clear 0x00102030 w else w)" "boot_pmm m' = pmm_load (pf_kstart pf) (pf_kend pf) es"
    "built (pf_kend pf) (vfs_root v) 4000000 (set (initial_entries (pf_hello pf))) UNIV v" "mc_sys m' = boot_sys pf v (mc_sys m)"
proof -
  note L = l [unfolded loaded_def] and B = b [unfolded boots_on_def]
  have u: "uart_live (pf_dev pf)" and kb: "\<forall>io. keyboard_init (pf_dev pf) io \<noteq> None" and dr: "\<forall>io. fst (read_status (pf_dev pf) io) = 0"
    using B by simp_all
  obtain m1 where 1: "start_console pf m = Some m1" "terminal_inv (mc_term m1)" "mc_gates m1 = mc_gates m" "kept m1 = kept m" "mc_wm m1 = mc_wm m"
    "mc_sys m1 = (mc_sys m)\<lparr>sc_events := events_init (sc_events (mc_sys m))\<rparr>" using console_step [OF u] L by blast
  have mm1: "memory_parse_mmap (sc_mem (mc_sys m1)) info = Some es" using mm(1) 1(6) by simp
  obtain m2 where 2: "start_memory pf info m1 = Some m2" "terminal_inv (mc_term m2)" "mc_gates m2 = mc_gates m1" "kept m2 = kept m1" "mc_wm m2 = mc_wm m1"
    "boot_pmm m2 = pmm_load (pf_kstart pf) (pf_kend pf) es"
    "mc_sys m2 = (mc_sys m1)\<lparr>sc_sched := (sc_sched (mc_sys m1))\<lparr>vm := snd (vmm_init (pf_kas pf) (vm (sc_sched (mc_sys m1))))\<rparr>\<rparr>"
    by (rule memory_step [OF u 1(2) mm1])
  obtain m3 where 3: "start_interrupts pf m2 = Some m3" "terminal_inv (mc_term m3)" "kept m3 = kept m2" "mc_wm m3 = mc_wm m2"
    "mc_gates m3 = idt_init (pf_idt pf) (pf_isr pf) (pf_isr_default pf) (mc_gates m2)" "boot_pmm m3 = boot_pmm m2"
    "mc_sys m3 = (mc_sys m2)\<lparr>sc_pit := \<lparr>pit_ticks = 0, pit_frequency = 100\<rparr>\<rparr>" by (rule interrupts_step [OF u 2(2) kb])
  have "fb_init info ((mc_wm m3)\<lparr>vmem := sc_mem (mc_sys m3)\<rparr>) = Some (r, ops, w)" using fb 1 2 3 by simp
  then obtain m4 where 4: "start_graphics pf info m3 = Some (r = 0, m4)" "terminal_inv (mc_term m4)" "mc_gates m4 = mc_gates m3" "kept m4 = kept m3"
    "boot_pmm m4 = boot_pmm m3" "mc_sys m4 = mc_sys m3" "mc_wm m4 = (if r = 0 then fb_clear 0x00102030 w else w)" by (rule graphics_step [OF u 3(2)])
  have "room (pf_kend pf) (vfs_static heap_static) (4000000 + length (pf_hello pf) + 2100)" using B by (intro heap_static_room) simp_all
  from vfs_init_works [OF this] obtain v where v: "vfs_init (pf_kend pf) (pf_hello pf) (vfs_static heap_static) = Some (log_info ''[OK] vfs initialized'', v)"
    "built (pf_kend pf) (vfs_root v) 4000000 (set (initial_entries (pf_hello pf))) UNIV v" by blast
  have "sc_vfs (mc_sys m4) = vfs_static heap_static" using L 1 2 3 4 by simp
  with v(1) have vi: "vfs_init (pf_kend pf) (pf_hello pf) (sc_vfs (mc_sys m4)) = Some (log_info ''[OK] vfs initialized'', v)" by simp
  obtain m5 where 5: "start_files pf m4 = Some m5" "terminal_inv (mc_term m5)" "mc_gates m5 = mc_gates m4" "kept m5 = kept m4" "mc_wm m5 = mc_wm m4"
    "boot_pmm m5 = boot_pmm m4" "mc_sys m5 = put_vfs v (mc_sys m4)" by (rule files_step [OF u 4(2) vi])
  obtain m6 where 6: "start_disk pf m5 = Some m6" "terminal_inv (mc_term m6)" "mc_gates m6 = mc_gates m5" "kept m6 = kept m5" "mc_wm m6 = mc_wm m5"
    "boot_pmm m6 = boot_pmm m5" "mc_sys m6 = mc_sys m5" by (rule no_disk_step [OF u 5(2) dr])
  let ?m7 = "put_mc_sys ((mc_sys m6)\<lparr>sc_sched := scheduler_init (sc_sched (mc_sys m6))\<rparr>) (m6\<lparr>mc_iflag := True\<rparr>)"
  have "terminal_inv (mc_term ?m7)" using 6(2) by simp
  then obtain t io where s: "say pf (log_info ''[OK] scheduler ready'' @ nanarust_init) ?m7 = Some (shown t io ?m7)" "terminal_inv t" by (rule say_live [OF u])
  let ?m = "shown t io ?m7"
  have run: "kernel_prepare pf info m = Some (r = 0, ?m)" using 1(1) 2(1) 3(1) 4(1) 5(1) 6(1) s(1) by (simp add: kernel_prepare_def)
  show ?thesis
    by (rule that [OF run _ _ _ _ _ _ v(2)]) (use 1(3-) 2(3-) 3(3-) 4(3-) 5(3-) 6(3-) s(2) in \<open>simp_all add: boot_sys_def Let_def\<close>)
qed

lemma prepares:
  assumes l: "loaded m" and b: "boots_on pf" and mm: "memory_parse_mmap (sc_mem (mc_sys m)) info = Some es" "mmap_ok es"
    and fb: "fb_init info ((mc_wm m)\<lparr>vmem := sc_mem (mc_sys m)\<rparr>) = Some (r, ops, w)"
  obtains m' where "kernel_prepare pf info m = Some (r = 0, m')" "booted pf m'" "cwd (sh_core (k_shell (mc_kernel m'))) = 0"
    "mc_wm m' = (if r = 0 then fb_clear 0x00102030 w else w)" "boot_pmm m' = pmm_load (pf_kstart pf) (pf_kend pf) es"
proof -
  obtain m' v where r: "kernel_prepare pf info m = Some (r = 0, m')" "terminal_inv (mc_term m')" "mc_iflag m'" "kept m' = kept m"
    "mc_gates m' = idt_init (pf_idt pf) (pf_isr pf) (pf_isr_default pf) (mc_gates m)"
    "mc_wm m' = (if r = 0 then fb_clear 0x00102030 w else w)" "boot_pmm m' = pmm_load (pf_kstart pf) (pf_kend pf) es"
    "built (pf_kend pf) (vfs_root v) 4000000 (set (initial_entries (pf_hello pf))) UNIV v" "mc_sys m' = boot_sys pf v (mc_sys m)"
    by (rule prepare_runs [OF l b mm(1) fb])
  note L = l [unfolded loaded_def]
  have h: "heap_inv (pf_kend pf) (vheap v)" using r(8) by (simp add: built_def vfs_inv_def)
  have e: "events_inv (sc_events (mc_sys m))" using L by (simp add: events_inv_def events_static_def)
  have q: "procs (sc_sched (mc_sys m)) = Map.empty" "kernel_io (mc_sys m) = None" "length (regs (cpu (sc_sched (mc_sys m)))) = 15" using L by simp_all
  note s = boot_sys_ok [OF q h e, of pf, folded r(9)]
  have "pmm_inv (boot_pmm m')" using load_adds [OF mm(2) _ pmm_inv_static(1), of "pf_kstart pf" "pf_kend pf"] b
    by (simp add: r(7) pmm_load_def adds_def pmm_inv_static boots_on_def)
  then have "booted pf m'" using r(2,3,5,8) s L r(4) unfolding booted_def gates_set_def boot_pmm_def
    by (auto simp: kept_def sh_ok_def shell_line_def is_cstr_def)
  then show ?thesis using that [OF r(1) _ _ r(6,7)] r(4) L by (simp add: kept_def)
qed
subsection \<open>Where the boot ends\<close>

lemma text_mode_works:
  assumes u: "uart_live (pf_dev pf)" and b: "booted pf m"
  obtains m' where "text_mode pf m = Some (Text_mode m')" "booted pf m'" "mc_sys m' = mc_sys m" "boot_pmm m' = boot_pmm m"
    "cwd (sh_core (k_shell (mc_kernel m'))) = vfs_root (sc_vfs (mc_sys m))" "cwd_path (sh_core (k_shell (mc_kernel m'))) = ''/''"
proof -
  let ?c = "sh_core (k_shell (mc_kernel m))" and ?r = "vfs_root (sc_vfs (mc_sys m))"
  have v: "sh_vfs ?c = sc_vfs (mc_sys m)" by (simp add: sh_vfs_def mc_sys_def k_sys_def)
  have "vfs_inv (pf_kend pf) (sc_vfs (mc_sys m))" using b by (simp add: booted_def built_def)
  then have "?r \<noteq> 0" by (simp add: vfs_inv_def tree_ok_def)
  then have c: "update_cwd_path (?c\<lparr>cwd := ?r\<rparr>) = Some (?c\<lparr>cwd := ?r, cwd_path := ''/''\<rparr>)"
    using v by (simp add: update_cwd_path_def vfs_get_path_def sh_vfs_def)
  let ?sh = "(k_shell (mc_kernel m))\<lparr>sh_core := ?c\<lparr>cwd := ?r, cwd_path := ''/''\<rparr>\<rparr>"
  obtain ops where s: "shell_init (k_shell (mc_kernel m)) = Some (ops, ?sh)" using c by (simp add: shell_init_def v vfs_get_root_def)
  let ?m = "m\<lparr>mc_kernel := (mc_kernel m)\<lparr>k_shell := ?sh\<rparr>\<rparr>"
  have "terminal_inv (mc_term ?m)" using b by (simp add: booted_def)
  then obtain t io where o: "say pf ops ?m = Some (shown t io ?m)" "terminal_inv t" by (rule say_live [OF u])
  have y: "mc_sys (shown t io ?m) = mc_sys m" by (simp add: mc_sys_def k_sys_def)
  have "sh_ok (k_shell (mc_kernel m))" using b by (simp add: booted_def)
  then have b2: "booted pf (shown t io ?m)" using b o(2) unfolding booted_def y by (simp add: sh_ok_def shell_line_def)
  have t2: "text_mode pf m = Some (Text_mode (shown t io ?m))" using s o(1) by (simp add: text_mode_def)
  show ?thesis by (rule that [OF t2 b2 y]) (simp_all add: boot_pmm_def)
qed


subsection \<open>An example\<close>

text \<open>A machine with a UART that is always ready, no drive, no key pressed.\<close>

definition quiet_device :: device where
  "quiet_device io port = (if port = 0x3FD then 0x60 else 0)"

definition demo_platform :: platform where
  "demo_platform = \<lparr>pf_dev = quiet_device, pf_kstart = 0x100000, pf_kend = 0x200000, pf_kas = 0x1F0000, pf_gdt = 0x1F1000, pf_tss = 0x1F2000,
     pf_idt = 0x1F3000, pf_isr = (\<lambda>v. 0x110000 + of_nat v), pf_isr_default = 0x118000, pf_hello = [0x7F, 0x45, 0x4C, 0x46], pf_fuel = 8,
     pf_irqs = (\<lambda>_. Irq_timer)\<rparr>"

definition screen_tag :: mb2_tag where
  "screen_tag = OtherTag 8 (u64_bytes 0xFD000000 @ u32_bytes 2560 @ u32_bytes 640 @ u32_bytes 480 @ [32, 1, 0])"

definition demo_machine :: "mb2_tag list \<Rightarrow> machine" where
  "demo_machine tags = \<lparr>mc_kernel = \<lparr>k_shell = \<lparr>linebuf = replicate 128 NUL, linepos = 0,
       sh_core = \<lparr>cwd = 0, cwd_path = '''', sh_sys = \<lparr>sc_sched = demo_blank, sc_vfs = vfs_static heap_static, sc_pit = pit_static,
           sc_events = events_static, sc_mem = mem_of 0x1000 (encode_info tags), kernel_io = None\<rparr>, sh_pmm = pmm_static\<rparr>\<rparr>,
       k_mouse = mouse_static, k_io = []\<rparr>,
     mc_term = \<lparr>VGA_BUFFER = replicate 2000 0, terminal_row = 0, terminal_column = 0, terminal_color = 0\<rparr>, mc_segments = segments_static,
     mc_gates = \<lparr>idt = replicate 256 (gate 0 0 0), idtr = \<lparr>tr_limit = 0, tr_base = 0\<rparr>\<rparr>, mc_wm = demo_wm\<lparr>g_fb := fb_static\<rparr>, mc_disk = None,
     mc_iflag = False\<rparr>"

lemma demo_loaded: "loaded (demo_machine tags)"
  by (simp add: loaded_def demo_machine_def mc_sys_def k_sys_def demo_blank_def scheduler_init_def)

lemma demo_boots: "boots_on demo_platform"
proof -
  have "uart_live quiet_device"
    unfolding uart_live_def by (intro allI exI [of _ 0]) (simp add: is_transmit_empty_def inb_def quiet_device_def SERIAL_PORT_COM1_def)
  moreover have "keyboard_init quiet_device io \<noteq> None" for io by (subst keyboard_init.simps) (simp add: inb_def quiet_device_def)
  moreover have "fst (read_status quiet_device io) = 0" for io by (simp add: read_status_def inb_def quiet_device_def ATA_PRIMARY_BASE_def ATA_REG_STATUS_def)
  ultimately show ?thesis by (simp add: boots_on_def demo_platform_def kend_ok_def kernel_ok_def)
qed

definition demo_ram :: "mmap_entry list" where
  "demo_ram = [(0, 0x9FC00, 1), (0x100000, 0x7EE0000, 1)]"

lemma demo_ram_ok: "mmap_ok demo_ram"
  by (auto simp: demo_ram_def usable_def entry_pages_def range_pages_def)

lemma demo_has: "length (encode_info tags) < 4096 \<Longrightarrow> mem_has (mem_of 0x1000 (encode_info tags)) 0x1000 (encode_info tags)"
  by (rule mem_has_mem_of) simp

lemma demo_length: "length (encode_info [MmapTag demo_ram]) = 80" "length (encode_info [MmapTag demo_ram, screen_tag]) = 112"
  by code_simp+

lemma demo_parse:
  "memory_parse_mmap (mem_of 0x1000 (encode_info [MmapTag demo_ram])) 0x1000 = Some demo_ram"
  "memory_parse_mmap (mem_of 0x1000 (encode_info [MmapTag demo_ram, screen_tag])) 0x1000 = Some demo_ram"
  using parse_info [of "[MmapTag demo_ram]" "mem_of 0x1000 (encode_info [MmapTag demo_ram])" "0x1000"]
    parse_info [of "[MmapTag demo_ram, screen_tag]" "mem_of 0x1000 (encode_info [MmapTag demo_ram, screen_tag])" "0x1000"]
  by (simp_all add: demo_has demo_length) (simp_all add: screen_tag_def)

lemma demo_find_none:
  assumes "mem_has m 0x1000 (encode_info [MmapTag demo_ram])"
  shows "fb_find m 0x1008 (0x1000 + ucast (load32 m 0x1000)) fb_static = Some fb_static"
proof -
  have l: "load32 m 0x1000 = 80" "load32 m 0x1008 = 6" "load32 m 0x100C = 64" "load32 m 0x1048 = 0" "load32 m 0x104C = 8"
    using assms by (simp_all add: encode_info_def body_bytes_def demo_ram_def entry_bytes_def end_bytes_def)
  show ?thesis by (subst fb_find.simps, subst fb_find.simps) (simp add: l MB2_TAG_TYPE_FB_def)
qed

lemma demo_find_screen:
  assumes "mem_has m 0x1000 (encode_info [MmapTag demo_ram, screen_tag])"
  shows "fb_find m 0x1008 (0x1000 + ucast (load32 m 0x1000)) fb_static = Some (g_fb demo_video)"
proof -
  have l: "load32 m 0x1000 = 112" "load32 m 0x1008 = 6" "load32 m 0x100C = 64" "load32 m 0x1048 = 8" "load64 m 0x1050 = 0xFD000000"
    "load32 m 0x1058 = 2560" "load32 m 0x105C = 640" "load32 m 0x1060 = 480" "m 0x1064 = 32"
    using assms by (simp_all add: encode_info_def body_bytes_def demo_ram_def entry_bytes_def end_bytes_def screen_tag_def pad8_def)
  show ?thesis by (subst fb_find.simps, subst fb_find.simps) (simp add: l MB2_TAG_TYPE_FB_def fb_of_tag_def demo_video_def)
qed



end
