(* ===== verification/Spec2Isabelle.thy ===== *)
theory Spec2Isabelle
  imports Prelude CString Terminal Port Console Events Heap MemoryMap Pmm Vfs Vmm Scheduler Elf Devices Syscall Disk Fat32 Descriptors Draw Framebuffer Windows Login Desktop Shell Interrupts InitialTree Kernel
begin

text \<open>
  NanaOS, an x86-64 kernel in C: a model of its components and the theorems about them.
\<close>

end
